(* ===== verification/Codec_Primitives.thy ===== *)
theory Codec_Primitives
  imports Amqp_Prelude
begin

section \<open>Primitive building blocks of the codec (\<open>ramqp-core/src/codec/primitives.rs\<close>)\<close>

text \<open>
  The format codes of AMQP 1.0, the insertion-ordered map, and the two predicates of Rust's
  standard library that the codec relies on: UTF-8 validity of a byte run
  (\<open>std::str::from_utf8\<close>) and the Unicode scalar values (\<open>char::from_u32\<close>). A \<open>String\<close> or
  \<open>Symbol\<close> is represented by its UTF-8 bytes.
\<close>

subsection \<open>Format codes\<close>

abbreviation (input) DESCRIBED :: u8 where "DESCRIBED \<equiv> 0x00"
abbreviation (input) NULL :: u8 where "NULL \<equiv> 0x40"
abbreviation (input) BOOL_TRUE :: u8 where "BOOL_TRUE \<equiv> 0x41"
abbreviation (input) BOOL_FALSE :: u8 where "BOOL_FALSE \<equiv> 0x42"
abbreviation (input) UINT_0 :: u8 where "UINT_0 \<equiv> 0x43"
abbreviation (input) ULONG_0 :: u8 where "ULONG_0 \<equiv> 0x44"
abbreviation (input) LIST_0 :: u8 where "LIST_0 \<equiv> 0x45"
abbreviation (input) BOOL :: u8 where "BOOL \<equiv> 0x56"
abbreviation (input) UBYTE :: u8 where "UBYTE \<equiv> 0x50"
abbreviation (input) BYTE :: u8 where "BYTE \<equiv> 0x51"
abbreviation (input) SMALL_UINT :: u8 where "SMALL_UINT \<equiv> 0x52"
abbreviation (input) SMALL_ULONG :: u8 where "SMALL_ULONG \<equiv> 0x53"
abbreviation (input) SMALL_INT :: u8 where "SMALL_INT \<equiv> 0x54"
abbreviation (input) SMALL_LONG :: u8 where "SMALL_LONG \<equiv> 0x55"
abbreviation (input) USHORT :: u8 where "USHORT \<equiv> 0x60"
abbreviation (input) SHORT :: u8 where "SHORT \<equiv> 0x61"
abbreviation (input) UINT :: u8 where "UINT \<equiv> 0x70"
abbreviation (input) INT_code :: u8 where "INT_code \<equiv> 0x71"
abbreviation (input) FLOAT :: u8 where "FLOAT \<equiv> 0x72"
abbreviation (input) CHAR_code :: u8 where "CHAR_code \<equiv> 0x73"
abbreviation (input) DECIMAL32 :: u8 where "DECIMAL32 \<equiv> 0x74"
abbreviation (input) ULONG :: u8 where "ULONG \<equiv> 0x80"
abbreviation (input) LONG :: u8 where "LONG \<equiv> 0x81"
abbreviation (input) DOUBLE :: u8 where "DOUBLE \<equiv> 0x82"
abbreviation (input) TIMESTAMP :: u8 where "TIMESTAMP \<equiv> 0x83"
abbreviation (input) DECIMAL64 :: u8 where "DECIMAL64 \<equiv> 0x84"
abbreviation (input) DECIMAL128 :: u8 where "DECIMAL128 \<equiv> 0x94"
abbreviation (input) UUID :: u8 where "UUID \<equiv> 0x98"
abbreviation (input) VBIN8 :: u8 where "VBIN8 \<equiv> 0xa0"
abbreviation (input) STR8 :: u8 where "STR8 \<equiv> 0xa1"
abbreviation (input) SYM8 :: u8 where "SYM8 \<equiv> 0xa3"
abbreviation (input) VBIN32 :: u8 where "VBIN32 \<equiv> 0xb0"
abbreviation (input) STR32 :: u8 where "STR32 \<equiv> 0xb1"
abbreviation (input) SYM32 :: u8 where "SYM32 \<equiv> 0xb3"
abbreviation (input) LIST8 :: u8 where "LIST8 \<equiv> 0xc0"
abbreviation (input) MAP8 :: u8 where "MAP8 \<equiv> 0xc1"
abbreviation (input) LIST32 :: u8 where "LIST32 \<equiv> 0xd0"
abbreviation (input) MAP32 :: u8 where "MAP32 \<equiv> 0xd1"
abbreviation (input) ARRAY8 :: u8 where "ARRAY8 \<equiv> 0xe0"
abbreviation (input) ARRAY32 :: u8 where "ARRAY32 \<equiv> 0xf0"

subsection \<open>Text\<close>

type_synonym utf8 = bytes

definition cont :: "u8 \<Rightarrow> bool" where
  "cont b \<longleftrightarrow> 0x80 \<le> b \<and> b \<le> 0xBF"

text \<open>
  The well-formed byte sequences of the Unicode standard (table 3-7), which is what
  \<open>std::str::from_utf8\<close> accepts: no overlong forms, no surrogates, nothing above U+10FFFF.
\<close>

fun valid_utf8 :: "bytes \<Rightarrow> bool" where
  "valid_utf8 [] = True"
| "valid_utf8 (a # bs) =
    (if a \<le> 0x7F then valid_utf8 bs
     else if 0xC2 \<le> a \<and> a \<le> 0xDF then
       (case bs of b # r \<Rightarrow> cont b \<and> valid_utf8 r | _ \<Rightarrow> False)
     else if 0xE0 \<le> a \<and> a \<le> 0xEF then
       (case bs of b # c # r \<Rightarrow>
          (if a = 0xE0 then 0xA0 \<le> b \<and> b \<le> 0xBF
           else if a = 0xED then 0x80 \<le> b \<and> b \<le> 0x9F else cont b) \<and> cont c \<and> valid_utf8 r
        | _ \<Rightarrow> False)
     else if 0xF0 \<le> a \<and> a \<le> 0xF4 then
       (case bs of b # c # d # r \<Rightarrow>
          (if a = 0xF0 then 0x90 \<le> b \<and> b \<le> 0xBF
           else if a = 0xF4 then 0x80 \<le> b \<and> b \<le> 0x8F else cont b) \<and> cont c \<and> cont d \<and> valid_utf8 r
        | _ \<Rightarrow> False)
     else False)"

definition is_scalar_value :: "u32 \<Rightarrow> bool" where
  "is_scalar_value c \<longleftrightarrow> c < 0xD800 \<or> (0xE000 \<le> c \<and> c \<le> 0x10FFFF)"

definition ascii :: "string \<Rightarrow> utf8" where
  "ascii s = map of_char s"

subsection \<open>The insertion-ordered map\<close>

type_synonym ('k, 'v) ordered_map = "('k \<times> 'v) list"

definition om_push :: "'k \<Rightarrow> 'v \<Rightarrow> ('k, 'v) ordered_map \<Rightarrow> ('k, 'v) ordered_map" where
  "om_push k v m = m @ [(k, v)]"

fun om_get :: "('k, 'v) ordered_map \<Rightarrow> 'k \<Rightarrow> 'v option" where
  "om_get [] key = None"
| "om_get ((k, v) # m) key = (if k = key then Some v else om_get m key)"

fun om_insert :: "'k \<Rightarrow> 'v \<Rightarrow> ('k, 'v) ordered_map \<Rightarrow> 'v option \<times> ('k, 'v) ordered_map" where
  "om_insert k v [] = (None, [(k, v)])"
| "om_insert k v ((ek, ev) # m) =
    (if ek = k then (Some ev, (ek, v) # m)
     else (let (old, m') = om_insert k v m in (old, (ek, ev) # m')))"

lemma om_get_map_of: "om_get m = map_of m"
proof
  show "om_get m k = map_of m k" for k
    by (induction m) auto
qed

lemma om_insert_old: "fst (om_insert k v m) = om_get m k"
  by (induction m) (auto split: prod.splits)

lemma om_get_insert: "om_get (snd (om_insert k v m)) k' = (if k' = k then Some v else om_get m k')"
  by (induction m) (auto split: prod.splits)

lemma om_keys_insert:
  "map fst (snd (om_insert k v m)) = (if k \<in> fst ` set m then map fst m else map fst m @ [k])"
  by (induction m) (force split: prod.splits)+

lemma om_insert_distinct: "distinct (map fst m) \<Longrightarrow> distinct (map fst (snd (om_insert k v m)))"
  by (auto simp: om_keys_insert)

end
