(* ===== verification/Codec_Encode.thy ===== *)
theory Codec_Encode
  imports Codec_Primitives
begin

section \<open>The encoders (\<open>ramqp-core/src/codec/encode.rs\<close>)\<close>

text \<open>
  An encoder takes the value and the write buffer and returns the buffer with the typed encoding
  appended. Compound encoders work as the source does: they write a placeholder header, append
  the body and overwrite the placeholder in place. \<open>encoder\<close> is the contract of the
  \<open>Encode\<close> trait that the rest of the codec relies on: encoding only appends, and what it
  appends does not depend on the buffer. The layout lemmas give every compound form in closed
  form.
\<close>

subsection \<open>Buffer operations\<close>

definition put_u8 :: "u8 \<Rightarrow> bytes \<Rightarrow> bytes" where
  "put_u8 b buf = buf @ [b]"

definition put_u16 :: "u16 \<Rightarrow> bytes \<Rightarrow> bytes" where
  "put_u16 w buf = buf @ to_be_bytes 2 w"

definition put_u32 :: "u32 \<Rightarrow> bytes \<Rightarrow> bytes" where
  "put_u32 w buf = buf @ to_be_bytes 4 w"

definition put_u64 :: "u64 \<Rightarrow> bytes \<Rightarrow> bytes" where
  "put_u64 w buf = buf @ to_be_bytes 8 w"

definition put_slice :: "bytes \<Rightarrow> bytes \<Rightarrow> bytes" where
  "put_slice bs buf = buf @ bs"

definition copy_into :: "nat \<Rightarrow> bytes \<Rightarrow> bytes \<Rightarrow> bytes" where
  "copy_into pos bs buf = take pos buf @ bs @ drop (pos + length bs) buf"

lemmas put_defs = put_u8_def put_u16_def put_u32_def put_u64_def put_slice_def

subsection \<open>Primitive encoders\<close>

definition encode_null :: "bytes \<Rightarrow> bytes" where
  "encode_null buf = put_u8 NULL buf"

definition encode_var :: "u8 \<Rightarrow> u8 \<Rightarrow> bytes \<Rightarrow> bytes \<Rightarrow> bytes" where
  "encode_var code8 code32 bs buf =
    put_slice bs
      (if length bs \<le> 255 then put_u8 (of_nat (length bs)) (put_u8 code8 buf)
       else put_u32 (of_nat (length bs)) (put_u8 code32 buf))"

definition encode_bool :: "bool \<Rightarrow> bytes \<Rightarrow> bytes" where
  "encode_bool b buf = put_u8 (if b then BOOL_TRUE else BOOL_FALSE) buf"

definition encode_u8 :: "u8 \<Rightarrow> bytes \<Rightarrow> bytes" where
  "encode_u8 n buf = put_u8 n (put_u8 UBYTE buf)"

definition encode_u16 :: "u16 \<Rightarrow> bytes \<Rightarrow> bytes" where
  "encode_u16 n buf = put_u16 n (put_u8 USHORT buf)"

definition encode_u32 :: "u32 \<Rightarrow> bytes \<Rightarrow> bytes" where
  "encode_u32 n buf =
    (if n = 0 then put_u8 UINT_0 buf
     else if n \<le> 255 then put_u8 (ucast n) (put_u8 SMALL_UINT buf)
     else put_u32 n (put_u8 UINT buf))"

definition encode_u64 :: "u64 \<Rightarrow> bytes \<Rightarrow> bytes" where
  "encode_u64 n buf =
    (if n = 0 then put_u8 ULONG_0 buf
     else if n \<le> 255 then put_u8 (ucast n) (put_u8 SMALL_ULONG buf)
     else put_u64 n (put_u8 ULONG buf))"

definition encode_i8 :: "i8 \<Rightarrow> bytes \<Rightarrow> bytes" where
  "encode_i8 n buf = put_u8 n (put_u8 BYTE buf)"

definition encode_i16 :: "i16 \<Rightarrow> bytes \<Rightarrow> bytes" where
  "encode_i16 n buf = put_u16 n (put_u8 SHORT buf)"

definition encode_i32 :: "i32 \<Rightarrow> bytes \<Rightarrow> bytes" where
  "encode_i32 n buf =
    (if - 128 \<le> sint n \<and> sint n \<le> 127 then put_u8 (ucast n) (put_u8 SMALL_INT buf)
     else put_u32 n (put_u8 INT_code buf))"

definition encode_i64 :: "i64 \<Rightarrow> bytes \<Rightarrow> bytes" where
  "encode_i64 n buf =
    (if - 128 \<le> sint n \<and> sint n \<le> 127 then put_u8 (ucast n) (put_u8 SMALL_LONG buf)
     else put_u64 n (put_u8 LONG buf))"

text \<open>Floating-point values are carried as their IEEE bit patterns, which is what \<open>put_f32\<close> writes.\<close>

definition encode_f32 :: "u32 \<Rightarrow> bytes \<Rightarrow> bytes" where
  "encode_f32 bits buf = put_u32 bits (put_u8 FLOAT buf)"

definition encode_f64 :: "u64 \<Rightarrow> bytes \<Rightarrow> bytes" where
  "encode_f64 bits buf = put_u64 bits (put_u8 DOUBLE buf)"

definition encode_char :: "u32 \<Rightarrow> bytes \<Rightarrow> bytes" where
  "encode_char c buf = put_u32 c (put_u8 CHAR_code buf)"

definition encode_uuid :: "bytes \<Rightarrow> bytes \<Rightarrow> bytes" where
  "encode_uuid u buf = put_slice u (put_u8 UUID buf)"

definition encode_str :: "utf8 \<Rightarrow> bytes \<Rightarrow> bytes" where
  "encode_str s buf = encode_var STR8 STR32 s buf"

definition encode_symbol :: "utf8 \<Rightarrow> bytes \<Rightarrow> bytes" where
  "encode_symbol s buf = encode_var SYM8 SYM32 s buf"

definition encode_binary :: "bytes \<Rightarrow> bytes \<Rightarrow> bytes" where
  "encode_binary bs buf = encode_var VBIN8 VBIN32 bs buf"

definition encode_option :: "('a \<Rightarrow> bytes \<Rightarrow> bytes) \<Rightarrow> 'a option \<Rightarrow> bytes \<Rightarrow> bytes" where
  "encode_option enc x buf = (case x of Some v \<Rightarrow> enc v buf | None \<Rightarrow> encode_null buf)"

definition encode_descriptor :: "u64 \<Rightarrow> bytes \<Rightarrow> bytes" where
  "encode_descriptor code buf =
    (if code \<le> 255 then put_u8 (ucast code) (put_u8 SMALL_ULONG buf)
     else put_u64 code (put_u8 ULONG buf))"

subsection \<open>Compound headers: reserve, then backpatch\<close>

definition open_compound :: "u8 \<Rightarrow> bytes \<Rightarrow> bytes \<times> nat \<times> nat \<times> nat" where
  "open_compound code buf =
    (let buf1 = put_u8 code buf;
         size_pos = length buf1;
         buf2 = put_u32 0 buf1;
         count_pos = length buf2;
         buf3 = put_u32 0 buf2;
         content_start = length buf3
     in (buf3, size_pos, count_pos, content_start))"

definition close_compound :: "nat \<Rightarrow> nat \<Rightarrow> nat \<Rightarrow> u32 \<Rightarrow> bytes \<Rightarrow> bytes" where
  "close_compound size_pos count_pos content_start count buf =
    (let size = of_nat (length buf - content_start + 4) :: u32
     in copy_into count_pos (to_be_bytes 4 count) (copy_into size_pos (to_be_bytes 4 size) buf))"

text \<open>\<open>encode_map_entries\<close> and \<open>encode_symbol_array\<close> inline the statements of these two helpers.\<close>

definition encode_map_entries ::
  "('k \<Rightarrow> bytes \<Rightarrow> bytes) \<Rightarrow> ('v \<Rightarrow> bytes \<Rightarrow> bytes) \<Rightarrow> ('k \<times> 'v) list \<Rightarrow> bytes \<Rightarrow> bytes" where
  "encode_map_entries enc_k enc_v entries buf =
    (let (buf, s, c, start) = open_compound MAP32 buf;
         (buf, count) = fold (\<lambda>(k, v) (buf, count). (enc_v v (enc_k k buf), count + 2)) entries (buf, 0)
     in close_compound s c start count buf)"

definition encode_symbol_array :: "utf8 list \<Rightarrow> bytes \<Rightarrow> bytes" where
  "encode_symbol_array syms buf =
    (let (buf, s, c, start) = open_compound ARRAY32 buf;
         buf = put_u8 SYM32 buf;
         buf = fold (\<lambda>sym buf. put_slice sym (put_u32 (of_nat (length sym)) buf)) syms buf
     in close_compound s c start (of_nat (length syms)) buf)"

subsection \<open>Described lists\<close>

record field_writer =
  fw_buf :: bytes
  fw_starts :: "nat list"

definition fw_field :: "('a \<Rightarrow> bytes \<Rightarrow> bytes) \<Rightarrow> 'a \<Rightarrow> field_writer \<Rightarrow> field_writer" where
  "fw_field enc x fw =
    fw\<lparr>fw_starts := fw_starts fw @ [length (fw_buf fw)], fw_buf := enc x (fw_buf fw)\<rparr>"

definition fw_null :: "field_writer \<Rightarrow> field_writer" where
  "fw_null fw =
    fw\<lparr>fw_starts := fw_starts fw @ [length (fw_buf fw)], fw_buf := encode_null (fw_buf fw)\<rparr>"

definition fw_symbols :: "utf8 list \<Rightarrow> field_writer \<Rightarrow> field_writer" where
  "fw_symbols syms fw =
    fw\<lparr>fw_starts := fw_starts fw @ [length (fw_buf fw)],
       fw_buf := (if syms = [] then encode_null (fw_buf fw) else encode_symbol_array syms (fw_buf fw))\<rparr>"

definition fw_symbols_required :: "utf8 list \<Rightarrow> field_writer \<Rightarrow> field_writer" where
  "fw_symbols_required syms fw =
    fw\<lparr>fw_starts := fw_starts fw @ [length (fw_buf fw)], fw_buf := encode_symbol_array syms (fw_buf fw)\<rparr>"

text \<open>The loop that drops trailing fields encoded as a bare null byte, counting down from the last.\<close>

fun elide_trailing :: "bytes \<Rightarrow> nat list \<Rightarrow> nat \<Rightarrow> nat" where
  "elide_trailing buf starts 0 = 0"
| "elide_trailing buf starts (Suc c) =
    (let start = starts ! c;
         fin = (if Suc c < length starts then starts ! Suc c else length buf)
     in if fin - start = 1 \<and> buf ! start = NULL then elide_trailing buf starts c else Suc c)"

definition encode_described_list :: "u64 \<Rightarrow> (field_writer \<Rightarrow> field_writer) \<Rightarrow> bytes \<Rightarrow> bytes" where
  "encode_described_list descriptor writes buf =
    (let buf = encode_descriptor descriptor (put_u8 DESCRIBED buf);
         (buf, s, c, content_start) = open_compound LIST32 buf;
         fw = writes \<lparr>fw_buf = buf, fw_starts = []\<rparr>;
         buf = fw_buf fw;
         starts = fw_starts fw;
         total = length starts;
         count = elide_trailing buf starts total;
         new_len = (if count = total then length buf
                    else if count = 0 then content_start
                    else starts ! count);
         buf = take new_len buf
     in close_compound s c content_start (of_nat count) buf)"

subsection \<open>The contract of the \<open>Encode\<close> trait\<close>

text \<open>An encoder appends a byte string that depends on the value only.\<close>

locale encoder =
  fixes encode :: "'a \<Rightarrow> bytes \<Rightarrow> bytes"
  assumes appends: "encode x buf = buf @ encode x []"
begin

lemma fold_appends: "fold encode xs buf = buf @ concat (map (\<lambda>x. encode x []) xs)"
  by (rule fold_append_concat) (rule appends)

lemma length_appends: "length (encode x buf) = length buf + length (encode x [])"
  by (subst appends) simp

lemma option_appends: "encode_option encode x buf = buf @ encode_option encode x []"
  by (cases x) (simp_all add: encode_option_def encode_null_def put_u8_def appends [of _ buf])

lemma field_appends:
  "fw_buf (fw_field encode x fw) = fw_buf fw @ encode x []"
  "fw_starts (fw_field encode x fw) = fw_starts fw @ [length (fw_buf fw)]"
  by (simp_all add: fw_field_def appends [of _ "fw_buf fw"])

end

lemmas encode_prim_defs =
  encode_bool_def encode_u8_def encode_u16_def encode_u32_def encode_u64_def
  encode_i8_def encode_i16_def encode_i32_def encode_i64_def encode_f32_def encode_f64_def
  encode_char_def encode_uuid_def encode_str_def encode_symbol_def encode_binary_def encode_var_def

interpretation bool_enc: encoder encode_bool
  by unfold_locales (simp add: encode_prim_defs put_defs)

interpretation u8_enc: encoder encode_u8
  by unfold_locales (simp add: encode_prim_defs put_defs)

interpretation u16_enc: encoder encode_u16
  by unfold_locales (simp add: encode_prim_defs put_defs)

interpretation u32_enc: encoder encode_u32
  by unfold_locales (simp add: encode_prim_defs put_defs)

interpretation u64_enc: encoder encode_u64
  by unfold_locales (simp add: encode_prim_defs put_defs)

interpretation str_enc: encoder encode_str
  by unfold_locales (simp add: encode_prim_defs put_defs)

interpretation symbol_enc: encoder encode_symbol
  by unfold_locales (simp add: encode_prim_defs put_defs)

interpretation binary_enc: encoder encode_binary
  by unfold_locales (simp add: encode_prim_defs put_defs)

subsection \<open>Backpatching produces the size-prefixed layout\<close>

text \<open>
  The size-prefixed form that a compound encoder is meant to produce: code, size (count field
  included), count, body.
\<close>

definition compound_layout :: "u8 \<Rightarrow> u32 \<Rightarrow> bytes \<Rightarrow> bytes" where
  "compound_layout code count body =
    code # to_be_bytes 4 (of_nat (length body + 4) :: u32) @ to_be_bytes 4 count @ body"

lemma length_compound_layout [simp]: "length (compound_layout code count body) = 9 + length body"
  by (simp add: compound_layout_def)

lemma copy_into_mid: "length p = length q \<Longrightarrow> copy_into (length a) q (a @ p @ b) = a @ q @ b"
  by (simp add: copy_into_def)

lemma open_compound_eq:
  "open_compound code buf =
    (buf @ code # to_be_bytes 4 (0 :: u32) @ to_be_bytes 4 (0 :: u32),
     length buf + 1, length buf + 5, length buf + 9)"
  by (simp add: open_compound_def put_defs)

lemma close_open_compound:
  assumes "open_compound code buf = (buf', s, c, start)"
  shows "close_compound s c start count (buf' @ body) = buf @ compound_layout code count body"
proof -
  let ?z = "to_be_bytes 4 (0 :: u32)" and ?sz = "to_be_bytes 4 (of_nat (length body + 4) :: u32)"
  from assms have pos: "buf' = buf @ [code] @ ?z @ ?z" "s = length (buf @ [code])"
    "c = length (buf @ [code] @ ?sz)" "start = length buf + 9"
    by (auto simp: open_compound_eq)
  have len: "length (buf' @ body) - start + 4 = length body + 4"
    by (simp add: pos)
  have p1: "copy_into s ?sz (buf' @ body) = (buf @ [code]) @ ?sz @ ?z @ body"
    using copy_into_mid [of ?z ?sz "buf @ [code]" "?z @ body"] by (simp add: pos)
  have p2: "copy_into c (to_be_bytes 4 count) ((buf @ [code]) @ ?sz @ ?z @ body)
      = (buf @ [code] @ ?sz) @ to_be_bytes 4 count @ body"
    using copy_into_mid [of ?z "to_be_bytes 4 count" "buf @ [code] @ ?sz" body] by (simp add: pos)
  show ?thesis
    unfolding close_compound_def Let_def len p1 p2 by (simp add: compound_layout_def)
qed

lemma fold_entries:
  assumes "\<And>k v b. (k, v) \<in> set es \<Longrightarrow> enc_k k b = b @ enc_k k []"
    and "\<And>k v b. (k, v) \<in> set es \<Longrightarrow> enc_v v b = b @ enc_v v []"
  shows "fold (\<lambda>(k, v) (buf, count :: u32). (enc_v v (enc_k k buf), count + 2)) es (buf, count)
    = (buf @ concat (map (\<lambda>(k, v). enc_k k [] @ enc_v v []) es), count + 2 * of_nat (length es))"
  using assms
proof (induction es arbitrary: buf count)
  case (Cons e es)
  obtain k v where e: "e = (k, v)" by (cases e)
  have "enc_k k buf = buf @ enc_k k []" and "enc_v v (buf @ enc_k k []) = (buf @ enc_k k []) @ enc_v v []"
    using Cons.prems(1) [of k v buf] Cons.prems(2) [of k v "buf @ enc_k k []"] by (auto simp: e)
  moreover have "fold (\<lambda>(k, v) (buf, count :: u32). (enc_v v (enc_k k buf), count + 2)) es (b, n)
    = (b @ concat (map (\<lambda>(k, v). enc_k k [] @ enc_v v []) es), n + 2 * of_nat (length es))" for b n
    by (rule Cons.IH) (use Cons.prems in \<open>meson list.set_intros(2)\<close>)+
  ultimately show ?case by (simp add: e algebra_simps)
qed simp

lemma encode_map_entries_layout_on:
  assumes "\<And>k v b. (k, v) \<in> set es \<Longrightarrow> enc_k k b = b @ enc_k k []"
    and "\<And>k v b. (k, v) \<in> set es \<Longrightarrow> enc_v v b = b @ enc_v v []"
  shows "encode_map_entries enc_k enc_v es buf =
    buf @ compound_layout MAP32 (2 * of_nat (length es)) (concat (map (\<lambda>(k, v). enc_k k [] @ enc_v v []) es))"
proof -
  obtain buf' s c start where o: "open_compound MAP32 buf = (buf', s, c, start)"
    by (cases "open_compound MAP32 buf") auto
  have "fold (\<lambda>(k, v) (buf, count :: u32). (enc_v v (enc_k k buf), count + 2)) es (buf', 0)
    = (buf' @ concat (map (\<lambda>(k, v). enc_k k [] @ enc_v v []) es), 2 * of_nat (length es))"
    using fold_entries [of es enc_k enc_v buf' 0, OF assms] by simp
  then show ?thesis
    using close_open_compound [OF o] by (simp add: encode_map_entries_def o)
qed

lemma encode_map_entries_layout:
  assumes "encoder enc_k" and "encoder enc_v"
  shows "encode_map_entries enc_k enc_v es buf =
    buf @ compound_layout MAP32 (2 * of_nat (length es)) (concat (map (\<lambda>(k, v). enc_k k [] @ enc_v v []) es))"
  by (rule encode_map_entries_layout_on) (rule assms [THEN encoder.appends])+

lemma encode_symbol_array_layout:
  "encode_symbol_array syms buf = buf @ compound_layout ARRAY32 (of_nat (length syms))
    (SYM32 # concat (map (\<lambda>sym. to_be_bytes 4 (of_nat (length sym) :: u32) @ sym) syms))"
proof -
  obtain buf' s c start where o: "open_compound ARRAY32 buf = (buf', s, c, start)"
    by (cases "open_compound ARRAY32 buf") auto
  have f: "fold (\<lambda>sym buf. put_slice sym (put_u32 (of_nat (length sym)) buf)) syms b =
      b @ concat (map (\<lambda>sym. to_be_bytes 4 (of_nat (length sym) :: u32) @ sym) syms)" for b
    by (rule fold_append_concat) (simp add: put_defs)
  show ?thesis
    using close_open_compound [OF o, of "of_nat (length syms)" "SYM32 # _"]
    by (simp add: encode_symbol_array_def o f put_u8_def)
qed

subsection \<open>Described lists: what the single pass with elision produces\<close>

text \<open>
  The reference for elision works on the list of encoded fields: drop the trailing ones that
  are a bare null byte.
\<close>

fun strip_nulls :: "bytes list \<Rightarrow> bytes list" where
  "strip_nulls [] = []"
| "strip_nulls (f # fs) = (if f = [NULL] \<and> strip_nulls fs = [] then [] else f # strip_nulls fs)"

definition described_layout :: "u64 \<Rightarrow> bytes list \<Rightarrow> bytes" where
  "described_layout d fs = DESCRIBED # encode_descriptor d [] @
    compound_layout LIST32 (of_nat (length (strip_nulls fs))) (concat (strip_nulls fs))"

text \<open>What a field writer has recorded after writing the fields \<open>fs\<close> behind \<open>base\<close>.\<close>

definition offsets :: "nat \<Rightarrow> bytes list \<Rightarrow> nat list" where
  "offsets n fs = map (\<lambda>i. n + length (concat (take i fs))) [0..<length fs]"

definition wrote :: "bytes \<Rightarrow> bytes list \<Rightarrow> field_writer \<Rightarrow> bool" where
  "wrote base fs fw \<longleftrightarrow> fw_buf fw = base @ concat fs \<and> fw_starts fw = offsets (length base) fs"

lemma length_offsets [simp]: "length (offsets n fs) = length fs"
  by (simp add: offsets_def)

lemma offsets_nth [simp]: "i < length fs \<Longrightarrow> offsets n fs ! i = n + length (concat (take i fs))"
  by (simp add: offsets_def)

lemma offsets_snoc: "offsets n (fs @ [f]) = offsets n fs @ [n + length (concat fs)]"
  by (auto simp: offsets_def)

lemma wrote_Nil: "wrote base [] \<lparr>fw_buf = base, fw_starts = []\<rparr>"
  by (simp add: wrote_def offsets_def)

lemma strip_nulls_prefix: "\<exists>n. strip_nulls fs = take n fs \<and> n \<le> length fs"
proof (induction fs)
  case (Cons f fs)
  then obtain n where "strip_nulls fs = take n fs" "n \<le> length fs" by blast
  then show ?case
    by (cases "f = [NULL] \<and> strip_nulls fs = []")
      (auto intro: exI [of _ 0] exI [of _ "Suc n"])
qed simp

lemma strip_nulls_take: "strip_nulls fs = take (length (strip_nulls fs)) fs"
  using strip_nulls_prefix [of fs] by (auto simp: min_def)

lemma length_strip_nulls_le: "length (strip_nulls fs) \<le> length fs"
  using strip_nulls_prefix [of fs] by auto

lemma strip_nulls_snoc_null: "strip_nulls (fs @ [[NULL]]) = strip_nulls fs"
  by (induction fs) auto

lemma strip_nulls_snoc_other: "f \<noteq> [NULL] \<Longrightarrow> strip_nulls (fs @ [f]) = fs @ [f]"
  by (induction fs) auto

lemma elide_trailing_append:
  assumes "n \<le> length fs"
  shows "elide_trailing (base @ concat fs) (offsets (length base) fs) n = length (strip_nulls (take n fs))"
  using assms
proof (induction n)
  case (Suc n)
  let ?starts = "offsets (length base) fs" and ?buf = "base @ concat fs"
  have n: "n < length fs" using Suc.prems by simp
  let ?f = "fs ! n"
  have tk: "take (Suc n) fs = take n fs @ [?f]"
    using n by (simp add: take_Suc_conv_app_nth)
  have start: "?starts ! n = length base + length (concat (take n fs))"
    using n by simp
  have split: "concat fs = concat (take n fs) @ ?f @ concat (drop (Suc n) fs)"
    using id_take_nth_drop [OF n] by (metis concat.simps(2) concat_append)
  have "Suc n = length fs \<Longrightarrow> length (concat fs) = length (concat (take n fs)) + length ?f"
    by (subst split) simp
  then have fin: "(if Suc n < length ?starts then ?starts ! Suc n else length ?buf)
      = length base + length (concat (take n fs)) + length ?f"
    using Suc.prems by (auto simp: tk)
  have at: "?f \<noteq> [] \<Longrightarrow> ?buf ! (?starts ! n) = ?f ! 0"
    unfolding start split by (cases ?f) (simp_all add: nth_append)
  have null: "(length ?f = 1 \<and> ?buf ! (?starts ! n) = NULL) \<longleftrightarrow> ?f = [NULL]"
    using at by (cases ?f) auto
  have step: "elide_trailing ?buf ?starts (Suc n) =
      (if ?f = [NULL] then elide_trailing ?buf ?starts n else Suc n)"
    unfolding elide_trailing.simps Let_def fin null [symmetric] by (simp add: start)
  show ?case
    using Suc n unfolding step tk
    by (simp add: strip_nulls_snoc_null strip_nulls_snoc_other)
qed simp

lemma encode_descriptor_appends: "encode_descriptor d buf = buf @ encode_descriptor d []"
  by (simp add: encode_descriptor_def put_defs)

text \<open>
  The single-pass encoder with backpatching and in-place elision produces the reference layout of
  the fields it was asked to write.
\<close>

lemma encode_described_list_layout:
  assumes "\<And>base. wrote base fs (writes \<lparr>fw_buf = base, fw_starts = []\<rparr>)"
  shows "encode_described_list d writes buf = buf @ described_layout d fs"
proof -
  let ?b = "encode_descriptor d (put_u8 DESCRIBED buf)"
  obtain base s c start where o: "open_compound LIST32 ?b = (base, s, c, start)"
    by (cases "open_compound LIST32 ?b") auto
  let ?fw = "writes \<lparr>fw_buf = base, fw_starts = []\<rparr>"
  have w: "fw_buf ?fw = base @ concat fs" "fw_starts ?fw = offsets (length base) fs"
    using assms [of base] by (simp_all add: wrote_def)
  have start: "start = length base"
    using o by (auto simp: open_compound_eq)
  let ?n = "length (strip_nulls fs)"
  have n: "?n \<le> length fs" by (rule length_strip_nulls_le)
  have elide: "elide_trailing (base @ concat fs) (offsets (length base) fs) (length fs) = ?n"
    using elide_trailing_append [of "length fs" fs base] by simp
  have cut: "length (concat (strip_nulls fs)) = length (concat (take ?n fs))"
    by (subst strip_nulls_take) simp
  have new_len: "(if ?n = length fs then length (base @ concat fs) else if ?n = 0 then start
      else offsets (length base) fs ! ?n) = length base + length (concat (strip_nulls fs))"
    using n by (auto simp: start cut)
  have "concat fs = concat (take ?n fs) @ concat (drop ?n fs)"
    by (metis append_take_drop_id concat_append)
  then have tk: "take (length base + length (concat (strip_nulls fs))) (base @ concat fs)
      = base @ concat (strip_nulls fs)"
    by (metis append_eq_conv_conj length_append append.assoc strip_nulls_take)
  show ?thesis
    unfolding encode_described_list_def Let_def o prod.case w length_offsets elide new_len tk
    using close_open_compound [OF o] encode_descriptor_appends [of d "buf @ [DESCRIBED]"]
    by (simp add: described_layout_def put_u8_def)
qed

end
