(* ===== verification/Codec_Decode.thy ===== *)
theory Codec_Decode
  imports Codec_Encode
begin

section \<open>The decoders (\<open>ramqp-core/src/codec/decode.rs\<close>)\<close>

text \<open>
  A decoder takes the cursor and returns an error or the value with the rest of the input. After
  an error the cursor is not used again by any caller, so only the error is kept. The locale
  \<open>codec\<close> is the contract between the \<open>Encode\<close> and the \<open>Decode\<close> implementation of a
  type: decoding the encoding of a representable value, followed by anything, returns the value
  and exactly what followed. \<open>field_codec\<close> adds that the encoding never starts with the null
  code, which the optional fields of composites rely on.
\<close>

subsection \<open>Errors\<close>

datatype descriptor = Code u64 | Sym utf8

text \<open>The \<open>InvalidValue\<close> messages, one constructor per site that formats one, with its arguments.\<close>

datatype invalid_value =
    InvalidBooleanByte u8
  | InvalidCharCodePoint
  | OddMapCount u32
  | ArrayCountExceeds u32 nat u8 nat
  | InvalidSenderSettleMode u8
  | InvalidReceiverSettleMode u8
  | UnexpectedOutcome descriptor
  | UnexpectedTargetArchetype descriptor
  | SequenceBodyNotList
  | SectionOutOfOrder u64
  | DuplicateSection u64
  | MixedBody
  | UnknownPerformative descriptor
  | UnknownSaslFrame descriptor
  | InvalidSaslCode u8

datatype decode_error =
    Eof nat
  | InvalidFormatCode u8 string
  | InvalidUtf8 string
  | InvalidValue invalid_value
  | UnexpectedDescriptor u64 descriptor
  | MissingField string
  | Overflow
  | NestingTooDeep nat

type_synonym 'a decoder = "bytes \<Rightarrow> decode_error + 'a \<times> bytes"

subsection \<open>Bounds-checked readers\<close>

definition ensure :: "bytes \<Rightarrow> nat \<Rightarrow> decode_error + unit" where
  "ensure buf n = (if length buf < n then Inl (Eof (n - length buf)) else Inr ())"

definition read_bytes :: "nat \<Rightarrow> bytes decoder" where
  "read_bytes n buf = rbind (ensure buf n) (\<lambda>_. Inr (take n buf, drop n buf))"

definition read_u8 :: "u8 decoder" where
  "read_u8 buf = rbind (ensure buf 1) (\<lambda>_. Inr (hd buf, tl buf))"

definition read_u16 :: "u16 decoder" where
  "read_u16 buf = rbind (ensure buf 2) (\<lambda>_. Inr (from_be_bytes (take 2 buf), drop 2 buf))"

definition read_u32 :: "u32 decoder" where
  "read_u32 buf = rbind (ensure buf 4) (\<lambda>_. Inr (from_be_bytes (take 4 buf), drop 4 buf))"

definition read_u64 :: "u64 decoder" where
  "read_u64 buf = rbind (ensure buf 8) (\<lambda>_. Inr (from_be_bytes (take 8 buf), drop 8 buf))"

definition utf8_string :: "bytes \<Rightarrow> string \<Rightarrow> decode_error + utf8" where
  "utf8_string raw kind = (if valid_utf8 raw then Inr raw else Inl (InvalidUtf8 kind))"

definition peek_code :: "bytes \<Rightarrow> u8 option" where
  "peek_code buf = (case buf of [] \<Rightarrow> None | c # _ \<Rightarrow> Some c)"

definition take_null :: "bytes \<Rightarrow> bool \<times> bytes" where
  "take_null buf = (if peek_code buf = Some NULL then (True, tl buf) else (False, buf))"

abbreviation (input) bad :: "u8 \<Rightarrow> string \<Rightarrow> decode_error" where
  "bad code expected \<equiv> InvalidFormatCode code expected"

lemma read_u8_Cons [simp]: "read_u8 (b # bs) = Inr (b, bs)"
  by (simp add: read_u8_def ensure_def)

lemma read_u8_Nil [simp]: "read_u8 [] = Inl (Eof 1)"
  by (simp add: read_u8_def ensure_def)

lemma read_u16_be [simp]: "read_u16 (to_be_bytes 2 w @ rest) = Inr (w, rest)"
  by (simp add: read_u16_def ensure_def)

lemma read_u32_be [simp]: "read_u32 (to_be_bytes 4 w @ rest) = Inr (w, rest)"
  by (simp add: read_u32_def ensure_def)

lemma read_u64_be [simp]: "read_u64 (to_be_bytes 8 w @ rest) = Inr (w, rest)"
  by (simp add: read_u64_def ensure_def)

lemma read_bytes_append: "length bs = n \<Longrightarrow> read_bytes n (bs @ rest) = Inr (bs, rest)"
  by (auto simp: read_bytes_def ensure_def)

lemma read_bytes_append_self [simp]: "read_bytes (length bs) (bs @ rest) = Inr (bs, rest)"
  by (simp add: read_bytes_append)

lemma read_bytes_self [simp]: "read_bytes (length bs) bs = Inr (bs, [])"
  using read_bytes_append_self [of bs "[]"] by simp

lemma peek_code_simps [simp]: "peek_code [] = None" "peek_code (c # bs) = Some c"
  by (simp_all add: peek_code_def)

lemma read_u8_Inr: "read_u8 buf = Inr (b, rest) \<longleftrightarrow> buf = b # rest"
  by (cases buf) auto

lemma read_bytes_Inr: "read_bytes n buf = Inr (bs, rest) \<longleftrightarrow> n \<le> length buf \<and> bs = take n buf \<and> rest = drop n buf"
  by (auto simp: read_bytes_def ensure_def)

lemma read_u16_Inr_length: "read_u16 buf = Inr (w, rest) \<Longrightarrow> length buf = length rest + 2"
  by (auto simp: read_u16_def ensure_def split: if_splits)

lemma read_u32_Inr_length: "read_u32 buf = Inr (w, rest) \<Longrightarrow> length buf = length rest + 4"
  by (auto simp: read_u32_def ensure_def split: if_splits)

lemma read_u64_Inr_length: "read_u64 buf = Inr (w, rest) \<Longrightarrow> length buf = length rest + 8"
  by (auto simp: read_u64_def ensure_def split: if_splits)

subsection \<open>Primitive decoders\<close>

definition decode_bool :: "bool decoder" where
  "decode_bool buf = rbind (read_u8 buf) (\<lambda>(c, buf).
    if c = BOOL_TRUE then Inr (True, buf)
    else if c = BOOL_FALSE then Inr (False, buf)
    else if c = BOOL then rbind (read_u8 buf) (\<lambda>(n, buf).
      if n = 0 then Inr (False, buf)
      else if n = 1 then Inr (True, buf)
      else Inl (InvalidValue (InvalidBooleanByte n)))
    else Inl (bad c ''boolean''))"

definition decode_u8 :: "u8 decoder" where
  "decode_u8 buf = rbind (read_u8 buf) (\<lambda>(c, buf).
    if c = UBYTE then read_u8 buf else Inl (bad c ''ubyte''))"

definition decode_u16 :: "u16 decoder" where
  "decode_u16 buf = rbind (read_u8 buf) (\<lambda>(c, buf).
    if c = USHORT then read_u16 buf else Inl (bad c ''ushort''))"

definition decode_u32 :: "u32 decoder" where
  "decode_u32 buf = rbind (read_u8 buf) (\<lambda>(c, buf).
    if c = UINT_0 then Inr (0, buf)
    else if c = SMALL_UINT then rbind (read_u8 buf) (\<lambda>(b, buf). Inr (ucast b, buf))
    else if c = UINT then read_u32 buf
    else Inl (bad c ''uint''))"

definition decode_u64 :: "u64 decoder" where
  "decode_u64 buf = rbind (read_u8 buf) (\<lambda>(c, buf).
    if c = ULONG_0 then Inr (0, buf)
    else if c = SMALL_ULONG then rbind (read_u8 buf) (\<lambda>(b, buf). Inr (ucast b, buf))
    else if c = ULONG then read_u64 buf
    else Inl (bad c ''ulong''))"

definition decode_i8 :: "i8 decoder" where
  "decode_i8 buf = rbind (read_u8 buf) (\<lambda>(c, buf).
    if c = BYTE then read_u8 buf else Inl (bad c ''byte''))"

definition decode_i16 :: "i16 decoder" where
  "decode_i16 buf = rbind (read_u8 buf) (\<lambda>(c, buf).
    if c = SHORT then read_u16 buf else Inl (bad c ''short''))"

definition decode_i32 :: "i32 decoder" where
  "decode_i32 buf = rbind (read_u8 buf) (\<lambda>(c, buf).
    if c = SMALL_INT then rbind (read_u8 buf) (\<lambda>(b, buf). Inr (scast b, buf))
    else if c = INT_code then read_u32 buf
    else Inl (bad c ''int''))"

definition decode_i64 :: "i64 decoder" where
  "decode_i64 buf = rbind (read_u8 buf) (\<lambda>(c, buf).
    if c = SMALL_LONG then rbind (read_u8 buf) (\<lambda>(b, buf). Inr (scast b, buf))
    else if c = LONG then read_u64 buf
    else Inl (bad c ''long''))"

definition decode_f32 :: "u32 decoder" where
  "decode_f32 buf = rbind (read_u8 buf) (\<lambda>(c, buf).
    if c = FLOAT then read_u32 buf else Inl (bad c ''float''))"

definition decode_f64 :: "u64 decoder" where
  "decode_f64 buf = rbind (read_u8 buf) (\<lambda>(c, buf).
    if c = DOUBLE then read_u64 buf else Inl (bad c ''double''))"

definition char_from_u32 :: "u32 \<Rightarrow> decode_error + u32" where
  "char_from_u32 c = (if is_scalar_value c then Inr c else Inl (InvalidValue InvalidCharCodePoint))"

definition decode_char :: "u32 decoder" where
  "decode_char buf = rbind (read_u8 buf) (\<lambda>(c, buf).
    if c = CHAR_code then rbind (read_u32 buf) (\<lambda>(n, buf). rbind (char_from_u32 n) (\<lambda>n. Inr (n, buf)))
    else Inl (bad c ''char''))"

definition decode_uuid :: "bytes decoder" where
  "decode_uuid buf = rbind (read_u8 buf) (\<lambda>(c, buf).
    if c = UUID then read_bytes 16 buf else Inl (bad c ''uuid''))"

text \<open>The length prefix that \<open>String\<close>, \<open>Symbol\<close> and \<open>Bytes\<close> read, by width of the constructor.\<close>

definition read_var :: "u8 \<Rightarrow> u8 \<Rightarrow> string \<Rightarrow> bytes decoder" where
  "read_var code8 code32 kind buf = rbind (read_u8 buf) (\<lambda>(c, buf).
    if c = code8 then rbind (read_u8 buf) (\<lambda>(n, buf). read_bytes (unat n) buf)
    else if c = code32 then rbind (read_u32 buf) (\<lambda>(n, buf). read_bytes (unat n) buf)
    else Inl (bad c kind))"

definition decode_string :: "utf8 decoder" where
  "decode_string buf = rbind (read_var STR8 STR32 ''string'' buf) (\<lambda>(raw, buf).
    rbind (utf8_string raw ''string'') (\<lambda>s. Inr (s, buf)))"

definition decode_symbol :: "utf8 decoder" where
  "decode_symbol buf = rbind (read_var SYM8 SYM32 ''symbol'' buf) (\<lambda>(raw, buf).
    rbind (utf8_string raw ''symbol'') (\<lambda>s. Inr (s, buf)))"

definition decode_binary :: "bytes decoder" where
  "decode_binary buf = read_var VBIN8 VBIN32 ''binary'' buf"

definition decode_option :: "'a decoder \<Rightarrow> 'a option decoder" where
  "decode_option dec buf =
    (let (was_null, buf) = take_null buf
     in if was_null then Inr (None, buf) else rbind (dec buf) (\<lambda>(x, buf). Inr (Some x, buf)))"

subsection \<open>Compound headers and maps\<close>

text \<open>The two branches that the three header readers share.\<close>

definition header8 :: "(u32 \<times> bytes) decoder" where
  "header8 buf = rbind (read_u8 buf) (\<lambda>(size, buf). rbind (read_bytes (unat size) buf) (\<lambda>(body, buf).
    rbind (read_u8 body) (\<lambda>(count, body). Inr ((ucast count, body), buf))))"

definition header32 :: "(u32 \<times> bytes) decoder" where
  "header32 buf = rbind (read_u32 buf) (\<lambda>(size, buf). rbind (read_bytes (unat size) buf) (\<lambda>(body, buf).
    rbind (read_u32 body) (\<lambda>(count, body). Inr ((count, body), buf))))"

definition read_list_header :: "(u32 \<times> bytes) decoder" where
  "read_list_header buf = rbind (read_u8 buf) (\<lambda>(c, buf).
    if c = LIST_0 then Inr ((0, []), buf)
    else if c = LIST8 then header8 buf
    else if c = LIST32 then header32 buf
    else Inl (bad c ''list''))"

definition read_map_header :: "(u32 \<times> bytes) decoder" where
  "read_map_header buf = rbind (read_u8 buf) (\<lambda>(c, buf).
    if c = MAP8 then header8 buf
    else if c = MAP32 then header32 buf
    else Inl (bad c ''map''))"

definition read_array_header :: "(u32 \<times> bytes) decoder" where
  "read_array_header buf = rbind (read_u8 buf) (\<lambda>(c, buf).
    if c = ARRAY8 then header8 buf
    else if c = ARRAY32 then header32 buf
    else Inl (bad c ''array''))"

fun decode_entries :: "'k decoder \<Rightarrow> 'v decoder \<Rightarrow> nat \<Rightarrow> ('k \<times> 'v) list decoder" where
  "decode_entries dec_k dec_v 0 body = Inr ([], body)"
| "decode_entries dec_k dec_v (Suc n) body =
    rbind (dec_k body) (\<lambda>(k, body). rbind (dec_v body) (\<lambda>(v, body).
      rbind (decode_entries dec_k dec_v n body) (\<lambda>(m, body). Inr ((k, v) # m, body))))"

definition decode_ordered_map :: "'k decoder \<Rightarrow> 'v decoder \<Rightarrow> ('k, 'v) ordered_map decoder" where
  "decode_ordered_map dec_k dec_v buf = rbind (read_map_header buf) (\<lambda>((count, body), buf).
    if odd (unat count) then Inl (InvalidValue (OddMapCount count))
    else rbind (decode_entries dec_k dec_v (unat count div 2) body) (\<lambda>(m, _). Inr (m, buf)))"

subsection \<open>The contract between encoder and decoder\<close>

locale codec = encoder encode
  for encode :: "'a \<Rightarrow> bytes \<Rightarrow> bytes" +
  fixes decode :: "'a decoder" and representable :: "'a \<Rightarrow> bool"
  assumes decode_encode: "representable x \<Longrightarrow> decode (encode x [] @ rest) = Inr (x, rest)"
    and encode_nonempty: "representable x \<Longrightarrow> encode x [] \<noteq> []"
begin

lemma encode_injective:
  assumes "representable x" "representable y" "encode x [] = encode y []"
  shows "x = y"
  using decode_encode [OF assms(1), of "[]"] decode_encode [OF assms(2), of "[]"] assms(3) by simp

text \<open>No encoding is a proper prefix of another, so a concatenation is read back without framing.\<close>

lemma encode_prefix_free:
  assumes "representable x" "representable y" "encode x [] @ r = encode y [] @ r'"
  shows "x = y \<and> r = r'"
  using decode_encode [OF assms(1), of r] decode_encode [OF assms(2), of r'] assms(3)
  by (metis sum.inject(2) prod.inject)

end

locale field_codec = codec +
  assumes encode_not_null: "representable x \<Longrightarrow> hd (encode x []) \<noteq> NULL"
begin

lemma peek_encode: "representable x \<Longrightarrow> peek_code (encode x [] @ rest) \<noteq> Some NULL"
  using encode_nonempty [of x] encode_not_null [of x] by (cases "encode x []") auto

lemma encode_neq_null: "representable x \<Longrightarrow> encode x [] \<noteq> [NULL]"
  using encode_not_null [of x] by auto

lemma decode_option_encode:
  assumes "\<And>v. x = Some v \<Longrightarrow> representable v"
  shows "decode_option decode (encode_option encode x [] @ rest) = Inr (x, rest)"
proof (cases x)
  case None
  then show ?thesis
    by (simp add: decode_option_def encode_option_def encode_null_def put_u8_def take_null_def)
next
  case (Some v)
  then have v: "representable v" by (simp add: assms)
  show ?thesis
    using peek_encode [OF v, of rest] decode_encode [OF v, of rest]
    by (simp add: Some decode_option_def encode_option_def take_null_def)
qed

end

locale map_codec = k: codec enc_k dec_k rep_k + v: codec enc_v dec_v rep_v
  for enc_k :: "'k \<Rightarrow> bytes \<Rightarrow> bytes" and dec_k rep_k
    and enc_v :: "'v \<Rightarrow> bytes \<Rightarrow> bytes" and dec_v rep_v
begin

lemma decode_entries_encode:
  assumes "\<And>k v. (k, v) \<in> set es \<Longrightarrow> rep_k k \<and> rep_v v"
  shows "decode_entries dec_k dec_v (length es) (concat (map (\<lambda>(k, v). enc_k k [] @ enc_v v []) es) @ rest)
    = Inr (es, rest)"
  using assms
proof (induction es)
  case (Cons e es)
  obtain k v where e: "e = (k, v)" by (cases e)
  have "rep_k k" "rep_v v" using Cons.prems e by auto
  moreover have "decode_entries dec_k dec_v (length es)
      (concat (map (\<lambda>(k, v). enc_k k [] @ enc_v v []) es) @ rest) = Inr (es, rest)"
    using Cons by auto
  ultimately show ?case
    by (simp add: e k.decode_encode v.decode_encode)
qed simp

end

subsection \<open>Headers of encoded compounds\<close>

lemma unat_of_nat_u32: "n < 2 ^ 32 \<Longrightarrow> unat (of_nat n :: u32) = n"
  by (simp add: unsigned_of_nat take_bit_nat_eq_self)

lemma header32_layout:
  assumes "length body + 4 < 2 ^ 32"
  shows "header32 (to_be_bytes 4 (of_nat (length body + 4) :: u32) @ to_be_bytes 4 count @ body @ rest)
    = Inr ((count, body), rest)"
proof -
  have sz: "unat (of_nat (length body + 4) :: u32) = length (to_be_bytes 4 count @ body)"
    unfolding unat_of_nat_u32 [OF assms] by simp
  have rd: "read_bytes (unat (of_nat (length body + 4) :: u32)) (to_be_bytes 4 count @ body @ rest)
      = Inr (to_be_bytes 4 count @ body, rest)"
    using read_bytes_append [OF sz [symmetric], of rest] by (simp only: append_assoc)
  show ?thesis
    unfolding header32_def read_u32_be rbind_simps prod.case rd by simp
qed

lemma read_list_header_layout:
  assumes "length body + 4 < 2 ^ 32"
  shows "read_list_header (compound_layout LIST32 count body @ rest) = Inr ((count, body), rest)"
  using header32_layout [OF assms, of count rest]
  unfolding read_list_header_def compound_layout_def append_Cons read_u8_Cons rbind_simps prod.case append_assoc
  by simp

lemma read_map_header_layout:
  assumes "length body + 4 < 2 ^ 32"
  shows "read_map_header (compound_layout MAP32 count body @ rest) = Inr ((count, body), rest)"
  using header32_layout [OF assms, of count rest]
  unfolding read_map_header_def compound_layout_def append_Cons read_u8_Cons rbind_simps prod.case append_assoc
  by simp

lemma read_array_header_layout:
  assumes "length body + 4 < 2 ^ 32"
  shows "read_array_header (compound_layout ARRAY32 count body @ rest) = Inr ((count, body), rest)"
  using header32_layout [OF assms, of count rest]
  unfolding read_array_header_def compound_layout_def append_Cons read_u8_Cons rbind_simps prod.case append_assoc
  by simp

context map_codec
begin

lemma encode_map_appends: "encode_map_entries enc_k enc_v m buf = buf @ encode_map_entries enc_k enc_v m []"
  by (simp add: encode_map_entries_layout k.encoder_axioms v.encoder_axioms)

lemma entries_length:
  assumes "\<And>k v. (k, v) \<in> set es \<Longrightarrow> rep_k k \<and> rep_v v"
  shows "2 * length es \<le> length (concat (map (\<lambda>(k, v). enc_k k [] @ enc_v v []) es))"
  using assms
proof (induction es)
  case (Cons e es)
  then have "enc_k (fst e) [] \<noteq> []" "enc_v (snd e) [] \<noteq> []"
    using k.encode_nonempty [of "fst e"] v.encode_nonempty [of "snd e"] Cons.prems [of "fst e" "snd e"] by auto
  moreover have "2 * length es \<le> length (concat (map (\<lambda>(k, v). enc_k k [] @ enc_v v []) es))"
    using Cons by auto
  ultimately show ?case
    by (cases e; cases "enc_k (fst e) []"; cases "enc_v (snd e) []") auto
qed simp

lemma decode_map_encode:
  assumes "\<And>k v. (k, v) \<in> set m \<Longrightarrow> rep_k k \<and> rep_v v" "length (encode_map_entries enc_k enc_v m []) < 2 ^ 32"
  shows "decode_ordered_map dec_k dec_v (encode_map_entries enc_k enc_v m [] @ rest) = Inr (m, rest)"
proof -
  let ?body = "concat (map (\<lambda>(k, v). enc_k k [] @ enc_v v []) m)"
  have lay: "encode_map_entries enc_k enc_v m [] = compound_layout MAP32 (2 * of_nat (length m)) ?body"
    by (simp add: encode_map_entries_layout k.encoder_axioms v.encoder_axioms)
  have len: "length ?body + 4 < 2 ^ 32" using assms(2) by (simp add: lay)
  have "2 * length m < 2 ^ 32" using entries_length [of m, OF assms(1)] len by simp
  then have cnt: "unat (2 * of_nat (length m) :: u32) = 2 * length m"
    using unat_of_nat_u32 [of "2 * length m"] by simp
  show ?thesis
    unfolding decode_ordered_map_def lay read_map_header_layout [OF len]
    using decode_entries_encode [OF assms(1), where rest = "[]"] by (simp add: cnt)
qed

end

sublocale map_codec \<subseteq> map: field_codec "encode_map_entries enc_k enc_v" "decode_ordered_map dec_k dec_v"
  "\<lambda>m. (\<forall>(k, v) \<in> set m. rep_k k \<and> rep_v v) \<and> length (encode_map_entries enc_k enc_v m []) < 2 ^ 32"
proof unfold_locales
  show "encode_map_entries enc_k enc_v x buf = buf @ encode_map_entries enc_k enc_v x []" for x buf
    by (rule encode_map_appends)
  show "(\<forall>(k, v) \<in> set x. rep_k k \<and> rep_v v) \<and> length (encode_map_entries enc_k enc_v x []) < 2 ^ 32 \<Longrightarrow>
      decode_ordered_map dec_k dec_v (encode_map_entries enc_k enc_v x [] @ rest) = Inr (x, rest)" for x rest
    by (rule decode_map_encode) auto
qed (simp_all add: encode_map_entries_layout k.encoder_axioms v.encoder_axioms compound_layout_def)

subsection \<open>The primitive types keep the contract\<close>

lemma scast_ucast_small:
  fixes n :: "'a::len word"
  assumes "8 \<le> LENGTH('a)" "- 128 \<le> sint n" "sint n \<le> 127"
  shows "scast (ucast n :: 8 word) = n"
proof -
  have u: "(ucast n :: 8 word) = word_of_int (sint n)"
    using assms(1) by transfer (simp add: take_bit_signed_take_bit)
  have "sint (word_of_int (sint n) :: 8 word) = sint n"
    using assms(2,3) by (simp add: signed_scast_eq signed_take_bit_int_eq_self)
  then show ?thesis
    unfolding u scast_eq by (metis scast_eq scast_id)
qed

lemma word_le_255_unat:
  "n \<le> (255 :: 'a::len word) \<Longrightarrow> 8 \<le> LENGTH('a) \<Longrightarrow> unat n < 2 ^ 8"
proof -
  assume le: "n \<le> 255" and len: "8 \<le> LENGTH('a)"
  have "(2 :: nat) ^ 8 \<le> 2 ^ LENGTH('a)" using len by (intro power_increasing) auto
  then have "unat (255 :: 'a word) = 255"
    by (simp add: unat_numeral take_bit_nat_eq_self)
  with le show ?thesis by (simp add: word_le_nat_alt)
qed

lemma ucast_ucast_255: "n \<le> (255 :: 'a::len word) \<Longrightarrow> 8 \<le> LENGTH('a) \<Longrightarrow> ucast (ucast n :: u8) = n"
  by (rule ucast_ucast_small) (auto dest: word_le_255_unat)

definition var_ok :: "bytes \<Rightarrow> bool" where
  "var_ok bs \<longleftrightarrow> length bs < 2 ^ 32"

definition text_ok :: "utf8 \<Rightarrow> bool" where
  "text_ok s \<longleftrightarrow> valid_utf8 s \<and> length s < 2 ^ 32"

lemma encode_var_eq:
  "encode_var c8 c32 bs buf = buf @
    (if length bs \<le> 255 then c8 # of_nat (length bs) # bs
     else c32 # to_be_bytes 4 (of_nat (length bs) :: u32) @ bs)"
  by (simp add: encode_var_def put_defs)

lemma encode_var_neq_Nil [simp]: "encode_var c8 c32 bs [] \<noteq> []"
  by (simp add: encode_var_eq)

lemma hd_encode_var [simp]: "hd (encode_var c8 c32 bs []) = (if length bs \<le> 255 then c8 else c32)"
  by (simp add: encode_var_eq)

lemma read_var_encode_var:
  assumes "var_ok bs" "c8 \<noteq> c32"
  shows "read_var c8 c32 kind (encode_var c8 c32 bs [] @ rest) = Inr (bs, rest)"
proof (cases "length bs \<le> 255")
  case True
  then have "unat (of_nat (length bs) :: u8) = length bs"
    by (simp add: unsigned_of_nat take_bit_nat_eq_self)
  with True show ?thesis
    by (simp add: encode_var_eq read_var_def)
next
  case False
  have "unat (of_nat (length bs) :: u32) = length bs"
    using assms(1) by (intro unat_of_nat_u32) (simp add: var_ok_def)
  with False assms(2) show ?thesis
    by (simp add: encode_var_eq read_var_def)
qed

interpretation bool_codec: field_codec encode_bool decode_bool "\<lambda>_. True"
  by unfold_locales (auto simp: encode_bool_def put_u8_def decode_bool_def)

interpretation u8_codec: field_codec encode_u8 decode_u8 "\<lambda>_. True"
  by unfold_locales (auto simp: encode_u8_def put_u8_def decode_u8_def)

interpretation u16_codec: field_codec encode_u16 decode_u16 "\<lambda>_. True"
  by unfold_locales (auto simp: encode_u16_def put_defs decode_u16_def)

interpretation u32_codec: field_codec encode_u32 decode_u32 "\<lambda>_. True"
  by unfold_locales (auto simp: encode_u32_def put_defs decode_u32_def ucast_ucast_255)

interpretation u64_codec: field_codec encode_u64 decode_u64 "\<lambda>_. True"
  by unfold_locales (auto simp: encode_u64_def put_defs decode_u64_def ucast_ucast_255)

interpretation i8_codec: field_codec encode_i8 decode_i8 "\<lambda>_. True"
  by unfold_locales (auto simp: encode_i8_def put_defs decode_i8_def)

interpretation i16_codec: field_codec encode_i16 decode_i16 "\<lambda>_. True"
  by unfold_locales (auto simp: encode_i16_def put_defs decode_i16_def)

interpretation i32_codec: field_codec encode_i32 decode_i32 "\<lambda>_. True"
  by unfold_locales (auto simp: encode_i32_def put_defs decode_i32_def scast_ucast_small)

interpretation i64_codec: field_codec encode_i64 decode_i64 "\<lambda>_. True"
  by unfold_locales (auto simp: encode_i64_def put_defs decode_i64_def scast_ucast_small)

interpretation f32_codec: field_codec encode_f32 decode_f32 "\<lambda>_. True"
  by unfold_locales (auto simp: encode_f32_def put_defs decode_f32_def)

interpretation f64_codec: field_codec encode_f64 decode_f64 "\<lambda>_. True"
  by unfold_locales (auto simp: encode_f64_def put_defs decode_f64_def)

interpretation char_codec: field_codec encode_char decode_char is_scalar_value
  by unfold_locales (auto simp: encode_char_def put_defs decode_char_def char_from_u32_def)

interpretation uuid_codec: field_codec encode_uuid decode_uuid "\<lambda>u. length u = 16"
  by unfold_locales (auto simp: encode_uuid_def put_defs decode_uuid_def read_bytes_append)

interpretation string_codec: field_codec encode_str decode_string text_ok
  by unfold_locales
    (auto simp: encode_str_def decode_string_def text_ok_def var_ok_def utf8_string_def
      read_var_encode_var)

interpretation symbol_codec: field_codec encode_symbol decode_symbol text_ok
  by unfold_locales
    (auto simp: encode_symbol_def decode_symbol_def text_ok_def var_ok_def utf8_string_def
      read_var_encode_var)

interpretation binary_codec: field_codec encode_binary decode_binary var_ok
  by unfold_locales
    (auto simp: encode_binary_def decode_binary_def read_var_encode_var)

text \<open>The constructor byte that a choice between types looks at.\<close>

lemma peek_encoded_prim:
  "peek_code (encode_u64 n [] @ rest) = Some (if n = 0 then ULONG_0 else if n \<le> 255 then SMALL_ULONG else ULONG)"
  "peek_code (encode_uuid u [] @ rest) = Some UUID"
  "peek_code (encode_binary b [] @ rest) = Some (if length b \<le> 255 then VBIN8 else VBIN32)"
  "peek_code (encode_str s [] @ rest) = Some (if length s \<le> 255 then STR8 else STR32)"
  "peek_code (encode_symbol s [] @ rest) = Some (if length s \<le> 255 then SYM8 else SYM32)"
  by (simp_all add: encode_prim_defs put_defs)

end
