(* ===== verification/Codec_Value.thy ===== *)
theory Codec_Value
  imports Codec_Decode
begin

section \<open>Self-describing values (\<open>ramqp-core/src/codec/value.rs\<close>)\<close>

text \<open>
  The dynamic value type, its encoder (arrays included) and its depth-limited decoder. The
  encoder is recursive through lists, maps, arrays and described values; the helpers that the
  source writes as separate functions take the recursive call as an argument. The decoder is the
  mutual recursion of the source. It terminates because every recursive call for a nested value
  raises the depth and a depth above \<open>MAX_DEPTH\<close> is refused.
\<close>

datatype avalue =
    VNull
  | VBool bool
  | VUbyte u8
  | VUshort u16
  | VUint u32
  | VUlong u64
  | VByte i8
  | VShort i16
  | VInt i32
  | VLong i64
  | VFloat u32
  | VDouble u64
  | VDecimal32 bytes
  | VDecimal64 bytes
  | VDecimal128 bytes
  | VChar u32
  | VTimestamp i64
  | VUuid bytes
  | VBinary bytes
  | VString utf8
  | VSymbol utf8
  | VList "avalue list"
  | VMap "(avalue \<times> avalue) list"
  | VArray "avalue list"
  | VDescribed avalue avalue

subsection \<open>Encoding\<close>

definition encode_value_list :: "(avalue \<Rightarrow> bytes \<Rightarrow> bytes) \<Rightarrow> avalue list \<Rightarrow> bytes \<Rightarrow> bytes" where
  "encode_value_list enc items buf =
    (let (buf, s, c, start) = open_compound LIST32 buf;
         buf = fold enc items buf
     in close_compound s c start (of_nat (length items)) buf)"

definition array_emit :: "u8 \<Rightarrow> avalue list \<Rightarrow> (avalue \<Rightarrow> bytes \<Rightarrow> bytes) \<Rightarrow> bytes \<Rightarrow> bytes" where
  "array_emit ctor items f buf =
    (let (buf, s, c, start) = open_compound ARRAY32 buf;
         buf = put_u8 ctor buf;
         buf = fold f items buf
     in close_compound s c start (of_nat (length items)) buf)"

definition encode_compound_array :: "(avalue \<Rightarrow> bytes \<Rightarrow> bytes) \<Rightarrow> avalue list \<Rightarrow> bytes \<Rightarrow> bytes" where
  "encode_compound_array enc items buf =
    (case items of [] \<Rightarrow> buf
     | item0 # rest \<Rightarrow>
        let scratch = enc item0 [];
            ctor = hd scratch;
            (buf, s, c, start) = open_compound ARRAY32 buf;
            buf = put_slice (tl scratch) (put_u8 ctor buf);
            buf = fold (\<lambda>it buf. put_slice (tl (enc it [])) buf) rest buf
        in close_compound s c start (of_nat (length items)) buf)"

definition encode_described_array :: "(avalue \<Rightarrow> bytes \<Rightarrow> bytes) \<Rightarrow> avalue list \<Rightarrow> bytes \<Rightarrow> bytes" where
  "encode_described_array enc items buf =
    (case items of
       VDescribed d0 v0 # rest \<Rightarrow>
        let dbuf = enc d0 [];
            vbuf = enc v0 [];
            vctor = hd vbuf;
            (buf, s, c, start) = open_compound ARRAY32 buf;
            buf = put_slice (tl vbuf) (put_u8 vctor (put_slice dbuf (put_u8 DESCRIBED buf)));
            buf = fold (\<lambda>it buf. case it of VDescribed _ v \<Rightarrow> put_slice (tl (enc v [])) buf | _ \<Rightarrow> buf) rest buf
        in close_compound s c start (of_nat (length items)) buf
     | _ \<Rightarrow> encode_compound_array enc items buf)"

definition encode_value_array :: "(avalue \<Rightarrow> bytes \<Rightarrow> bytes) \<Rightarrow> avalue list \<Rightarrow> bytes \<Rightarrow> bytes" where
  "encode_value_array enc items buf =
    (case items of
       [] \<Rightarrow> let (buf, s, c, start) = open_compound ARRAY32 buf;
                  buf = put_u8 NULL buf
              in close_compound s c start 0 buf
     | item0 # _ \<Rightarrow> (case item0 of
         VSymbol _ \<Rightarrow> array_emit SYM32 items
           (\<lambda>v b. case v of VSymbol s \<Rightarrow> put_slice s (put_u32 (of_nat (length s)) b) | _ \<Rightarrow> b) buf
       | VString _ \<Rightarrow> array_emit STR32 items
           (\<lambda>v b. case v of VString s \<Rightarrow> put_slice s (put_u32 (of_nat (length s)) b) | _ \<Rightarrow> b) buf
       | VBinary _ \<Rightarrow> array_emit VBIN32 items
           (\<lambda>v b. case v of VBinary x \<Rightarrow> put_slice x (put_u32 (of_nat (length x)) b) | _ \<Rightarrow> b) buf
       | VUbyte _ \<Rightarrow> array_emit UBYTE items (\<lambda>v b. case v of VUbyte x \<Rightarrow> put_u8 x b | _ \<Rightarrow> b) buf
       | VUshort _ \<Rightarrow> array_emit USHORT items (\<lambda>v b. case v of VUshort x \<Rightarrow> put_u16 x b | _ \<Rightarrow> b) buf
       | VUint _ \<Rightarrow> array_emit UINT items (\<lambda>v b. case v of VUint x \<Rightarrow> put_u32 x b | _ \<Rightarrow> b) buf
       | VUlong _ \<Rightarrow> array_emit ULONG items (\<lambda>v b. case v of VUlong x \<Rightarrow> put_u64 x b | _ \<Rightarrow> b) buf
       | VInt _ \<Rightarrow> array_emit INT_code items (\<lambda>v b. case v of VInt x \<Rightarrow> put_u32 x b | _ \<Rightarrow> b) buf
       | VLong _ \<Rightarrow> array_emit LONG items (\<lambda>v b. case v of VLong x \<Rightarrow> put_u64 x b | _ \<Rightarrow> b) buf
       | VBool _ \<Rightarrow> array_emit BOOL items
           (\<lambda>v b. case v of VBool x \<Rightarrow> put_u8 (if x then 1 else 0) b | _ \<Rightarrow> b) buf
       | VFloat _ \<Rightarrow> array_emit FLOAT items (\<lambda>v b. case v of VFloat x \<Rightarrow> put_u32 x b | _ \<Rightarrow> b) buf
       | VDouble _ \<Rightarrow> array_emit DOUBLE items (\<lambda>v b. case v of VDouble x \<Rightarrow> put_u64 x b | _ \<Rightarrow> b) buf
       | VUuid _ \<Rightarrow> array_emit UUID items (\<lambda>v b. case v of VUuid x \<Rightarrow> put_slice x b | _ \<Rightarrow> b) buf
       | VTimestamp _ \<Rightarrow> array_emit TIMESTAMP items
           (\<lambda>v b. case v of VTimestamp x \<Rightarrow> put_u64 x b | _ \<Rightarrow> b) buf
       | VNull \<Rightarrow> array_emit NULL items (\<lambda>v b. b) buf
       | VByte _ \<Rightarrow> array_emit BYTE items (\<lambda>v b. case v of VByte x \<Rightarrow> put_u8 x b | _ \<Rightarrow> b) buf
       | VShort _ \<Rightarrow> array_emit SHORT items (\<lambda>v b. case v of VShort x \<Rightarrow> put_u16 x b | _ \<Rightarrow> b) buf
       | VChar _ \<Rightarrow> array_emit CHAR_code items (\<lambda>v b. case v of VChar x \<Rightarrow> put_u32 x b | _ \<Rightarrow> b) buf
       | VDecimal32 _ \<Rightarrow> array_emit DECIMAL32 items
           (\<lambda>v b. case v of VDecimal32 a \<Rightarrow> put_slice a b | _ \<Rightarrow> b) buf
       | VDecimal64 _ \<Rightarrow> array_emit DECIMAL64 items
           (\<lambda>v b. case v of VDecimal64 a \<Rightarrow> put_slice a b | _ \<Rightarrow> b) buf
       | VDecimal128 _ \<Rightarrow> array_emit DECIMAL128 items
           (\<lambda>v b. case v of VDecimal128 a \<Rightarrow> put_slice a b | _ \<Rightarrow> b) buf
       | VList _ \<Rightarrow> encode_compound_array enc items buf
       | VMap _ \<Rightarrow> encode_compound_array enc items buf
       | VArray _ \<Rightarrow> encode_compound_array enc items buf
       | VDescribed _ _ \<Rightarrow> encode_described_array enc items buf))"

text \<open>The helpers call the encoder on the elements (or on the parts of described elements) only.\<close>

lemma encode_value_list_cong [fundef_cong]:
  assumes "items = items'" "buf = buf'" "\<And>v b. v \<in> set items' \<Longrightarrow> enc v b = enc' v b"
  shows "encode_value_list enc items buf = encode_value_list enc' items' buf'"
proof -
  have "fold enc items' b = fold enc' items' b" for b
    using assms(3) by (intro fold_cong) (auto simp: fun_eq_iff)
  with assms(1,2) show ?thesis by (simp add: encode_value_list_def)
qed

lemma encode_map_entries_cong [fundef_cong]:
  assumes "es = es'" "buf = buf'"
    and "\<And>k v b. (k, v) \<in> set es' \<Longrightarrow> enc_k k b = enc_k' k b"
    and "\<And>k v b. (k, v) \<in> set es' \<Longrightarrow> enc_v v b = enc_v' v b"
  shows "encode_map_entries enc_k enc_v es buf = encode_map_entries enc_k' enc_v' es' buf'"
proof -
  have "fold (\<lambda>(k, v) (buf, count :: u32). (enc_v v (enc_k k buf), count + 2)) es' b =
        fold (\<lambda>(k, v) (buf, count). (enc_v' v (enc_k' k buf), count + 2)) es' b" for b
    using assms(3,4) by (intro fold_cong) (auto simp: fun_eq_iff)
  with assms(1,2) show ?thesis by (simp add: encode_map_entries_def)
qed

lemma encode_compound_array_cong [fundef_cong]:
  assumes "items = items'" "buf = buf'" "\<And>v b. v \<in> set items' \<Longrightarrow> enc v b = enc' v b"
  shows "encode_compound_array enc items buf = encode_compound_array enc' items' buf'"
proof (cases items')
  case (Cons x xs)
  have "fold (\<lambda>it buf. put_slice (tl (enc it [])) buf) xs b = fold (\<lambda>it buf. put_slice (tl (enc' it [])) buf) xs b" for b
    using assms(3) Cons by (intro fold_cong) (auto simp: fun_eq_iff)
  with assms Cons show ?thesis by (simp add: encode_compound_array_def)
qed (use assms in \<open>simp add: encode_compound_array_def\<close>)

lemma encode_described_array_cong [fundef_cong]:
  assumes "items = items'" "buf = buf'" "\<And>v b. v \<in> set items' \<Longrightarrow> enc v b = enc' v b"
    and "\<And>d v b. VDescribed d v \<in> set items' \<Longrightarrow> enc d b = enc' d b"
    and "\<And>d v b. VDescribed d v \<in> set items' \<Longrightarrow> enc v b = enc' v b"
  shows "encode_described_array enc items buf = encode_described_array enc' items' buf'"
proof (cases "\<exists>d0 v0 rest. items' = VDescribed d0 v0 # rest")
  case True
  then obtain d0 v0 rest where items: "items' = VDescribed d0 v0 # rest" by blast
  have d0: "enc d0 b = enc' d0 b" and v0: "enc v0 b = enc' v0 b" for b
    using assms(4) [of d0 v0] assms(5) [of d0 v0] by (auto simp: items)
  have sub: "VDescribed d v \<in> set rest \<Longrightarrow> enc v b = enc' v b" for d v b
    using assms(5) [of d v b] by (simp add: items)
  have "fold (\<lambda>it buf. case it of VDescribed _ v \<Rightarrow> put_slice (tl (enc v [])) buf | _ \<Rightarrow> buf) rest b =
        fold (\<lambda>it buf. case it of VDescribed _ v \<Rightarrow> put_slice (tl (enc' v [])) buf | _ \<Rightarrow> buf) rest b" for b
    using sub by (intro fold_cong) (auto simp: fun_eq_iff split: avalue.splits)
  with assms(1,2) d0 v0 show ?thesis by (simp add: encode_described_array_def items)
next
  case False
  then have "encode_described_array enc items' buf' = encode_compound_array enc items' buf'"
    "encode_described_array enc' items' buf' = encode_compound_array enc' items' buf'"
    by (auto simp: encode_described_array_def split: list.splits avalue.splits)
  with assms encode_compound_array_cong [OF assms(1-3)] show ?thesis by simp
qed

lemma encode_value_array_cong [fundef_cong]:
  assumes "items = items'" "buf = buf'" "\<And>v b. v \<in> set items' \<Longrightarrow> enc v b = enc' v b"
    and "\<And>d v b. VDescribed d v \<in> set items' \<Longrightarrow> enc d b = enc' d b"
    and "\<And>d v b. VDescribed d v \<in> set items' \<Longrightarrow> enc v b = enc' v b"
  shows "encode_value_array enc items buf = encode_value_array enc' items' buf'"
  using encode_compound_array_cong [OF assms(1-3)] encode_described_array_cong [OF assms]
  unfolding assms(1,2) encode_value_array_def by (auto split: list.splits avalue.splits)

lemma size_described_elem:
  assumes "VDescribed d v \<in> set items"
  shows "size d < Suc (size_list size items)" "size v < Suc (size_list size items)"
proof -
  have "size (VDescribed d v) \<le> size_list size items"
    using assms by (rule size_list_estimation') simp
  then show "size d < Suc (size_list size items)" "size v < Suc (size_list size items)" by auto
qed

lemma size_entry_elem:
  assumes "(k, v) \<in> set es"
  shows "size k < Suc (size_list (size_prod size size) es)" "size v < Suc (size_list (size_prod size size) es)"
proof -
  have "size_prod size size (k, v) \<le> size_list (size_prod size size) es"
    using assms by (rule size_list_estimation') simp
  then show "size k < Suc (size_list (size_prod size size) es)" "size v < Suc (size_list (size_prod size size) es)"
    by auto
qed

function encode_value :: "avalue \<Rightarrow> bytes \<Rightarrow> bytes" where
  "encode_value VNull buf = encode_null buf"
| "encode_value (VBool v) buf = encode_bool v buf"
| "encode_value (VUbyte v) buf = encode_u8 v buf"
| "encode_value (VUshort v) buf = encode_u16 v buf"
| "encode_value (VUint v) buf = encode_u32 v buf"
| "encode_value (VUlong v) buf = encode_u64 v buf"
| "encode_value (VByte v) buf = encode_i8 v buf"
| "encode_value (VShort v) buf = encode_i16 v buf"
| "encode_value (VInt v) buf = encode_i32 v buf"
| "encode_value (VLong v) buf = encode_i64 v buf"
| "encode_value (VFloat v) buf = encode_f32 v buf"
| "encode_value (VDouble v) buf = encode_f64 v buf"
| "encode_value (VDecimal32 a) buf = put_slice a (put_u8 DECIMAL32 buf)"
| "encode_value (VDecimal64 a) buf = put_slice a (put_u8 DECIMAL64 buf)"
| "encode_value (VDecimal128 a) buf = put_slice a (put_u8 DECIMAL128 buf)"
| "encode_value (VChar v) buf = encode_char v buf"
| "encode_value (VTimestamp ms) buf = put_u64 ms (put_u8 TIMESTAMP buf)"
| "encode_value (VUuid v) buf = encode_uuid v buf"
| "encode_value (VBinary v) buf = encode_binary v buf"
| "encode_value (VString v) buf = encode_str v buf"
| "encode_value (VSymbol v) buf = encode_symbol v buf"
| "encode_value (VList items) buf = encode_value_list encode_value items buf"
| "encode_value (VMap m) buf = encode_map_entries encode_value encode_value m buf"
| "encode_value (VArray items) buf = encode_value_array encode_value items buf"
| "encode_value (VDescribed d v) buf = encode_value v (encode_value d (put_u8 DESCRIBED buf))"
  by pat_completeness auto
termination
  by (relation "measure (\<lambda>(v, buf). size v)")
    (auto simp: less_Suc_eq_le size_list_estimation' size_described_elem size_entry_elem
      intro: size_list_estimation')

subsection \<open>Decoding\<close>

definition MAX_DEPTH :: nat where
  "MAX_DEPTH = 64"

definition MAX_ZERO_WIDTH_ARRAY :: nat where
  "MAX_ZERO_WIDTH_ARRAY = 1024"

definition zero_width :: "u8 \<Rightarrow> bool" where
  "zero_width c \<longleftrightarrow>
    c = NULL \<or> c = BOOL_TRUE \<or> c = BOOL_FALSE \<or> c = UINT_0 \<or> c = ULONG_0 \<or> c = LIST_0"

definition check_array_count :: "u32 \<Rightarrow> u8 \<Rightarrow> nat \<Rightarrow> decode_error + unit" where
  "check_array_count count elem_ctor remaining =
    (let limit = (if zero_width elem_ctor then MAX_ZERO_WIDTH_ARRAY else remaining)
     in if unat count > limit
        then Inl (InvalidValue (ArrayCountExceeds count limit elem_ctor remaining))
        else Inr ())"

text \<open>
  The mutually recursive decoder. \<open>decode_n\<close> and \<open>decode_bodies\<close> are the counted loops; the
  pairs of a map are read by \<open>decode_pairs\<close>.
\<close>

function (sequential)
      decode_value :: "nat \<Rightarrow> avalue decoder"
  and decode_value_body :: "u8 \<Rightarrow> nat \<Rightarrow> avalue decoder"
  and decode_n :: "nat \<Rightarrow> nat \<Rightarrow> avalue list decoder"
  and decode_map :: "u32 \<Rightarrow> nat \<Rightarrow> (avalue \<times> avalue) list decoder"
  and decode_pairs :: "nat \<Rightarrow> nat \<Rightarrow> (avalue \<times> avalue) list decoder"
  and decode_array :: "u32 \<Rightarrow> nat \<Rightarrow> avalue list decoder"
  and decode_bodies :: "u8 \<Rightarrow> nat \<Rightarrow> nat \<Rightarrow> avalue list decoder"
where
  "decode_value depth buf = rbind (read_u8 buf) (\<lambda>(code, buf). decode_value_body code depth buf)"
| "decode_value_body code depth buf =
    (if depth > MAX_DEPTH then Inl (NestingTooDeep MAX_DEPTH)
     else if code = NULL then Inr (VNull, buf)
     else if code = BOOL_TRUE then Inr (VBool True, buf)
     else if code = BOOL_FALSE then Inr (VBool False, buf)
     else if code = BOOL then rbind (read_u8 buf) (\<lambda>(n, buf).
       if n = 0 then Inr (VBool False, buf)
       else if n = 1 then Inr (VBool True, buf)
       else Inl (InvalidValue (InvalidBooleanByte n)))
     else if code = UBYTE then rbind (read_u8 buf) (\<lambda>(n, buf). Inr (VUbyte n, buf))
     else if code = BYTE then rbind (read_u8 buf) (\<lambda>(n, buf). Inr (VByte n, buf))
     else if code = USHORT then rbind (read_u16 buf) (\<lambda>(n, buf). Inr (VUshort n, buf))
     else if code = SHORT then rbind (read_u16 buf) (\<lambda>(n, buf). Inr (VShort n, buf))
     else if code = UINT_0 then Inr (VUint 0, buf)
     else if code = SMALL_UINT then rbind (read_u8 buf) (\<lambda>(n, buf). Inr (VUint (ucast n), buf))
     else if code = UINT then rbind (read_u32 buf) (\<lambda>(n, buf). Inr (VUint n, buf))
     else if code = ULONG_0 then Inr (VUlong 0, buf)
     else if code = SMALL_ULONG then rbind (read_u8 buf) (\<lambda>(n, buf). Inr (VUlong (ucast n), buf))
     else if code = ULONG then rbind (read_u64 buf) (\<lambda>(n, buf). Inr (VUlong n, buf))
     else if code = SMALL_INT then rbind (read_u8 buf) (\<lambda>(n, buf). Inr (VInt (scast n), buf))
     else if code = INT_code then rbind (read_u32 buf) (\<lambda>(n, buf). Inr (VInt n, buf))
     else if code = SMALL_LONG then rbind (read_u8 buf) (\<lambda>(n, buf). Inr (VLong (scast n), buf))
     else if code = LONG then rbind (read_u64 buf) (\<lambda>(n, buf). Inr (VLong n, buf))
     else if code = FLOAT then rbind (read_u32 buf) (\<lambda>(n, buf). Inr (VFloat n, buf))
     else if code = DOUBLE then rbind (read_u64 buf) (\<lambda>(n, buf). Inr (VDouble n, buf))
     else if code = DECIMAL32 then rbind (read_bytes 4 buf) (\<lambda>(a, buf). Inr (VDecimal32 a, buf))
     else if code = DECIMAL64 then rbind (read_bytes 8 buf) (\<lambda>(a, buf). Inr (VDecimal64 a, buf))
     else if code = DECIMAL128 then rbind (read_bytes 16 buf) (\<lambda>(a, buf). Inr (VDecimal128 a, buf))
     else if code = CHAR_code then rbind (read_u32 buf) (\<lambda>(n, buf).
       rbind (char_from_u32 n) (\<lambda>n. Inr (VChar n, buf)))
     else if code = TIMESTAMP then rbind (read_u64 buf) (\<lambda>(n, buf). Inr (VTimestamp n, buf))
     else if code = UUID then rbind (read_bytes 16 buf) (\<lambda>(a, buf). Inr (VUuid a, buf))
     else if code = VBIN8 then rbind (read_u8 buf) (\<lambda>(n, buf).
       rbind (read_bytes (unat n) buf) (\<lambda>(b, buf). Inr (VBinary b, buf)))
     else if code = VBIN32 then rbind (read_u32 buf) (\<lambda>(n, buf).
       rbind (read_bytes (unat n) buf) (\<lambda>(b, buf). Inr (VBinary b, buf)))
     else if code = STR8 then rbind (read_u8 buf) (\<lambda>(n, buf).
       rbind (read_bytes (unat n) buf) (\<lambda>(b, buf). rbind (utf8_string b ''string'') (\<lambda>s. Inr (VString s, buf))))
     else if code = STR32 then rbind (read_u32 buf) (\<lambda>(n, buf).
       rbind (read_bytes (unat n) buf) (\<lambda>(b, buf). rbind (utf8_string b ''string'') (\<lambda>s. Inr (VString s, buf))))
     else if code = SYM8 then rbind (read_u8 buf) (\<lambda>(n, buf).
       rbind (read_bytes (unat n) buf) (\<lambda>(b, buf). rbind (utf8_string b ''symbol'') (\<lambda>s. Inr (VSymbol s, buf))))
     else if code = SYM32 then rbind (read_u32 buf) (\<lambda>(n, buf).
       rbind (read_bytes (unat n) buf) (\<lambda>(b, buf). rbind (utf8_string b ''symbol'') (\<lambda>s. Inr (VSymbol s, buf))))
     else if code = LIST_0 then Inr (VList [], buf)
     else if code = LIST8 then rbind (header8 buf) (\<lambda>((count, b), buf).
       rbind (decode_n (unat count) (Suc depth) b) (\<lambda>(items, _). Inr (VList items, buf)))
     else if code = LIST32 then rbind (header32 buf) (\<lambda>((count, b), buf).
       rbind (decode_n (unat count) (Suc depth) b) (\<lambda>(items, _). Inr (VList items, buf)))
     else if code = MAP8 then rbind (header8 buf) (\<lambda>((count, b), buf).
       rbind (decode_map count (Suc depth) b) (\<lambda>(m, _). Inr (VMap m, buf)))
     else if code = MAP32 then rbind (header32 buf) (\<lambda>((count, b), buf).
       rbind (decode_map count (Suc depth) b) (\<lambda>(m, _). Inr (VMap m, buf)))
     else if code = ARRAY8 then rbind (header8 buf) (\<lambda>((count, b), buf).
       rbind (decode_array count (Suc depth) b) (\<lambda>(items, _). Inr (VArray items, buf)))
     else if code = ARRAY32 then rbind (header32 buf) (\<lambda>((count, b), buf).
       rbind (decode_array count (Suc depth) b) (\<lambda>(items, _). Inr (VArray items, buf)))
     else if code = DESCRIBED then rbind (decode_value (Suc depth) buf) (\<lambda>(d, buf).
       rbind (decode_value (Suc depth) buf) (\<lambda>(v, buf). Inr (VDescribed d v, buf)))
     else Inl (bad code ''any value''))"
| "decode_n count depth buf =
    (if count = 0 then Inr ([], buf)
     else rbind (decode_value depth buf) (\<lambda>(v, buf).
       rbind (decode_n (count - 1) depth buf) (\<lambda>(vs, buf). Inr (v # vs, buf))))"
| "decode_map count depth buf =
    (if odd (unat count) then Inl (InvalidValue (OddMapCount count))
     else decode_pairs (unat count div 2) depth buf)"
| "decode_pairs entries depth buf =
    (if entries = 0 then Inr ([], buf)
     else rbind (decode_value depth buf) (\<lambda>(k, buf). rbind (decode_value depth buf) (\<lambda>(v, buf).
       rbind (decode_pairs (entries - 1) depth buf) (\<lambda>(m, buf). Inr ((k, v) # m, buf)))))"
| "decode_array count depth buf =
    rbind (read_u8 buf) (\<lambda>(ctor, buf).
      if ctor = DESCRIBED then
        rbind (decode_value depth buf) (\<lambda>(descriptor, buf).
        rbind (read_u8 buf) (\<lambda>(elem_ctor, buf).
        rbind (check_array_count count elem_ctor (length buf)) (\<lambda>_.
        rbind (decode_bodies elem_ctor (unat count) depth buf) (\<lambda>(bodies, buf).
          Inr (map (VDescribed descriptor) bodies, buf)))))
      else
        rbind (check_array_count count ctor (length buf)) (\<lambda>_.
          decode_bodies ctor (unat count) depth buf))"
| "decode_bodies ctor count depth buf =
    (if count = 0 then Inr ([], buf)
     else rbind (decode_value_body ctor depth buf) (\<lambda>(v, buf).
       rbind (decode_bodies ctor (count - 1) depth buf) (\<lambda>(vs, buf). Inr (v # vs, buf))))"
  by pat_completeness auto
termination
  by (relation "measures
      [case_sum (case_sum (\<lambda>(d, _). 66 - d) (case_sum (\<lambda>(_, d, _). 66 - d) (\<lambda>(_, d, _). 66 - d)))
         (case_sum (case_sum (\<lambda>(_, d, _). 66 - d) (\<lambda>(_, d, _). 66 - d))
                   (case_sum (\<lambda>(_, d, _). 66 - d) (\<lambda>(_, _, d, _). 66 - d))),
       case_sum (case_sum (\<lambda>_. 1) (case_sum (\<lambda>_. 0) (\<lambda>_. 2)))
         (case_sum (case_sum (\<lambda>_. 3) (\<lambda>_. 2)) (case_sum (\<lambda>_. 3) (\<lambda>_. 2))),
       case_sum (case_sum (\<lambda>_. 0) (case_sum (\<lambda>_. 0) (\<lambda>(n, _, _). n)))
         (case_sum (case_sum (\<lambda>_. 0) (\<lambda>(n, _, _). n)) (case_sum (\<lambda>_. 0) (\<lambda>(_, n, _, _). n)))]")
    (auto simp: MAX_DEPTH_def)

declare decode_value.simps [simp del] decode_value_body.simps [simp del] decode_n.simps [simp del]
  decode_map.simps [simp del] decode_pairs.simps [simp del] decode_array.simps [simp del]
  decode_bodies.simps [simp del]

text \<open>The decoder at each constructor byte.\<close>

lemma decode_value_body_code:
  "depth \<le> MAX_DEPTH \<Longrightarrow> decode_value_body NULL depth buf = Inr (VNull, buf)"
  "depth \<le> MAX_DEPTH \<Longrightarrow> decode_value_body BOOL_TRUE depth buf = Inr (VBool True, buf)"
  "depth \<le> MAX_DEPTH \<Longrightarrow> decode_value_body BOOL_FALSE depth buf = Inr (VBool False, buf)"
  "depth \<le> MAX_DEPTH \<Longrightarrow> decode_value_body BOOL depth buf = (rbind (read_u8 buf) (\<lambda>(n, buf).
       if n = 0 then Inr (VBool False, buf)
       else if n = 1 then Inr (VBool True, buf)
       else Inl (InvalidValue (InvalidBooleanByte n))))"
  "depth \<le> MAX_DEPTH \<Longrightarrow> decode_value_body UBYTE depth buf = (rbind (read_u8 buf) (\<lambda>(n, buf). Inr (VUbyte n, buf)))"
  "depth \<le> MAX_DEPTH \<Longrightarrow> decode_value_body BYTE depth buf = (rbind (read_u8 buf) (\<lambda>(n, buf). Inr (VByte n, buf)))"
  "depth \<le> MAX_DEPTH \<Longrightarrow> decode_value_body USHORT depth buf = (rbind (read_u16 buf) (\<lambda>(n, buf). Inr (VUshort n, buf)))"
  "depth \<le> MAX_DEPTH \<Longrightarrow> decode_value_body SHORT depth buf = (rbind (read_u16 buf) (\<lambda>(n, buf). Inr (VShort n, buf)))"
  "depth \<le> MAX_DEPTH \<Longrightarrow> decode_value_body UINT_0 depth buf = Inr (VUint 0, buf)"
  "depth \<le> MAX_DEPTH \<Longrightarrow> decode_value_body SMALL_UINT depth buf = (rbind (read_u8 buf) (\<lambda>(n, buf). Inr (VUint (ucast n), buf)))"
  "depth \<le> MAX_DEPTH \<Longrightarrow> decode_value_body UINT depth buf = (rbind (read_u32 buf) (\<lambda>(n, buf). Inr (VUint n, buf)))"
  "depth \<le> MAX_DEPTH \<Longrightarrow> decode_value_body ULONG_0 depth buf = Inr (VUlong 0, buf)"
  "depth \<le> MAX_DEPTH \<Longrightarrow> decode_value_body SMALL_ULONG depth buf = (rbind (read_u8 buf) (\<lambda>(n, buf). Inr (VUlong (ucast n), buf)))"
  "depth \<le> MAX_DEPTH \<Longrightarrow> decode_value_body ULONG depth buf = (rbind (read_u64 buf) (\<lambda>(n, buf). Inr (VUlong n, buf)))"
  "depth \<le> MAX_DEPTH \<Longrightarrow> decode_value_body SMALL_INT depth buf = (rbind (read_u8 buf) (\<lambda>(n, buf). Inr (VInt (scast n), buf)))"
  "depth \<le> MAX_DEPTH \<Longrightarrow> decode_value_body INT_code depth buf = (rbind (read_u32 buf) (\<lambda>(n, buf). Inr (VInt n, buf)))"
  "depth \<le> MAX_DEPTH \<Longrightarrow> decode_value_body SMALL_LONG depth buf = (rbind (read_u8 buf) (\<lambda>(n, buf). Inr (VLong (scast n), buf)))"
  "depth \<le> MAX_DEPTH \<Longrightarrow> decode_value_body LONG depth buf = (rbind (read_u64 buf) (\<lambda>(n, buf). Inr (VLong n, buf)))"
  "depth \<le> MAX_DEPTH \<Longrightarrow> decode_value_body FLOAT depth buf = (rbind (read_u32 buf) (\<lambda>(n, buf). Inr (VFloat n, buf)))"
  "depth \<le> MAX_DEPTH \<Longrightarrow> decode_value_body DOUBLE depth buf = (rbind (read_u64 buf) (\<lambda>(n, buf). Inr (VDouble n, buf)))"
  "depth \<le> MAX_DEPTH \<Longrightarrow> decode_value_body DECIMAL32 depth buf = (rbind (read_bytes 4 buf) (\<lambda>(a, buf). Inr (VDecimal32 a, buf)))"
  "depth \<le> MAX_DEPTH \<Longrightarrow> decode_value_body DECIMAL64 depth buf = (rbind (read_bytes 8 buf) (\<lambda>(a, buf). Inr (VDecimal64 a, buf)))"
  "depth \<le> MAX_DEPTH \<Longrightarrow> decode_value_body DECIMAL128 depth buf = (rbind (read_bytes 16 buf) (\<lambda>(a, buf). Inr (VDecimal128 a, buf)))"
  "depth \<le> MAX_DEPTH \<Longrightarrow> decode_value_body CHAR_code depth buf = (rbind (read_u32 buf) (\<lambda>(n, buf).
       rbind (char_from_u32 n) (\<lambda>n. Inr (VChar n, buf))))"
  "depth \<le> MAX_DEPTH \<Longrightarrow> decode_value_body TIMESTAMP depth buf = (rbind (read_u64 buf) (\<lambda>(n, buf). Inr (VTimestamp n, buf)))"
  "depth \<le> MAX_DEPTH \<Longrightarrow> decode_value_body UUID depth buf = (rbind (read_bytes 16 buf) (\<lambda>(a, buf). Inr (VUuid a, buf)))"
  "depth \<le> MAX_DEPTH \<Longrightarrow> decode_value_body VBIN8 depth buf = (rbind (read_u8 buf) (\<lambda>(n, buf).
       rbind (read_bytes (unat n) buf) (\<lambda>(b, buf). Inr (VBinary b, buf))))"
  "depth \<le> MAX_DEPTH \<Longrightarrow> decode_value_body VBIN32 depth buf = (rbind (read_u32 buf) (\<lambda>(n, buf).
       rbind (read_bytes (unat n) buf) (\<lambda>(b, buf). Inr (VBinary b, buf))))"
  "depth \<le> MAX_DEPTH \<Longrightarrow> decode_value_body STR8 depth buf = (rbind (read_u8 buf) (\<lambda>(n, buf).
       rbind (read_bytes (unat n) buf) (\<lambda>(b, buf). rbind (utf8_string b ''string'') (\<lambda>s. Inr (VString s, buf)))))"
  "depth \<le> MAX_DEPTH \<Longrightarrow> decode_value_body STR32 depth buf = (rbind (read_u32 buf) (\<lambda>(n, buf).
       rbind (read_bytes (unat n) buf) (\<lambda>(b, buf). rbind (utf8_string b ''string'') (\<lambda>s. Inr (VString s, buf)))))"
  "depth \<le> MAX_DEPTH \<Longrightarrow> decode_value_body SYM8 depth buf = (rbind (read_u8 buf) (\<lambda>(n, buf).
       rbind (read_bytes (unat n) buf) (\<lambda>(b, buf). rbind (utf8_string b ''symbol'') (\<lambda>s. Inr (VSymbol s, buf)))))"
  "depth \<le> MAX_DEPTH \<Longrightarrow> decode_value_body SYM32 depth buf = (rbind (read_u32 buf) (\<lambda>(n, buf).
       rbind (read_bytes (unat n) buf) (\<lambda>(b, buf). rbind (utf8_string b ''symbol'') (\<lambda>s. Inr (VSymbol s, buf)))))"
  "depth \<le> MAX_DEPTH \<Longrightarrow> decode_value_body LIST_0 depth buf = Inr (VList [], buf)"
  "depth \<le> MAX_DEPTH \<Longrightarrow> decode_value_body LIST8 depth buf = (rbind (header8 buf) (\<lambda>((count, b), buf).
       rbind (decode_n (unat count) (Suc depth) b) (\<lambda>(items, _). Inr (VList items, buf))))"
  "depth \<le> MAX_DEPTH \<Longrightarrow> decode_value_body LIST32 depth buf = (rbind (header32 buf) (\<lambda>((count, b), buf).
       rbind (decode_n (unat count) (Suc depth) b) (\<lambda>(items, _). Inr (VList items, buf))))"
  "depth \<le> MAX_DEPTH \<Longrightarrow> decode_value_body MAP8 depth buf = (rbind (header8 buf) (\<lambda>((count, b), buf).
       rbind (decode_map count (Suc depth) b) (\<lambda>(m, _). Inr (VMap m, buf))))"
  "depth \<le> MAX_DEPTH \<Longrightarrow> decode_value_body MAP32 depth buf = (rbind (header32 buf) (\<lambda>((count, b), buf).
       rbind (decode_map count (Suc depth) b) (\<lambda>(m, _). Inr (VMap m, buf))))"
  "depth \<le> MAX_DEPTH \<Longrightarrow> decode_value_body ARRAY8 depth buf = (rbind (header8 buf) (\<lambda>((count, b), buf).
       rbind (decode_array count (Suc depth) b) (\<lambda>(items, _). Inr (VArray items, buf))))"
  "depth \<le> MAX_DEPTH \<Longrightarrow> decode_value_body ARRAY32 depth buf = (rbind (header32 buf) (\<lambda>((count, b), buf).
       rbind (decode_array count (Suc depth) b) (\<lambda>(items, _). Inr (VArray items, buf))))"
  "depth \<le> MAX_DEPTH \<Longrightarrow> decode_value_body DESCRIBED depth buf = (rbind (decode_value (Suc depth) buf) (\<lambda>(d, buf).
       rbind (decode_value (Suc depth) buf) (\<lambda>(v, buf). Inr (VDescribed d v, buf))))"
  by (simp_all add: decode_value_body.simps [of _ depth buf] not_less)

lemma decode_value_Cons: "decode_value depth (c # bs) = decode_value_body c depth bs"
  by (simp add: decode_value.simps)

lemma decode_loop_simps:
  "decode_n 0 depth buf = Inr ([], buf)"
  "decode_n (Suc n) depth buf = rbind (decode_value depth buf) (\<lambda>(v, buf).
     rbind (decode_n n depth buf) (\<lambda>(vs, buf). Inr (v # vs, buf)))"
  "decode_pairs 0 depth buf = Inr ([], buf)"
  "decode_pairs (Suc n) depth buf = rbind (decode_value depth buf) (\<lambda>(k, buf).
     rbind (decode_value depth buf) (\<lambda>(v, buf).
     rbind (decode_pairs n depth buf) (\<lambda>(m, buf). Inr ((k, v) # m, buf))))"
  "decode_bodies c 0 depth buf = Inr ([], buf)"
  "decode_bodies c (Suc n) depth buf = rbind (decode_value_body c depth buf) (\<lambda>(v, buf).
     rbind (decode_bodies c n depth buf) (\<lambda>(vs, buf). Inr (v # vs, buf)))"
  by (simp_all add: decode_n.simps [of _ depth buf] decode_pairs.simps [of _ depth buf]
      decode_bodies.simps [of _ _ depth buf])

end
