(* ===== verification/Codec_Value_Laws.thy ===== *)
theory Codec_Value_Laws
  imports Codec_Value
begin

section \<open>Laws of the value codec\<close>

text \<open>
  Three groups of facts about \<open>encode_value\<close> and \<open>decode_value\<close>: the closed-form layout of
  the buffer encoder, the round trip for every representable value, and what holds of every
  input the decoder accepts, hostile ones included (bounded nesting, progress, no read past the
  cursor).
\<close>

subsection \<open>Layout of the encodings\<close>

lemma encode_value_list_layout:
  assumes "\<And>v b. v \<in> set items \<Longrightarrow> enc v b = b @ enc v []"
  shows "encode_value_list enc items buf =
    buf @ compound_layout LIST32 (of_nat (length items)) (concat (map (\<lambda>v. enc v []) items))"
proof -
  obtain buf' s c start where o: "open_compound LIST32 buf = (buf', s, c, start)"
    by (cases "open_compound LIST32 buf") auto
  have "fold enc items buf' = buf' @ concat (map (\<lambda>v. enc v []) items)"
    by (rule fold_append_concat) (rule assms)
  then show ?thesis
    using close_open_compound [OF o] by (simp add: encode_value_list_def o)
qed

lemma array_emit_layout:
  assumes "\<And>v b. v \<in> set items \<Longrightarrow> f v b = b @ g v"
  shows "array_emit ctor items f buf =
    buf @ compound_layout ARRAY32 (of_nat (length items)) (ctor # concat (map g items))"
proof -
  obtain buf' s c start where o: "open_compound ARRAY32 buf = (buf', s, c, start)"
    by (cases "open_compound ARRAY32 buf") auto
  have "fold f items (buf' @ [ctor]) = (buf' @ [ctor]) @ concat (map g items)"
    by (rule fold_append_concat) (rule assms)
  then show ?thesis
    using close_open_compound [OF o] by (simp add: array_emit_def o put_u8_def)
qed

lemma encode_compound_array_layout:
  assumes "items = x # xs"
  shows "encode_compound_array enc items buf =
    buf @ compound_layout ARRAY32 (of_nat (length items)) (hd (enc x []) # concat (map (\<lambda>v. tl (enc v [])) items))"
proof -
  obtain buf' s c start where o: "open_compound ARRAY32 buf = (buf', s, c, start)"
    by (cases "open_compound ARRAY32 buf") auto
  have f: "fold (\<lambda>it. put_slice (tl (enc it []))) xs b = b @ concat (map (\<lambda>v. tl (enc v [])) xs)" for b
    by (rule fold_append_concat) (simp add: put_slice_def)
  show ?thesis
    using close_open_compound [OF o]
    by (simp add: encode_compound_array_def o f put_u8_def put_slice_def assms Let_def)
qed

definition described_part :: "(avalue \<Rightarrow> bytes) \<Rightarrow> avalue \<Rightarrow> bytes" where
  "described_part f it = (case it of VDescribed _ v \<Rightarrow> f v | _ \<Rightarrow> [])"

lemma encode_described_array_layout:
  assumes "items = VDescribed d0 v0 # xs"
  shows "encode_described_array enc items buf =
    buf @ compound_layout ARRAY32 (of_nat (length items))
      (DESCRIBED # enc d0 [] @ hd (enc v0 []) # concat (map (described_part (\<lambda>v. tl (enc v []))) items))"
proof -
  obtain buf' s c start where o: "open_compound ARRAY32 buf = (buf', s, c, start)"
    by (cases "open_compound ARRAY32 buf") auto
  have f: "fold (\<lambda>it buf. case it of VDescribed _ v \<Rightarrow> put_slice (tl (enc v [])) buf | _ \<Rightarrow> buf) xs b
      = b @ concat (map (described_part (\<lambda>v. tl (enc v []))) xs)" for b
    by (rule fold_append_concat) (simp add: put_slice_def described_part_def split: avalue.split)
  show ?thesis
    using close_open_compound [OF o]
    by (simp add: encode_described_array_def o f assms put_u8_def put_slice_def described_part_def [of _ "VDescribed _ _"] Let_def)
qed

text \<open>The wide constructor that an array of scalars shares, and the bare body of one element.\<close>

definition wide_ctor :: "avalue \<Rightarrow> u8" where
  "wide_ctor v = (case v of
      VNull \<Rightarrow> NULL | VBool _ \<Rightarrow> BOOL | VUbyte _ \<Rightarrow> UBYTE | VUshort _ \<Rightarrow> USHORT | VUint _ \<Rightarrow> UINT
    | VUlong _ \<Rightarrow> ULONG | VByte _ \<Rightarrow> BYTE | VShort _ \<Rightarrow> SHORT | VInt _ \<Rightarrow> INT_code | VLong _ \<Rightarrow> LONG
    | VFloat _ \<Rightarrow> FLOAT | VDouble _ \<Rightarrow> DOUBLE | VDecimal32 _ \<Rightarrow> DECIMAL32 | VDecimal64 _ \<Rightarrow> DECIMAL64
    | VDecimal128 _ \<Rightarrow> DECIMAL128 | VChar _ \<Rightarrow> CHAR_code | VTimestamp _ \<Rightarrow> TIMESTAMP | VUuid _ \<Rightarrow> UUID
    | VBinary _ \<Rightarrow> VBIN32 | VString _ \<Rightarrow> STR32 | VSymbol _ \<Rightarrow> SYM32 | VList _ \<Rightarrow> LIST32 | VMap _ \<Rightarrow> MAP32
    | VArray _ \<Rightarrow> ARRAY32 | VDescribed _ _ \<Rightarrow> DESCRIBED)"

definition wide_body :: "avalue \<Rightarrow> bytes" where
  "wide_body v = (case v of
      VNull \<Rightarrow> [] | VBool b \<Rightarrow> [if b then 1 else 0] | VUbyte n \<Rightarrow> [n] | VUshort n \<Rightarrow> to_be_bytes 2 n
    | VUint n \<Rightarrow> to_be_bytes 4 n | VUlong n \<Rightarrow> to_be_bytes 8 n | VByte n \<Rightarrow> [n] | VShort n \<Rightarrow> to_be_bytes 2 n
    | VInt n \<Rightarrow> to_be_bytes 4 n | VLong n \<Rightarrow> to_be_bytes 8 n | VFloat n \<Rightarrow> to_be_bytes 4 n
    | VDouble n \<Rightarrow> to_be_bytes 8 n | VDecimal32 a \<Rightarrow> a | VDecimal64 a \<Rightarrow> a | VDecimal128 a \<Rightarrow> a
    | VChar n \<Rightarrow> to_be_bytes 4 n | VTimestamp n \<Rightarrow> to_be_bytes 8 n | VUuid a \<Rightarrow> a
    | VBinary a \<Rightarrow> to_be_bytes 4 (of_nat (length a) :: u32) @ a
    | VString a \<Rightarrow> to_be_bytes 4 (of_nat (length a) :: u32) @ a
    | VSymbol a \<Rightarrow> to_be_bytes 4 (of_nat (length a) :: u32) @ a
    | _ \<Rightarrow> tl (encode_value v []))"

definition scalar :: "avalue \<Rightarrow> bool" where
  "scalar v = (case v of VList _ \<Rightarrow> False | VMap _ \<Rightarrow> False | VArray _ \<Rightarrow> False | VDescribed _ _ \<Rightarrow> False | _ \<Rightarrow> True)"

text \<open>Elements of one array have the same wide constructor, that is, the same type.\<close>

definition homogeneous :: "avalue list \<Rightarrow> bool" where
  "homogeneous items \<longleftrightarrow> (\<forall>v \<in> set items. wide_ctor v = wide_ctor (hd items))"

lemma array_emit_wide:
  assumes "homogeneous (x # xs)" and "\<And>v b. wide_ctor v = wide_ctor x \<Longrightarrow> f v b = b @ wide_body v"
    and "c = wide_ctor x"
  shows "array_emit c (x # xs) f buf = buf @ compound_layout ARRAY32 (of_nat (length (x # xs)))
    (wide_ctor x # concat (map wide_body (x # xs)))"
  unfolding assms(3) by (rule array_emit_layout, rule assms(2)) (use assms(1) in \<open>auto simp: homogeneous_def\<close>)

lemma encode_value_array_scalar:
  assumes "homogeneous (x # xs)" "scalar x"
  shows "encode_value_array enc (x # xs) buf = buf @ compound_layout ARRAY32 (of_nat (length (x # xs)))
    (wide_ctor x # concat (map wide_body (x # xs)))"
  unfolding encode_value_array_def list.case
  by (insert assms, cases x; simp only: avalue.case scalar_def simp_thms; (erule FalseE)?; rule array_emit_wide;
      assumption?; case_tac "v :: avalue"; simp add: wide_ctor_def wide_body_def put_defs)

text \<open>Whatever the elements, an array is one size-prefixed compound with one element constructor.\<close>

lemma array_emit_ex:
  assumes "\<And>v b. f v b = b @ f v []"
  shows "\<exists>body. \<forall>buf. array_emit c items f buf = buf @ compound_layout ARRAY32 (of_nat (length items)) body"
  using array_emit_layout [of items f "\<lambda>v. f v []" c] assms by blast

lemma encode_compound_array_ex:
  "\<exists>body. \<forall>buf. encode_compound_array enc (x # xs) buf = buf @ compound_layout ARRAY32 (of_nat (length (x # xs))) body"
  using encode_compound_array_layout [OF refl] by blast

lemma encode_described_array_ex:
  "\<exists>body. \<forall>buf. encode_described_array enc (VDescribed d v # xs) buf =
    buf @ compound_layout ARRAY32 (of_nat (length (VDescribed d v # xs))) body"
  using encode_described_array_layout [OF refl] by blast

lemma encode_value_array_ex:
  "\<exists>body. \<forall>buf. encode_value_array enc items buf = buf @ compound_layout ARRAY32 (of_nat (length items)) body"
proof (cases items)
  case Nil
  then show ?thesis
    using array_emit_layout [of "[]" "\<lambda>v b. b" "\<lambda>v. []" NULL]
    by (auto simp add: encode_value_array_def array_emit_def)
next
  case (Cons x xs)
  show ?thesis
    unfolding encode_value_array_def Cons
    by (cases x; simp only: list.case avalue.case;
        (rule encode_compound_array_ex | rule encode_described_array_ex | rule array_emit_ex);
        (simp add: put_defs split: avalue.split)?)
qed

lemma encode_value_array_appends:
  "encode_value_array enc items buf = buf @ encode_value_array enc items []"
  using encode_value_array_ex [of enc items] by auto

lemma encode_value_appends: "encode_value v buf = buf @ encode_value v []"
proof (induction v arbitrary: buf)
  case (VList items)
  have "encode_value_list encode_value items b = b @ compound_layout LIST32 (of_nat (length items))
      (concat (map (\<lambda>v. encode_value v []) items))" for b
    using VList by (rule encode_value_list_layout)
  then show ?case by simp
next
  case (VMap m)
  have "encode_map_entries encode_value encode_value m b = b @ compound_layout MAP32 (2 * of_nat (length m))
      (concat (map (\<lambda>(k, v). encode_value k [] @ encode_value v []) m))" for b
  proof (rule encode_map_entries_layout_on)
    fix k v b assume "(k, v) \<in> set m"
    then show "encode_value k b = b @ encode_value k []" "encode_value v b = b @ encode_value v []"
      by (rule VMap; simp)+
  qed
  then show ?case by simp
next
  case (VArray items)
  show ?case unfolding encode_value.simps by (rule encode_value_array_appends)
next
  case (VDescribed d v)
  show ?case unfolding encode_value.simps
    by (metis VDescribed append.assoc append_Nil put_u8_def)
qed (simp_all add: encode_null_def encode_prim_defs put_defs)

interpretation value_enc: encoder encode_value
  by unfold_locales (rule encode_value_appends)

lemmas encode_value_list_eq = encode_value_list_layout [where enc = encode_value, OF value_enc.appends]

lemma encode_value_VList:
  "encode_value (VList items) [] =
    compound_layout LIST32 (of_nat (length items)) (concat (map (\<lambda>v. encode_value v []) items))"
  by (simp add: encode_value_list_eq)

lemma encode_value_VMap:
  "encode_value (VMap m) [] = compound_layout MAP32 (2 * of_nat (length m))
    (concat (map (\<lambda>(k, v). encode_value k [] @ encode_value v []) m))"
  by (simp add: encode_map_entries_layout value_enc.encoder_axioms)

lemma encode_value_VDescribed:
  "encode_value (VDescribed d v) [] = DESCRIBED # encode_value d [] @ encode_value v []"
  by (simp add: put_u8_def) (metis append.assoc append_Cons append_Nil value_enc.appends)

lemma encode_value_VArray_Nil:
  "encode_value (VArray []) [] = compound_layout ARRAY32 0 [NULL]"
  using array_emit_layout [of "[]" "\<lambda>v b. b" "\<lambda>v. []" NULL "[]"]
  by (simp add: encode_value_array_def array_emit_def)

lemma encode_value_VArray_compound:
  "items = x # xs \<Longrightarrow> \<not> scalar x \<Longrightarrow> (\<nexists>d v. x = VDescribed d v) \<Longrightarrow>
    encode_value (VArray items) [] = compound_layout ARRAY32 (of_nat (length items))
      (hd (encode_value x []) # concat (map (\<lambda>v. tl (encode_value v [])) items))"
  using encode_compound_array_layout [of items x xs encode_value "[]"]
  by (cases x) (simp_all add: encode_value_array_def scalar_def)

lemma encode_value_VArray_described:
  "items = VDescribed d v # xs \<Longrightarrow>
    encode_value (VArray items) [] = compound_layout ARRAY32 (of_nat (length items))
      (DESCRIBED # encode_value d [] @ hd (encode_value v []) #
       concat (map (described_part (\<lambda>v. tl (encode_value v []))) items))"
  using encode_described_array_layout [of items d v xs encode_value "[]"]
  by (simp add: encode_value_array_def)

lemma encode_value_VArray:
  "\<exists>body. encode_value (VArray items) [] = compound_layout ARRAY32 (of_nat (length items)) body"
  using encode_value_array_ex [of encode_value items] by auto

lemma encode_value_nonempty [simp]: "encode_value v [] \<noteq> []"
proof (cases v)
  case (VArray items)
  then show ?thesis using encode_value_VArray [of items] by (auto simp: compound_layout_def simp del: encode_value.simps)
qed (auto simp: encode_prim_defs encode_null_def put_defs encode_value_VList encode_value_VMap compound_layout_def
      simp del: encode_value.simps(22,23) encode_value.simps(25) simp: encode_value_VDescribed)

subsection \<open>Round trip\<close>

text \<open>
  The values that the wire format can carry and the decoder accepts: fixed-width payloads of
  the right length, text that is UTF-8, compounds whose size field does not wrap, and arrays
  whose elements share one constructor. An array of described values has one descriptor and one
  value constructor for all elements; an array of elements without a body is capped by the
  decoder.
\<close>

definition fits :: "bytes \<Rightarrow> bool" where
  "fits enc \<longleftrightarrow> length enc < 2 ^ 32 + 5"

definition described_as :: "avalue \<Rightarrow> u8 \<Rightarrow> avalue \<Rightarrow> bool" where
  "described_as d c it = (case it of VDescribed d' v \<Rightarrow> d' = d \<and> hd (encode_value v []) = c | _ \<Rightarrow> False)"

definition array_shape :: "avalue list \<Rightarrow> bool" where
  "array_shape items = (case items of
      [] \<Rightarrow> True
    | VDescribed d v # _ \<Rightarrow>
        (let c = hd (encode_value v []) in
         (\<forall>it \<in> set items. described_as d c it) \<and> (zero_width c \<longrightarrow> length items \<le> MAX_ZERO_WIDTH_ARRAY))
    | VNull # _ \<Rightarrow> homogeneous items \<and> length items \<le> MAX_ZERO_WIDTH_ARRAY
    | _ \<Rightarrow> homogeneous items)"

function encodable :: "avalue \<Rightarrow> bool" where
  "encodable VNull = True"
| "encodable (VBool _) = True"
| "encodable (VUbyte _) = True"
| "encodable (VUshort _) = True"
| "encodable (VUint _) = True"
| "encodable (VUlong _) = True"
| "encodable (VByte _) = True"
| "encodable (VShort _) = True"
| "encodable (VInt _) = True"
| "encodable (VLong _) = True"
| "encodable (VFloat _) = True"
| "encodable (VDouble _) = True"
| "encodable (VDecimal32 a) = (length a = 4)"
| "encodable (VDecimal64 a) = (length a = 8)"
| "encodable (VDecimal128 a) = (length a = 16)"
| "encodable (VChar c) = is_scalar_value c"
| "encodable (VTimestamp _) = True"
| "encodable (VUuid a) = (length a = 16)"
| "encodable (VBinary a) = var_ok a"
| "encodable (VString a) = text_ok a"
| "encodable (VSymbol a) = text_ok a"
| "encodable (VList items) = ((\<forall>v \<in> set items. encodable v) \<and> fits (encode_value (VList items) []))"
| "encodable (VMap m) = ((\<forall>(k, v) \<in> set m. encodable k \<and> encodable v) \<and> fits (encode_value (VMap m) []))"
| "encodable (VArray items) =
    ((\<forall>v \<in> set items. encodable v) \<and> array_shape items \<and> fits (encode_value (VArray items) []))"
| "encodable (VDescribed d v) = (encodable d \<and> encodable v)"
  by pat_completeness auto
termination
  by (relation "measure size") (auto simp: less_Suc_eq_le size_entry_elem intro: size_list_estimation')

text \<open>
  How many levels below its own depth a value makes the decoder go. The elements of an array of
  described values are read at the depth of the array's body, without a level of their own.
\<close>

function (sequential) nesting :: "avalue \<Rightarrow> nat" where
  "nesting (VList items) = foldr max (map (\<lambda>v. Suc (nesting v)) items) 0"
| "nesting (VMap m) = foldr max (map (\<lambda>(k, v). Suc (max (nesting k) (nesting v))) m) 0"
| "nesting (VArray items) =
    foldr max (map (\<lambda>v. case v of VDescribed _ _ \<Rightarrow> nesting v | _ \<Rightarrow> Suc (nesting v)) items) 0"
| "nesting (VDescribed d v) = Suc (max (nesting d) (nesting v))"
| "nesting _ = 0"
  by pat_completeness auto
termination
  by (relation "measure size") (auto simp: less_Suc_eq_le size_entry_elem intro: size_list_estimation')

lemma foldr_max_le_iff: "foldr max xs 0 \<le> (n :: nat) \<longleftrightarrow> (\<forall>x \<in> set xs. x \<le> n)"
  by (induction xs) auto

lemma decode_n_encode:
  assumes "\<And>v rest. v \<in> set vs \<Longrightarrow> decode_value depth (enc v @ rest) = Inr (v, rest)"
  shows "decode_n (length vs) depth (concat (map enc vs) @ rest) = Inr (vs, rest)"
  using assms by (induction vs arbitrary: rest) (simp_all add: decode_loop_simps)

lemma decode_pairs_encode:
  assumes "\<And>k v rest. (k, v) \<in> set m \<Longrightarrow> decode_value depth (enc k @ rest) = Inr (k, rest)"
    and "\<And>k v rest. (k, v) \<in> set m \<Longrightarrow> decode_value depth (enc v @ rest) = Inr (v, rest)"
  shows "decode_pairs (length m) depth (concat (map (\<lambda>(k, v). enc k @ enc v) m) @ rest) = Inr (m, rest)"
  using assms
proof (induction m arbitrary: rest)
  case (Cons e m)
  obtain k v where e: "e = (k, v)" by (cases e)
  have IH: "decode_pairs (length m) depth (concat (map (\<lambda>(k, v). enc k @ enc v) m) @ rest) = Inr (m, rest)"
    by (rule Cons.IH) (meson Cons.prems list.set_intros(2))+
  have "decode_value depth (enc k @ r) = Inr (k, r)" "decode_value depth (enc v @ r) = Inr (v, r)" for r
    using Cons.prems(1) [of k v r] Cons.prems(2) [of k v r] by (simp_all add: e)
  with IH show ?case by (simp add: e decode_loop_simps)
qed (simp add: decode_loop_simps)

lemma decode_bodies_encode:
  assumes "\<And>v rest. v \<in> set vs \<Longrightarrow> decode_value_body c depth (g v @ rest) = Inr (f v, rest)"
  shows "decode_bodies c (length vs) depth (concat (map g vs) @ rest) = Inr (map f vs, rest)"
  using assms by (induction vs arbitrary: rest) (simp_all add: decode_loop_simps)

lemma read_bytes_len:
  "length bs = n \<Longrightarrow> read_bytes n (bs @ rest) = Inr (bs, rest)"
  "length bs < 2 ^ 32 \<Longrightarrow> read_bytes (unat (of_nat (length bs) :: u32)) (bs @ rest) = Inr (bs, rest)"
  "length bs \<le> 255 \<Longrightarrow> read_bytes (unat (of_nat (length bs) :: u8)) (bs @ rest) = Inr (bs, rest)"
  by (auto simp: read_bytes_append unat_of_nat_u32 unsigned_of_nat take_bit_nat_eq_self)

lemmas decode_scalar_simps =
  decode_value_Cons decode_value_body_code read_bytes_len ucast_ucast_255 scast_ucast_small
  char_from_u32_def utf8_string_def var_ok_def text_ok_def

lemma decode_scalar_value:
  assumes "scalar v" "encodable v" "depth \<le> MAX_DEPTH"
  shows "decode_value depth (encode_value v [] @ rest) = Inr (v, rest)"
  using assms
  by (cases v) (auto simp: scalar_def encode_prim_defs encode_null_def put_defs decode_scalar_simps)

lemma decode_scalar_body:
  assumes "scalar v" "encodable v" "depth \<le> MAX_DEPTH"
  shows "decode_value_body (wide_ctor v) depth (wide_body v @ rest) = Inr (v, rest)"
  using assms
  by (cases v) (auto simp: scalar_def wide_ctor_def wide_body_def decode_scalar_simps)

lemma wide_body_nonempty: "scalar v \<Longrightarrow> encodable v \<Longrightarrow> v \<noteq> VNull \<Longrightarrow> 0 < length (wide_body v)"
  by (cases v) (auto simp: scalar_def wide_body_def)

lemma fits_compound [simp]: "fits (compound_layout c n body) \<longleftrightarrow> length body + 4 < 2 ^ 32"
  by (auto simp: fits_def)

lemma decode_compound:
  assumes "depth \<le> MAX_DEPTH" "length body + 4 < 2 ^ 32"
  shows "decode_value depth (compound_layout LIST32 n body @ rest) =
      rbind (decode_n (unat n) (Suc depth) body) (\<lambda>(items, _). Inr (VList items, rest))"
    and "decode_value depth (compound_layout MAP32 n body @ rest) =
      rbind (decode_map n (Suc depth) body) (\<lambda>(m, _). Inr (VMap m, rest))"
    and "decode_value depth (compound_layout ARRAY32 n body @ rest) =
      rbind (decode_array n (Suc depth) body) (\<lambda>(items, _). Inr (VArray items, rest))"
  using header32_layout [OF assms(2), of n rest] assms(1)
  unfolding compound_layout_def append_Cons decode_value_Cons append_assoc
  by (simp_all add: decode_value_body_code)

lemma decode_value_body_encode:
  "decode_value_body (hd (encode_value v [])) depth (tl (encode_value v []) @ rest) = decode_value depth (encode_value v [] @ rest)"
  by (metis append_Cons decode_value_Cons encode_value_nonempty list.collapse)

lemma roundtrip_list:
  assumes "\<And>v rest. v \<in> set items \<Longrightarrow> decode_value (Suc depth) (encode_value v [] @ rest) = Inr (v, rest)"
    and "encodable (VList items)" "depth \<le> MAX_DEPTH"
  shows "decode_value depth (encode_value (VList items) [] @ rest) = Inr (VList items, rest)"
proof -
  let ?body = "concat (map (\<lambda>v. encode_value v []) items)"
  have len: "length ?body + 4 < 2 ^ 32"
    using assms(2) unfolding encodable.simps encode_value_VList fits_compound by blast
  then have "unat (of_nat (length items) :: u32) = length items"
    using concat_map_length_ge [of items "\<lambda>v. encode_value v []"] by (intro unat_of_nat_u32) simp
  moreover have "decode_n (length items) (Suc depth) ?body = Inr (items, [])"
    using decode_n_encode [of items "Suc depth" "\<lambda>v. encode_value v []" "[]"] assms(1) by simp
  ultimately show ?thesis
    unfolding encode_value_VList decode_compound [OF assms(3) len] by simp
qed

lemma roundtrip_map:
  assumes "\<And>k v rest. (k, v) \<in> set m \<Longrightarrow> decode_value (Suc depth) (encode_value k [] @ rest) = Inr (k, rest)"
    and "\<And>k v rest. (k, v) \<in> set m \<Longrightarrow> decode_value (Suc depth) (encode_value v [] @ rest) = Inr (v, rest)"
    and "encodable (VMap m)" "depth \<le> MAX_DEPTH"
  shows "decode_value depth (encode_value (VMap m) [] @ rest) = Inr (VMap m, rest)"
proof -
  let ?f = "\<lambda>(k, v). encode_value k [] @ encode_value v []"
  let ?body = "concat (map ?f m)"
  have len: "length ?body + 4 < 2 ^ 32"
    using assms(3) unfolding encodable.simps encode_value_VMap fits_compound by blast
  have two: "2 * length m \<le> length ?body"
  proof (induction m)
    case (Cons e m)
    then show ?case
      using encode_value_nonempty [of "fst e"] encode_value_nonempty [of "snd e"]
      by (cases "encode_value (fst e) []"; cases "encode_value (snd e) []") (auto simp: split_beta)
  qed simp
  have "(2 * of_nat (length m) :: u32) = of_nat (2 * length m)" by simp
  then have cnt: "unat (2 * of_nat (length m) :: u32) = 2 * length m"
    using two len unat_of_nat_u32 [of "2 * length m"] by simp
  have "decode_pairs (length m) (Suc depth) ?body = Inr (m, [])"
    using decode_pairs_encode [of m "Suc depth" "\<lambda>v. encode_value v []" "[]", OF assms(1,2)] by simp
  then show ?thesis
    unfolding encode_value_VMap decode_compound [OF assms(4) len] decode_map.simps [of _ "Suc depth" ?body] cnt
    by simp
qed

lemma wide_ctor_not_described: "wide_ctor v = DESCRIBED \<longleftrightarrow> (\<exists>d x. v = VDescribed d x)"
  by (cases v) (auto simp: wide_ctor_def)

lemma wide_ctor_zero_width: "zero_width (wide_ctor v) \<longleftrightarrow> v = VNull"
  by (cases v) (auto simp: wide_ctor_def zero_width_def)

lemma wide_ctor_scalar: "scalar v \<longleftrightarrow> wide_ctor v \<notin> {LIST32, MAP32, ARRAY32, DESCRIBED}"
  by (cases v) (auto simp: wide_ctor_def scalar_def)

lemma same_wide_ctor:
  assumes "wide_ctor v = wide_ctor w"
  shows "scalar v = scalar w" "v = VNull \<longleftrightarrow> w = VNull"
  using assms wide_ctor_scalar wide_ctor_zero_width by metis+

lemma hd_encode_compound: "\<not> scalar v \<Longrightarrow> hd (encode_value v []) = wide_ctor v"
proof (cases v)
  case (VArray items)
  then show ?thesis
    using encode_value_VArray [of items] by (auto simp: compound_layout_def wide_ctor_def simp del: encode_value.simps)
qed (auto simp: scalar_def wide_ctor_def encode_value_VList encode_value_VMap encode_value_VDescribed compound_layout_def
      simp del: encode_value.simps(22,23,25))

text \<open>An encoding of a single byte uses one of the constructors without a body.\<close>

lemma body_nonempty:
  assumes "encodable v" "\<not> zero_width (hd (encode_value v []))"
  shows "0 < length (tl (encode_value v []))"
proof (cases v)
  case (VArray items)
  then show ?thesis
    using encode_value_VArray [of items] by (auto simp: compound_layout_def simp del: encode_value.simps)
next
  case (VDescribed d x)
  then show ?thesis by (simp add: encode_value_VDescribed del: encode_value.simps)
qed (use assms in \<open>auto simp: encode_prim_defs encode_null_def put_defs zero_width_def encode_value_VList encode_value_VMap
    compound_layout_def split: if_splits simp del: encode_value.simps(22,23)\<close>)

lemma array_count_ok:
  assumes "length (concat (map g items)) < 2 ^ 32"
    and "zero_width c \<Longrightarrow> length items \<le> MAX_ZERO_WIDTH_ARRAY"
    and "\<And>v. \<not> zero_width c \<Longrightarrow> v \<in> set items \<Longrightarrow> 0 < length (g v)"
  shows "unat (of_nat (length items) :: u32) = length items"
    and "check_array_count (of_nat (length items)) c (length (concat (map g items))) = Inr ()"
proof -
  have le: "\<not> zero_width c \<Longrightarrow> length items \<le> length (concat (map g items))"
    using assms(3) by (intro concat_map_length_ge)
  then have "length items < 2 ^ 32"
    using assms(1,2) by (cases "zero_width c") (auto simp: MAX_ZERO_WIDTH_ARRAY_def)
  then show n: "unat (of_nat (length items) :: u32) = length items"
    by (rule unat_of_nat_u32)
  show "check_array_count (of_nat (length items)) c (length (concat (map g items))) = Inr ()"
    using assms(2) le by (auto simp: check_array_count_def n not_less)
qed

text \<open>
  One array body: a constructor that is not the described marker, then the bodies of the
  elements. The count check passes when every element has at least one byte.
\<close>

lemma decode_array_bodies:
  assumes "c \<noteq> DESCRIBED" and "length (concat (map g items)) < 2 ^ 32"
    and "\<And>v rest. v \<in> set items \<Longrightarrow> decode_value_body c depth (g v @ rest) = Inr (v, rest)"
    and "zero_width c \<Longrightarrow> length items \<le> MAX_ZERO_WIDTH_ARRAY"
    and "\<And>v. \<not> zero_width c \<Longrightarrow> v \<in> set items \<Longrightarrow> 0 < length (g v)"
  shows "decode_array (of_nat (length items)) depth (c # concat (map g items)) = Inr (items, [])"
proof -
  have "decode_bodies c (length items) depth (concat (map g items)) = Inr (items, [])"
    using decode_bodies_encode [of items c depth g id "[]"] assms(3) by simp
  then show ?thesis
    using assms(1) array_count_ok [OF assms(2,4,5)] by (simp add: decode_array.simps)
qed

lemma decode_array_described:
  assumes "length (concat (map g items)) < 2 ^ 32"
    and "\<And>rest. decode_value depth (encode_value d [] @ rest) = Inr (d, rest)"
    and "\<And>it rest. it \<in> set items \<Longrightarrow>
      \<exists>v. it = VDescribed d v \<and> decode_value_body c depth (g it @ rest) = Inr (v, rest)"
    and "zero_width c \<Longrightarrow> length items \<le> MAX_ZERO_WIDTH_ARRAY"
    and "\<And>v. \<not> zero_width c \<Longrightarrow> v \<in> set items \<Longrightarrow> 0 < length (g v)"
  shows "decode_array (of_nat (length items)) depth (DESCRIBED # encode_value d [] @ c # concat (map g items)) = Inr (items, [])"
proof -
  let ?f = "\<lambda>it. case it of VDescribed _ v \<Rightarrow> v | _ \<Rightarrow> it"
  have "decode_bodies c (length items) depth (concat (map g items)) = Inr (map ?f items, [])"
    using decode_bodies_encode [of items c depth g ?f "[]"] assms(3) by fastforce
  moreover have "map (VDescribed d) (map ?f items) = items"
    using assms(3) by (induction items) fastforce+
  ultimately show ?thesis
    using array_count_ok [OF assms(1,4,5)] assms(2) by (simp add: decode_array.simps)
qed

lemma roundtrip_array_scalar:
  assumes "scalar x" "encodable (VArray (x # xs))" "depth < MAX_DEPTH"
  shows "decode_value depth (encode_value (VArray (x # xs)) [] @ rest) = Inr (VArray (x # xs), rest)"
proof -
  let ?items = "x # xs"
  have hom: "homogeneous ?items" and null: "x = VNull \<Longrightarrow> length ?items \<le> MAX_ZERO_WIDTH_ARRAY"
    using assms(1,2) by (cases x; simp add: array_shape_def scalar_def)+
  have enc: "encode_value (VArray ?items) [] =
      compound_layout ARRAY32 (of_nat (length ?items)) (wide_ctor x # concat (map wide_body ?items))"
    using encode_value_array_scalar [OF hom assms(1), of encode_value "[]"] by simp
  have len: "length (wide_ctor x # concat (map wide_body ?items)) + 4 < 2 ^ 32"
    using assms(2) unfolding encodable.simps enc fits_compound by blast
  have same: "wide_ctor v = wide_ctor x" "scalar v" "encodable v" "v = VNull \<longleftrightarrow> x = VNull" if "v \<in> set ?items" for v
    using that hom assms(1,2) same_wide_ctor [of v x] by (auto simp: homogeneous_def)
  have "decode_array (of_nat (length ?items)) (Suc depth) (wide_ctor x # concat (map wide_body ?items)) = Inr (?items, [])"
  proof (rule decode_array_bodies)
    show "wide_ctor x \<noteq> DESCRIBED" using assms(1) by (auto simp: wide_ctor_scalar)
    show "decode_value_body (wide_ctor x) (Suc depth) (wide_body v @ r) = Inr (v, r)" if "v \<in> set ?items" for v r
      using same [OF that] decode_scalar_body [of v "Suc depth" r] assms(3) by simp
    show "zero_width (wide_ctor x) \<Longrightarrow> length ?items \<le> MAX_ZERO_WIDTH_ARRAY"
      using null by (simp only: wide_ctor_zero_width)
    show "0 < length (wide_body v)" if "\<not> zero_width (wide_ctor x)" "v \<in> set ?items" for v
      using that same [OF that(2)] by (intro wide_body_nonempty) (auto simp: wide_ctor_zero_width)
  qed (use len in simp)
  then show ?thesis
    using assms(3) len unfolding enc by (subst decode_compound) simp_all
qed

lemma roundtrip_array_compound:
  assumes IH: "\<And>v rest. v \<in> set (x # xs) \<Longrightarrow> decode_value (Suc depth) (encode_value v [] @ rest) = Inr (v, rest)"
    and "\<not> scalar x" "\<nexists>d v. x = VDescribed d v" "encodable (VArray (x # xs))" "depth \<le> MAX_DEPTH"
  shows "decode_value depth (encode_value (VArray (x # xs)) [] @ rest) = Inr (VArray (x # xs), rest)"
proof -
  let ?items = "x # xs" and ?g = "\<lambda>v. tl (encode_value v [])"
  have hom: "homogeneous ?items"
    using assms(2,3,4) by (cases x) (simp_all add: array_shape_def scalar_def)
  have enc: "encode_value (VArray ?items) [] =
      compound_layout ARRAY32 (of_nat (length ?items)) (wide_ctor x # concat (map ?g ?items))"
    using encode_value_VArray_compound [OF refl assms(2,3)] hd_encode_compound [OF assms(2)] by simp
  have len: "length (wide_ctor x # concat (map ?g ?items)) + 4 < 2 ^ 32"
    using assms(4) unfolding encodable.simps enc fits_compound by blast
  have same: "hd (encode_value v []) = wide_ctor x" if "v \<in> set ?items" for v
    using that hom assms(2) same_wide_ctor [of v x] hd_encode_compound [of v] by (auto simp: homogeneous_def)
  have body: "decode_value_body (wide_ctor x) (Suc depth) (?g v @ r) = Inr (v, r)" if "v \<in> set ?items" for v r
    using decode_value_body_encode [of v "Suc depth" r] same [OF that] IH [OF that] by simp
  have "decode_array (of_nat (length ?items)) (Suc depth) (wide_ctor x # concat (map ?g ?items)) = Inr (?items, [])"
  proof (rule decode_array_bodies)
    show "wide_ctor x \<noteq> DESCRIBED" using assms(3) by (simp add: wide_ctor_not_described)
    show "zero_width (wide_ctor x) \<Longrightarrow> length ?items \<le> MAX_ZERO_WIDTH_ARRAY"
      using assms(2) by (auto simp: wide_ctor_zero_width scalar_def)
    show "0 < length (?g v)" if "\<not> zero_width (wide_ctor x)" "v \<in> set ?items" for v
      using that same [OF that(2)] assms(4) by (intro body_nonempty) auto
  qed (use len body in simp_all)
  then show ?thesis
    using assms(5) len unfolding enc by (subst decode_compound) simp_all
qed

lemma roundtrip_array_described:
  assumes IHd: "\<And>rest. decode_value (Suc depth) (encode_value d [] @ rest) = Inr (d, rest)"
    and IHv: "\<And>w rest. VDescribed d w \<in> set (VDescribed d v # xs) \<Longrightarrow>
      decode_value (Suc depth) (encode_value w [] @ rest) = Inr (w, rest)"
    and ok: "encodable (VArray (VDescribed d v # xs))" and depth: "depth \<le> MAX_DEPTH"
  shows "decode_value depth (encode_value (VArray (VDescribed d v # xs)) [] @ rest) = Inr (VArray (VDescribed d v # xs), rest)"
proof -
  let ?items = "VDescribed d v # xs" and ?g = "described_part (\<lambda>v. tl (encode_value v []))"
  let ?c = "hd (encode_value v [])"
  let ?body = "DESCRIBED # encode_value d [] @ ?c # concat (map ?g ?items)"
  have shape: "\<forall>it \<in> set ?items. described_as d ?c it" "zero_width ?c \<longrightarrow> length ?items \<le> MAX_ZERO_WIDTH_ARRAY"
    and enc_ok: "\<forall>it \<in> set ?items. encodable it"
    using ok unfolding encodable.simps array_shape_def list.case avalue.case Let_def by blast+
  have enc: "encode_value (VArray ?items) [] = compound_layout ARRAY32 (of_nat (length ?items)) ?body"
    by (rule encode_value_VArray_described) simp
  have len: "length ?body + 4 < 2 ^ 32"
    using ok unfolding encodable.simps enc fits_compound by blast
  have elem: "\<exists>w. it = VDescribed d w \<and> hd (encode_value w []) = ?c \<and> encodable w \<and> ?g it = tl (encode_value w [])"
    if it: "it \<in> set ?items" for it
  proof -
    obtain w where "it = VDescribed d w" "hd (encode_value w []) = ?c"
      using bspec [OF shape(1) it] by (auto simp: described_as_def split: avalue.splits)
    with bspec [OF enc_ok it] show ?thesis by (auto simp: described_part_def)
  qed
  have "decode_array (of_nat (length ?items)) (Suc depth) ?body = Inr (?items, [])"
  proof (rule decode_array_described [OF _ IHd])
    show "length (concat (map ?g ?items)) < 2 ^ 32" using len by simp
    show "\<exists>w. it = VDescribed d w \<and> decode_value_body ?c (Suc depth) (?g it @ r) = Inr (w, r)" if "it \<in> set ?items" for it r
      using elem [OF that] that decode_value_body_encode [of _ "Suc depth" r] IHv by metis
    show "0 < length (?g it)" if "\<not> zero_width ?c" "it \<in> set ?items" for it
      using elem [OF that(2)] body_nonempty that(1) by metis
  qed (use shape in simp)
  then show ?thesis
    using depth len unfolding enc by (subst decode_compound) simp_all
qed

lemma roundtrip_array:
  assumes IH: "\<And>w depth rest. size w < size (VArray items) \<Longrightarrow> encodable w \<Longrightarrow> depth + nesting w \<le> MAX_DEPTH \<Longrightarrow>
      decode_value depth (encode_value w [] @ rest) = Inr (w, rest)"
    and ok: "encodable (VArray items)" and depth: "depth + nesting (VArray items) \<le> MAX_DEPTH"
  shows "decode_value depth (encode_value (VArray items) [] @ rest) = Inr (VArray items, rest)"
proof (cases items)
  case Nil
  have "decode_array 0 (Suc depth) [NULL] = Inr ([], [])"
    by (simp add: decode_array.simps decode_loop_simps check_array_count_def)
  with depth show ?thesis
    unfolding Nil encode_value_VArray_Nil by (subst decode_compound) simp_all
next
  case (Cons x xs)
  have sz: "v \<in> set items \<Longrightarrow> size v < size (VArray items)" for v
    using size_list_estimation' [of v items "size v" size] by simp
  have nest: "depth + (case v of VDescribed _ _ \<Rightarrow> nesting v | _ \<Rightarrow> Suc (nesting v)) \<le> MAX_DEPTH" if "v \<in> set items" for v
  proof -
    have "(case v of VDescribed _ _ \<Rightarrow> nesting v | _ \<Rightarrow> Suc (nesting v)) \<le> nesting (VArray items)"
      using foldr_max_le_iff [of "map (\<lambda>v. case v of VDescribed _ _ \<Rightarrow> nesting v | _ \<Rightarrow> Suc (nesting v)) items"
          "nesting (VArray items)"] that by auto
    with depth show ?thesis by simp
  qed
  consider (sc) "scalar x" | (desc) d v where "x = VDescribed d v" | (comp) "\<not> scalar x" "\<nexists>d v. x = VDescribed d v"
    by blast
  then show ?thesis
  proof cases
    case sc
    then have "depth < MAX_DEPTH" using nest [of x] Cons by (cases x) (auto simp: scalar_def)
    then show ?thesis using roundtrip_array_scalar [of x xs depth rest] sc ok by (simp only: Cons)
  next
    case desc
    have parts: "encodable e" "decode_value (Suc depth) (encode_value e [] @ r) = Inr (e, r)"
      if "VDescribed d w \<in> set items" "e = d \<or> e = w" for w e r
    proof -
      show "encodable e" using that ok by auto
      then show "decode_value (Suc depth) (encode_value e [] @ r) = Inr (e, r)"
        using that nest [OF that(1)] sz [OF that(1)] by (intro IH) auto
    qed
    show ?thesis
      unfolding Cons desc
      by (rule roundtrip_array_described; (rule parts(2))?) (use Cons desc ok depth in auto)
  next
    case comp
    have hom: "wide_ctor v = wide_ctor x" if "v \<in> set items" for v
      using that ok comp by (cases x) (auto simp: Cons array_shape_def scalar_def homogeneous_def)
    have "decode_value (Suc depth) (encode_value v [] @ r) = Inr (v, r)" if v: "v \<in> set items" for v r
    proof (rule IH [OF sz [OF v]])
      show "encodable v" using ok v by simp
      have "\<nexists>d w. v = VDescribed d w" using hom [OF v] comp(2) wide_ctor_not_described by metis
      then show "Suc depth + nesting v \<le> MAX_DEPTH" using nest [OF v] by (auto split: avalue.splits)
    qed
    then show ?thesis
      using comp ok depth unfolding Cons by (intro roundtrip_array_compound) auto
  qed
qed

lemma decode_encode_value:
  assumes "encodable v" "depth + nesting v \<le> MAX_DEPTH"
  shows "decode_value depth (encode_value v [] @ rest) = Inr (v, rest)"
  using assms
proof (induction v arbitrary: depth rest rule: measure_induct_rule [of size])
  case (less v)
  show ?case
  proof (cases v)
    case (VList items)
    have "decode_value (Suc depth) (encode_value w [] @ r) = Inr (w, r)" if w: "w \<in> set items" for w r
    proof (rule less.IH)
      show "size w < size v" using w size_list_estimation' [of w items "size w" size] by (simp add: VList)
      show "encodable w" using less.prems w by (simp add: VList)
      have "Suc (nesting w) \<le> nesting v"
        using foldr_max_le_iff [of "map (\<lambda>v. Suc (nesting v)) items" "nesting v"] w by (simp add: VList)
      then show "Suc depth + nesting w \<le> MAX_DEPTH" using less.prems by simp
    qed
    then show ?thesis using less.prems unfolding VList by (intro roundtrip_list) auto
  next
    case (VMap m)
    have "decode_value (Suc depth) (encode_value w [] @ r) = Inr (w, r)" if kv: "(k, x) \<in> set m" "w = k \<or> w = x" for k x w r
    proof (rule less.IH)
      show "size w < size v" using kv size_entry_elem [OF kv(1)] by (auto simp: VMap)
      show "encodable w" using less.prems kv by (auto simp: VMap)
      have "Suc (max (nesting k) (nesting x)) \<le> nesting v"
        using foldr_max_le_iff [of "map (\<lambda>(k, v). Suc (max (nesting k) (nesting v))) m" "nesting v"] kv(1)
        by (force simp: VMap)
      then show "Suc depth + nesting w \<le> MAX_DEPTH" using less.prems kv(2) by auto
    qed
    then show ?thesis using less.prems unfolding VMap by (intro roundtrip_map) auto
  next
    case (VArray items)
    show ?thesis
      using less.prems less.IH unfolding VArray by (intro roundtrip_array) auto
  next
    case (VDescribed d w)
    have "decode_value (Suc depth) (encode_value d [] @ r) = Inr (d, r)" "decode_value (Suc depth) (encode_value w [] @ r) = Inr (w, r)" for r
      by (rule less.IH; use less.prems in \<open>simp add: VDescribed\<close>)+
    then show ?thesis
      using less.prems unfolding VDescribed encode_value_VDescribed
      by (simp add: decode_value_Cons decode_value_body_code)
  qed (use less.prems in \<open>intro decode_scalar_value; simp add: scalar_def\<close>)+
qed

definition value_ok :: "avalue \<Rightarrow> bool" where
  "value_ok v \<longleftrightarrow> encodable v \<and> nesting v \<le> MAX_DEPTH"

interpretation value_codec: codec encode_value "decode_value 0" value_ok
  by unfold_locales (simp_all add: value_ok_def decode_encode_value)

subsection \<open>What every accepted input satisfies\<close>

text \<open>
  The decoder reads untrusted bytes, so these facts hold of any input it accepts, not only of
  encoder output: payloads have their type's shape, arrays are homogeneous, nesting stays
  within the limit and the cursor only moves forward.
\<close>

function (sequential) well_formed :: "avalue \<Rightarrow> bool" where
  "well_formed (VDecimal32 a) = (length a = 4)"
| "well_formed (VDecimal64 a) = (length a = 8)"
| "well_formed (VDecimal128 a) = (length a = 16)"
| "well_formed (VChar c) = is_scalar_value c"
| "well_formed (VUuid a) = (length a = 16)"
| "well_formed (VString a) = valid_utf8 a"
| "well_formed (VSymbol a) = valid_utf8 a"
| "well_formed (VList items) = (\<forall>v \<in> set items. well_formed v)"
| "well_formed (VMap m) = (\<forall>(k, v) \<in> set m. well_formed k \<and> well_formed v)"
| "well_formed (VArray items) = ((\<forall>v \<in> set items. well_formed v) \<and> homogeneous items)"
| "well_formed (VDescribed d v) = (well_formed d \<and> well_formed v)"
| "well_formed _ = True"
  by pat_completeness auto
termination
  by (relation "measure size") (auto simp: less_Suc_eq_le size_entry_elem intro: size_list_estimation')

text \<open>The wide constructor of the type that a constructor byte belongs to.\<close>

definition family :: "u8 \<Rightarrow> u8" where
  "family c =
    (if c = BOOL_TRUE \<or> c = BOOL_FALSE then BOOL
     else if c = UINT_0 \<or> c = SMALL_UINT then UINT
     else if c = ULONG_0 \<or> c = SMALL_ULONG then ULONG
     else if c = SMALL_INT then INT_code
     else if c = SMALL_LONG then LONG
     else if c = VBIN8 then VBIN32
     else if c = STR8 then STR32
     else if c = SYM8 then SYM32
     else if c = LIST_0 \<or> c = LIST8 then LIST32
     else if c = MAP8 then MAP32
     else if c = ARRAY8 then ARRAY32
     else c)"

definition suffix_of :: "bytes \<Rightarrow> bytes \<Rightarrow> bool" where
  "suffix_of rest buf \<longleftrightarrow> (\<exists>pre. buf = pre @ rest)"

lemma suffix_of_refl [simp]: "suffix_of buf buf"
  by (simp add: suffix_of_def)

lemma suffix_of_trans [trans]: "suffix_of a b \<Longrightarrow> suffix_of b c \<Longrightarrow> suffix_of a c"
  by (auto simp: suffix_of_def)

lemma suffix_of_Cons: "suffix_of a b \<Longrightarrow> suffix_of a (c # b)"
  by (auto simp: suffix_of_def intro: exI [of _ "c # _"])

lemma suffix_of_length: "suffix_of a b \<Longrightarrow> length a \<le> length b"
  by (auto simp: suffix_of_def)

lemma suffix_of_drop [simp]: "suffix_of (drop n b) b"
  unfolding suffix_of_def by (metis append_take_drop_id)

lemma suffix_of_drop_trans: "suffix_of b buf \<Longrightarrow> suffix_of (drop n b) buf"
  by (rule suffix_of_trans [OF suffix_of_drop])

lemma suffix_of_tl [simp]: "suffix_of (tl b) b"
  by (cases b) (auto intro: suffix_of_Cons)

lemma read_suffix:
  "read_u8 buf = Inr (x1, rest) \<Longrightarrow> suffix_of rest buf"
  "read_u16 buf = Inr (x2, rest) \<Longrightarrow> suffix_of rest buf"
  "read_u32 buf = Inr (x3, rest) \<Longrightarrow> suffix_of rest buf"
  "read_u64 buf = Inr (x4, rest) \<Longrightarrow> suffix_of rest buf"
  "read_bytes n buf = Inr (x5, rest) \<Longrightarrow> suffix_of rest buf"
  by (auto simp: read_u8_def read_u16_def read_u32_def read_u64_def read_bytes_def rbind_eq_Inr_iff)

lemma header_suffix:
  "header8 buf = Inr ((n, body), rest) \<Longrightarrow> suffix_of rest buf"
  "header32 buf = Inr ((n, body), rest) \<Longrightarrow> suffix_of rest buf"
  by (auto simp: header8_def header32_def rbind_eq_Inr_iff dest!: read_suffix intro: suffix_of_trans)

lemma decode_value_body_family:
  "decode_value_body c depth buf = Inr (v, rest) \<Longrightarrow> wide_ctor v = family c"
  by (auto simp: decode_value_body.simps [of c depth buf] rbind_eq_Inr_iff wide_ctor_def family_def split: if_splits)

definition sound :: "nat \<Rightarrow> avalue \<Rightarrow> bool" where
  "sound depth v \<longleftrightarrow> well_formed v \<and> depth + nesting v \<le> MAX_DEPTH"

definition bodies_sound :: "nat \<Rightarrow> bool" where
  "bodies_sound depth \<longleftrightarrow> (\<forall>c buf v rest. decode_value_body c depth buf = Inr (v, rest) \<longrightarrow>
    sound depth v \<and> suffix_of rest buf)"

lemma decode_value_sound:
  assumes "bodies_sound depth" "decode_value depth buf = Inr (v, rest)"
  shows "sound depth v \<and> suffix_of rest buf \<and> length rest < length buf"
proof (cases buf)
  case (Cons c bs)
  then have "sound depth v" "suffix_of rest bs"
    using assms by (auto simp: decode_value_Cons bodies_sound_def)
  with Cons suffix_of_length [of rest bs] show ?thesis by (simp add: suffix_of_Cons)
qed (use assms in \<open>simp add: decode_value.simps\<close>)

lemma decode_n_sound:
  assumes "bodies_sound depth" "decode_n n depth buf = Inr (vs, rest)"
  shows "\<forall>v \<in> set vs. sound depth v"
  using assms(2)
proof (induction n arbitrary: buf vs rest)
  case (Suc n)
  then obtain v buf' vs' where "decode_value depth buf = Inr (v, buf')" "decode_n n depth buf' = Inr (vs', rest)" "vs = v # vs'"
    by (auto simp: decode_loop_simps rbind_eq_Inr_iff)
  with Suc.IH decode_value_sound [OF assms(1)] show ?case by auto
qed (simp add: decode_loop_simps)

lemma decode_pairs_sound:
  assumes "bodies_sound depth" "decode_pairs n depth buf = Inr (m, rest)"
  shows "\<forall>(k, v) \<in> set m. sound depth k \<and> sound depth v"
  using assms(2)
proof (induction n arbitrary: buf m rest)
  case (Suc n)
  then obtain k v b1 b2 m' where "decode_value depth buf = Inr (k, b1)" "decode_value depth b1 = Inr (v, b2)"
    "decode_pairs n depth b2 = Inr (m', rest)" "m = (k, v) # m'"
    by (auto simp: decode_loop_simps rbind_eq_Inr_iff)
  with Suc.IH decode_value_sound [OF assms(1)] show ?case by auto
qed (simp add: decode_loop_simps)

lemma decode_bodies_sound:
  assumes "bodies_sound depth" "decode_bodies c n depth buf = Inr (vs, rest)"
  shows "\<forall>v \<in> set vs. sound depth v \<and> wide_ctor v = family c"
  using assms(2)
proof (induction n arbitrary: buf vs rest)
  case (Suc n)
  then obtain v buf' vs' where v: "decode_value_body c depth buf = Inr (v, buf')" "decode_bodies c n depth buf' = Inr (vs', rest)" "vs = v # vs'"
    by (auto simp: decode_loop_simps rbind_eq_Inr_iff)
  with Suc.IH assms(1) decode_value_body_family [OF v(1)] show ?case by (auto simp: bodies_sound_def)
qed (simp add: decode_loop_simps)

lemma add_foldr_max_le: "(depth :: nat) \<le> n \<Longrightarrow> depth + foldr max xs 0 \<le> n \<longleftrightarrow> (\<forall>x \<in> set xs. depth + x \<le> n)"
  by (induction xs) auto

lemma decode_array_sound:
  assumes B: "bodies_sound (Suc depth)" and "depth \<le> MAX_DEPTH" "decode_array n (Suc depth) buf = Inr (vs, rest)"
  shows "sound depth (VArray vs)"
proof -
  obtain c buf1 where c: "read_u8 buf = Inr (c, buf1)" using assms(3) by (auto simp: decode_array.simps rbind_eq_Inr_iff)
  show ?thesis
  proof (cases "c = DESCRIBED")
    case True
    then obtain d b2 c' b3 ws where d: "decode_value (Suc depth) buf1 = Inr (d, b2)"
      and b: "decode_bodies c' (unat n) (Suc depth) b3 = Inr (ws, rest)" and vs: "vs = map (VDescribed d) ws"
      using assms(3) c by (auto simp: decode_array.simps rbind_eq_Inr_iff)
    have "\<forall>w \<in> set ws. sound (Suc depth) w" using decode_bodies_sound [OF B b] by blast
    moreover have "sound (Suc depth) d" using decode_value_sound [OF B d] by blast
    moreover have "homogeneous vs" by (cases ws) (auto simp: homogeneous_def vs wide_ctor_def)
    ultimately show ?thesis using assms(2) by (auto simp: sound_def vs add_foldr_max_le)
  next
    case False
    then have b: "decode_bodies c (unat n) (Suc depth) buf1 = Inr (vs, rest)"
      using assms(3) c by (auto simp: decode_array.simps rbind_eq_Inr_iff)
    have e: "\<forall>v \<in> set vs. sound (Suc depth) v \<and> wide_ctor v = family c" by (rule decode_bodies_sound [OF B b])
    then have "homogeneous vs" by (cases vs) (auto simp: homogeneous_def)
    with e assms(2) show ?thesis by (auto simp: sound_def add_foldr_max_le split: avalue.split)
  qed
qed

lemma decode_compound_sound:
  assumes "bodies_sound (Suc depth)" "depth \<le> MAX_DEPTH"
  shows "decode_n n (Suc depth) buf = Inr (vs, rest) \<Longrightarrow> sound depth (VList vs)"
    and "decode_map k (Suc depth) buf = Inr (m, rest) \<Longrightarrow> sound depth (VMap m)"
proof -
  assume "decode_n n (Suc depth) buf = Inr (vs, rest)"
  from decode_n_sound [OF assms(1) this] assms(2) show "sound depth (VList vs)"
    by (auto simp: sound_def add_foldr_max_le)
next
  assume "decode_map k (Suc depth) buf = Inr (m, rest)"
  then have "decode_pairs (unat k div 2) (Suc depth) buf = Inr (m, rest)"
    by (simp add: decode_map.simps [of k "Suc depth" buf] split: if_splits)
  from decode_pairs_sound [OF assms(1) this] assms(2) show "sound depth (VMap m)"
    by (auto simp: sound_def add_foldr_max_le)
qed

lemma scalar_sound: "depth \<le> MAX_DEPTH \<Longrightarrow> scalar v \<Longrightarrow> well_formed v \<Longrightarrow> sound depth v"
  by (cases v) (simp_all add: scalar_def sound_def)

lemma sound_compound:
  "depth \<le> MAX_DEPTH \<Longrightarrow> sound depth (VList [])"
  "sound (Suc depth) d \<Longrightarrow> sound (Suc depth) v \<Longrightarrow> sound depth (VDescribed d v)"
  by (simp_all add: sound_def max_def)

lemma bodies_sound_step:
  assumes "bodies_sound (Suc depth)" "depth \<le> MAX_DEPTH"
  shows "bodies_sound depth"
  unfolding bodies_sound_def
proof (intro allI impI)
  fix c buf v rest
  assume body: "decode_value_body c depth buf = Inr (v, rest)"
  show "sound depth v \<and> suffix_of rest buf"
  proof (cases "scalar v")
    case True
    with body assms(2) show ?thesis
      by (auto simp: decode_value_body.simps [of c depth buf] rbind_eq_Inr_iff scalar_def sound_def
          char_from_u32_def utf8_string_def read_bytes_Inr
          split: if_splits dest!: read_suffix intro: suffix_of_trans suffix_of_drop_trans)
  next
    case False
    with body assms(2) show ?thesis
      by (auto simp: decode_value_body.simps [of c depth buf] rbind_eq_Inr_iff scalar_def 
          split: if_splits dest!: header_suffix read_suffix decode_value_sound [OF assms(1)]
          intro: suffix_of_trans sound_compound decode_compound_sound [OF assms] decode_array_sound [OF assms])
  qed
qed

lemma decode_value_body_too_deep:
  "MAX_DEPTH < depth \<Longrightarrow> decode_value_body c depth buf = Inl (NestingTooDeep MAX_DEPTH)"
  by (subst decode_value_body.simps) simp

lemma bodies_sound: "bodies_sound depth"
proof (cases "MAX_DEPTH < depth")
  case True
  then show ?thesis unfolding bodies_sound_def by (metis decode_value_body_too_deep Inl_Inr_False)
next
  case False
  then have "depth \<le> Suc MAX_DEPTH" by simp
  then show ?thesis
  proof (induction rule: inc_induct)
    case base
    show ?case unfolding bodies_sound_def by (metis decode_value_body_too_deep Inl_Inr_False lessI)
  next
    case (step n)
    then show ?case by - (rule bodies_sound_step; simp)
  qed
qed

lemmas decode_value_accepts = decode_value_sound [OF bodies_sound]

subsection \<open>Properties\<close>

lemmas encode_eval =
  encode_value_VList encode_value_VMap encode_value_VDescribed encode_value_array_def array_emit_def
  encode_described_array_def encode_compound_array_def open_compound_def close_compound_def copy_into_def
  put_defs encode_prim_defs encode_null_def compound_layout_def Let_def

lemmas encodable_eval =
  fits_def var_ok_def text_ok_def ascii_def array_shape_def homogeneous_def wide_ctor_def described_as_def
  zero_width_def MAX_ZERO_WIDTH_ARRAY_def

lemmas decode_eval =
  decode_value_Cons decode_value_body_code MAX_DEPTH_def header8_def header32_def read_bytes_def read_u16_def
  read_u32_def read_u64_def ensure_def decode_n.simps decode_map.simps decode_pairs.simps decode_array.simps
  decode_bodies.simps check_array_count_def zero_width_def MAX_ZERO_WIDTH_ARRAY_def from_be_bytes_def

text \<open>
  C24: a value that the wire format can carry and that nests no deeper than the limit is read
  back exactly from what the encoder appends to any buffer, and the reader stops exactly at
  the end of the value, whatever follows.
\<close>

theorem value_roundtrip:
  assumes "encodable v" "nesting v \<le> MAX_DEPTH"
  shows "decode_value 0 (drop (length buf) (encode_value v buf) @ rest) = Inr (v, rest)"
  using decode_encode_value [of v 0 rest] assms by (simp add: value_enc.appends [of v buf] del: encode_value.simps)

definition sample_value :: avalue where
  "sample_value = VList [VDescribed (VSymbol (ascii ''a:b'')) (VMap [(VString (ascii ''k''), VUlong 300)]),
    VArray [VUint 1, VUint 700], VArray [VDescribed (VUlong 9) VNull], VNull]"

theorem value_roundtrip_witness:
  "decode_value 0 (drop (length [7, 8 :: u8]) (encode_value sample_value [7, 8]) @ [9]) = Inr (sample_value, [9])"
proof (rule value_roundtrip)
  show "encodable sample_value"
    by (simp add: sample_value_def encodable_eval encode_eval del: encode_value.simps(22,23,25))
  show "nesting sample_value \<le> MAX_DEPTH"
    by (simp add: sample_value_def MAX_DEPTH_def)
qed

text \<open>
  C25: whatever bytes a peer sends, a value that the decoder accepts has payloads of its types'
  shapes and homogeneous arrays, nests within the limit, and leaves a proper suffix of the
  input: the decoder always consumes at least one byte and never rereads.
\<close>

theorem value_decoder_sound:
  assumes "decode_value depth buf = Inr (v, rest)"
  shows "well_formed v \<and> depth + nesting v \<le> MAX_DEPTH \<and> (\<exists>pre. pre \<noteq> [] \<and> buf = pre @ rest)"
  using decode_value_accepts [OF assms] by (auto simp: sound_def suffix_of_def)

theorem value_decoder_sound_witness:
  "well_formed (VList [VUint 5, VNull]) \<and> 0 + nesting (VList [VUint 5, VNull]) \<le> MAX_DEPTH \<and>
    (\<exists>pre. pre \<noteq> [] \<and> [0xc0, 4, 2, 0x52, 5, 0x40, 0xee] = pre @ [0xee :: u8])"
  by (rule value_decoder_sound) (simp add: decode_eval)


end
