(* ===== verification/Codec_Described.thy ===== *)
theory Codec_Described
  imports Codec_Value_Laws
begin

section \<open>Described types and composites (\<open>ramqp-core/src/codec/described.rs\<close>)\<close>

text \<open>
  Descriptors, the cursor over the fields of a described list (\<open>ListDecoder\<close>) and the two
  functions that the macro \<open>amqp_composite\<close> expands to. The locale \<open>composite\<close> is the
  contract of that macro: when the field writer and the field reader of a type list the same
  fields in the same order, the type is a \<open>field_codec\<close>, whatever trailing fields elision
  removes. Every composite of the protocol is an interpretation of it.
\<close>

subsection \<open>Descriptor codes\<close>

abbreviation (input) OPEN :: u64 where "OPEN \<equiv> 0x10"
abbreviation (input) BEGIN :: u64 where "BEGIN \<equiv> 0x11"
abbreviation (input) ATTACH :: u64 where "ATTACH \<equiv> 0x12"
abbreviation (input) FLOW :: u64 where "FLOW \<equiv> 0x13"
abbreviation (input) TRANSFER :: u64 where "TRANSFER \<equiv> 0x14"
abbreviation (input) DISPOSITION :: u64 where "DISPOSITION \<equiv> 0x15"
abbreviation (input) DETACH :: u64 where "DETACH \<equiv> 0x16"
abbreviation (input) END :: u64 where "END \<equiv> 0x17"
abbreviation (input) CLOSE :: u64 where "CLOSE \<equiv> 0x18"
abbreviation (input) ERROR :: u64 where "ERROR \<equiv> 0x1d"
abbreviation (input) COORDINATOR :: u64 where "COORDINATOR \<equiv> 0x30"
abbreviation (input) DECLARE :: u64 where "DECLARE \<equiv> 0x31"
abbreviation (input) DISCHARGE :: u64 where "DISCHARGE \<equiv> 0x32"
abbreviation (input) DECLARED :: u64 where "DECLARED \<equiv> 0x33"
abbreviation (input) TRANSACTIONAL_STATE :: u64 where "TRANSACTIONAL_STATE \<equiv> 0x34"
abbreviation (input) RECEIVED :: u64 where "RECEIVED \<equiv> 0x23"
abbreviation (input) ACCEPTED :: u64 where "ACCEPTED \<equiv> 0x24"
abbreviation (input) REJECTED :: u64 where "REJECTED \<equiv> 0x25"
abbreviation (input) RELEASED :: u64 where "RELEASED \<equiv> 0x26"
abbreviation (input) MODIFIED :: u64 where "MODIFIED \<equiv> 0x27"
abbreviation (input) SOURCE :: u64 where "SOURCE \<equiv> 0x28"
abbreviation (input) TARGET :: u64 where "TARGET \<equiv> 0x29"
abbreviation (input) HEADER :: u64 where "HEADER \<equiv> 0x70"
abbreviation (input) DELIVERY_ANNOTATIONS :: u64 where "DELIVERY_ANNOTATIONS \<equiv> 0x71"
abbreviation (input) MESSAGE_ANNOTATIONS :: u64 where "MESSAGE_ANNOTATIONS \<equiv> 0x72"
abbreviation (input) PROPERTIES :: u64 where "PROPERTIES \<equiv> 0x73"
abbreviation (input) APPLICATION_PROPERTIES :: u64 where "APPLICATION_PROPERTIES \<equiv> 0x74"
abbreviation (input) DATA :: u64 where "DATA \<equiv> 0x75"
abbreviation (input) AMQP_SEQUENCE :: u64 where "AMQP_SEQUENCE \<equiv> 0x76"
abbreviation (input) AMQP_VALUE :: u64 where "AMQP_VALUE \<equiv> 0x77"
abbreviation (input) FOOTER :: u64 where "FOOTER \<equiv> 0x78"
abbreviation (input) SASL_MECHANISMS :: u64 where "SASL_MECHANISMS \<equiv> 0x40"
abbreviation (input) SASL_INIT :: u64 where "SASL_INIT \<equiv> 0x41"
abbreviation (input) SASL_CHALLENGE :: u64 where "SASL_CHALLENGE \<equiv> 0x42"
abbreviation (input) SASL_RESPONSE :: u64 where "SASL_RESPONSE \<equiv> 0x43"
abbreviation (input) SASL_OUTCOME :: u64 where "SASL_OUTCOME \<equiv> 0x44"

subsection \<open>Descriptors\<close>

definition decode_descriptor :: "descriptor decoder" where
  "decode_descriptor buf = (case peek_code buf of
      Some c \<Rightarrow>
        if c = ULONG_0 \<or> c = SMALL_ULONG \<or> c = ULONG
        then rbind (decode_u64 buf) (\<lambda>(n, buf). Inr (Code n, buf))
        else if c = SYM8 \<or> c = SYM32
        then rbind (decode_symbol buf) (\<lambda>(s, buf). Inr (Sym s, buf))
        else Inl (bad c ''descriptor (ulong or symbol)'')
    | None \<Rightarrow> Inl (Eof 1))"

definition peek_descriptor :: "bytes \<Rightarrow> decode_error + descriptor" where
  "peek_descriptor buf = rbind (read_u8 buf) (\<lambda>(c, probe).
    if c = DESCRIBED then rbind (decode_descriptor probe) (\<lambda>(d, _). Inr d)
    else Inl (bad c ''described type (0x00)''))"

definition expect_descriptor :: "u64 \<Rightarrow> bytes \<Rightarrow> decode_error + bytes" where
  "expect_descriptor expected buf = rbind (read_u8 buf) (\<lambda>(c, buf).
    if c \<noteq> DESCRIBED then Inl (bad c ''described type (0x00)'')
    else rbind (decode_descriptor buf) (\<lambda>(d, buf).
      if d = Code expected then Inr buf else Inl (UnexpectedDescriptor expected d)))"

subsection \<open>The cursor over list fields\<close>

record list_decoder =
  ld_body :: bytes
  ld_remaining :: u32

definition decode_described_list :: "u64 \<Rightarrow> list_decoder decoder" where
  "decode_described_list expected buf = rbind (read_u8 buf) (\<lambda>(c, buf).
    if c \<noteq> DESCRIBED then Inl (bad c ''described type (0x00)'')
    else rbind (decode_descriptor buf) (\<lambda>(d, buf).
      if d \<noteq> Code expected then Inl (UnexpectedDescriptor expected d)
      else rbind (read_list_header buf) (\<lambda>((count, body), buf).
        Inr (\<lparr>ld_body = body, ld_remaining = count\<rparr>, buf))))"

definition advance_one :: "list_decoder \<Rightarrow> list_decoder" where
  "advance_one d = d\<lparr>ld_remaining := ld_remaining d - 1\<rparr>"

definition ld_opt :: "'a decoder \<Rightarrow> list_decoder \<Rightarrow> decode_error + 'a option \<times> list_decoder" where
  "ld_opt dec d =
    (if ld_remaining d = 0 then Inr (None, d)
     else let d = advance_one d in
       if peek_code (ld_body d) = Some NULL
       then rbind (read_u8 (ld_body d)) (\<lambda>(_, b). Inr (None, d\<lparr>ld_body := b\<rparr>))
       else rbind (dec (ld_body d)) (\<lambda>(x, b). Inr (Some x, d\<lparr>ld_body := b\<rparr>)))"

definition ld_req :: "'a decoder \<Rightarrow> string \<Rightarrow> list_decoder \<Rightarrow> decode_error + 'a \<times> list_decoder" where
  "ld_req dec field d =
    (if ld_remaining d = 0 \<or> peek_code (ld_body d) = Some NULL then Inl (MissingField field)
     else let d = advance_one d in rbind (dec (ld_body d)) (\<lambda>(x, b). Inr (x, d\<lparr>ld_body := b\<rparr>)))"

definition ld_default :: "'a decoder \<Rightarrow> 'a \<Rightarrow> list_decoder \<Rightarrow> decode_error + 'a \<times> list_decoder" where
  "ld_default dec def d = rbind (ld_opt dec d) (\<lambda>(x, d). Inr (case x of Some v \<Rightarrow> v | None \<Rightarrow> def, d))"

fun symbol_elements :: "u8 \<Rightarrow> nat \<Rightarrow> bytes \<Rightarrow> decode_error + utf8 list" where
  "symbol_elements ctor 0 body = Inr []"
| "symbol_elements ctor (Suc n) body =
    rbind (if ctor = SYM8 then rbind (read_u8 body) (\<lambda>(l, body). Inr (unat l, body))
           else if ctor = SYM32 then rbind (read_u32 body) (\<lambda>(l, body). Inr (unat l, body))
           else Inl (bad ctor ''symbol array element'')) (\<lambda>(len, body).
    rbind (read_bytes len body) (\<lambda>(raw, body).
    rbind (utf8_string raw ''symbol'') (\<lambda>s.
    rbind (symbol_elements ctor n body) (\<lambda>out. Inr (s # out)))))"

definition decode_symbol_array :: "bytes \<Rightarrow> u32 \<Rightarrow> decode_error + utf8 list" where
  "decode_symbol_array body count =
    (if count = 0 then Inr []
     else rbind (read_u8 body) (\<lambda>(ctor, body). symbol_elements ctor (unat count) body))"

text \<open>The part that \<open>symbols\<close> and \<open>req_symbols\<close> share: an array or a single symbol.\<close>

definition symbols_body :: "list_decoder \<Rightarrow> decode_error + utf8 list \<times> list_decoder" where
  "symbols_body d =
    (if peek_code (ld_body d) = Some ARRAY8 \<or> peek_code (ld_body d) = Some ARRAY32
     then rbind (read_array_header (ld_body d)) (\<lambda>((count, body), b).
       rbind (decode_symbol_array body count) (\<lambda>syms. Inr (syms, d\<lparr>ld_body := b\<rparr>)))
     else rbind (decode_symbol (ld_body d)) (\<lambda>(s, b). Inr ([s], d\<lparr>ld_body := b\<rparr>)))"

definition ld_symbols :: "list_decoder \<Rightarrow> decode_error + utf8 list \<times> list_decoder" where
  "ld_symbols d =
    (if ld_remaining d = 0 then Inr ([], d)
     else let d = advance_one d in
       if peek_code (ld_body d) = Some NULL
       then rbind (read_u8 (ld_body d)) (\<lambda>(_, b). Inr ([], d\<lparr>ld_body := b\<rparr>))
       else symbols_body d)"

definition ld_req_symbols :: "string \<Rightarrow> list_decoder \<Rightarrow> decode_error + utf8 list \<times> list_decoder" where
  "ld_req_symbols field d =
    (if ld_remaining d = 0 \<or> peek_code (ld_body d) = Some NULL then Inl (MissingField field)
     else symbols_body (advance_one d))"

subsection \<open>What \<open>amqp_composite\<close> expands to\<close>

definition encode_composite :: "u64 \<Rightarrow> ('a \<Rightarrow> field_writer \<Rightarrow> field_writer) \<Rightarrow> 'a \<Rightarrow> bytes \<Rightarrow> bytes" where
  "encode_composite desc writes x buf = encode_described_list desc (writes x) buf"

definition decode_composite :: "u64 \<Rightarrow> (list_decoder \<Rightarrow> decode_error + 'a) \<Rightarrow> 'a decoder" where
  "decode_composite desc reads buf =
    rbind (decode_described_list desc buf) (\<lambda>(d, buf). rbind (reads d) (\<lambda>x. Inr (x, buf)))"

subsection \<open>Writing fields one after the other\<close>

text \<open>Every writer method records the offset and appends one encoded field.\<close>

definition fw_raw :: "bytes \<Rightarrow> field_writer \<Rightarrow> field_writer" where
  "fw_raw f fw = fw\<lparr>fw_starts := fw_starts fw @ [length (fw_buf fw)], fw_buf := fw_buf fw @ f\<rparr>"

definition symbols_field :: "utf8 list \<Rightarrow> bytes" where
  "symbols_field syms = (if syms = [] then [NULL] else encode_symbol_array syms [])"

lemma fw_field_raw: "encoder enc \<Longrightarrow> fw_field enc x fw = fw_raw (enc x []) fw"
  by (simp add: fw_field_def fw_raw_def encoder.appends [of enc x "fw_buf fw"])

lemma fw_field_option_raw: "encoder enc \<Longrightarrow> fw_field (encode_option enc) x fw = fw_raw (encode_option enc x []) fw"
  by (simp add: fw_field_def fw_raw_def encoder.option_appends [of enc x "fw_buf fw"])

lemma fw_symbols_raw: "fw_symbols syms fw = fw_raw (symbols_field syms) fw"
  by (simp add: fw_symbols_def fw_raw_def symbols_field_def encode_null_def put_u8_def
      encode_symbol_array_layout [of _ "fw_buf fw"] encode_symbol_array_layout [of _ "[]"])

lemma fw_symbols_required_raw: "fw_symbols_required syms fw = fw_raw (encode_symbol_array syms []) fw"
  by (simp add: fw_symbols_required_def fw_raw_def
      encode_symbol_array_layout [of _ "fw_buf fw"] encode_symbol_array_layout [of _ "[]"])

lemma fw_null_raw: "fw_null fw = fw_raw [NULL] fw"
  by (simp add: fw_null_def fw_raw_def encode_null_def put_u8_def)

lemmas fw_raws = fw_field_raw fw_field_option_raw fw_symbols_raw fw_symbols_required_raw fw_null_raw

lemma wrote_fold: "wrote base fs fw \<Longrightarrow> wrote base (fs @ gs) (fold fw_raw gs fw)"
proof (induction gs arbitrary: fs fw)
  case (Cons g gs)
  have "wrote base (fs @ [g]) (fw_raw g fw)"
    using Cons.prems by (simp add: wrote_def fw_raw_def offsets_snoc)
  from Cons.IH [OF this] show ?case by simp
qed simp

lemma encode_described_list_fields:
  assumes "\<And>fw. writes fw = fold fw_raw fs fw"
  shows "encode_described_list d writes buf = buf @ described_layout d fs"
  by (rule encode_described_list_layout) (simp add: assms wrote_fold [OF wrote_Nil, simplified])

subsection \<open>Reading fields one after the other\<close>

text \<open>The cursor positioned before the fields \<open>fs\<close>, of which trailing nulls were not written.\<close>

definition ld_at :: "bytes list \<Rightarrow> list_decoder" where
  "ld_at fs = \<lparr>ld_body = concat (strip_nulls fs), ld_remaining = of_nat (length (strip_nulls fs))\<rparr>"

lemma of_nat_u32_neq_0: "0 < n \<Longrightarrow> n < 2 ^ 32 \<Longrightarrow> (of_nat n :: u32) \<noteq> 0"
  using unat_of_nat_u32 [of n] by (metis neq0_conv unat_0)

lemma ld_at_cases:
  assumes "Suc (length fs) < 2 ^ 32"
  obtains (elided) "f = [NULL]" "ld_at (f # fs) = ld_at fs" "ld_remaining (ld_at (f # fs)) = 0"
    | (present) "ld_remaining (ld_at (f # fs)) \<noteq> 0" "ld_body (ld_at (f # fs)) = f @ ld_body (ld_at fs)"
        "advance_one (ld_at (f # fs)) = (ld_at fs)\<lparr>ld_body := f @ ld_body (ld_at fs)\<rparr>"
proof (cases "f = [NULL] \<and> strip_nulls fs = []")
  case True
  then show ?thesis by (intro elided) (simp_all add: ld_at_def)
next
  case False
  have "Suc (length (strip_nulls fs)) < 2 ^ 32"
    using assms length_strip_nulls_le [of fs] by simp
  then have "(of_nat (Suc (length (strip_nulls fs))) :: u32) \<noteq> 0"
    by (intro of_nat_u32_neq_0) simp_all
  with False show ?thesis by (intro present) (auto simp: ld_at_def advance_one_def)
qed

lemma ld_body_update_id [simp]: "d\<lparr>ld_body := f @ b, ld_body := b'\<rparr> = d\<lparr>ld_body := b'\<rparr>"
  by simp

context field_codec
begin

lemma ld_opt_value:
  assumes "representable x" "Suc (length fs) < 2 ^ 32"
  shows "ld_opt decode (ld_at (encode x [] # fs)) = Inr (Some x, ld_at fs)"
  using assms(2)
proof (cases rule: ld_at_cases [where f = "encode x []"])
  case elided
  then show ?thesis using encode_neq_null [OF assms(1)] by simp
next
  case present
  then show ?thesis
    using peek_encode [OF assms(1)] decode_encode [OF assms(1)] by (simp add: ld_opt_def)
qed

lemma ld_opt_option:
  assumes "pred_option representable x" "Suc (length fs) < 2 ^ 32"
  shows "ld_opt decode (ld_at (encode_option encode x [] # fs)) = Inr (x, ld_at fs)"
proof (cases x)
  case None
  then have f: "encode_option encode x [] = [NULL]"
    by (simp add: encode_option_def encode_null_def put_u8_def)
  show ?thesis
    unfolding f using assms(2)
    by (cases rule: ld_at_cases [where f = "[NULL]"]) (simp_all add: ld_opt_def None)
next
  case (Some v)
  then show ?thesis using ld_opt_value [of v fs] assms by (simp add: encode_option_def)
qed

lemma ld_default_value:
  assumes "representable x" "Suc (length fs) < 2 ^ 32"
  shows "ld_default decode def (ld_at (encode x [] # fs)) = Inr (x, ld_at fs)"
  by (simp add: ld_default_def ld_opt_value [OF assms])

lemma ld_req_value:
  assumes "representable x" "Suc (length fs) < 2 ^ 32"
  shows "ld_req decode field (ld_at (encode x [] # fs)) = Inr (x, ld_at fs)"
  using assms(2)
proof (cases rule: ld_at_cases [where f = "encode x []"])
  case elided
  then show ?thesis using encode_neq_null [OF assms(1)] by simp
next
  case present
  then show ?thesis
    using peek_encode [OF assms(1)] decode_encode [OF assms(1)] by (simp add: ld_req_def)
qed

end

definition symbols_ok :: "utf8 list \<Rightarrow> bool" where
  "symbols_ok syms \<longleftrightarrow> (\<forall>s \<in> set syms. text_ok s) \<and> length (encode_symbol_array syms []) < 2 ^ 32"

abbreviation symbol_bodies :: "utf8 list \<Rightarrow> bytes" where
  "symbol_bodies syms \<equiv> concat (map (\<lambda>sym. to_be_bytes 4 (of_nat (length sym) :: u32) @ sym) syms)"

lemma symbol_elements_encode:
  "\<forall>s \<in> set syms. text_ok s \<Longrightarrow> symbol_elements SYM32 (length syms) (symbol_bodies syms @ rest) = Inr syms"
  by (induction syms) (simp_all add: text_ok_def utf8_string_def read_bytes_len)

lemma decode_symbol_array_encode:
  assumes "symbols_ok syms"
  shows "decode_symbol_array (SYM32 # symbol_bodies syms) (of_nat (length syms)) = Inr syms"
proof -
  have "length syms \<le> length (symbol_bodies syms)"
    by (rule concat_map_length_ge) simp
  with assms have n: "length syms < 2 ^ 32"
    by (simp add: symbols_ok_def encode_symbol_array_layout)
  show ?thesis
  proof (cases syms)
    case (Cons a as)
    then have "(of_nat (length syms) :: u32) \<noteq> 0" using n by (intro of_nat_u32_neq_0) simp_all
    then show ?thesis
      using assms symbol_elements_encode [of syms "[]"]
      by (simp add: decode_symbol_array_def unat_of_nat_u32 [OF n] symbols_ok_def del: of_nat_Suc)
  qed (simp add: decode_symbol_array_def)
qed

lemma symbols_body_encode:
  assumes "symbols_ok syms"
  shows "symbols_body (d\<lparr>ld_body := encode_symbol_array syms [] @ b\<rparr>) = Inr (syms, d\<lparr>ld_body := b\<rparr>)"
proof -
  let ?body = "SYM32 # symbol_bodies syms"
  have len: "length ?body + 4 < 2 ^ 32"
    using assms by (simp add: symbols_ok_def encode_symbol_array_layout)
  have "read_array_header (encode_symbol_array syms [] @ b) = Inr ((of_nat (length syms), ?body), b)"
    using read_array_header_layout [OF len] by (simp add: encode_symbol_array_layout)
  moreover have "peek_code (encode_symbol_array syms [] @ b) = Some ARRAY32"
    by (simp add: encode_symbol_array_layout compound_layout_def)
  ultimately show ?thesis
    by (simp add: symbols_body_def decode_symbol_array_encode [OF assms])
qed

lemma peek_symbol_array [simp]: "peek_code (encode_symbol_array syms [] @ b) = Some ARRAY32"
  by (simp add: encode_symbol_array_layout compound_layout_def)

lemma symbol_array_neq_null: "encode_symbol_array syms [] \<noteq> [NULL]"
  by (simp add: encode_symbol_array_layout compound_layout_def)

lemma ld_symbols_encode:
  assumes "symbols_ok syms" "Suc (length fs) < 2 ^ 32"
  shows "ld_symbols (ld_at (symbols_field syms # fs)) = Inr (syms, ld_at fs)"
  using assms(2)
proof (cases rule: ld_at_cases [where f = "symbols_field syms"])
  case elided
  then have "syms = []" using symbol_array_neq_null by (auto simp: symbols_field_def split: if_splits)
  with elided show ?thesis by (simp add: ld_symbols_def)
next
  case present
  then show ?thesis
    using symbols_body_encode [OF assms(1)] by (auto simp: ld_symbols_def symbols_field_def)
qed

lemma ld_req_symbols_encode:
  assumes "symbols_ok syms" "Suc (length fs) < 2 ^ 32"
  shows "ld_req_symbols field (ld_at (encode_symbol_array syms [] # fs)) = Inr (syms, ld_at fs)"
  using assms(2)
proof (cases rule: ld_at_cases [where f = "encode_symbol_array syms []"])
  case elided
  then show ?thesis using symbol_array_neq_null by simp
next
  case present
  then show ?thesis
    using symbols_body_encode [OF assms(1)] by (simp add: ld_req_symbols_def)
qed

subsection \<open>The contract of \<open>amqp_composite\<close>\<close>

lemma decode_descriptor_encode: "decode_descriptor (encode_descriptor n [] @ rest) = Inr (Code n, rest)"
  by (simp add: decode_descriptor_def encode_descriptor_def put_defs decode_u64_def ucast_ucast_255)

lemma expect_descriptor_encode:
  "expect_descriptor n (DESCRIBED # encode_descriptor n [] @ rest) = Inr rest"
  by (simp add: expect_descriptor_def decode_descriptor_encode)

lemma peek_descriptor_encode:
  "peek_descriptor (DESCRIBED # encode_descriptor n [] @ rest) = Inr (Code n)"
  by (simp add: peek_descriptor_def decode_descriptor_encode)

lemma length_described_layout:
  "length (described_layout d fs) = 10 + length (encode_descriptor d []) + length (concat (strip_nulls fs))"
  by (simp add: described_layout_def)

lemma decode_described_list_layout:
  assumes "length (described_layout d fs) < 2 ^ 32"
  shows "decode_described_list d (described_layout d fs @ rest) = Inr (ld_at fs, rest)"
proof -
  have "length (concat (strip_nulls fs)) + 4 < 2 ^ 32"
    using assms by (simp add: length_described_layout)
  from read_list_header_layout [OF this] show ?thesis
    by (simp add: decode_described_list_def described_layout_def decode_descriptor_encode ld_at_def)
qed

locale composite =
  fixes desc :: u64 and writes :: "'a \<Rightarrow> field_writer \<Rightarrow> field_writer"
    and reads :: "list_decoder \<Rightarrow> decode_error + 'a"
    and flds :: "'a \<Rightarrow> bytes list" and fields_ok :: "'a \<Rightarrow> bool"
  assumes writes_fields: "writes x fw = fold fw_raw (flds x) fw"
    and reads_fields: "fields_ok x \<Longrightarrow> reads (ld_at (flds x)) = Inr x"
begin

lemma encode_layout: "encode_composite desc writes x buf = buf @ described_layout desc (flds x)"
  by (simp add: encode_composite_def encode_described_list_fields [OF writes_fields])

lemma decode_layout:
  assumes "fields_ok x" "length (encode_composite desc writes x []) < 2 ^ 32"
  shows "decode_composite desc reads (encode_composite desc writes x [] @ rest) = Inr (x, rest)"
  using assms
  by (simp add: encode_layout decode_composite_def decode_described_list_layout reads_fields)

lemma encoded_starts [simp]:
  "encode_composite desc writes x [] \<noteq> []"
  "hd (encode_composite desc writes x []) = DESCRIBED"
  by (simp_all add: encode_layout described_layout_def)

lemma peek_encoded: "peek_descriptor (encode_composite desc writes x [] @ rest) = Inr (Code desc)"
  by (simp add: encode_layout described_layout_def peek_descriptor_encode)

end

sublocale composite \<subseteq> comp: field_codec "encode_composite desc writes" "decode_composite desc reads"
  "\<lambda>x. fields_ok x \<and> length (encode_composite desc writes x []) < 2 ^ 32"
proof unfold_locales
  show "encode_composite desc writes x buf = buf @ encode_composite desc writes x []" for x buf
    by (simp add: encode_layout)
  show "hd (encode_composite desc writes x []) \<noteq> NULL" for x
    by (simp add: encode_layout described_layout_def)
qed (simp_all add: decode_layout)

end
