(* ===== verification/Types_Definitions.thy ===== *)
theory Types_Definitions
  imports Codec_Described
begin

section \<open>Transport definitions (\<open>ramqp-core/src/types/definitions.rs\<close>)\<close>

text \<open>
  Roles, settle modes, the error conditions and the \<open>error\<close> composite, each with its codec.
  A condition is a symbol on the wire; the typed domains and \<open>Custom\<close> overlap only in symbols
  that no peer needs \<open>Custom\<close> for, which is what \<open>condition_ok\<close> states.
\<close>

type_synonym fields = "(utf8, avalue) ordered_map"

subsection \<open>The codecs that fields use\<close>

lemmas prim_encoders [encoders] =
  bool_enc.encoder_axioms u8_enc.encoder_axioms u16_enc.encoder_axioms u32_enc.encoder_axioms
  u64_enc.encoder_axioms str_enc.encoder_axioms symbol_enc.encoder_axioms binary_enc.encoder_axioms
  uuid_codec.encoder_axioms

lemma pred_option_True [simp]: "pred_option (\<lambda>_. True) x"
  by (cases x) simp_all

lemmas bool_steps [field_steps] =
  bool_codec.ld_opt_option bool_codec.ld_default_value bool_codec.ld_req_value

lemmas u8_steps [field_steps] =
  u8_codec.ld_opt_option u8_codec.ld_default_value u8_codec.ld_req_value

lemmas u16_steps [field_steps] =
  u16_codec.ld_opt_option u16_codec.ld_default_value u16_codec.ld_req_value

lemmas u32_steps [field_steps] =
  u32_codec.ld_opt_option u32_codec.ld_default_value u32_codec.ld_req_value

lemmas u64_steps [field_steps] =
  u64_codec.ld_opt_option u64_codec.ld_default_value u64_codec.ld_req_value

lemmas string_steps [field_steps] =
  string_codec.ld_opt_option string_codec.ld_default_value string_codec.ld_req_value

lemmas symbol_steps [field_steps] =
  symbol_codec.ld_opt_option symbol_codec.ld_default_value symbol_codec.ld_req_value

lemmas binary_steps [field_steps] =
  binary_codec.ld_opt_option binary_codec.ld_default_value binary_codec.ld_req_value

lemmas symbols_steps [field_steps] = ld_symbols_encode ld_req_symbols_encode

interpretation fields_codec: map_codec encode_symbol decode_symbol text_ok encode_value "decode_value 0" value_ok
  by unfold_locales

abbreviation encode_fields :: "fields \<Rightarrow> bytes \<Rightarrow> bytes" where
  "encode_fields \<equiv> encode_map_entries encode_symbol encode_value"

abbreviation decode_fields :: "fields decoder" where
  "decode_fields \<equiv> decode_ordered_map decode_symbol (decode_value 0)"

abbreviation fields_ok :: "fields \<Rightarrow> bool" where
  "fields_ok \<equiv> \<lambda>m. (\<forall>(k, v) \<in> set m. text_ok k \<and> value_ok v) \<and> length (encode_fields m []) < 2 ^ 32"

lemmas fields_encoder [encoders] = fields_codec.map.encoder_axioms
lemmas fields_steps [field_steps] =
  fields_codec.map.ld_opt_option fields_codec.map.ld_default_value fields_codec.map.ld_req_value

subsection \<open>Roles and settle modes\<close>

datatype role = Sender | Receiver

fun opposite :: "role \<Rightarrow> role" where
  "opposite Sender = Receiver"
| "opposite Receiver = Sender"

definition encode_role :: "role \<Rightarrow> bytes \<Rightarrow> bytes" where
  "encode_role r buf = encode_bool (r = Receiver) buf"

definition decode_role :: "role decoder" where
  "decode_role buf = rbind (decode_bool buf) (\<lambda>(b, buf). Inr (if b then Receiver else Sender, buf))"

datatype sender_settle_mode = Unsettled | Settled | Mixed

fun sender_settle_mode_code :: "sender_settle_mode \<Rightarrow> u8" where
  "sender_settle_mode_code Unsettled = 0"
| "sender_settle_mode_code Settled = 1"
| "sender_settle_mode_code Mixed = 2"

definition encode_sender_settle_mode :: "sender_settle_mode \<Rightarrow> bytes \<Rightarrow> bytes" where
  "encode_sender_settle_mode m buf = encode_u8 (sender_settle_mode_code m) buf"

definition decode_sender_settle_mode :: "sender_settle_mode decoder" where
  "decode_sender_settle_mode buf = rbind (decode_u8 buf) (\<lambda>(n, buf).
    if n = 0 then Inr (Unsettled, buf)
    else if n = 1 then Inr (Settled, buf)
    else if n = 2 then Inr (Mixed, buf)
    else Inl (InvalidValue (InvalidSenderSettleMode n)))"

datatype receiver_settle_mode = First | Second

fun receiver_settle_mode_code :: "receiver_settle_mode \<Rightarrow> u8" where
  "receiver_settle_mode_code First = 0"
| "receiver_settle_mode_code Second = 1"

definition encode_receiver_settle_mode :: "receiver_settle_mode \<Rightarrow> bytes \<Rightarrow> bytes" where
  "encode_receiver_settle_mode m buf = encode_u8 (receiver_settle_mode_code m) buf"

definition decode_receiver_settle_mode :: "receiver_settle_mode decoder" where
  "decode_receiver_settle_mode buf = rbind (decode_u8 buf) (\<lambda>(n, buf).
    if n = 0 then Inr (First, buf)
    else if n = 1 then Inr (Second, buf)
    else Inl (InvalidValue (InvalidReceiverSettleMode n)))"

lemma opposite_opposite [simp]: "opposite (opposite r) = r"
  by (cases r) simp_all

lemma opposite_neq [simp]: "opposite r \<noteq> r" "r \<noteq> opposite r"
  by (cases r; simp)+

interpretation role_codec: field_codec encode_role decode_role "\<lambda>_. True"
  proof unfold_locales
  show "decode_role (encode_role x [] @ rest) = Inr (x, rest)" for x rest
    by (cases x) (simp_all add: encode_role_def decode_role_def bool_codec.decode_encode)
qed (auto simp: encode_role_def encode_bool_def put_u8_def)

interpretation sender_settle_mode_codec: field_codec encode_sender_settle_mode decode_sender_settle_mode "\<lambda>_. True"
proof unfold_locales
  show "decode_sender_settle_mode (encode_sender_settle_mode x [] @ rest) = Inr (x, rest)" for x rest
    by (cases x) (simp_all add: encode_sender_settle_mode_def decode_sender_settle_mode_def u8_codec.decode_encode)
qed (auto simp: encode_sender_settle_mode_def encode_u8_def put_u8_def)

interpretation receiver_settle_mode_codec: field_codec encode_receiver_settle_mode decode_receiver_settle_mode "\<lambda>_. True"
proof unfold_locales
  show "decode_receiver_settle_mode (encode_receiver_settle_mode x [] @ rest) = Inr (x, rest)" for x rest
    by (cases x) (simp_all add: encode_receiver_settle_mode_def decode_receiver_settle_mode_def u8_codec.decode_encode)
qed (auto simp: encode_receiver_settle_mode_def encode_u8_def put_u8_def)

lemmas role_encoder [encoders] = role_codec.encoder_axioms
lemmas role_steps [field_steps] =
  role_codec.ld_opt_option role_codec.ld_default_value role_codec.ld_req_value

lemmas sender_settle_mode_encoder [encoders] = sender_settle_mode_codec.encoder_axioms
lemmas sender_settle_mode_steps [field_steps] =
  sender_settle_mode_codec.ld_opt_option sender_settle_mode_codec.ld_default_value sender_settle_mode_codec.ld_req_value

lemmas receiver_settle_mode_encoder [encoders] = receiver_settle_mode_codec.encoder_axioms
lemmas receiver_settle_mode_steps [field_steps] =
  receiver_settle_mode_codec.ld_opt_option receiver_settle_mode_codec.ld_default_value receiver_settle_mode_codec.ld_req_value

subsection \<open>Error conditions\<close>

datatype amqp_error = 
    InternalError
  | NotFound
  | UnauthorizedAccess
  | DecodeError
  | ResourceLimitExceeded
  | NotAllowed
  | InvalidField
  | NotImplemented
  | ResourceLocked
  | PreconditionFailed
  | ResourceDeleted
  | IllegalState
  | FrameSizeTooSmall

fun amqp_error_as_str :: "amqp_error \<Rightarrow> string" where
  "amqp_error_as_str InternalError = ''amqp:internal-error''"
| "amqp_error_as_str NotFound = ''amqp:not-found''"
| "amqp_error_as_str UnauthorizedAccess = ''amqp:unauthorized-access''"
| "amqp_error_as_str DecodeError = ''amqp:decode-error''"
| "amqp_error_as_str ResourceLimitExceeded = ''amqp:resource-limit-exceeded''"
| "amqp_error_as_str NotAllowed = ''amqp:not-allowed''"
| "amqp_error_as_str InvalidField = ''amqp:invalid-field''"
| "amqp_error_as_str NotImplemented = ''amqp:not-implemented''"
| "amqp_error_as_str ResourceLocked = ''amqp:resource-locked''"
| "amqp_error_as_str PreconditionFailed = ''amqp:precondition-failed''"
| "amqp_error_as_str ResourceDeleted = ''amqp:resource-deleted''"
| "amqp_error_as_str IllegalState = ''amqp:illegal-state''"
| "amqp_error_as_str FrameSizeTooSmall = ''amqp:frame-size-too-small''"

definition amqp_error_from_str :: "utf8 \<Rightarrow> amqp_error option" where
  "amqp_error_from_str s =
    (if s = ascii ''amqp:internal-error'' then Some InternalError
     else if s = ascii ''amqp:not-found'' then Some NotFound
     else if s = ascii ''amqp:unauthorized-access'' then Some UnauthorizedAccess
     else if s = ascii ''amqp:decode-error'' then Some DecodeError
     else if s = ascii ''amqp:resource-limit-exceeded'' then Some ResourceLimitExceeded
     else if s = ascii ''amqp:not-allowed'' then Some NotAllowed
     else if s = ascii ''amqp:invalid-field'' then Some InvalidField
     else if s = ascii ''amqp:not-implemented'' then Some NotImplemented
     else if s = ascii ''amqp:resource-locked'' then Some ResourceLocked
     else if s = ascii ''amqp:precondition-failed'' then Some PreconditionFailed
     else if s = ascii ''amqp:resource-deleted'' then Some ResourceDeleted
     else if s = ascii ''amqp:illegal-state'' then Some IllegalState
     else if s = ascii ''amqp:frame-size-too-small'' then Some FrameSizeTooSmall
     else None)"

datatype connection_error = 
    ConnectionForced
  | FramingError
  | ConnectionRedirect

fun connection_error_as_str :: "connection_error \<Rightarrow> string" where
  "connection_error_as_str ConnectionForced = ''amqp:connection:forced''"
| "connection_error_as_str FramingError = ''amqp:connection:framing-error''"
| "connection_error_as_str ConnectionRedirect = ''amqp:connection:redirect''"

definition connection_error_from_str :: "utf8 \<Rightarrow> connection_error option" where
  "connection_error_from_str s =
    (if s = ascii ''amqp:connection:forced'' then Some ConnectionForced
     else if s = ascii ''amqp:connection:framing-error'' then Some FramingError
     else if s = ascii ''amqp:connection:redirect'' then Some ConnectionRedirect
     else None)"

datatype session_error = 
    WindowViolation
  | ErrantLink
  | HandleInUse
  | UnattachedHandle

fun session_error_as_str :: "session_error \<Rightarrow> string" where
  "session_error_as_str WindowViolation = ''amqp:session:window-violation''"
| "session_error_as_str ErrantLink = ''amqp:session:errant-link''"
| "session_error_as_str HandleInUse = ''amqp:session:handle-in-use''"
| "session_error_as_str UnattachedHandle = ''amqp:session:unattached-handle''"

definition session_error_from_str :: "utf8 \<Rightarrow> session_error option" where
  "session_error_from_str s =
    (if s = ascii ''amqp:session:window-violation'' then Some WindowViolation
     else if s = ascii ''amqp:session:errant-link'' then Some ErrantLink
     else if s = ascii ''amqp:session:handle-in-use'' then Some HandleInUse
     else if s = ascii ''amqp:session:unattached-handle'' then Some UnattachedHandle
     else None)"

datatype transaction_error = 
    UnknownId
  | TransactionRollback
  | TransactionTimeout

fun transaction_error_as_str :: "transaction_error \<Rightarrow> string" where
  "transaction_error_as_str UnknownId = ''amqp:transaction:unknown-id''"
| "transaction_error_as_str TransactionRollback = ''amqp:transaction:rollback''"
| "transaction_error_as_str TransactionTimeout = ''amqp:transaction:timeout''"

definition transaction_error_from_str :: "utf8 \<Rightarrow> transaction_error option" where
  "transaction_error_from_str s =
    (if s = ascii ''amqp:transaction:unknown-id'' then Some UnknownId
     else if s = ascii ''amqp:transaction:rollback'' then Some TransactionRollback
     else if s = ascii ''amqp:transaction:timeout'' then Some TransactionTimeout
     else None)"

datatype link_error = 
    DetachForced
  | TransferLimitExceeded
  | MessageSizeExceeded
  | LinkRedirect
  | Stolen

fun link_error_as_str :: "link_error \<Rightarrow> string" where
  "link_error_as_str DetachForced = ''amqp:link:detach-forced''"
| "link_error_as_str TransferLimitExceeded = ''amqp:link:transfer-limit-exceeded''"
| "link_error_as_str MessageSizeExceeded = ''amqp:link:message-size-exceeded''"
| "link_error_as_str LinkRedirect = ''amqp:link:redirect''"
| "link_error_as_str Stolen = ''amqp:link:stolen''"

definition link_error_from_str :: "utf8 \<Rightarrow> link_error option" where
  "link_error_from_str s =
    (if s = ascii ''amqp:link:detach-forced'' then Some DetachForced
     else if s = ascii ''amqp:link:transfer-limit-exceeded'' then Some TransferLimitExceeded
     else if s = ascii ''amqp:link:message-size-exceeded'' then Some MessageSizeExceeded
     else if s = ascii ''amqp:link:redirect'' then Some LinkRedirect
     else if s = ascii ''amqp:link:stolen'' then Some Stolen
     else None)"

datatype error_condition =
    Amqp amqp_error
  | Connection connection_error
  | Session session_error
  | Link link_error
  | Transaction transaction_error
  | Custom utf8

fun condition_as_str :: "error_condition \<Rightarrow> utf8" where
  "condition_as_str (Amqp e) = ascii (amqp_error_as_str e)"
| "condition_as_str (Connection e) = ascii (connection_error_as_str e)"
| "condition_as_str (Session e) = ascii (session_error_as_str e)"
| "condition_as_str (Link e) = ascii (link_error_as_str e)"
| "condition_as_str (Transaction e) = ascii (transaction_error_as_str e)"
| "condition_as_str (Custom s) = s"

definition from_symbol :: "utf8 \<Rightarrow> error_condition" where
  "from_symbol s = (case amqp_error_from_str s of Some e \<Rightarrow> Amqp e
    | None \<Rightarrow> (case connection_error_from_str s of Some e \<Rightarrow> Connection e
    | None \<Rightarrow> (case session_error_from_str s of Some e \<Rightarrow> Session e
    | None \<Rightarrow> (case link_error_from_str s of Some e \<Rightarrow> Link e
    | None \<Rightarrow> (case transaction_error_from_str s of Some e \<Rightarrow> Transaction e
    | None \<Rightarrow> Custom s)))))"

definition encode_error_condition :: "error_condition \<Rightarrow> bytes \<Rightarrow> bytes" where
  "encode_error_condition c buf = encode_symbol (condition_as_str c) buf"

definition decode_error_condition :: "error_condition decoder" where
  "decode_error_condition buf = rbind (decode_symbol buf) (\<lambda>(s, buf). Inr (from_symbol s, buf))"

definition condition_ok :: "error_condition \<Rightarrow> bool" where
  "condition_ok c \<longleftrightarrow> text_ok (condition_as_str c) \<and> from_symbol (condition_as_str c) = c"

lemma of_char_ascii_eq: "(of_char c :: u8) = of_char d \<longleftrightarrow> c = d"
proof
  assume "(of_char c :: u8) = of_char d"
  then have "unat (of_char c :: u8) = unat (of_char d :: u8)" by simp
  moreover have "unat (of_char x :: u8) = of_char x" for x
  proof -
    have "(of_char x :: u8) = of_nat (of_char x)" by (simp only: of_nat_of_char)
    then show ?thesis using nat_of_char_less_256 [of x] by (simp add: unsigned_of_nat take_bit_nat_eq_self)
  qed
  ultimately show "c = d" by simp
qed simp

lemma ascii_eq_iff [simp]: "ascii s = ascii t \<longleftrightarrow> s = t"
  by (simp add: ascii_def inj_map_eq_map inj_def of_char_ascii_eq)

lemma from_symbol_amqp: "from_symbol (ascii (amqp_error_as_str e)) = Amqp e"
  by (cases e) (simp_all add: from_symbol_def amqp_error_from_str_def connection_error_from_str_def session_error_from_str_def transaction_error_from_str_def link_error_from_str_def)

lemma from_symbol_connection: "from_symbol (ascii (connection_error_as_str e)) = Connection e"
  by (cases e) (simp_all add: from_symbol_def amqp_error_from_str_def connection_error_from_str_def session_error_from_str_def transaction_error_from_str_def link_error_from_str_def)

lemma from_symbol_session: "from_symbol (ascii (session_error_as_str e)) = Session e"
  by (cases e) (simp_all add: from_symbol_def amqp_error_from_str_def connection_error_from_str_def session_error_from_str_def transaction_error_from_str_def link_error_from_str_def)

lemma from_symbol_link: "from_symbol (ascii (link_error_as_str e)) = Link e"
  by (cases e) (simp_all add: from_symbol_def amqp_error_from_str_def connection_error_from_str_def session_error_from_str_def transaction_error_from_str_def link_error_from_str_def)

lemma from_symbol_transaction: "from_symbol (ascii (transaction_error_as_str e)) = Transaction e"
  by (cases e) (simp_all add: from_symbol_def amqp_error_from_str_def connection_error_from_str_def session_error_from_str_def transaction_error_from_str_def link_error_from_str_def)

interpretation condition_codec: field_codec encode_error_condition decode_error_condition condition_ok
proof unfold_locales
  show "encode_error_condition x buf = buf @ encode_error_condition x []" for x buf
    unfolding encode_error_condition_def by (rule symbol_enc.appends)
  show "condition_ok x \<Longrightarrow> decode_error_condition (encode_error_condition x [] @ rest) = Inr (x, rest)" for x rest
    by (simp add: decode_error_condition_def encode_error_condition_def symbol_codec.decode_encode condition_ok_def)
qed (auto simp: encode_error_condition_def encode_symbol_def)

lemmas condition_encoder [encoders] = condition_codec.encoder_axioms
lemmas condition_steps [field_steps] =
  condition_codec.ld_opt_option condition_codec.ld_default_value condition_codec.ld_req_value

subsection \<open>The error composite\<close>

record err =
  er_condition :: error_condition
  er_description :: "utf8 option"
  er_info :: "fields option"

definition err_writes :: "err \<Rightarrow> field_writer \<Rightarrow> field_writer" where
  "err_writes x fw =
    (let fw = fw_field encode_error_condition (er_condition x) fw;
         fw = fw_field (encode_option encode_str) (er_description x) fw;
         fw = fw_field (encode_option encode_fields) (er_info x) fw
     in fw)"

definition err_reads :: "list_decoder \<Rightarrow> decode_error + err" where
  "err_reads d =
    rbind (ld_req decode_error_condition ''condition'' d) (\<lambda>(condition, d).
    rbind (ld_opt decode_string d) (\<lambda>(description, d).
    rbind (ld_opt decode_fields d) (\<lambda>(info, d).
    Inr \<lparr>er_condition = condition, er_description = description, er_info = info\<rparr>)))"

definition err_flds :: "err \<Rightarrow> bytes list" where
  "err_flds x =
    [encode_error_condition (er_condition x) [],
     encode_option encode_str (er_description x) [],
     encode_option encode_fields (er_info x) []]"

definition err_ok :: "err \<Rightarrow> bool" where
  "err_ok x \<longleftrightarrow> condition_ok (er_condition x) \<and>
    pred_option text_ok (er_description x) \<and>
    pred_option fields_ok (er_info x)"

abbreviation encode_err :: "err \<Rightarrow> bytes \<Rightarrow> bytes" where
  "encode_err \<equiv> encode_composite ERROR err_writes"

abbreviation decode_err :: "err decoder" where
  "decode_err \<equiv> decode_composite ERROR err_reads"

abbreviation rep_err :: "err \<Rightarrow> bool" where
  "rep_err \<equiv> \<lambda>x. err_ok x \<and> length (encode_err x []) < 2 ^ 32"

interpretation err_codec: composite ERROR err_writes err_reads err_flds err_ok
  by unfold_locales
    (simp_all add: err_writes_def err_reads_def err_flds_def err_ok_def fw_raws encoders field_steps)

lemmas err_encoder [encoders] = err_codec.comp.encoder_axioms
lemmas err_steps [field_steps] =
  err_codec.comp.ld_opt_option err_codec.comp.ld_default_value err_codec.comp.ld_req_value

end
