(* ===== verification/Types_Messaging.thy ===== *)
theory Types_Messaging
  imports Types_Definitions
begin

section \<open>Messaging types (\<open>ramqp-core/src/types/messaging.rs\<close>)\<close>

text \<open>
  Timestamps and message ids, the delivery states and outcomes, the addressing composites, the
  sections of the bare message and the assembled message with its section loop.
\<close>

subsection \<open>Timestamp and message id\<close>

definition encode_timestamp :: "i64 \<Rightarrow> bytes \<Rightarrow> bytes" where
  "encode_timestamp ms buf = put_u64 ms (put_u8 TIMESTAMP buf)"

definition decode_timestamp :: "i64 decoder" where
  "decode_timestamp buf = rbind (read_u8 buf) (\<lambda>(c, buf).
    if c = TIMESTAMP then read_u64 buf else Inl (bad c ''timestamp''))"

datatype message_id = IdUlong u64 | IdUuid bytes | IdBinary bytes | IdString utf8

fun encode_message_id :: "message_id \<Rightarrow> bytes \<Rightarrow> bytes" where
  "encode_message_id (IdUlong v) buf = encode_u64 v buf"
| "encode_message_id (IdUuid v) buf = encode_uuid v buf"
| "encode_message_id (IdBinary v) buf = encode_binary v buf"
| "encode_message_id (IdString v) buf = encode_str v buf"

definition decode_message_id :: "message_id decoder" where
  "decode_message_id buf = (case peek_code buf of
      Some c \<Rightarrow>
        if c = ULONG_0 \<or> c = SMALL_ULONG \<or> c = ULONG
        then rbind (decode_u64 buf) (\<lambda>(v, buf). Inr (IdUlong v, buf))
        else if c = UUID then rbind (decode_uuid buf) (\<lambda>(v, buf). Inr (IdUuid v, buf))
        else if c = VBIN8 \<or> c = VBIN32 then rbind (decode_binary buf) (\<lambda>(v, buf). Inr (IdBinary v, buf))
        else if c = STR8 \<or> c = STR32 then rbind (decode_string buf) (\<lambda>(v, buf). Inr (IdString v, buf))
        else Inl (bad c ''message-id (ulong/uuid/binary/string)'')
    | None \<Rightarrow> Inl (Eof 1))"

fun message_id_ok :: "message_id \<Rightarrow> bool" where
  "message_id_ok (IdUlong v) = True"
| "message_id_ok (IdUuid v) = (length v = 16)"
| "message_id_ok (IdBinary v) = var_ok v"
| "message_id_ok (IdString v) = text_ok v"

interpretation timestamp_codec: field_codec encode_timestamp decode_timestamp "\<lambda>_. True"
  by unfold_locales (auto simp: encode_timestamp_def put_defs decode_timestamp_def)

interpretation message_id_codec: field_codec encode_message_id decode_message_id message_id_ok
proof unfold_locales
  show "encode_message_id x buf = buf @ encode_message_id x []" for x buf
    by (cases x) (simp_all add: encode_prim_defs put_defs)
  show "encode_message_id x [] \<noteq> []" for x
    by (cases x) (simp_all add: encode_prim_defs put_defs)
  show "hd (encode_message_id x []) \<noteq> NULL" for x
    by (cases x) (simp_all add: encode_prim_defs put_defs)
  show "message_id_ok x \<Longrightarrow> decode_message_id (encode_message_id x [] @ rest) = Inr (x, rest)" for x rest
    by (cases x) (simp_all add: decode_message_id_def peek_encoded_prim
        u64_codec.decode_encode uuid_codec.decode_encode binary_codec.decode_encode string_codec.decode_encode)
qed

lemmas timestamp_encoder [encoders] = timestamp_codec.encoder_axioms
lemmas timestamp_steps [field_steps] =
  timestamp_codec.ld_opt_option timestamp_codec.ld_default_value timestamp_codec.ld_req_value

lemmas message_id_encoder [encoders] = message_id_codec.encoder_axioms
lemmas message_id_steps [field_steps] =
  message_id_codec.ld_opt_option message_id_codec.ld_default_value message_id_codec.ld_req_value

subsection \<open>Delivery states and outcomes\<close>

record received =
  rc_section_number :: u32
  rc_section_offset :: u64

definition received_writes :: "received \<Rightarrow> field_writer \<Rightarrow> field_writer" where
  "received_writes x fw =
    (let fw = fw_field encode_u32 (rc_section_number x) fw;
         fw = fw_field encode_u64 (rc_section_offset x) fw
     in fw)"

definition received_reads :: "list_decoder \<Rightarrow> decode_error + received" where
  "received_reads d =
    rbind (ld_req decode_u32 ''section-number'' d) (\<lambda>(section_number, d).
    rbind (ld_req decode_u64 ''section-offset'' d) (\<lambda>(section_offset, d).
    Inr \<lparr>rc_section_number = section_number, rc_section_offset = section_offset\<rparr>))"

definition received_flds :: "received \<Rightarrow> bytes list" where
  "received_flds x =
    [encode_u32 (rc_section_number x) [],
     encode_u64 (rc_section_offset x) []]"

definition received_ok :: "received \<Rightarrow> bool" where
  "received_ok x \<longleftrightarrow> True"

abbreviation encode_received :: "received \<Rightarrow> bytes \<Rightarrow> bytes" where
  "encode_received \<equiv> encode_composite RECEIVED received_writes"

abbreviation decode_received :: "received decoder" where
  "decode_received \<equiv> decode_composite RECEIVED received_reads"

abbreviation rep_received :: "received \<Rightarrow> bool" where
  "rep_received \<equiv> \<lambda>x. received_ok x \<and> length (encode_received x []) < 2 ^ 32"

interpretation received_codec: composite RECEIVED received_writes received_reads received_flds received_ok
  by unfold_locales
    (simp_all add: received_writes_def received_reads_def received_flds_def received_ok_def fw_raws encoders field_steps)

lemmas received_encoder [encoders] = received_codec.comp.encoder_axioms
lemmas received_steps [field_steps] =
  received_codec.comp.ld_opt_option received_codec.comp.ld_default_value received_codec.comp.ld_req_value

type_synonym accepted = unit

definition accepted_writes :: "accepted \<Rightarrow> field_writer \<Rightarrow> field_writer" where
  "accepted_writes x fw = fw"

definition accepted_reads :: "list_decoder \<Rightarrow> decode_error + accepted" where
  "accepted_reads d = Inr ()"

definition accepted_flds :: "accepted \<Rightarrow> bytes list" where
  "accepted_flds x = []"

definition accepted_ok :: "accepted \<Rightarrow> bool" where
  "accepted_ok x \<longleftrightarrow> True"

abbreviation encode_accepted :: "accepted \<Rightarrow> bytes \<Rightarrow> bytes" where
  "encode_accepted \<equiv> encode_composite ACCEPTED accepted_writes"

abbreviation decode_accepted :: "accepted decoder" where
  "decode_accepted \<equiv> decode_composite ACCEPTED accepted_reads"

abbreviation rep_accepted :: "accepted \<Rightarrow> bool" where
  "rep_accepted \<equiv> \<lambda>x. accepted_ok x \<and> length (encode_accepted x []) < 2 ^ 32"

interpretation accepted_codec: composite ACCEPTED accepted_writes accepted_reads accepted_flds accepted_ok
  by unfold_locales
    (simp_all add: accepted_writes_def accepted_reads_def accepted_flds_def accepted_ok_def fw_raws encoders field_steps)

lemmas accepted_encoder [encoders] = accepted_codec.comp.encoder_axioms
lemmas accepted_steps [field_steps] =
  accepted_codec.comp.ld_opt_option accepted_codec.comp.ld_default_value accepted_codec.comp.ld_req_value

type_synonym released = unit

definition released_writes :: "released \<Rightarrow> field_writer \<Rightarrow> field_writer" where
  "released_writes x fw = fw"

definition released_reads :: "list_decoder \<Rightarrow> decode_error + released" where
  "released_reads d = Inr ()"

definition released_flds :: "released \<Rightarrow> bytes list" where
  "released_flds x = []"

definition released_ok :: "released \<Rightarrow> bool" where
  "released_ok x \<longleftrightarrow> True"

abbreviation encode_released :: "released \<Rightarrow> bytes \<Rightarrow> bytes" where
  "encode_released \<equiv> encode_composite RELEASED released_writes"

abbreviation decode_released :: "released decoder" where
  "decode_released \<equiv> decode_composite RELEASED released_reads"

abbreviation rep_released :: "released \<Rightarrow> bool" where
  "rep_released \<equiv> \<lambda>x. released_ok x \<and> length (encode_released x []) < 2 ^ 32"

interpretation released_codec: composite RELEASED released_writes released_reads released_flds released_ok
  by unfold_locales
    (simp_all add: released_writes_def released_reads_def released_flds_def released_ok_def fw_raws encoders field_steps)

lemmas released_encoder [encoders] = released_codec.comp.encoder_axioms
lemmas released_steps [field_steps] =
  released_codec.comp.ld_opt_option released_codec.comp.ld_default_value released_codec.comp.ld_req_value

record rejected =
  rj_error :: "err option"

definition rejected_writes :: "rejected \<Rightarrow> field_writer \<Rightarrow> field_writer" where
  "rejected_writes x fw =
    (let fw = fw_field (encode_option encode_err) (rj_error x) fw
     in fw)"

definition rejected_reads :: "list_decoder \<Rightarrow> decode_error + rejected" where
  "rejected_reads d =
    rbind (ld_opt decode_err d) (\<lambda>(error, d).
    Inr \<lparr>rj_error = error\<rparr>)"

definition rejected_flds :: "rejected \<Rightarrow> bytes list" where
  "rejected_flds x =
    [encode_option encode_err (rj_error x) []]"

definition rejected_ok :: "rejected \<Rightarrow> bool" where
  "rejected_ok x \<longleftrightarrow> pred_option rep_err (rj_error x)"

abbreviation encode_rejected :: "rejected \<Rightarrow> bytes \<Rightarrow> bytes" where
  "encode_rejected \<equiv> encode_composite REJECTED rejected_writes"

abbreviation decode_rejected :: "rejected decoder" where
  "decode_rejected \<equiv> decode_composite REJECTED rejected_reads"

abbreviation rep_rejected :: "rejected \<Rightarrow> bool" where
  "rep_rejected \<equiv> \<lambda>x. rejected_ok x \<and> length (encode_rejected x []) < 2 ^ 32"

interpretation rejected_codec: composite REJECTED rejected_writes rejected_reads rejected_flds rejected_ok
  by unfold_locales
    (simp_all add: rejected_writes_def rejected_reads_def rejected_flds_def rejected_ok_def fw_raws encoders field_steps)

lemmas rejected_encoder [encoders] = rejected_codec.comp.encoder_axioms
lemmas rejected_steps [field_steps] =
  rejected_codec.comp.ld_opt_option rejected_codec.comp.ld_default_value rejected_codec.comp.ld_req_value

record modified =
  md_delivery_failed :: "bool option"
  md_undeliverable_here :: "bool option"
  md_message_annotations :: "fields option"

definition modified_writes :: "modified \<Rightarrow> field_writer \<Rightarrow> field_writer" where
  "modified_writes x fw =
    (let fw = fw_field (encode_option encode_bool) (md_delivery_failed x) fw;
         fw = fw_field (encode_option encode_bool) (md_undeliverable_here x) fw;
         fw = fw_field (encode_option encode_fields) (md_message_annotations x) fw
     in fw)"

definition modified_reads :: "list_decoder \<Rightarrow> decode_error + modified" where
  "modified_reads d =
    rbind (ld_opt decode_bool d) (\<lambda>(delivery_failed, d).
    rbind (ld_opt decode_bool d) (\<lambda>(undeliverable_here, d).
    rbind (ld_opt decode_fields d) (\<lambda>(message_annotations, d).
    Inr \<lparr>md_delivery_failed = delivery_failed, md_undeliverable_here = undeliverable_here,
      md_message_annotations = message_annotations\<rparr>)))"

definition modified_flds :: "modified \<Rightarrow> bytes list" where
  "modified_flds x =
    [encode_option encode_bool (md_delivery_failed x) [],
     encode_option encode_bool (md_undeliverable_here x) [],
     encode_option encode_fields (md_message_annotations x) []]"

definition modified_ok :: "modified \<Rightarrow> bool" where
  "modified_ok x \<longleftrightarrow> pred_option fields_ok (md_message_annotations x)"

abbreviation encode_modified :: "modified \<Rightarrow> bytes \<Rightarrow> bytes" where
  "encode_modified \<equiv> encode_composite MODIFIED modified_writes"

abbreviation decode_modified :: "modified decoder" where
  "decode_modified \<equiv> decode_composite MODIFIED modified_reads"

abbreviation rep_modified :: "modified \<Rightarrow> bool" where
  "rep_modified \<equiv> \<lambda>x. modified_ok x \<and> length (encode_modified x []) < 2 ^ 32"

interpretation modified_codec: composite MODIFIED modified_writes modified_reads modified_flds modified_ok
  by unfold_locales
    (simp_all add: modified_writes_def modified_reads_def modified_flds_def modified_ok_def fw_raws encoders field_steps)

lemmas modified_encoder [encoders] = modified_codec.comp.encoder_axioms
lemmas modified_steps [field_steps] =
  modified_codec.comp.ld_opt_option modified_codec.comp.ld_default_value modified_codec.comp.ld_req_value

datatype outcome =
    OAccepted accepted
  | ORejected rejected
  | OReleased released
  | OModified modified

fun encode_outcome :: "outcome \<Rightarrow> bytes \<Rightarrow> bytes" where
  "encode_outcome (OAccepted v) buf = encode_accepted v buf"
| "encode_outcome (ORejected v) buf = encode_rejected v buf"
| "encode_outcome (OReleased v) buf = encode_released v buf"
| "encode_outcome (OModified v) buf = encode_modified v buf"

definition decode_outcome :: "outcome decoder" where
  "decode_outcome buf = rbind (peek_descriptor buf) (\<lambda>d.
    if d = Code ACCEPTED then rbind (decode_accepted buf) (\<lambda>(v, buf). Inr (OAccepted v, buf))
    else if d = Code REJECTED then rbind (decode_rejected buf) (\<lambda>(v, buf). Inr (ORejected v, buf))
    else if d = Code RELEASED then rbind (decode_released buf) (\<lambda>(v, buf). Inr (OReleased v, buf))
    else if d = Code MODIFIED then rbind (decode_modified buf) (\<lambda>(v, buf). Inr (OModified v, buf))
    else Inl (InvalidValue (UnexpectedOutcome d)))"

datatype delivery_state =
    SReceived received
  | SAccepted accepted
  | SRejected rejected
  | SReleased released
  | SModified modified
  | SOther avalue

definition is_terminal :: "delivery_state \<Rightarrow> bool" where
  "is_terminal s = (case s of SReceived _ \<Rightarrow> False | _ \<Rightarrow> True)"

fun encode_delivery_state :: "delivery_state \<Rightarrow> bytes \<Rightarrow> bytes" where
  "encode_delivery_state (SReceived v) buf = encode_received v buf"
| "encode_delivery_state (SAccepted v) buf = encode_accepted v buf"
| "encode_delivery_state (SRejected v) buf = encode_rejected v buf"
| "encode_delivery_state (SReleased v) buf = encode_released v buf"
| "encode_delivery_state (SModified v) buf = encode_modified v buf"
| "encode_delivery_state (SOther v) buf = encode_value v buf"

definition decode_delivery_state :: "delivery_state decoder" where
  "decode_delivery_state buf = rbind (peek_descriptor buf) (\<lambda>d.
    if d = Code RECEIVED then rbind (decode_received buf) (\<lambda>(v, buf). Inr (SReceived v, buf))
    else if d = Code ACCEPTED then rbind (decode_accepted buf) (\<lambda>(v, buf). Inr (SAccepted v, buf))
    else if d = Code REJECTED then rbind (decode_rejected buf) (\<lambda>(v, buf). Inr (SRejected v, buf))
    else if d = Code RELEASED then rbind (decode_released buf) (\<lambda>(v, buf). Inr (SReleased v, buf))
    else if d = Code MODIFIED then rbind (decode_modified buf) (\<lambda>(v, buf). Inr (SModified v, buf))
    else rbind (decode_value 0 buf) (\<lambda>(v, buf). Inr (SOther v, buf)))"

fun outcome_state :: "outcome \<Rightarrow> delivery_state" where
  "outcome_state (OAccepted v) = SAccepted v"
| "outcome_state (ORejected v) = SRejected v"
| "outcome_state (OReleased v) = SReleased v"
| "outcome_state (OModified v) = SModified v"

fun outcome_ok :: "outcome \<Rightarrow> bool" where
  "outcome_ok (OAccepted v) = rep_accepted v"
| "outcome_ok (ORejected v) = rep_rejected v"
| "outcome_ok (OReleased v) = rep_released v"
| "outcome_ok (OModified v) = rep_modified v"

text \<open>A state kept verbatim is a described value whose descriptor is none of the known ones.\<close>

fun other_state :: "avalue \<Rightarrow> bool" where
  "other_state (VDescribed (VUlong n) v) = (n \<notin> {RECEIVED, ACCEPTED, REJECTED, RELEASED, MODIFIED})"
| "other_state (VDescribed (VSymbol s) v) = True"
| "other_state _ = False"

fun delivery_state_ok :: "delivery_state \<Rightarrow> bool" where
  "delivery_state_ok (SReceived v) = rep_received v"
| "delivery_state_ok (SAccepted v) = rep_accepted v"
| "delivery_state_ok (SRejected v) = rep_rejected v"
| "delivery_state_ok (SReleased v) = rep_released v"
| "delivery_state_ok (SModified v) = rep_modified v"
| "delivery_state_ok (SOther v) = (value_ok v \<and> other_state v)"

lemmas state_appends =
  received_codec.comp.appends accepted_codec.comp.appends released_codec.comp.appends
  rejected_codec.comp.appends modified_codec.comp.appends
lemmas state_peek =
  received_codec.peek_encoded accepted_codec.peek_encoded released_codec.peek_encoded
  rejected_codec.peek_encoded modified_codec.peek_encoded
lemmas state_decode =
  received_codec.comp.decode_encode accepted_codec.comp.decode_encode released_codec.comp.decode_encode
  rejected_codec.comp.decode_encode modified_codec.comp.decode_encode

interpretation outcome_codec: field_codec encode_outcome decode_outcome outcome_ok
proof unfold_locales
  show "encode_outcome x buf = buf @ encode_outcome x []" for x buf
    by (cases x) (simp_all, (rule state_appends)+)
  show "outcome_ok x \<Longrightarrow> decode_outcome (encode_outcome x [] @ rest) = Inr (x, rest)" for x rest
    by (cases x) (simp_all add: decode_outcome_def state_peek state_decode)
  show "outcome_ok x \<Longrightarrow> encode_outcome x [] \<noteq> []" for x
    by (cases x) simp_all
  show "outcome_ok x \<Longrightarrow> hd (encode_outcome x []) \<noteq> NULL" for x
    by (cases x) simp_all
qed

lemma peek_descriptor_value:
  assumes "value_ok (VDescribed d v)" "d = VUlong n \<or> d = VSymbol s"
  shows "peek_descriptor (encode_value (VDescribed d v) [] @ rest) = Inr (if d = VUlong n then Code n else Sym s)"
proof -
  have "encodable d" using assms(1) by (simp add: value_ok_def)
  then show ?thesis
    using assms(2) unfolding encode_value_VDescribed
    by (auto simp: peek_descriptor_def decode_descriptor_def peek_encoded_prim u64_codec.decode_encode
        symbol_codec.decode_encode)
qed

interpretation delivery_state_codec: field_codec encode_delivery_state decode_delivery_state delivery_state_ok
proof unfold_locales
  show "encode_delivery_state x buf = buf @ encode_delivery_state x []" for x buf
    by (cases x) (simp_all del: encode_value.simps, (rule state_appends value_enc.appends)+)
  show "delivery_state_ok x \<Longrightarrow> decode_delivery_state (encode_delivery_state x [] @ rest) = Inr (x, rest)" for x rest
  proof (cases x)
    case (SOther v)
    assume "delivery_state_ok x"
    then have ok: "value_ok v" "other_state v" by (simp_all add: SOther)
    then obtain c where "peek_descriptor (encode_value v [] @ rest) = Inr c"
      "c \<notin> {Code RECEIVED, Code ACCEPTED, Code REJECTED, Code RELEASED, Code MODIFIED}"
      by (cases v rule: other_state.cases) (auto simp: peek_descriptor_value simp del: encode_value.simps)
    then show ?thesis
      using value_codec.decode_encode [OF ok(1)] by (simp add: decode_delivery_state_def SOther)
  qed (simp_all add: decode_delivery_state_def state_peek state_decode)
  show "delivery_state_ok x \<Longrightarrow> encode_delivery_state x [] \<noteq> []" for x
    by (cases x) (simp_all del: encode_value.simps)
  show "delivery_state_ok x \<Longrightarrow> hd (encode_delivery_state x []) \<noteq> NULL" for x
  proof (cases x)
    case (SOther v)
    assume "delivery_state_ok x"
    then show ?thesis
      by (cases v rule: other_state.cases) (auto simp: SOther encode_value_VDescribed simp del: encode_value.simps)
  qed simp_all
qed

lemmas outcome_encoder [encoders] = outcome_codec.encoder_axioms
lemmas outcome_steps [field_steps] =
  outcome_codec.ld_opt_option outcome_codec.ld_default_value outcome_codec.ld_req_value

lemmas delivery_state_encoder [encoders] = delivery_state_codec.encoder_axioms
lemmas delivery_state_steps [field_steps] =
  delivery_state_codec.ld_opt_option delivery_state_codec.ld_default_value delivery_state_codec.ld_req_value

subsection \<open>Addressing\<close>

record source =
  so_address :: "utf8 option"
  so_durable :: u32
  so_expiry_policy :: utf8
  so_timeout :: u32
  so_dynamic :: bool
  so_dynamic_node_properties :: "fields option"
  so_distribution_mode :: "utf8 option"
  so_filter :: "fields option"
  so_default_outcome :: "outcome option"
  so_outcomes :: "utf8 list"
  so_capabilities :: "utf8 list"

definition source_writes :: "source \<Rightarrow> field_writer \<Rightarrow> field_writer" where
  "source_writes x fw =
    (let fw = fw_field (encode_option encode_str) (so_address x) fw;
         fw = fw_field encode_u32 (so_durable x) fw;
         fw = fw_field encode_symbol (so_expiry_policy x) fw;
         fw = fw_field encode_u32 (so_timeout x) fw;
         fw = fw_field encode_bool (so_dynamic x) fw;
         fw = fw_field (encode_option encode_fields) (so_dynamic_node_properties x) fw;
         fw = fw_field (encode_option encode_symbol) (so_distribution_mode x) fw;
         fw = fw_field (encode_option encode_fields) (so_filter x) fw;
         fw = fw_field (encode_option encode_outcome) (so_default_outcome x) fw;
         fw = fw_symbols (so_outcomes x) fw;
         fw = fw_symbols (so_capabilities x) fw
     in fw)"

definition source_reads :: "list_decoder \<Rightarrow> decode_error + source" where
  "source_reads d =
    rbind (ld_opt decode_string d) (\<lambda>(address, d).
    rbind (ld_default decode_u32 0 d) (\<lambda>(durable, d).
    rbind (ld_default decode_symbol (ascii ''session-end'') d) (\<lambda>(expiry_policy, d).
    rbind (ld_default decode_u32 0 d) (\<lambda>(timeout, d).
    rbind (ld_default decode_bool False d) (\<lambda>(dynamic, d).
    rbind (ld_opt decode_fields d) (\<lambda>(dynamic_node_properties, d).
    rbind (ld_opt decode_symbol d) (\<lambda>(distribution_mode, d).
    rbind (ld_opt decode_fields d) (\<lambda>(filter, d).
    rbind (ld_opt decode_outcome d) (\<lambda>(default_outcome, d).
    rbind (ld_symbols d) (\<lambda>(outcomes, d).
    rbind (ld_symbols d) (\<lambda>(capabilities, d).
    Inr \<lparr>so_address = address, so_durable = durable, so_expiry_policy = expiry_policy,
      so_timeout = timeout, so_dynamic = dynamic,
      so_dynamic_node_properties = dynamic_node_properties,
      so_distribution_mode = distribution_mode, so_filter = filter,
      so_default_outcome = default_outcome, so_outcomes = outcomes,
      so_capabilities = capabilities\<rparr>)))))))))))"

definition source_flds :: "source \<Rightarrow> bytes list" where
  "source_flds x =
    [encode_option encode_str (so_address x) [],
     encode_u32 (so_durable x) [],
     encode_symbol (so_expiry_policy x) [],
     encode_u32 (so_timeout x) [],
     encode_bool (so_dynamic x) [],
     encode_option encode_fields (so_dynamic_node_properties x) [],
     encode_option encode_symbol (so_distribution_mode x) [],
     encode_option encode_fields (so_filter x) [],
     encode_option encode_outcome (so_default_outcome x) [],
     symbols_field (so_outcomes x),
     symbols_field (so_capabilities x)]"

definition source_ok :: "source \<Rightarrow> bool" where
  "source_ok x \<longleftrightarrow> pred_option text_ok (so_address x) \<and>
    text_ok (so_expiry_policy x) \<and>
    pred_option fields_ok (so_dynamic_node_properties x) \<and>
    pred_option text_ok (so_distribution_mode x) \<and>
    pred_option fields_ok (so_filter x) \<and>
    pred_option outcome_ok (so_default_outcome x) \<and>
    symbols_ok (so_outcomes x) \<and>
    symbols_ok (so_capabilities x)"

abbreviation encode_source :: "source \<Rightarrow> bytes \<Rightarrow> bytes" where
  "encode_source \<equiv> encode_composite SOURCE source_writes"

abbreviation decode_source :: "source decoder" where
  "decode_source \<equiv> decode_composite SOURCE source_reads"

abbreviation rep_source :: "source \<Rightarrow> bool" where
  "rep_source \<equiv> \<lambda>x. source_ok x \<and> length (encode_source x []) < 2 ^ 32"

interpretation source_codec: composite SOURCE source_writes source_reads source_flds source_ok
  by unfold_locales
    (simp_all add: source_writes_def source_reads_def source_flds_def source_ok_def fw_raws encoders field_steps)

lemmas source_encoder [encoders] = source_codec.comp.encoder_axioms
lemmas source_steps [field_steps] =
  source_codec.comp.ld_opt_option source_codec.comp.ld_default_value source_codec.comp.ld_req_value

record target =
  ta_address :: "utf8 option"
  ta_durable :: u32
  ta_expiry_policy :: utf8
  ta_timeout :: u32
  ta_dynamic :: bool
  ta_dynamic_node_properties :: "fields option"
  ta_capabilities :: "utf8 list"

definition target_writes :: "target \<Rightarrow> field_writer \<Rightarrow> field_writer" where
  "target_writes x fw =
    (let fw = fw_field (encode_option encode_str) (ta_address x) fw;
         fw = fw_field encode_u32 (ta_durable x) fw;
         fw = fw_field encode_symbol (ta_expiry_policy x) fw;
         fw = fw_field encode_u32 (ta_timeout x) fw;
         fw = fw_field encode_bool (ta_dynamic x) fw;
         fw = fw_field (encode_option encode_fields) (ta_dynamic_node_properties x) fw;
         fw = fw_symbols (ta_capabilities x) fw
     in fw)"

definition target_reads :: "list_decoder \<Rightarrow> decode_error + target" where
  "target_reads d =
    rbind (ld_opt decode_string d) (\<lambda>(address, d).
    rbind (ld_default decode_u32 0 d) (\<lambda>(durable, d).
    rbind (ld_default decode_symbol (ascii ''session-end'') d) (\<lambda>(expiry_policy, d).
    rbind (ld_default decode_u32 0 d) (\<lambda>(timeout, d).
    rbind (ld_default decode_bool False d) (\<lambda>(dynamic, d).
    rbind (ld_opt decode_fields d) (\<lambda>(dynamic_node_properties, d).
    rbind (ld_symbols d) (\<lambda>(capabilities, d).
    Inr \<lparr>ta_address = address, ta_durable = durable, ta_expiry_policy = expiry_policy,
      ta_timeout = timeout, ta_dynamic = dynamic,
      ta_dynamic_node_properties = dynamic_node_properties, ta_capabilities = capabilities\<rparr>)))))))"

definition target_flds :: "target \<Rightarrow> bytes list" where
  "target_flds x =
    [encode_option encode_str (ta_address x) [],
     encode_u32 (ta_durable x) [],
     encode_symbol (ta_expiry_policy x) [],
     encode_u32 (ta_timeout x) [],
     encode_bool (ta_dynamic x) [],
     encode_option encode_fields (ta_dynamic_node_properties x) [],
     symbols_field (ta_capabilities x)]"

definition target_ok :: "target \<Rightarrow> bool" where
  "target_ok x \<longleftrightarrow> pred_option text_ok (ta_address x) \<and>
    text_ok (ta_expiry_policy x) \<and>
    pred_option fields_ok (ta_dynamic_node_properties x) \<and>
    symbols_ok (ta_capabilities x)"

abbreviation encode_target :: "target \<Rightarrow> bytes \<Rightarrow> bytes" where
  "encode_target \<equiv> encode_composite TARGET target_writes"

abbreviation decode_target :: "target decoder" where
  "decode_target \<equiv> decode_composite TARGET target_reads"

abbreviation rep_target :: "target \<Rightarrow> bool" where
  "rep_target \<equiv> \<lambda>x. target_ok x \<and> length (encode_target x []) < 2 ^ 32"

interpretation target_codec: composite TARGET target_writes target_reads target_flds target_ok
  by unfold_locales
    (simp_all add: target_writes_def target_reads_def target_flds_def target_ok_def fw_raws encoders field_steps)

lemmas target_encoder [encoders] = target_codec.comp.encoder_axioms
lemmas target_steps [field_steps] =
  target_codec.comp.ld_opt_option target_codec.comp.ld_default_value target_codec.comp.ld_req_value

record coordinator =
  co_capabilities :: "utf8 list"

definition coordinator_writes :: "coordinator \<Rightarrow> field_writer \<Rightarrow> field_writer" where
  "coordinator_writes x fw =
    (let fw = fw_symbols (co_capabilities x) fw
     in fw)"

definition coordinator_reads :: "list_decoder \<Rightarrow> decode_error + coordinator" where
  "coordinator_reads d =
    rbind (ld_symbols d) (\<lambda>(capabilities, d).
    Inr \<lparr>co_capabilities = capabilities\<rparr>)"

definition coordinator_flds :: "coordinator \<Rightarrow> bytes list" where
  "coordinator_flds x =
    [symbols_field (co_capabilities x)]"

definition coordinator_ok :: "coordinator \<Rightarrow> bool" where
  "coordinator_ok x \<longleftrightarrow> symbols_ok (co_capabilities x)"

abbreviation encode_coordinator :: "coordinator \<Rightarrow> bytes \<Rightarrow> bytes" where
  "encode_coordinator \<equiv> encode_composite COORDINATOR coordinator_writes"

abbreviation decode_coordinator :: "coordinator decoder" where
  "decode_coordinator \<equiv> decode_composite COORDINATOR coordinator_reads"

abbreviation rep_coordinator :: "coordinator \<Rightarrow> bool" where
  "rep_coordinator \<equiv> \<lambda>x. coordinator_ok x \<and> length (encode_coordinator x []) < 2 ^ 32"

interpretation coordinator_codec: composite COORDINATOR coordinator_writes coordinator_reads coordinator_flds coordinator_ok
  by unfold_locales
    (simp_all add: coordinator_writes_def coordinator_reads_def coordinator_flds_def coordinator_ok_def fw_raws encoders field_steps)

lemmas coordinator_encoder [encoders] = coordinator_codec.comp.encoder_axioms
lemmas coordinator_steps [field_steps] =
  coordinator_codec.comp.ld_opt_option coordinator_codec.comp.ld_default_value coordinator_codec.comp.ld_req_value

datatype target_archetype = TTarget target | TCoordinator coordinator

fun encode_target_archetype :: "target_archetype \<Rightarrow> bytes \<Rightarrow> bytes" where
  "encode_target_archetype (TTarget t) buf = encode_target t buf"
| "encode_target_archetype (TCoordinator c) buf = encode_coordinator c buf"

definition decode_target_archetype :: "target_archetype decoder" where
  "decode_target_archetype buf = rbind (peek_descriptor buf) (\<lambda>d.
    if d = Code TARGET then rbind (decode_target buf) (\<lambda>(t, buf). Inr (TTarget t, buf))
    else if d = Code COORDINATOR then rbind (decode_coordinator buf) (\<lambda>(c, buf). Inr (TCoordinator c, buf))
    else Inl (InvalidValue (UnexpectedTargetArchetype d)))"

fun target_archetype_ok :: "target_archetype \<Rightarrow> bool" where
  "target_archetype_ok (TTarget t) = rep_target t"
| "target_archetype_ok (TCoordinator c) = rep_coordinator c"

interpretation target_archetype_codec: field_codec encode_target_archetype decode_target_archetype target_archetype_ok
proof unfold_locales
  show "encode_target_archetype x buf = buf @ encode_target_archetype x []" for x buf
    by (cases x) (simp_all, (rule target_codec.comp.appends coordinator_codec.comp.appends)+)
  show "target_archetype_ok x \<Longrightarrow> decode_target_archetype (encode_target_archetype x [] @ rest) = Inr (x, rest)" for x rest
    by (cases x) (simp_all add: decode_target_archetype_def target_codec.peek_encoded coordinator_codec.peek_encoded
        target_codec.comp.decode_encode coordinator_codec.comp.decode_encode)
  show "encode_target_archetype x [] \<noteq> []" "hd (encode_target_archetype x []) \<noteq> NULL" for x
    by (cases x; simp)+
qed

lemmas target_archetype_encoder [encoders] = target_archetype_codec.encoder_axioms
lemmas target_archetype_steps [field_steps] =
  target_archetype_codec.ld_opt_option target_archetype_codec.ld_default_value target_archetype_codec.ld_req_value

subsection \<open>Sections of the bare message\<close>

record header =
  hr_durable :: bool
  hr_priority :: u8
  hr_ttl :: "u32 option"
  hr_first_acquirer :: bool
  hr_delivery_count :: u32

definition header_writes :: "header \<Rightarrow> field_writer \<Rightarrow> field_writer" where
  "header_writes x fw =
    (let fw = fw_field encode_bool (hr_durable x) fw;
         fw = fw_field encode_u8 (hr_priority x) fw;
         fw = fw_field (encode_option encode_u32) (hr_ttl x) fw;
         fw = fw_field encode_bool (hr_first_acquirer x) fw;
         fw = fw_field encode_u32 (hr_delivery_count x) fw
     in fw)"

definition header_reads :: "list_decoder \<Rightarrow> decode_error + header" where
  "header_reads d =
    rbind (ld_default decode_bool False d) (\<lambda>(durable, d).
    rbind (ld_default decode_u8 4 d) (\<lambda>(priority, d).
    rbind (ld_opt decode_u32 d) (\<lambda>(ttl, d).
    rbind (ld_default decode_bool False d) (\<lambda>(first_acquirer, d).
    rbind (ld_default decode_u32 0 d) (\<lambda>(delivery_count, d).
    Inr \<lparr>hr_durable = durable, hr_priority = priority, hr_ttl = ttl,
      hr_first_acquirer = first_acquirer, hr_delivery_count = delivery_count\<rparr>)))))"

definition header_flds :: "header \<Rightarrow> bytes list" where
  "header_flds x =
    [encode_bool (hr_durable x) [],
     encode_u8 (hr_priority x) [],
     encode_option encode_u32 (hr_ttl x) [],
     encode_bool (hr_first_acquirer x) [],
     encode_u32 (hr_delivery_count x) []]"

definition header_ok :: "header \<Rightarrow> bool" where
  "header_ok x \<longleftrightarrow> True"

abbreviation encode_header :: "header \<Rightarrow> bytes \<Rightarrow> bytes" where
  "encode_header \<equiv> encode_composite HEADER header_writes"

abbreviation decode_header :: "header decoder" where
  "decode_header \<equiv> decode_composite HEADER header_reads"

abbreviation rep_header :: "header \<Rightarrow> bool" where
  "rep_header \<equiv> \<lambda>x. header_ok x \<and> length (encode_header x []) < 2 ^ 32"

interpretation header_codec: composite HEADER header_writes header_reads header_flds header_ok
  by unfold_locales
    (simp_all add: header_writes_def header_reads_def header_flds_def header_ok_def fw_raws encoders field_steps)

lemmas header_encoder [encoders] = header_codec.comp.encoder_axioms
lemmas header_steps [field_steps] =
  header_codec.comp.ld_opt_option header_codec.comp.ld_default_value header_codec.comp.ld_req_value

record properties =
  pr_message_id :: "message_id option"
  pr_user_id :: "bytes option"
  pr_to :: "utf8 option"
  pr_subject :: "utf8 option"
  pr_reply_to :: "utf8 option"
  pr_correlation_id :: "message_id option"
  pr_content_type :: "utf8 option"
  pr_content_encoding :: "utf8 option"
  pr_absolute_expiry_time :: "i64 option"
  pr_creation_time :: "i64 option"
  pr_group_id :: "utf8 option"
  pr_group_sequence :: "u32 option"
  pr_reply_to_group_id :: "utf8 option"

definition properties_writes :: "properties \<Rightarrow> field_writer \<Rightarrow> field_writer" where
  "properties_writes x fw =
    (let fw = fw_field (encode_option encode_message_id) (pr_message_id x) fw;
         fw = fw_field (encode_option encode_binary) (pr_user_id x) fw;
         fw = fw_field (encode_option encode_str) (pr_to x) fw;
         fw = fw_field (encode_option encode_str) (pr_subject x) fw;
         fw = fw_field (encode_option encode_str) (pr_reply_to x) fw;
         fw = fw_field (encode_option encode_message_id) (pr_correlation_id x) fw;
         fw = fw_field (encode_option encode_symbol) (pr_content_type x) fw;
         fw = fw_field (encode_option encode_symbol) (pr_content_encoding x) fw;
         fw = fw_field (encode_option encode_timestamp) (pr_absolute_expiry_time x) fw;
         fw = fw_field (encode_option encode_timestamp) (pr_creation_time x) fw;
         fw = fw_field (encode_option encode_str) (pr_group_id x) fw;
         fw = fw_field (encode_option encode_u32) (pr_group_sequence x) fw;
         fw = fw_field (encode_option encode_str) (pr_reply_to_group_id x) fw
     in fw)"

definition properties_reads :: "list_decoder \<Rightarrow> decode_error + properties" where
  "properties_reads d =
    rbind (ld_opt decode_message_id d) (\<lambda>(message_id, d).
    rbind (ld_opt decode_binary d) (\<lambda>(user_id, d).
    rbind (ld_opt decode_string d) (\<lambda>(to, d).
    rbind (ld_opt decode_string d) (\<lambda>(subject, d).
    rbind (ld_opt decode_string d) (\<lambda>(reply_to, d).
    rbind (ld_opt decode_message_id d) (\<lambda>(correlation_id, d).
    rbind (ld_opt decode_symbol d) (\<lambda>(content_type, d).
    rbind (ld_opt decode_symbol d) (\<lambda>(content_encoding, d).
    rbind (ld_opt decode_timestamp d) (\<lambda>(absolute_expiry_time, d).
    rbind (ld_opt decode_timestamp d) (\<lambda>(creation_time, d).
    rbind (ld_opt decode_string d) (\<lambda>(group_id, d).
    rbind (ld_opt decode_u32 d) (\<lambda>(group_sequence, d).
    rbind (ld_opt decode_string d) (\<lambda>(reply_to_group_id, d).
    Inr \<lparr>pr_message_id = message_id, pr_user_id = user_id, pr_to = to, pr_subject = subject,
      pr_reply_to = reply_to, pr_correlation_id = correlation_id, pr_content_type = content_type,
      pr_content_encoding = content_encoding, pr_absolute_expiry_time = absolute_expiry_time,
      pr_creation_time = creation_time, pr_group_id = group_id, pr_group_sequence = group_sequence,
      pr_reply_to_group_id = reply_to_group_id\<rparr>)))))))))))))"

definition properties_flds :: "properties \<Rightarrow> bytes list" where
  "properties_flds x =
    [encode_option encode_message_id (pr_message_id x) [],
     encode_option encode_binary (pr_user_id x) [],
     encode_option encode_str (pr_to x) [],
     encode_option encode_str (pr_subject x) [],
     encode_option encode_str (pr_reply_to x) [],
     encode_option encode_message_id (pr_correlation_id x) [],
     encode_option encode_symbol (pr_content_type x) [],
     encode_option encode_symbol (pr_content_encoding x) [],
     encode_option encode_timestamp (pr_absolute_expiry_time x) [],
     encode_option encode_timestamp (pr_creation_time x) [],
     encode_option encode_str (pr_group_id x) [],
     encode_option encode_u32 (pr_group_sequence x) [],
     encode_option encode_str (pr_reply_to_group_id x) []]"

definition properties_ok :: "properties \<Rightarrow> bool" where
  "properties_ok x \<longleftrightarrow> pred_option message_id_ok (pr_message_id x) \<and>
    pred_option var_ok (pr_user_id x) \<and>
    pred_option text_ok (pr_to x) \<and>
    pred_option text_ok (pr_subject x) \<and>
    pred_option text_ok (pr_reply_to x) \<and>
    pred_option message_id_ok (pr_correlation_id x) \<and>
    pred_option text_ok (pr_content_type x) \<and>
    pred_option text_ok (pr_content_encoding x) \<and>
    pred_option text_ok (pr_group_id x) \<and>
    pred_option text_ok (pr_reply_to_group_id x)"

abbreviation encode_properties :: "properties \<Rightarrow> bytes \<Rightarrow> bytes" where
  "encode_properties \<equiv> encode_composite PROPERTIES properties_writes"

abbreviation decode_properties :: "properties decoder" where
  "decode_properties \<equiv> decode_composite PROPERTIES properties_reads"

abbreviation rep_properties :: "properties \<Rightarrow> bool" where
  "rep_properties \<equiv> \<lambda>x. properties_ok x \<and> length (encode_properties x []) < 2 ^ 32"

interpretation properties_codec: composite PROPERTIES properties_writes properties_reads properties_flds properties_ok
  by unfold_locales
    (simp_all add: properties_writes_def properties_reads_def properties_flds_def properties_ok_def fw_raws encoders field_steps)

lemmas properties_encoder [encoders] = properties_codec.comp.encoder_axioms
lemmas properties_steps [field_steps] =
  properties_codec.comp.ld_opt_option properties_codec.comp.ld_default_value properties_codec.comp.ld_req_value

end
