(* ===== verification/Types_Message.thy ===== *)
theory Types_Message
  imports Types_Messaging
begin

section \<open>The assembled message (\<open>ramqp-core/src/types/messaging.rs\<close>)\<close>

text \<open>
  The described map, data, value and sequence sections, and the message: the encoder writes the
  sections in canonical order, the decoder loops over sections with the order and duplicate
  checks of the source. The loop terminates because every section decoder consumes input, which
  the lemmas in \<open>shrinks\<close> establish from the readers up.
\<close>

subsection \<open>Sections that are not lists\<close>

definition section_header :: "u64 \<Rightarrow> bytes \<Rightarrow> bytes" where
  "section_header desc buf = encode_descriptor desc (put_u8 DESCRIBED buf)"

definition encode_map_section :: "u64 \<Rightarrow> ('k \<Rightarrow> bytes \<Rightarrow> bytes) \<Rightarrow> ('k, avalue) ordered_map \<Rightarrow> bytes \<Rightarrow> bytes" where
  "encode_map_section desc enc_k m buf = encode_map_entries enc_k encode_value m (section_header desc buf)"

definition decode_map_section :: "u64 \<Rightarrow> 'k decoder \<Rightarrow> ('k, avalue) ordered_map decoder" where
  "decode_map_section desc dec_k buf = rbind (expect_descriptor desc buf) (\<lambda>buf.
    rbind (decode_option (decode_ordered_map dec_k (decode_value 0)) buf) (\<lambda>(m, buf).
      Inr (case m of Some m \<Rightarrow> m | None \<Rightarrow> [], buf)))"

definition encode_data :: "bytes \<Rightarrow> bytes \<Rightarrow> bytes" where
  "encode_data b buf = encode_binary b (section_header DATA buf)"

definition decode_data :: "bytes decoder" where
  "decode_data buf = rbind (expect_descriptor DATA buf) (\<lambda>buf.
    rbind (decode_option decode_binary buf) (\<lambda>(b, buf). Inr (case b of Some b \<Rightarrow> b | None \<Rightarrow> [], buf)))"

definition encode_amqp_value :: "avalue \<Rightarrow> bytes \<Rightarrow> bytes" where
  "encode_amqp_value v buf = encode_value v (section_header AMQP_VALUE buf)"

definition decode_amqp_value :: "avalue decoder" where
  "decode_amqp_value buf = rbind (expect_descriptor AMQP_VALUE buf) (\<lambda>buf. decode_value 0 buf)"

definition encode_amqp_sequence :: "avalue list \<Rightarrow> bytes \<Rightarrow> bytes" where
  "encode_amqp_sequence items buf =
    (let (buf, s, c, start) = open_compound LIST32 (section_header AMQP_SEQUENCE buf);
         buf = fold encode_value items buf
     in close_compound s c start (of_nat (length items)) buf)"

definition decode_amqp_sequence :: "avalue list decoder" where
  "decode_amqp_sequence buf = rbind (expect_descriptor AMQP_SEQUENCE buf) (\<lambda>buf.
    rbind (decode_value 0 buf) (\<lambda>(v, buf).
      case v of VList items \<Rightarrow> Inr (items, buf) | _ \<Rightarrow> Inl (InvalidValue SequenceBodyNotList)))"

subsection \<open>The message\<close>

datatype body = BData "bytes list" | BSequence "avalue list list" | BValue avalue | BEmpty

record message =
  m_header :: "header option"
  m_delivery_annotations :: "fields option"
  m_message_annotations :: "fields option"
  m_properties :: "properties option"
  m_application_properties :: "fields option"
  m_body :: body
  m_footer :: "fields option"

definition default_message :: message where
  "default_message = \<lparr>m_header = None, m_delivery_annotations = None, m_message_annotations = None,
    m_properties = None, m_application_properties = None, m_body = BEmpty, m_footer = None\<rparr>"

definition if_some :: "('a \<Rightarrow> bytes \<Rightarrow> bytes) \<Rightarrow> 'a option \<Rightarrow> bytes \<Rightarrow> bytes" where
  "if_some enc x buf = (case x of Some v \<Rightarrow> enc v buf | None \<Rightarrow> buf)"

definition encode_body :: "body \<Rightarrow> bytes \<Rightarrow> bytes" where
  "encode_body b buf = (case b of
      BData parts \<Rightarrow> fold encode_data parts buf
    | BSequence seqs \<Rightarrow> fold encode_amqp_sequence seqs buf
    | BValue v \<Rightarrow> encode_amqp_value v buf
    | BEmpty \<Rightarrow> buf)"

definition encode_message :: "message \<Rightarrow> bytes \<Rightarrow> bytes" where
  "encode_message m buf =
    (let buf = if_some encode_header (m_header m) buf;
         buf = if_some (encode_map_section DELIVERY_ANNOTATIONS encode_symbol) (m_delivery_annotations m) buf;
         buf = if_some (encode_map_section MESSAGE_ANNOTATIONS encode_symbol) (m_message_annotations m) buf;
         buf = if_some encode_properties (m_properties m) buf;
         buf = if_some (encode_map_section APPLICATION_PROPERTIES encode_str) (m_application_properties m) buf;
         buf = encode_body (m_body m) buf
     in if_some (encode_map_section FOOTER encode_symbol) (m_footer m) buf)"

definition BODY_RANK :: int where
  "BODY_RANK = 5"

definition section_rank :: "u64 \<Rightarrow> int option" where
  "section_rank code =
    (if code = HEADER then Some 0
     else if code = DELIVERY_ANNOTATIONS then Some 1
     else if code = MESSAGE_ANNOTATIONS then Some 2
     else if code = PROPERTIES then Some 3
     else if code = APPLICATION_PROPERTIES then Some 4
     else if code = DATA \<or> code = AMQP_SEQUENCE \<or> code = AMQP_VALUE then Some BODY_RANK
     else if code = FOOTER then Some 6
     else None)"

text \<open>The local variables of the section loop.\<close>

record section_state =
  ss_msg :: message
  ss_data_parts :: "bytes list"
  ss_seq_parts :: "avalue list list"
  ss_have_value :: bool

definition set_msg :: "(message \<Rightarrow> message) \<Rightarrow> section_state \<Rightarrow> section_state" where
  "set_msg f st = st\<lparr>ss_msg := f (ss_msg st)\<rparr>"

definition decode_section :: "u64 \<Rightarrow> section_state \<Rightarrow> section_state decoder" where
  "decode_section code st buf =
    (if code = HEADER then rbind (decode_header buf) (\<lambda>(v, buf). Inr (set_msg (m_header_update (\<lambda>_. Some v)) st, buf))
     else if code = DELIVERY_ANNOTATIONS then rbind (decode_map_section DELIVERY_ANNOTATIONS decode_symbol buf)
       (\<lambda>(v, buf). Inr (set_msg (m_delivery_annotations_update (\<lambda>_. Some v)) st, buf))
     else if code = MESSAGE_ANNOTATIONS then rbind (decode_map_section MESSAGE_ANNOTATIONS decode_symbol buf)
       (\<lambda>(v, buf). Inr (set_msg (m_message_annotations_update (\<lambda>_. Some v)) st, buf))
     else if code = PROPERTIES then rbind (decode_properties buf)
       (\<lambda>(v, buf). Inr (set_msg (m_properties_update (\<lambda>_. Some v)) st, buf))
     else if code = APPLICATION_PROPERTIES then rbind (decode_map_section APPLICATION_PROPERTIES decode_string buf)
       (\<lambda>(v, buf). Inr (set_msg (m_application_properties_update (\<lambda>_. Some v)) st, buf))
     else if code = DATA then
       (if ss_have_value st \<or> ss_seq_parts st \<noteq> [] then Inl (InvalidValue MixedBody)
        else rbind (decode_data buf) (\<lambda>(v, buf). Inr (st\<lparr>ss_data_parts := ss_data_parts st @ [v]\<rparr>, buf)))
     else if code = AMQP_SEQUENCE then
       (if ss_have_value st \<or> ss_data_parts st \<noteq> [] then Inl (InvalidValue MixedBody)
        else rbind (decode_amqp_sequence buf) (\<lambda>(v, buf). Inr (st\<lparr>ss_seq_parts := ss_seq_parts st @ [v]\<rparr>, buf)))
     else if code = AMQP_VALUE then
       (if ss_have_value st \<or> ss_data_parts st \<noteq> [] \<or> ss_seq_parts st \<noteq> [] then Inl (InvalidValue MixedBody)
        else rbind (decode_amqp_value buf) (\<lambda>(v, buf).
          Inr (set_msg (m_body_update (\<lambda>_. BValue v)) st\<lparr>ss_have_value := True\<rparr>, buf)))
     else rbind (decode_map_section FOOTER decode_symbol buf)
       (\<lambda>(v, buf). Inr (set_msg (m_footer_update (\<lambda>_. Some v)) st, buf)))"

subsection \<open>Every section consumes input\<close>

definition shrinks :: "'a decoder \<Rightarrow> bool" where
  "shrinks dec \<longleftrightarrow> (\<forall>buf x rest. dec buf = Inr (x, rest) \<longrightarrow> length rest < length buf)"

lemma shrinksD: "shrinks dec \<Longrightarrow> dec buf = Inr (x, rest) \<Longrightarrow> length rest < length buf"
  by (auto simp: shrinks_def)

lemmas read_lengths = read_u8_Inr read_bytes_Inr

lemma header_lengths:
  "header8 buf = Inr ((n, body), rest) \<Longrightarrow> length rest \<le> length buf"
  "header32 buf = Inr ((n, body), rest) \<Longrightarrow> length rest \<le> length buf"
  by (auto dest: header_suffix suffix_of_length)

lemma shrinks_value: "shrinks (decode_value depth)"
  by (auto simp: shrinks_def dest: decode_value_accepts)

lemma shrinks_u64: "shrinks decode_u64"
  by (auto simp: shrinks_def decode_u64_def rbind_eq_Inr_iff read_u8_Inr split: if_splits dest: read_u64_Inr_length)

lemma shrinks_var: "shrinks (read_var c8 c32 kind)"
  by (auto simp: shrinks_def read_var_def rbind_eq_Inr_iff read_u8_Inr read_bytes_Inr split: if_splits
      dest!: read_u32_Inr_length)

lemma shrinks_symbol: "shrinks decode_symbol"
  using shrinks_var [of SYM8 SYM32 "''symbol''"]
  by (auto simp: shrinks_def decode_symbol_def rbind_eq_Inr_iff)

lemma shrinks_binary: "shrinks decode_binary"
  using shrinks_var [of VBIN8 VBIN32 "''binary''"] by (simp add: shrinks_def decode_binary_def)

lemma shrinks_descriptor: "shrinks decode_descriptor"
  using shrinks_u64 shrinks_symbol
  by (auto simp: shrinks_def decode_descriptor_def rbind_eq_Inr_iff split: option.splits if_splits)

lemma shrinks_map: "shrinks (decode_ordered_map dec_k dec_v)"
  by (auto simp: shrinks_def decode_ordered_map_def read_map_header_def rbind_eq_Inr_iff read_u8_Inr
      split: if_splits dest!: header_lengths)

lemma shrinks_option:
  assumes "shrinks dec"
  shows "shrinks (decode_option dec)"
  unfolding shrinks_def
proof (intro allI impI)
  fix buf x rest
  assume "decode_option dec buf = Inr (x, rest)"
  then show "length rest < length buf"
    using shrinksD [OF assms, of buf]
    by (cases buf) (auto simp: decode_option_def take_null_def rbind_eq_Inr_iff split: if_splits)
qed

lemma expect_descriptor_length: "expect_descriptor d buf = Inr rest \<Longrightarrow> length rest < length buf"
  by (auto simp: expect_descriptor_def rbind_eq_Inr_iff read_u8_Inr split: if_splits dest!: shrinksD [OF shrinks_descriptor])

lemma shrinks_composite: "shrinks (decode_composite d reads)"
  by (auto simp: shrinks_def decode_composite_def decode_described_list_def read_list_header_def rbind_eq_Inr_iff
      read_u8_Inr split: if_splits dest!: shrinksD [OF shrinks_descriptor] header_lengths)

lemma shrinks_map_section: "shrinks (decode_map_section d dec)"
  by (auto simp: shrinks_def decode_map_section_def rbind_eq_Inr_iff dest!: expect_descriptor_length
      shrinksD [OF shrinks_option [OF shrinks_map]])

lemma shrinks_data: "shrinks decode_data"
  by (auto simp: shrinks_def decode_data_def rbind_eq_Inr_iff dest!: expect_descriptor_length
      shrinksD [OF shrinks_option [OF shrinks_binary]])

lemma shrinks_amqp_value: "shrinks decode_amqp_value"
  by (auto simp: shrinks_def decode_amqp_value_def rbind_eq_Inr_iff dest!: expect_descriptor_length
      shrinksD [OF shrinks_value])

lemma case_VList_Inr:
  "(case v of VList items \<Rightarrow> Inr (items, b) | _ \<Rightarrow> Inl e) = Inr (x, r) \<longleftrightarrow> v = VList x \<and> b = r"
  by (cases v) auto

lemma shrinks_amqp_sequence: "shrinks decode_amqp_sequence"
  by (auto simp: shrinks_def decode_amqp_sequence_def rbind_eq_Inr_iff case_VList_Inr
      dest!: expect_descriptor_length shrinksD [OF shrinks_value])

lemma shrinks_section: "shrinks (decode_section code st)"
  unfolding shrinks_def decode_section_def
  by (auto simp: rbind_eq_Inr_iff split: if_splits
      dest!: shrinksD [OF shrinks_composite] shrinksD [OF shrinks_map_section] shrinksD [OF shrinks_data]
        shrinksD [OF shrinks_amqp_value] shrinksD [OF shrinks_amqp_sequence])

subsection \<open>The section loop\<close>

function decode_sections :: "section_state \<Rightarrow> int \<Rightarrow> section_state decoder" where
  "decode_sections st max_rank buf =
    (if buf = [] then Inr (st, buf)
     else case peek_descriptor buf of
       Inr (Code code) \<Rightarrow> (case section_rank code of
           None \<Rightarrow> Inr (st, buf)
         | Some rank \<Rightarrow>
             if rank < max_rank then Inl (InvalidValue (SectionOutOfOrder code))
             else if rank = max_rank \<and> rank \<noteq> BODY_RANK then Inl (InvalidValue (DuplicateSection code))
             else rbind (decode_section code st buf) (\<lambda>(st, buf). decode_sections st rank buf))
     | _ \<Rightarrow> Inr (st, buf))"
  by pat_completeness auto
termination
  by (relation "measure (\<lambda>(st, max_rank, buf). length buf)") (auto dest: shrinksD [OF shrinks_section])

declare decode_sections.simps [simp del]

definition decode_message :: "message decoder" where
  "decode_message buf =
    rbind (decode_sections \<lparr>ss_msg = default_message, ss_data_parts = [], ss_seq_parts = [], ss_have_value = False\<rparr> (- 1) buf)
      (\<lambda>(st, buf).
        Inr (if ss_data_parts st \<noteq> [] then (ss_msg st)\<lparr>m_body := BData (ss_data_parts st)\<rparr>
             else if ss_seq_parts st \<noteq> [] then (ss_msg st)\<lparr>m_body := BSequence (ss_seq_parts st)\<rparr>
             else ss_msg st, buf))"

subsection \<open>Round trip of messages\<close>

interpretation application_codec: map_codec encode_str decode_string text_ok encode_value "decode_value 0" value_ok
  by unfold_locales

abbreviation application_ok :: "fields \<Rightarrow> bool" where
  "application_ok \<equiv> \<lambda>m. (\<forall>(k, v) \<in> set m. text_ok k \<and> value_ok v) \<and>
    length (encode_map_entries encode_str encode_value m []) < 2 ^ 32"

fun body_ok :: "body \<Rightarrow> bool" where
  "body_ok (BData parts) = (parts \<noteq> [] \<and> (\<forall>p \<in> set parts. var_ok p))"
| "body_ok (BSequence seqs) = (seqs \<noteq> [] \<and> (\<forall>s \<in> set seqs. value_ok (VList s)))"
| "body_ok (BValue v) = value_ok v"
| "body_ok BEmpty = True"

definition message_ok :: "message \<Rightarrow> bool" where
  "message_ok m \<longleftrightarrow>
    pred_option rep_header (m_header m) \<and>
    pred_option fields_ok (m_delivery_annotations m) \<and>
    pred_option fields_ok (m_message_annotations m) \<and>
    pred_option rep_properties (m_properties m) \<and>
    pred_option application_ok (m_application_properties m) \<and>
    body_ok (m_body m) \<and>
    pred_option fields_ok (m_footer m)"

lemma section_header_eq: "section_header d buf = buf @ DESCRIBED # encode_descriptor d []"
  by (simp add: section_header_def put_u8_def encode_descriptor_appends [of d "buf @ [_]"])

lemma if_some_appends: "encoder enc \<Longrightarrow> if_some enc x buf = buf @ if_some enc x []"
  by (cases x) (simp_all add: if_some_def encoder.appends [of enc _ buf])

lemma map_section_eq:
  "encoder enc_k \<Longrightarrow> encode_map_section d enc_k m buf =
    buf @ DESCRIBED # encode_descriptor d [] @ encode_map_entries enc_k encode_value m []"
  by (simp add: encode_map_section_def section_header_eq encode_map_entries_layout value_enc.encoder_axioms)

lemma map_section_encoder [encoders]: "encoder enc_k \<Longrightarrow> encoder (encode_map_section d enc_k)"
  by unfold_locales (simp add: map_section_eq)

lemma data_eq: "encode_data b buf = buf @ DESCRIBED # encode_descriptor DATA [] @ encode_binary b []"
  by (simp add: encode_data_def section_header_eq binary_enc.appends [of b "_ @ _"])

lemma amqp_value_eq: "encode_amqp_value v buf = buf @ DESCRIBED # encode_descriptor AMQP_VALUE [] @ encode_value v []"
  by (simp add: encode_amqp_value_def section_header_eq value_enc.appends [of v "_ @ _"])

lemma amqp_sequence_eq:
  "encode_amqp_sequence items buf = buf @ DESCRIBED # encode_descriptor AMQP_SEQUENCE [] @ encode_value (VList items) []"
  unfolding encode_value.simps
  using encode_value_list_eq [of items "section_header AMQP_SEQUENCE buf"] encode_value_list_eq [of items "[]"]
  by (simp add: encode_amqp_sequence_def encode_value_list_def section_header_eq)

context map_codec
begin

lemma decode_some_map:
  assumes "\<forall>(k, v) \<in> set m. rep_k k \<and> rep_v v" "length (encode_map_entries enc_k enc_v m []) < 2 ^ 32"
  shows "decode_option (decode_ordered_map dec_k dec_v) (encode_map_entries enc_k enc_v m [] @ rest) = Inr (Some m, rest)"
  using map.decode_option_encode [of "Some m" rest] assms by (simp add: encode_option_def)

end

lemma decode_map_section_encode:
  assumes "decode_option (decode_ordered_map dec_k (decode_value 0)) (encode_map_entries enc_k encode_value m [] @ rest)
      = Inr (Some m, rest)" "encoder enc_k"
  shows "decode_map_section d dec_k (encode_map_section d enc_k m [] @ rest) = Inr (m, rest)"
  using assms by (simp add: decode_map_section_def map_section_eq expect_descriptor_encode)

lemmas decode_fields_section =
  decode_map_section_encode [OF fields_codec.decode_some_map symbol_enc.encoder_axioms]
  decode_map_section_encode [OF application_codec.decode_some_map str_enc.encoder_axioms]

lemma decode_data_encode: "var_ok b \<Longrightarrow> decode_data (encode_data b [] @ rest) = Inr (b, rest)"
  using binary_codec.decode_option_encode [of "Some b" rest]
  by (simp add: decode_data_def data_eq expect_descriptor_encode encode_option_def)

lemma decode_amqp_value_encode: "value_ok v \<Longrightarrow> decode_amqp_value (encode_amqp_value v [] @ rest) = Inr (v, rest)"
  by (simp add: decode_amqp_value_def amqp_value_eq expect_descriptor_encode value_codec.decode_encode)

lemma decode_amqp_sequence_encode:
  "value_ok (VList s) \<Longrightarrow> decode_amqp_sequence (encode_amqp_sequence s [] @ rest) = Inr (s, rest)"
  by (simp add: decode_amqp_sequence_def amqp_sequence_eq expect_descriptor_encode value_codec.decode_encode
      del: encode_value.simps)

lemma decode_sections_step:
  assumes "peek_descriptor (s @ rest) = Inr (Code code)" "section_rank code = Some r"
    and "max_rank < r \<or> max_rank = r \<and> r = BODY_RANK"
    and "decode_section code st (s @ rest) = Inr (st', rest)"
  shows "decode_sections st max_rank (s @ rest) = decode_sections st' r rest"
proof -
  have "s @ rest \<noteq> []" using assms(1) by (auto simp: peek_descriptor_def)
  with assms show ?thesis by (subst decode_sections.simps) auto
qed

text \<open>One optional section: the loop stores it and its rank becomes the lower bound, or nothing changes.\<close>

lemma decode_sections_opt:
  assumes "section_rank code = Some k" "max_rank < k"
    and "\<And>v. x = Some v \<Longrightarrow> peek_descriptor (enc v [] @ rest) = Inr (Code code)"
    and "\<And>v. x = Some v \<Longrightarrow> decode_section code st (enc v [] @ rest) = Inr (set_msg (upd (\<lambda>_. Some v)) st, rest)"
    and "set_msg (upd (\<lambda>_. None)) st = st"
  shows "\<exists>r \<le> k. decode_sections st max_rank (if_some enc x [] @ rest) = decode_sections (set_msg (upd (\<lambda>_. x)) st) r rest"
proof (cases x)
  case None
  with assms(2,5) show ?thesis by (intro exI [of _ max_rank]) (simp add: if_some_def)
next
  case (Some v)
  with assms show ?thesis by (intro exI [of _ k]) (simp add: if_some_def decode_sections_step)
qed

text \<open>Where the loop stops without an error: the end, or something that is not a known section.\<close>

definition stops :: "bytes \<Rightarrow> bool" where
  "stops rest \<longleftrightarrow> rest = [] \<or> (\<forall>c. peek_descriptor rest = Inr (Code c) \<longrightarrow> section_rank c = None)"

lemma decode_sections_stop: "stops rest \<Longrightarrow> decode_sections st max_rank rest = Inr (st, rest)"
  by (subst decode_sections.simps) (auto simp: stops_def split: sum.splits descriptor.splits option.splits)

lemma peek_section:
  "peek_descriptor (encode_map_section d encode_symbol m [] @ rest) = Inr (Code d)"
  "peek_descriptor (encode_map_section d encode_str m [] @ rest) = Inr (Code d)"
  "peek_descriptor (encode_data b [] @ rest) = Inr (Code DATA)"
  "peek_descriptor (encode_amqp_value v [] @ rest) = Inr (Code AMQP_VALUE)"
  "peek_descriptor (encode_amqp_sequence items [] @ rest) = Inr (Code AMQP_SEQUENCE)"
  by (simp_all add: map_section_eq symbol_enc.encoder_axioms str_enc.encoder_axioms data_eq amqp_value_eq amqp_sequence_eq
      peek_descriptor_encode)

lemma decode_sections_data:
  assumes "\<forall>p \<in> set parts. var_ok p" "max_rank \<le> BODY_RANK" "\<not> ss_have_value st" "ss_seq_parts st = []"
  shows "decode_sections st max_rank (concat (map (\<lambda>p. encode_data p []) parts) @ rest) =
    decode_sections (st\<lparr>ss_data_parts := ss_data_parts st @ parts\<rparr>) (if parts = [] then max_rank else BODY_RANK) rest"
  using assms
proof (induction parts arbitrary: st max_rank)
  case (Cons p ps)
  have "decode_sections st max_rank (encode_data p [] @ concat (map (\<lambda>p. encode_data p []) ps) @ rest) =
      decode_sections (st\<lparr>ss_data_parts := ss_data_parts st @ [p]\<rparr>) BODY_RANK (concat (map (\<lambda>p. encode_data p []) ps) @ rest)"
    using Cons.prems by (intro decode_sections_step [where code = DATA])
      (auto simp: peek_section section_rank_def decode_section_def decode_data_encode)
  with Cons show ?case by simp
qed simp

lemma decode_sections_sequence:
  assumes "\<forall>s \<in> set seqs. value_ok (VList s)" "max_rank \<le> BODY_RANK" "\<not> ss_have_value st" "ss_data_parts st = []"
  shows "decode_sections st max_rank (concat (map (\<lambda>s. encode_amqp_sequence s []) seqs) @ rest) =
    decode_sections (st\<lparr>ss_seq_parts := ss_seq_parts st @ seqs\<rparr>) (if seqs = [] then max_rank else BODY_RANK) rest"
  using assms
proof (induction seqs arbitrary: st max_rank)
  case (Cons s ss)
  have "decode_sections st max_rank (encode_amqp_sequence s [] @ concat (map (\<lambda>s. encode_amqp_sequence s []) ss) @ rest) =
      decode_sections (st\<lparr>ss_seq_parts := ss_seq_parts st @ [s]\<rparr>) BODY_RANK
        (concat (map (\<lambda>s. encode_amqp_sequence s []) ss) @ rest)"
    using Cons.prems by (intro decode_sections_step [where code = AMQP_SEQUENCE])
      (auto simp: peek_section section_rank_def decode_section_def decode_amqp_sequence_encode)
  with Cons show ?case by simp
qed simp

fun body_state :: "body \<Rightarrow> section_state \<Rightarrow> section_state" where
  "body_state (BData parts) st = st\<lparr>ss_data_parts := parts\<rparr>"
| "body_state (BSequence seqs) st = st\<lparr>ss_seq_parts := seqs\<rparr>"
| "body_state (BValue v) st = set_msg (m_body_update (\<lambda>_. BValue v)) st\<lparr>ss_have_value := True\<rparr>"
| "body_state BEmpty st = st"

lemma encode_body_eq:
  "encode_body b buf = buf @ (case b of
      BData parts \<Rightarrow> concat (map (\<lambda>p. encode_data p []) parts)
    | BSequence seqs \<Rightarrow> concat (map (\<lambda>s. encode_amqp_sequence s []) seqs)
    | BValue v \<Rightarrow> encode_amqp_value v []
    | BEmpty \<Rightarrow> [])"
  by (auto simp: encode_body_def amqp_value_eq [of _ buf] amqp_value_eq [of _ "[]"] split: body.split
      intro!: fold_append_concat) (simp_all add: data_eq amqp_sequence_eq del: encode_value.simps)

lemma decode_sections_body:
  assumes "body_ok b" "max_rank < BODY_RANK"
    and "\<not> ss_have_value st" "ss_data_parts st = []" "ss_seq_parts st = []"
  shows "decode_sections st max_rank (encode_body b [] @ rest) =
    decode_sections (body_state b st) (if b = BEmpty then max_rank else BODY_RANK) rest"
proof (cases b)
  case (BData parts)
  then show ?thesis
    using assms decode_sections_data [of parts max_rank st rest] by (simp add: encode_body_eq)
next
  case (BSequence seqs)
  then show ?thesis
    using assms decode_sections_sequence [of seqs max_rank st rest] by (simp add: encode_body_eq)
next
  case (BValue v)
  then show ?thesis
    using assms unfolding encode_body_eq
    by (simp, intro decode_sections_step [where code = AMQP_VALUE])
      (auto simp: peek_section section_rank_def decode_section_def decode_amqp_value_encode)
qed (simp add: encode_body_eq)

lemma pred_optionD: "pred_option P x \<Longrightarrow> x = Some v \<Longrightarrow> P v"
  by simp

lemma encode_message_eq:
  "encode_message m buf = buf @ if_some encode_header (m_header m) [] @
    if_some (encode_map_section DELIVERY_ANNOTATIONS encode_symbol) (m_delivery_annotations m) [] @
    if_some (encode_map_section MESSAGE_ANNOTATIONS encode_symbol) (m_message_annotations m) [] @
    if_some encode_properties (m_properties m) [] @
    if_some (encode_map_section APPLICATION_PROPERTIES encode_str) (m_application_properties m) [] @
    encode_body (m_body m) [] @
    if_some (encode_map_section FOOTER encode_symbol) (m_footer m) []"
  unfolding encode_message_def Let_def
  by (simp add: if_some_appends [of _ _ "_ @ _"] if_some_appends [of _ _ buf] encode_body_eq [of _ "_ @ _"] encode_body_eq [of _ "[]"]
      encoders)

lemma decode_sections_message:
  assumes "message_ok m" "stops rest"
  defines "st \<equiv> \<lparr>ss_msg = default_message, ss_data_parts = [], ss_seq_parts = [], ss_have_value = False\<rparr>"
  shows "decode_sections st (- 1) (encode_message m [] @ rest) =
    Inr (set_msg (m_footer_update (\<lambda>_. m_footer m)) (body_state (m_body m)
      (st\<lparr>ss_msg := m\<lparr>m_body := BEmpty, m_footer := None\<rparr>\<rparr>)), rest)"
proof -
  note ok = assms(1) [unfolded message_ok_def]
  note sec = section_rank_def decode_section_def set_msg_def st_def default_message_def peek_section
    header_codec.peek_encoded header_codec.comp.decode_encode properties_codec.peek_encoded
    properties_codec.comp.decode_encode decode_fields_section
  let ?e6 = "if_some (encode_map_section FOOTER encode_symbol) (m_footer m) [] @ rest"
  let ?e5 = "encode_body (m_body m) [] @ ?e6"
  let ?e4 = "if_some (encode_map_section APPLICATION_PROPERTIES encode_str) (m_application_properties m) [] @ ?e5"
  let ?e3 = "if_some encode_properties (m_properties m) [] @ ?e4"
  let ?e2 = "if_some (encode_map_section MESSAGE_ANNOTATIONS encode_symbol) (m_message_annotations m) [] @ ?e3"
  let ?e1 = "if_some (encode_map_section DELIVERY_ANNOTATIONS encode_symbol) (m_delivery_annotations m) [] @ ?e2"
  let ?s0 = "set_msg (m_header_update (\<lambda>_. m_header m)) st"
  let ?s1 = "set_msg (m_delivery_annotations_update (\<lambda>_. m_delivery_annotations m)) ?s0"
  let ?s2 = "set_msg (m_message_annotations_update (\<lambda>_. m_message_annotations m)) ?s1"
  let ?s3 = "set_msg (m_properties_update (\<lambda>_. m_properties m)) ?s2"
  let ?s4 = "set_msg (m_application_properties_update (\<lambda>_. m_application_properties m)) ?s3"
  have "\<exists>r \<le> 0. decode_sections st (- 1) (if_some encode_header (m_header m) [] @ ?e1) = decode_sections ?s0 r ?e1"
    by (rule decode_sections_opt [where code = HEADER]) (use ok in \<open>simp_all add: sec\<close>)
  then obtain r0 where r0: "r0 \<le> 0" "decode_sections st (- 1) (if_some encode_header (m_header m) [] @ ?e1) = decode_sections ?s0 r0 ?e1" by blast
  have "\<exists>r \<le> 1. decode_sections ?s0 r0 ?e1 = decode_sections ?s1 r ?e2"
    by (rule decode_sections_opt [where code = DELIVERY_ANNOTATIONS])
      (use ok r0(1) in \<open>simp_all add: sec\<close>)
  then obtain r1 where r1: "r1 \<le> 1" "decode_sections ?s0 r0 ?e1 = decode_sections ?s1 r1 ?e2" by blast
  have "\<exists>r \<le> 2. decode_sections ?s1 r1 ?e2 = decode_sections ?s2 r ?e3"
    by (rule decode_sections_opt [where code = MESSAGE_ANNOTATIONS])
      (use ok r1(1) in \<open>simp_all add: sec\<close>)
  then obtain r2 where r2: "r2 \<le> 2" "decode_sections ?s1 r1 ?e2 = decode_sections ?s2 r2 ?e3" by blast
  have "\<exists>r \<le> 3. decode_sections ?s2 r2 ?e3 = decode_sections ?s3 r ?e4"
    by (rule decode_sections_opt [where code = PROPERTIES])
      (use ok r2(1) in \<open>simp_all add: sec\<close>)
  then obtain r3 where r3: "r3 \<le> 3" "decode_sections ?s2 r2 ?e3 = decode_sections ?s3 r3 ?e4" by blast
  have "\<exists>r \<le> 4. decode_sections ?s3 r3 ?e4 = decode_sections ?s4 r ?e5"
    by (rule decode_sections_opt [where code = APPLICATION_PROPERTIES])
      (use ok r3(1) in \<open>simp_all add: sec\<close>)
  then obtain r4 where r4: "r4 \<le> 4" "decode_sections ?s3 r3 ?e4 = decode_sections ?s4 r4 ?e5" by blast
  have r5: "decode_sections ?s4 r4 ?e5 = decode_sections (body_state (m_body m) ?s4) (if m_body m = BEmpty then r4 else BODY_RANK) ?e6"
    by (rule decode_sections_body) (use ok r4(1) in \<open>simp_all add: set_msg_def st_def BODY_RANK_def\<close>)
  have "\<exists>r \<le> 6. decode_sections (body_state (m_body m) ?s4) (if m_body m = BEmpty then r4 else BODY_RANK) ?e6 =
      decode_sections (set_msg (m_footer_update (\<lambda>_. m_footer m)) (body_state (m_body m) ?s4)) r rest"
    by (rule decode_sections_opt [where code = FOOTER])
      (use ok r4(1) in \<open>cases "m_body m"; simp add: sec BODY_RANK_def\<close>)+
  then obtain r6 where r6: "decode_sections (body_state (m_body m) ?s4) (if m_body m = BEmpty then r4 else BODY_RANK) ?e6 =
      decode_sections (set_msg (m_footer_update (\<lambda>_. m_footer m)) (body_state (m_body m) ?s4)) r6 rest"
    by blast
  have s4: "?s4 = st\<lparr>ss_msg := m\<lparr>m_body := BEmpty, m_footer := None\<rparr>\<rparr>"
    by (cases m) (simp add: set_msg_def st_def default_message_def)
  show ?thesis
    unfolding encode_message_eq s4 [symmetric]
    using r0(2) r1(2) r2(2) r3(2) r4(2) r5 r6 decode_sections_stop [OF assms(2)] by simp
qed

lemma decode_message_encode:
  assumes "message_ok m" "stops rest"
  shows "decode_message (encode_message m [] @ rest) = Inr (m, rest)"
  unfolding decode_message_def decode_sections_message [OF assms]
  using assms(1) by (cases m; cases "m_body m") (auto simp: set_msg_def message_ok_def)

end
