(* ===== verification/Types_Sasl.thy ===== *)
theory Types_Sasl
  imports Types_Messaging
begin

section \<open>SASL frame bodies and transaction types (\<open>ramqp-core/src/types/sasl.rs\<close>, \<open>txn/mod.rs\<close>)\<close>

text \<open>
  The five SASL frames with their dispatch, and the four described types of the transaction
  extension with the functions that carry them inside a delivery state.
\<close>

subsection \<open>SASL codes and frames\<close>

datatype sasl_code = SaslOk | SaslAuth | SaslSys | SaslSysPerm | SaslSysTemp

fun sasl_code_byte :: "sasl_code \<Rightarrow> u8" where
  "sasl_code_byte SaslOk = 0"
| "sasl_code_byte SaslAuth = 1"
| "sasl_code_byte SaslSys = 2"
| "sasl_code_byte SaslSysPerm = 3"
| "sasl_code_byte SaslSysTemp = 4"

definition encode_sasl_code :: "sasl_code \<Rightarrow> bytes \<Rightarrow> bytes" where
  "encode_sasl_code c buf = encode_u8 (sasl_code_byte c) buf"

definition decode_sasl_code :: "sasl_code decoder" where
  "decode_sasl_code buf = rbind (decode_u8 buf) (\<lambda>(n, buf).
    if n = 0 then Inr (SaslOk, buf)
    else if n = 1 then Inr (SaslAuth, buf)
    else if n = 2 then Inr (SaslSys, buf)
    else if n = 3 then Inr (SaslSysPerm, buf)
    else if n = 4 then Inr (SaslSysTemp, buf)
    else Inl (InvalidValue (InvalidSaslCode n)))"

interpretation sasl_code_codec: field_codec encode_sasl_code decode_sasl_code "\<lambda>_. True"
proof unfold_locales
  show "decode_sasl_code (encode_sasl_code x [] @ rest) = Inr (x, rest)" for x rest
    by (cases x) (simp_all add: encode_sasl_code_def decode_sasl_code_def u8_codec.decode_encode)
qed (auto simp: encode_sasl_code_def encode_u8_def put_u8_def)

lemmas sasl_code_encoder [encoders] = sasl_code_codec.encoder_axioms
lemmas sasl_code_steps [field_steps] =
  sasl_code_codec.ld_opt_option sasl_code_codec.ld_default_value sasl_code_codec.ld_req_value

record sasl_mechanisms =
  sm_sasl_server_mechanisms :: "utf8 list"

definition sasl_mechanisms_writes :: "sasl_mechanisms \<Rightarrow> field_writer \<Rightarrow> field_writer" where
  "sasl_mechanisms_writes x fw =
    (let fw = fw_symbols_required (sm_sasl_server_mechanisms x) fw
     in fw)"

definition sasl_mechanisms_reads :: "list_decoder \<Rightarrow> decode_error + sasl_mechanisms" where
  "sasl_mechanisms_reads d =
    rbind (ld_req_symbols ''sasl-server-mechanisms'' d) (\<lambda>(sasl_server_mechanisms, d).
    Inr \<lparr>sm_sasl_server_mechanisms = sasl_server_mechanisms\<rparr>)"

definition sasl_mechanisms_flds :: "sasl_mechanisms \<Rightarrow> bytes list" where
  "sasl_mechanisms_flds x =
    [encode_symbol_array (sm_sasl_server_mechanisms x) []]"

definition sasl_mechanisms_ok :: "sasl_mechanisms \<Rightarrow> bool" where
  "sasl_mechanisms_ok x \<longleftrightarrow> symbols_ok (sm_sasl_server_mechanisms x)"

abbreviation encode_sasl_mechanisms :: "sasl_mechanisms \<Rightarrow> bytes \<Rightarrow> bytes" where
  "encode_sasl_mechanisms \<equiv> encode_composite SASL_MECHANISMS sasl_mechanisms_writes"

abbreviation decode_sasl_mechanisms :: "sasl_mechanisms decoder" where
  "decode_sasl_mechanisms \<equiv> decode_composite SASL_MECHANISMS sasl_mechanisms_reads"

abbreviation rep_sasl_mechanisms :: "sasl_mechanisms \<Rightarrow> bool" where
  "rep_sasl_mechanisms \<equiv> \<lambda>x. sasl_mechanisms_ok x \<and> length (encode_sasl_mechanisms x []) < 2 ^ 32"

interpretation sasl_mechanisms_codec: composite SASL_MECHANISMS sasl_mechanisms_writes sasl_mechanisms_reads sasl_mechanisms_flds sasl_mechanisms_ok
  by unfold_locales
    (simp_all add: sasl_mechanisms_writes_def sasl_mechanisms_reads_def sasl_mechanisms_flds_def sasl_mechanisms_ok_def fw_raws encoders field_steps)

lemmas sasl_mechanisms_encoder [encoders] = sasl_mechanisms_codec.comp.encoder_axioms
lemmas sasl_mechanisms_steps [field_steps] =
  sasl_mechanisms_codec.comp.ld_opt_option sasl_mechanisms_codec.comp.ld_default_value sasl_mechanisms_codec.comp.ld_req_value

record sasl_init =
  si_mechanism :: utf8
  si_initial_response :: "bytes option"
  si_hostname :: "utf8 option"

definition sasl_init_writes :: "sasl_init \<Rightarrow> field_writer \<Rightarrow> field_writer" where
  "sasl_init_writes x fw =
    (let fw = fw_field encode_symbol (si_mechanism x) fw;
         fw = fw_field (encode_option encode_binary) (si_initial_response x) fw;
         fw = fw_field (encode_option encode_str) (si_hostname x) fw
     in fw)"

definition sasl_init_reads :: "list_decoder \<Rightarrow> decode_error + sasl_init" where
  "sasl_init_reads d =
    rbind (ld_req decode_symbol ''mechanism'' d) (\<lambda>(mechanism, d).
    rbind (ld_opt decode_binary d) (\<lambda>(initial_response, d).
    rbind (ld_opt decode_string d) (\<lambda>(hostname, d).
    Inr \<lparr>si_mechanism = mechanism, si_initial_response = initial_response,
      si_hostname = hostname\<rparr>)))"

definition sasl_init_flds :: "sasl_init \<Rightarrow> bytes list" where
  "sasl_init_flds x =
    [encode_symbol (si_mechanism x) [],
     encode_option encode_binary (si_initial_response x) [],
     encode_option encode_str (si_hostname x) []]"

definition sasl_init_ok :: "sasl_init \<Rightarrow> bool" where
  "sasl_init_ok x \<longleftrightarrow> text_ok (si_mechanism x) \<and>
    pred_option var_ok (si_initial_response x) \<and>
    pred_option text_ok (si_hostname x)"

abbreviation encode_sasl_init :: "sasl_init \<Rightarrow> bytes \<Rightarrow> bytes" where
  "encode_sasl_init \<equiv> encode_composite SASL_INIT sasl_init_writes"

abbreviation decode_sasl_init :: "sasl_init decoder" where
  "decode_sasl_init \<equiv> decode_composite SASL_INIT sasl_init_reads"

abbreviation rep_sasl_init :: "sasl_init \<Rightarrow> bool" where
  "rep_sasl_init \<equiv> \<lambda>x. sasl_init_ok x \<and> length (encode_sasl_init x []) < 2 ^ 32"

interpretation sasl_init_codec: composite SASL_INIT sasl_init_writes sasl_init_reads sasl_init_flds sasl_init_ok
  by unfold_locales
    (simp_all add: sasl_init_writes_def sasl_init_reads_def sasl_init_flds_def sasl_init_ok_def fw_raws encoders field_steps)

lemmas sasl_init_encoder [encoders] = sasl_init_codec.comp.encoder_axioms
lemmas sasl_init_steps [field_steps] =
  sasl_init_codec.comp.ld_opt_option sasl_init_codec.comp.ld_default_value sasl_init_codec.comp.ld_req_value

record sasl_challenge =
  sc_challenge :: bytes

definition sasl_challenge_writes :: "sasl_challenge \<Rightarrow> field_writer \<Rightarrow> field_writer" where
  "sasl_challenge_writes x fw =
    (let fw = fw_field encode_binary (sc_challenge x) fw
     in fw)"

definition sasl_challenge_reads :: "list_decoder \<Rightarrow> decode_error + sasl_challenge" where
  "sasl_challenge_reads d =
    rbind (ld_req decode_binary ''challenge'' d) (\<lambda>(challenge, d).
    Inr \<lparr>sc_challenge = challenge\<rparr>)"

definition sasl_challenge_flds :: "sasl_challenge \<Rightarrow> bytes list" where
  "sasl_challenge_flds x =
    [encode_binary (sc_challenge x) []]"

definition sasl_challenge_ok :: "sasl_challenge \<Rightarrow> bool" where
  "sasl_challenge_ok x \<longleftrightarrow> var_ok (sc_challenge x)"

abbreviation encode_sasl_challenge :: "sasl_challenge \<Rightarrow> bytes \<Rightarrow> bytes" where
  "encode_sasl_challenge \<equiv> encode_composite SASL_CHALLENGE sasl_challenge_writes"

abbreviation decode_sasl_challenge :: "sasl_challenge decoder" where
  "decode_sasl_challenge \<equiv> decode_composite SASL_CHALLENGE sasl_challenge_reads"

abbreviation rep_sasl_challenge :: "sasl_challenge \<Rightarrow> bool" where
  "rep_sasl_challenge \<equiv> \<lambda>x. sasl_challenge_ok x \<and> length (encode_sasl_challenge x []) < 2 ^ 32"

interpretation sasl_challenge_codec: composite SASL_CHALLENGE sasl_challenge_writes sasl_challenge_reads sasl_challenge_flds sasl_challenge_ok
  by unfold_locales
    (simp_all add: sasl_challenge_writes_def sasl_challenge_reads_def sasl_challenge_flds_def sasl_challenge_ok_def fw_raws encoders field_steps)

lemmas sasl_challenge_encoder [encoders] = sasl_challenge_codec.comp.encoder_axioms
lemmas sasl_challenge_steps [field_steps] =
  sasl_challenge_codec.comp.ld_opt_option sasl_challenge_codec.comp.ld_default_value sasl_challenge_codec.comp.ld_req_value

record sasl_response =
  sr_response :: bytes

definition sasl_response_writes :: "sasl_response \<Rightarrow> field_writer \<Rightarrow> field_writer" where
  "sasl_response_writes x fw =
    (let fw = fw_field encode_binary (sr_response x) fw
     in fw)"

definition sasl_response_reads :: "list_decoder \<Rightarrow> decode_error + sasl_response" where
  "sasl_response_reads d =
    rbind (ld_req decode_binary ''response'' d) (\<lambda>(response, d).
    Inr \<lparr>sr_response = response\<rparr>)"

definition sasl_response_flds :: "sasl_response \<Rightarrow> bytes list" where
  "sasl_response_flds x =
    [encode_binary (sr_response x) []]"

definition sasl_response_ok :: "sasl_response \<Rightarrow> bool" where
  "sasl_response_ok x \<longleftrightarrow> var_ok (sr_response x)"

abbreviation encode_sasl_response :: "sasl_response \<Rightarrow> bytes \<Rightarrow> bytes" where
  "encode_sasl_response \<equiv> encode_composite SASL_RESPONSE sasl_response_writes"

abbreviation decode_sasl_response :: "sasl_response decoder" where
  "decode_sasl_response \<equiv> decode_composite SASL_RESPONSE sasl_response_reads"

abbreviation rep_sasl_response :: "sasl_response \<Rightarrow> bool" where
  "rep_sasl_response \<equiv> \<lambda>x. sasl_response_ok x \<and> length (encode_sasl_response x []) < 2 ^ 32"

interpretation sasl_response_codec: composite SASL_RESPONSE sasl_response_writes sasl_response_reads sasl_response_flds sasl_response_ok
  by unfold_locales
    (simp_all add: sasl_response_writes_def sasl_response_reads_def sasl_response_flds_def sasl_response_ok_def fw_raws encoders field_steps)

lemmas sasl_response_encoder [encoders] = sasl_response_codec.comp.encoder_axioms
lemmas sasl_response_steps [field_steps] =
  sasl_response_codec.comp.ld_opt_option sasl_response_codec.comp.ld_default_value sasl_response_codec.comp.ld_req_value

record sasl_outcome =
  sx_code :: sasl_code
  sx_additional_data :: "bytes option"

definition sasl_outcome_writes :: "sasl_outcome \<Rightarrow> field_writer \<Rightarrow> field_writer" where
  "sasl_outcome_writes x fw =
    (let fw = fw_field encode_sasl_code (sx_code x) fw;
         fw = fw_field (encode_option encode_binary) (sx_additional_data x) fw
     in fw)"

definition sasl_outcome_reads :: "list_decoder \<Rightarrow> decode_error + sasl_outcome" where
  "sasl_outcome_reads d =
    rbind (ld_req decode_sasl_code ''code'' d) (\<lambda>(code, d).
    rbind (ld_opt decode_binary d) (\<lambda>(additional_data, d).
    Inr \<lparr>sx_code = code, sx_additional_data = additional_data\<rparr>))"

definition sasl_outcome_flds :: "sasl_outcome \<Rightarrow> bytes list" where
  "sasl_outcome_flds x =
    [encode_sasl_code (sx_code x) [],
     encode_option encode_binary (sx_additional_data x) []]"

definition sasl_outcome_ok :: "sasl_outcome \<Rightarrow> bool" where
  "sasl_outcome_ok x \<longleftrightarrow> pred_option var_ok (sx_additional_data x)"

abbreviation encode_sasl_outcome :: "sasl_outcome \<Rightarrow> bytes \<Rightarrow> bytes" where
  "encode_sasl_outcome \<equiv> encode_composite SASL_OUTCOME sasl_outcome_writes"

abbreviation decode_sasl_outcome :: "sasl_outcome decoder" where
  "decode_sasl_outcome \<equiv> decode_composite SASL_OUTCOME sasl_outcome_reads"

abbreviation rep_sasl_outcome :: "sasl_outcome \<Rightarrow> bool" where
  "rep_sasl_outcome \<equiv> \<lambda>x. sasl_outcome_ok x \<and> length (encode_sasl_outcome x []) < 2 ^ 32"

interpretation sasl_outcome_codec: composite SASL_OUTCOME sasl_outcome_writes sasl_outcome_reads sasl_outcome_flds sasl_outcome_ok
  by unfold_locales
    (simp_all add: sasl_outcome_writes_def sasl_outcome_reads_def sasl_outcome_flds_def sasl_outcome_ok_def fw_raws encoders field_steps)

lemmas sasl_outcome_encoder [encoders] = sasl_outcome_codec.comp.encoder_axioms
lemmas sasl_outcome_steps [field_steps] =
  sasl_outcome_codec.comp.ld_opt_option sasl_outcome_codec.comp.ld_default_value sasl_outcome_codec.comp.ld_req_value

datatype sasl_frame =
    FMechanisms sasl_mechanisms
  | FInit sasl_init
  | FChallenge sasl_challenge
  | FResponse sasl_response
  | FOutcome sasl_outcome

fun encode_sasl_frame :: "sasl_frame \<Rightarrow> bytes \<Rightarrow> bytes" where
  "encode_sasl_frame (FMechanisms f) buf = encode_sasl_mechanisms f buf"
| "encode_sasl_frame (FInit f) buf = encode_sasl_init f buf"
| "encode_sasl_frame (FChallenge f) buf = encode_sasl_challenge f buf"
| "encode_sasl_frame (FResponse f) buf = encode_sasl_response f buf"
| "encode_sasl_frame (FOutcome f) buf = encode_sasl_outcome f buf"

definition decode_sasl_frame :: "sasl_frame decoder" where
  "decode_sasl_frame buf = rbind (peek_descriptor buf) (\<lambda>d.
    if d = Code SASL_MECHANISMS then rbind (decode_sasl_mechanisms buf) (\<lambda>(f, buf). Inr (FMechanisms f, buf))
    else if d = Code SASL_INIT then rbind (decode_sasl_init buf) (\<lambda>(f, buf). Inr (FInit f, buf))
    else if d = Code SASL_CHALLENGE then rbind (decode_sasl_challenge buf) (\<lambda>(f, buf). Inr (FChallenge f, buf))
    else if d = Code SASL_RESPONSE then rbind (decode_sasl_response buf) (\<lambda>(f, buf). Inr (FResponse f, buf))
    else if d = Code SASL_OUTCOME then rbind (decode_sasl_outcome buf) (\<lambda>(f, buf). Inr (FOutcome f, buf))
    else Inl (InvalidValue (UnknownSaslFrame d)))"

fun sasl_frame_ok :: "sasl_frame \<Rightarrow> bool" where
  "sasl_frame_ok (FMechanisms f) = rep_sasl_mechanisms f"
| "sasl_frame_ok (FInit f) = rep_sasl_init f"
| "sasl_frame_ok (FChallenge f) = rep_sasl_challenge f"
| "sasl_frame_ok (FResponse f) = rep_sasl_response f"
| "sasl_frame_ok (FOutcome f) = rep_sasl_outcome f"

lemmas sasl_frame_peek =
  sasl_mechanisms_codec.peek_encoded
  sasl_init_codec.peek_encoded
  sasl_challenge_codec.peek_encoded
  sasl_response_codec.peek_encoded
  sasl_outcome_codec.peek_encoded

lemmas sasl_frame_decode =
  sasl_mechanisms_codec.comp.decode_encode
  sasl_init_codec.comp.decode_encode
  sasl_challenge_codec.comp.decode_encode
  sasl_response_codec.comp.decode_encode
  sasl_outcome_codec.comp.decode_encode

lemmas sasl_frame_appends =
  sasl_mechanisms_codec.comp.appends
  sasl_init_codec.comp.appends
  sasl_challenge_codec.comp.appends
  sasl_response_codec.comp.appends
  sasl_outcome_codec.comp.appends

interpretation sasl_frame_codec: field_codec encode_sasl_frame decode_sasl_frame sasl_frame_ok
proof unfold_locales
  show "encode_sasl_frame x buf = buf @ encode_sasl_frame x []" for x buf
    by (cases x) (simp_all, (rule sasl_frame_appends)+)
  show "sasl_frame_ok x \<Longrightarrow> decode_sasl_frame (encode_sasl_frame x [] @ rest) = Inr (x, rest)" for x rest
    by (cases x) (simp_all add: decode_sasl_frame_def sasl_frame_peek sasl_frame_decode)
  show "encode_sasl_frame x [] \<noteq> []" "hd (encode_sasl_frame x []) \<noteq> NULL" for x
    by (cases x; simp)+
qed

subsection \<open>Transaction types\<close>

record declare_txn =
  dc_global_id :: "bytes option"

definition declare_writes :: "declare_txn \<Rightarrow> field_writer \<Rightarrow> field_writer" where
  "declare_writes x fw =
    (let fw = fw_field (encode_option encode_binary) (dc_global_id x) fw
     in fw)"

definition declare_reads :: "list_decoder \<Rightarrow> decode_error + declare_txn" where
  "declare_reads d =
    rbind (ld_opt decode_binary d) (\<lambda>(global_id, d).
    Inr \<lparr>dc_global_id = global_id\<rparr>)"

definition declare_flds :: "declare_txn \<Rightarrow> bytes list" where
  "declare_flds x =
    [encode_option encode_binary (dc_global_id x) []]"

definition declare_ok :: "declare_txn \<Rightarrow> bool" where
  "declare_ok x \<longleftrightarrow> pred_option var_ok (dc_global_id x)"

abbreviation encode_declare :: "declare_txn \<Rightarrow> bytes \<Rightarrow> bytes" where
  "encode_declare \<equiv> encode_composite DECLARE declare_writes"

abbreviation decode_declare :: "declare_txn decoder" where
  "decode_declare \<equiv> decode_composite DECLARE declare_reads"

abbreviation rep_declare :: "declare_txn \<Rightarrow> bool" where
  "rep_declare \<equiv> \<lambda>x. declare_ok x \<and> length (encode_declare x []) < 2 ^ 32"

interpretation declare_codec: composite DECLARE declare_writes declare_reads declare_flds declare_ok
  by unfold_locales
    (simp_all add: declare_writes_def declare_reads_def declare_flds_def declare_ok_def fw_raws encoders field_steps)

lemmas declare_encoder [encoders] = declare_codec.comp.encoder_axioms
lemmas declare_steps [field_steps] =
  declare_codec.comp.ld_opt_option declare_codec.comp.ld_default_value declare_codec.comp.ld_req_value

record discharge =
  dg_txn_id :: bytes
  dg_fail :: bool

definition discharge_writes :: "discharge \<Rightarrow> field_writer \<Rightarrow> field_writer" where
  "discharge_writes x fw =
    (let fw = fw_field encode_binary (dg_txn_id x) fw;
         fw = fw_field encode_bool (dg_fail x) fw
     in fw)"

definition discharge_reads :: "list_decoder \<Rightarrow> decode_error + discharge" where
  "discharge_reads d =
    rbind (ld_req decode_binary ''txn-id'' d) (\<lambda>(txn_id, d).
    rbind (ld_default decode_bool False d) (\<lambda>(fail, d).
    Inr \<lparr>dg_txn_id = txn_id, dg_fail = fail\<rparr>))"

definition discharge_flds :: "discharge \<Rightarrow> bytes list" where
  "discharge_flds x =
    [encode_binary (dg_txn_id x) [],
     encode_bool (dg_fail x) []]"

definition discharge_ok :: "discharge \<Rightarrow> bool" where
  "discharge_ok x \<longleftrightarrow> var_ok (dg_txn_id x)"

abbreviation encode_discharge :: "discharge \<Rightarrow> bytes \<Rightarrow> bytes" where
  "encode_discharge \<equiv> encode_composite DISCHARGE discharge_writes"

abbreviation decode_discharge :: "discharge decoder" where
  "decode_discharge \<equiv> decode_composite DISCHARGE discharge_reads"

abbreviation rep_discharge :: "discharge \<Rightarrow> bool" where
  "rep_discharge \<equiv> \<lambda>x. discharge_ok x \<and> length (encode_discharge x []) < 2 ^ 32"

interpretation discharge_codec: composite DISCHARGE discharge_writes discharge_reads discharge_flds discharge_ok
  by unfold_locales
    (simp_all add: discharge_writes_def discharge_reads_def discharge_flds_def discharge_ok_def fw_raws encoders field_steps)

lemmas discharge_encoder [encoders] = discharge_codec.comp.encoder_axioms
lemmas discharge_steps [field_steps] =
  discharge_codec.comp.ld_opt_option discharge_codec.comp.ld_default_value discharge_codec.comp.ld_req_value

record declared =
  dd_txn_id :: bytes

definition declared_writes :: "declared \<Rightarrow> field_writer \<Rightarrow> field_writer" where
  "declared_writes x fw =
    (let fw = fw_field encode_binary (dd_txn_id x) fw
     in fw)"

definition declared_reads :: "list_decoder \<Rightarrow> decode_error + declared" where
  "declared_reads d =
    rbind (ld_req decode_binary ''txn-id'' d) (\<lambda>(txn_id, d).
    Inr \<lparr>dd_txn_id = txn_id\<rparr>)"

definition declared_flds :: "declared \<Rightarrow> bytes list" where
  "declared_flds x =
    [encode_binary (dd_txn_id x) []]"

definition declared_ok :: "declared \<Rightarrow> bool" where
  "declared_ok x \<longleftrightarrow> var_ok (dd_txn_id x)"

abbreviation encode_declared :: "declared \<Rightarrow> bytes \<Rightarrow> bytes" where
  "encode_declared \<equiv> encode_composite DECLARED declared_writes"

abbreviation decode_declared :: "declared decoder" where
  "decode_declared \<equiv> decode_composite DECLARED declared_reads"

abbreviation rep_declared :: "declared \<Rightarrow> bool" where
  "rep_declared \<equiv> \<lambda>x. declared_ok x \<and> length (encode_declared x []) < 2 ^ 32"

interpretation declared_codec: composite DECLARED declared_writes declared_reads declared_flds declared_ok
  by unfold_locales
    (simp_all add: declared_writes_def declared_reads_def declared_flds_def declared_ok_def fw_raws encoders field_steps)

lemmas declared_encoder [encoders] = declared_codec.comp.encoder_axioms
lemmas declared_steps [field_steps] =
  declared_codec.comp.ld_opt_option declared_codec.comp.ld_default_value declared_codec.comp.ld_req_value

record transactional_state =
  ts_txn_id :: bytes
  ts_outcome :: "outcome option"

definition transactional_state_writes :: "transactional_state \<Rightarrow> field_writer \<Rightarrow> field_writer" where
  "transactional_state_writes x fw =
    (let fw = fw_field encode_binary (ts_txn_id x) fw;
         fw = fw_field (encode_option encode_outcome) (ts_outcome x) fw
     in fw)"

definition transactional_state_reads :: "list_decoder \<Rightarrow> decode_error + transactional_state" where
  "transactional_state_reads d =
    rbind (ld_req decode_binary ''txn-id'' d) (\<lambda>(txn_id, d).
    rbind (ld_opt decode_outcome d) (\<lambda>(outcome, d).
    Inr \<lparr>ts_txn_id = txn_id, ts_outcome = outcome\<rparr>))"

definition transactional_state_flds :: "transactional_state \<Rightarrow> bytes list" where
  "transactional_state_flds x =
    [encode_binary (ts_txn_id x) [],
     encode_option encode_outcome (ts_outcome x) []]"

definition transactional_state_ok :: "transactional_state \<Rightarrow> bool" where
  "transactional_state_ok x \<longleftrightarrow> var_ok (ts_txn_id x) \<and>
    pred_option outcome_ok (ts_outcome x)"

abbreviation encode_transactional_state :: "transactional_state \<Rightarrow> bytes \<Rightarrow> bytes" where
  "encode_transactional_state \<equiv> encode_composite TRANSACTIONAL_STATE transactional_state_writes"

abbreviation decode_transactional_state :: "transactional_state decoder" where
  "decode_transactional_state \<equiv> decode_composite TRANSACTIONAL_STATE transactional_state_reads"

abbreviation rep_transactional_state :: "transactional_state \<Rightarrow> bool" where
  "rep_transactional_state \<equiv> \<lambda>x. transactional_state_ok x \<and> length (encode_transactional_state x []) < 2 ^ 32"

interpretation transactional_state_codec: composite TRANSACTIONAL_STATE transactional_state_writes transactional_state_reads transactional_state_flds transactional_state_ok
  by unfold_locales
    (simp_all add: transactional_state_writes_def transactional_state_reads_def transactional_state_flds_def transactional_state_ok_def fw_raws encoders field_steps)

lemmas transactional_state_encoder [encoders] = transactional_state_codec.comp.encoder_axioms
lemmas transactional_state_steps [field_steps] =
  transactional_state_codec.comp.ld_opt_option transactional_state_codec.comp.ld_default_value transactional_state_codec.comp.ld_req_value

end
