(* ===== verification/Transport_Header.thy ===== *)
theory Transport_Header
  imports Amqp_Prelude
begin

section \<open>Protocol header negotiation (\<open>ramqp-core/src/transport/header.rs\<close>)\<close>

text \<open>
  The 8-byte preamble that both peers exchange before any frame. A stream is the bytes that the
  peer has sent and not yet been read, and the bytes written so far; \<open>read_exact\<close> fails when fewer
  bytes than asked for remain before the end of the stream. A write that fails ends the exchange
  with the stream's own error and is not modelled.
\<close>

record protocol_header =
  protocol_id :: u8
  major :: u8
  minor :: u8
  revision :: u8

definition HEADER_AMQP :: protocol_header where
  "HEADER_AMQP = \<lparr>protocol_id = 0, major = 1, minor = 0, revision = 0\<rparr>"

definition HEADER_TLS :: protocol_header where
  "HEADER_TLS = \<lparr>protocol_id = 2, major = 1, minor = 0, revision = 0\<rparr>"

definition HEADER_SASL :: protocol_header where
  "HEADER_SASL = \<lparr>protocol_id = 3, major = 1, minor = 0, revision = 0\<rparr>"

datatype header_error =
    BadMagic bytes
  | HeaderMismatch protocol_header protocol_header
  | UnsupportedHeader protocol_header protocol_header
  | HeaderEof
  | NoSupportedHeaders

record stream =
  st_in :: bytes
  st_out :: bytes

definition to_bytes :: "protocol_header \<Rightarrow> bytes" where
  "to_bytes h = [65, 77, 81, 80, protocol_id h, major h, minor h, revision h]"

text \<open>The argument is an array of eight bytes.\<close>

definition from_bytes :: "bytes \<Rightarrow> header_error + protocol_header" where
  "from_bytes bytes =
    (if take 4 bytes \<noteq> [65, 77, 81, 80] then Inl (BadMagic (take 4 bytes))
     else Inr \<lparr>protocol_id = bytes ! 4, major = bytes ! 5, minor = bytes ! 6, revision = bytes ! 7\<rparr>)"

definition write_header :: "protocol_header \<Rightarrow> stream \<Rightarrow> stream" where
  "write_header h s = s\<lparr>st_out := st_out s @ to_bytes h\<rparr>"

definition read_header :: "stream \<Rightarrow> (header_error + protocol_header) \<times> stream" where
  "read_header s =
    (if length (st_in s) < 8 then (Inl HeaderEof, s\<lparr>st_in := []\<rparr>)
     else (from_bytes (take 8 (st_in s)), s\<lparr>st_in := drop 8 (st_in s)\<rparr>))"

definition negotiate :: "protocol_header \<Rightarrow> stream \<Rightarrow> (header_error + unit) \<times> stream" where
  "negotiate h s =
    (let s = write_header h s;
         (r, s) = read_header s
     in (rbind r (\<lambda>peer. if peer \<noteq> h then Inl (HeaderMismatch h peer) else Inr ()), s))"

text \<open>The assertion on an empty list of supported headers is the error \<^const>\<open>NoSupportedHeaders\<close>.\<close>

definition accept :: "protocol_header list \<Rightarrow> stream \<Rightarrow> (header_error + protocol_header) \<times> stream" where
  "accept supported s =
    (if supported = [] then (Inl NoSupportedHeaders, s)
     else let (r, s) = read_header s in
       case r of
         Inl e \<Rightarrow> (Inl e, s)
       | Inr client \<Rightarrow>
           if client \<in> set supported then (Inr client, write_header client s)
           else (Inl (UnsupportedHeader client (hd supported)), write_header (hd supported) s))"

subsection \<open>Laws\<close>

lemma length_to_bytes [simp]: "length (to_bytes h) = 8"
  by (simp add: to_bytes_def)

lemma from_to_bytes [simp]: "from_bytes (to_bytes h) = Inr h"
  by (simp add: from_bytes_def to_bytes_def)

lemma from_bytes_Inr:
  assumes "length bs = 8" "from_bytes bs = Inr h"
  shows "to_bytes h = bs"
proof -
  obtain a b c d e f g i where "bs = [a, b, c, d, e, f, g, i]"
    using assms(1) by (auto simp: numeral_eq_Suc length_Suc_conv)
  with assms(2) show ?thesis by (auto simp: from_bytes_def to_bytes_def split: if_splits)
qed

lemma read_header_to_bytes [simp]:
  "read_header \<lparr>st_in = to_bytes h @ rest, st_out = out\<rparr> = (Inr h, \<lparr>st_in = rest, st_out = out\<rparr>)"
  by (simp add: read_header_def)

text \<open>
  the header exchange agrees. A client that negotiates a header against a server accepting a
  list of headers ends the exchange in the same protocol layer as the server when the header is
  supported. When it is not, the server refuses it and offers its preferred layer, the client
  learns that offer from its own error, and no byte of what follows the headers is consumed.
\<close>

theorem header_exchange_agrees:
  fixes rest rest' :: bytes
  assumes "supported \<noteq> []"
    and "accept supported \<lparr>st_in = to_bytes h @ rest, st_out = []\<rparr> = (sr, server)"
    and "negotiate h \<lparr>st_in = st_out server @ rest', st_out = []\<rparr> = (cr, client)"
  shows "st_out client = to_bytes h \<and> st_in client = rest' \<and> st_in server = rest \<and>
    (if h \<in> set supported then sr = Inr h \<and> cr = Inr ()
     else sr = Inl (UnsupportedHeader h (hd supported)) \<and> cr = Inl (HeaderMismatch h (hd supported)))"
proof -
  have "hd supported \<in> set supported" using assms(1) by simp
  then show ?thesis
    using assms by (auto simp: accept_def negotiate_def write_header_def split: if_splits)
qed

theorem header_exchange_agrees_witness:
  "\<exists>server client. accept [HEADER_SASL, HEADER_AMQP] \<lparr>st_in = to_bytes HEADER_TLS @ [1], st_out = []\<rparr> =
      (Inl (UnsupportedHeader HEADER_TLS HEADER_SASL), server) \<and>
    negotiate HEADER_TLS \<lparr>st_in = st_out server @ [2], st_out = []\<rparr> = (Inl (HeaderMismatch HEADER_TLS HEADER_SASL), client)"
proof -
  have no: "HEADER_TLS \<notin> set [HEADER_SASL, HEADER_AMQP]"
    by (simp add: HEADER_AMQP_def HEADER_TLS_def HEADER_SASL_def)
  obtain sr server where s: "accept [HEADER_SASL, HEADER_AMQP] \<lparr>st_in = to_bytes HEADER_TLS @ [1], st_out = []\<rparr> = (sr, server)"
    by (cases "accept [HEADER_SASL, HEADER_AMQP] \<lparr>st_in = to_bytes HEADER_TLS @ [1], st_out = []\<rparr>")
  obtain cr client where c: "negotiate HEADER_TLS \<lparr>st_in = st_out server @ [2], st_out = []\<rparr> = (cr, client)"
    by (cases "negotiate HEADER_TLS \<lparr>st_in = st_out server @ [2], st_out = []\<rparr>")
  show ?thesis
    using header_exchange_agrees [OF _ s c] no s c by auto
qed

end
