(* ===== verification/Types_Performatives.thy ===== *)
theory Types_Performatives
  imports Types_Messaging
begin

section \<open>The transport performatives (\<open>ramqp-core/src/types/performatives.rs\<close>)\<close>

text \<open>
  The nine performatives, each a composite with the fields and defaults of the source, and the
  dispatch on the descriptor that decodes a frame body.
\<close>

type_synonym unsettled = "(bytes, delivery_state) ordered_map"

interpretation unsettled_codec: map_codec encode_binary decode_binary var_ok
  encode_delivery_state decode_delivery_state delivery_state_ok
  by unfold_locales

abbreviation encode_unsettled :: "unsettled \<Rightarrow> bytes \<Rightarrow> bytes" where
  "encode_unsettled \<equiv> encode_map_entries encode_binary encode_delivery_state"

abbreviation decode_unsettled :: "unsettled decoder" where
  "decode_unsettled \<equiv> decode_ordered_map decode_binary decode_delivery_state"

abbreviation unsettled_ok :: "unsettled \<Rightarrow> bool" where
  "unsettled_ok \<equiv> \<lambda>m. (\<forall>(k, v) \<in> set m. var_ok k \<and> delivery_state_ok v) \<and> length (encode_unsettled m []) < 2 ^ 32"

lemmas unsettled_encoder [encoders] = unsettled_codec.map.encoder_axioms
lemmas unsettled_steps [field_steps] =
  unsettled_codec.map.ld_opt_option unsettled_codec.map.ld_default_value unsettled_codec.map.ld_req_value

record open_perf =
  op_container_id :: utf8
  op_hostname :: "utf8 option"
  op_max_frame_size :: u32
  op_channel_max :: u16
  op_idle_time_out :: "u32 option"
  op_outgoing_locales :: "utf8 list"
  op_incoming_locales :: "utf8 list"
  op_offered_capabilities :: "utf8 list"
  op_desired_capabilities :: "utf8 list"
  op_properties :: "fields option"

definition open_writes :: "open_perf \<Rightarrow> field_writer \<Rightarrow> field_writer" where
  "open_writes x fw =
    (let fw = fw_field encode_str (op_container_id x) fw;
         fw = fw_field (encode_option encode_str) (op_hostname x) fw;
         fw = fw_field encode_u32 (op_max_frame_size x) fw;
         fw = fw_field encode_u16 (op_channel_max x) fw;
         fw = fw_field (encode_option encode_u32) (op_idle_time_out x) fw;
         fw = fw_symbols (op_outgoing_locales x) fw;
         fw = fw_symbols (op_incoming_locales x) fw;
         fw = fw_symbols (op_offered_capabilities x) fw;
         fw = fw_symbols (op_desired_capabilities x) fw;
         fw = fw_field (encode_option encode_fields) (op_properties x) fw
     in fw)"

definition open_reads :: "list_decoder \<Rightarrow> decode_error + open_perf" where
  "open_reads d =
    rbind (ld_req decode_string ''container-id'' d) (\<lambda>(container_id, d).
    rbind (ld_opt decode_string d) (\<lambda>(hostname, d).
    rbind (ld_default decode_u32 (- 1) d) (\<lambda>(max_frame_size, d).
    rbind (ld_default decode_u16 (- 1) d) (\<lambda>(channel_max, d).
    rbind (ld_opt decode_u32 d) (\<lambda>(idle_time_out, d).
    rbind (ld_symbols d) (\<lambda>(outgoing_locales, d).
    rbind (ld_symbols d) (\<lambda>(incoming_locales, d).
    rbind (ld_symbols d) (\<lambda>(offered_capabilities, d).
    rbind (ld_symbols d) (\<lambda>(desired_capabilities, d).
    rbind (ld_opt decode_fields d) (\<lambda>(properties, d).
    Inr \<lparr>op_container_id = container_id, op_hostname = hostname,
      op_max_frame_size = max_frame_size, op_channel_max = channel_max,
      op_idle_time_out = idle_time_out, op_outgoing_locales = outgoing_locales,
      op_incoming_locales = incoming_locales, op_offered_capabilities = offered_capabilities,
      op_desired_capabilities = desired_capabilities, op_properties = properties\<rparr>))))))))))"

definition open_flds :: "open_perf \<Rightarrow> bytes list" where
  "open_flds x =
    [encode_str (op_container_id x) [],
     encode_option encode_str (op_hostname x) [],
     encode_u32 (op_max_frame_size x) [],
     encode_u16 (op_channel_max x) [],
     encode_option encode_u32 (op_idle_time_out x) [],
     symbols_field (op_outgoing_locales x),
     symbols_field (op_incoming_locales x),
     symbols_field (op_offered_capabilities x),
     symbols_field (op_desired_capabilities x),
     encode_option encode_fields (op_properties x) []]"

definition open_ok :: "open_perf \<Rightarrow> bool" where
  "open_ok x \<longleftrightarrow> text_ok (op_container_id x) \<and>
    pred_option text_ok (op_hostname x) \<and>
    symbols_ok (op_outgoing_locales x) \<and>
    symbols_ok (op_incoming_locales x) \<and>
    symbols_ok (op_offered_capabilities x) \<and>
    symbols_ok (op_desired_capabilities x) \<and>
    pred_option fields_ok (op_properties x)"

abbreviation encode_open :: "open_perf \<Rightarrow> bytes \<Rightarrow> bytes" where
  "encode_open \<equiv> encode_composite OPEN open_writes"

abbreviation decode_open :: "open_perf decoder" where
  "decode_open \<equiv> decode_composite OPEN open_reads"

abbreviation rep_open :: "open_perf \<Rightarrow> bool" where
  "rep_open \<equiv> \<lambda>x. open_ok x \<and> length (encode_open x []) < 2 ^ 32"

interpretation open_codec: composite OPEN open_writes open_reads open_flds open_ok
  by unfold_locales
    (simp_all add: open_writes_def open_reads_def open_flds_def open_ok_def fw_raws encoders field_steps)

lemmas open_encoder [encoders] = open_codec.comp.encoder_axioms
lemmas open_steps [field_steps] =
  open_codec.comp.ld_opt_option open_codec.comp.ld_default_value open_codec.comp.ld_req_value

record begin_perf =
  bg_remote_channel :: "u16 option"
  bg_next_outgoing_id :: u32
  bg_incoming_window :: u32
  bg_outgoing_window :: u32
  bg_handle_max :: u32
  bg_offered_capabilities :: "utf8 list"
  bg_desired_capabilities :: "utf8 list"
  bg_properties :: "fields option"

definition begin_writes :: "begin_perf \<Rightarrow> field_writer \<Rightarrow> field_writer" where
  "begin_writes x fw =
    (let fw = fw_field (encode_option encode_u16) (bg_remote_channel x) fw;
         fw = fw_field encode_u32 (bg_next_outgoing_id x) fw;
         fw = fw_field encode_u32 (bg_incoming_window x) fw;
         fw = fw_field encode_u32 (bg_outgoing_window x) fw;
         fw = fw_field encode_u32 (bg_handle_max x) fw;
         fw = fw_symbols (bg_offered_capabilities x) fw;
         fw = fw_symbols (bg_desired_capabilities x) fw;
         fw = fw_field (encode_option encode_fields) (bg_properties x) fw
     in fw)"

definition begin_reads :: "list_decoder \<Rightarrow> decode_error + begin_perf" where
  "begin_reads d =
    rbind (ld_opt decode_u16 d) (\<lambda>(remote_channel, d).
    rbind (ld_req decode_u32 ''next-outgoing-id'' d) (\<lambda>(next_outgoing_id, d).
    rbind (ld_req decode_u32 ''incoming-window'' d) (\<lambda>(incoming_window, d).
    rbind (ld_req decode_u32 ''outgoing-window'' d) (\<lambda>(outgoing_window, d).
    rbind (ld_default decode_u32 (- 1) d) (\<lambda>(handle_max, d).
    rbind (ld_symbols d) (\<lambda>(offered_capabilities, d).
    rbind (ld_symbols d) (\<lambda>(desired_capabilities, d).
    rbind (ld_opt decode_fields d) (\<lambda>(properties, d).
    Inr \<lparr>bg_remote_channel = remote_channel, bg_next_outgoing_id = next_outgoing_id,
      bg_incoming_window = incoming_window, bg_outgoing_window = outgoing_window,
      bg_handle_max = handle_max, bg_offered_capabilities = offered_capabilities,
      bg_desired_capabilities = desired_capabilities, bg_properties = properties\<rparr>))))))))"

definition begin_flds :: "begin_perf \<Rightarrow> bytes list" where
  "begin_flds x =
    [encode_option encode_u16 (bg_remote_channel x) [],
     encode_u32 (bg_next_outgoing_id x) [],
     encode_u32 (bg_incoming_window x) [],
     encode_u32 (bg_outgoing_window x) [],
     encode_u32 (bg_handle_max x) [],
     symbols_field (bg_offered_capabilities x),
     symbols_field (bg_desired_capabilities x),
     encode_option encode_fields (bg_properties x) []]"

definition begin_ok :: "begin_perf \<Rightarrow> bool" where
  "begin_ok x \<longleftrightarrow> symbols_ok (bg_offered_capabilities x) \<and>
    symbols_ok (bg_desired_capabilities x) \<and>
    pred_option fields_ok (bg_properties x)"

abbreviation encode_begin :: "begin_perf \<Rightarrow> bytes \<Rightarrow> bytes" where
  "encode_begin \<equiv> encode_composite BEGIN begin_writes"

abbreviation decode_begin :: "begin_perf decoder" where
  "decode_begin \<equiv> decode_composite BEGIN begin_reads"

abbreviation rep_begin :: "begin_perf \<Rightarrow> bool" where
  "rep_begin \<equiv> \<lambda>x. begin_ok x \<and> length (encode_begin x []) < 2 ^ 32"

interpretation begin_codec: composite BEGIN begin_writes begin_reads begin_flds begin_ok
  by unfold_locales
    (simp_all add: begin_writes_def begin_reads_def begin_flds_def begin_ok_def fw_raws encoders field_steps)

lemmas begin_encoder [encoders] = begin_codec.comp.encoder_axioms
lemmas begin_steps [field_steps] =
  begin_codec.comp.ld_opt_option begin_codec.comp.ld_default_value begin_codec.comp.ld_req_value

record attach =
  at_name :: utf8
  at_handle :: u32
  at_role :: role
  at_snd_settle_mode :: sender_settle_mode
  at_rcv_settle_mode :: receiver_settle_mode
  at_source :: "source option"
  at_target :: "target_archetype option"
  at_unsettled :: "unsettled option"
  at_incomplete_unsettled :: bool
  at_initial_delivery_count :: "u32 option"
  at_max_message_size :: "u64 option"
  at_offered_capabilities :: "utf8 list"
  at_desired_capabilities :: "utf8 list"
  at_properties :: "fields option"

definition attach_writes :: "attach \<Rightarrow> field_writer \<Rightarrow> field_writer" where
  "attach_writes x fw =
    (let fw = fw_field encode_str (at_name x) fw;
         fw = fw_field encode_u32 (at_handle x) fw;
         fw = fw_field encode_role (at_role x) fw;
         fw = fw_field encode_sender_settle_mode (at_snd_settle_mode x) fw;
         fw = fw_field encode_receiver_settle_mode (at_rcv_settle_mode x) fw;
         fw = fw_field (encode_option encode_source) (at_source x) fw;
         fw = fw_field (encode_option encode_target_archetype) (at_target x) fw;
         fw = fw_field (encode_option encode_unsettled) (at_unsettled x) fw;
         fw = fw_field encode_bool (at_incomplete_unsettled x) fw;
         fw = fw_field (encode_option encode_u32) (at_initial_delivery_count x) fw;
         fw = fw_field (encode_option encode_u64) (at_max_message_size x) fw;
         fw = fw_symbols (at_offered_capabilities x) fw;
         fw = fw_symbols (at_desired_capabilities x) fw;
         fw = fw_field (encode_option encode_fields) (at_properties x) fw
     in fw)"

definition attach_reads :: "list_decoder \<Rightarrow> decode_error + attach" where
  "attach_reads d =
    rbind (ld_req decode_string ''name'' d) (\<lambda>(name, d).
    rbind (ld_req decode_u32 ''handle'' d) (\<lambda>(handle, d).
    rbind (ld_req decode_role ''role'' d) (\<lambda>(role, d).
    rbind (ld_default decode_sender_settle_mode Mixed d) (\<lambda>(snd_settle_mode, d).
    rbind (ld_default decode_receiver_settle_mode First d) (\<lambda>(rcv_settle_mode, d).
    rbind (ld_opt decode_source d) (\<lambda>(source, d).
    rbind (ld_opt decode_target_archetype d) (\<lambda>(target, d).
    rbind (ld_opt decode_unsettled d) (\<lambda>(unsettled, d).
    rbind (ld_default decode_bool False d) (\<lambda>(incomplete_unsettled, d).
    rbind (ld_opt decode_u32 d) (\<lambda>(initial_delivery_count, d).
    rbind (ld_opt decode_u64 d) (\<lambda>(max_message_size, d).
    rbind (ld_symbols d) (\<lambda>(offered_capabilities, d).
    rbind (ld_symbols d) (\<lambda>(desired_capabilities, d).
    rbind (ld_opt decode_fields d) (\<lambda>(properties, d).
    Inr \<lparr>at_name = name, at_handle = handle, at_role = role,
      at_snd_settle_mode = snd_settle_mode, at_rcv_settle_mode = rcv_settle_mode,
      at_source = source, at_target = target, at_unsettled = unsettled,
      at_incomplete_unsettled = incomplete_unsettled,
      at_initial_delivery_count = initial_delivery_count, at_max_message_size = max_message_size,
      at_offered_capabilities = offered_capabilities,
      at_desired_capabilities = desired_capabilities, at_properties = properties\<rparr>))))))))))))))"

definition attach_flds :: "attach \<Rightarrow> bytes list" where
  "attach_flds x =
    [encode_str (at_name x) [],
     encode_u32 (at_handle x) [],
     encode_role (at_role x) [],
     encode_sender_settle_mode (at_snd_settle_mode x) [],
     encode_receiver_settle_mode (at_rcv_settle_mode x) [],
     encode_option encode_source (at_source x) [],
     encode_option encode_target_archetype (at_target x) [],
     encode_option encode_unsettled (at_unsettled x) [],
     encode_bool (at_incomplete_unsettled x) [],
     encode_option encode_u32 (at_initial_delivery_count x) [],
     encode_option encode_u64 (at_max_message_size x) [],
     symbols_field (at_offered_capabilities x),
     symbols_field (at_desired_capabilities x),
     encode_option encode_fields (at_properties x) []]"

definition attach_ok :: "attach \<Rightarrow> bool" where
  "attach_ok x \<longleftrightarrow> text_ok (at_name x) \<and>
    pred_option rep_source (at_source x) \<and>
    pred_option target_archetype_ok (at_target x) \<and>
    pred_option unsettled_ok (at_unsettled x) \<and>
    symbols_ok (at_offered_capabilities x) \<and>
    symbols_ok (at_desired_capabilities x) \<and>
    pred_option fields_ok (at_properties x)"

abbreviation encode_attach :: "attach \<Rightarrow> bytes \<Rightarrow> bytes" where
  "encode_attach \<equiv> encode_composite ATTACH attach_writes"

abbreviation decode_attach :: "attach decoder" where
  "decode_attach \<equiv> decode_composite ATTACH attach_reads"

abbreviation rep_attach :: "attach \<Rightarrow> bool" where
  "rep_attach \<equiv> \<lambda>x. attach_ok x \<and> length (encode_attach x []) < 2 ^ 32"

interpretation attach_codec: composite ATTACH attach_writes attach_reads attach_flds attach_ok
  by unfold_locales
    (simp_all add: attach_writes_def attach_reads_def attach_flds_def attach_ok_def fw_raws encoders field_steps)

lemmas attach_encoder [encoders] = attach_codec.comp.encoder_axioms
lemmas attach_steps [field_steps] =
  attach_codec.comp.ld_opt_option attach_codec.comp.ld_default_value attach_codec.comp.ld_req_value

record flow =
  fl_next_incoming_id :: "u32 option"
  fl_incoming_window :: u32
  fl_next_outgoing_id :: u32
  fl_outgoing_window :: u32
  fl_handle :: "u32 option"
  fl_delivery_count :: "u32 option"
  fl_link_credit :: "u32 option"
  fl_available :: "u32 option"
  fl_drain :: bool
  fl_echo :: bool
  fl_properties :: "fields option"

definition flow_writes :: "flow \<Rightarrow> field_writer \<Rightarrow> field_writer" where
  "flow_writes x fw =
    (let fw = fw_field (encode_option encode_u32) (fl_next_incoming_id x) fw;
         fw = fw_field encode_u32 (fl_incoming_window x) fw;
         fw = fw_field encode_u32 (fl_next_outgoing_id x) fw;
         fw = fw_field encode_u32 (fl_outgoing_window x) fw;
         fw = fw_field (encode_option encode_u32) (fl_handle x) fw;
         fw = fw_field (encode_option encode_u32) (fl_delivery_count x) fw;
         fw = fw_field (encode_option encode_u32) (fl_link_credit x) fw;
         fw = fw_field (encode_option encode_u32) (fl_available x) fw;
         fw = fw_field encode_bool (fl_drain x) fw;
         fw = fw_field encode_bool (fl_echo x) fw;
         fw = fw_field (encode_option encode_fields) (fl_properties x) fw
     in fw)"

definition flow_reads :: "list_decoder \<Rightarrow> decode_error + flow" where
  "flow_reads d =
    rbind (ld_opt decode_u32 d) (\<lambda>(next_incoming_id, d).
    rbind (ld_req decode_u32 ''incoming-window'' d) (\<lambda>(incoming_window, d).
    rbind (ld_req decode_u32 ''next-outgoing-id'' d) (\<lambda>(next_outgoing_id, d).
    rbind (ld_req decode_u32 ''outgoing-window'' d) (\<lambda>(outgoing_window, d).
    rbind (ld_opt decode_u32 d) (\<lambda>(handle, d).
    rbind (ld_opt decode_u32 d) (\<lambda>(delivery_count, d).
    rbind (ld_opt decode_u32 d) (\<lambda>(link_credit, d).
    rbind (ld_opt decode_u32 d) (\<lambda>(available, d).
    rbind (ld_default decode_bool False d) (\<lambda>(drain, d).
    rbind (ld_default decode_bool False d) (\<lambda>(echo, d).
    rbind (ld_opt decode_fields d) (\<lambda>(properties, d).
    Inr \<lparr>fl_next_incoming_id = next_incoming_id, fl_incoming_window = incoming_window,
      fl_next_outgoing_id = next_outgoing_id, fl_outgoing_window = outgoing_window,
      fl_handle = handle, fl_delivery_count = delivery_count, fl_link_credit = link_credit,
      fl_available = available, fl_drain = drain, fl_echo = echo, fl_properties = properties\<rparr>)))))))))))"

definition flow_flds :: "flow \<Rightarrow> bytes list" where
  "flow_flds x =
    [encode_option encode_u32 (fl_next_incoming_id x) [],
     encode_u32 (fl_incoming_window x) [],
     encode_u32 (fl_next_outgoing_id x) [],
     encode_u32 (fl_outgoing_window x) [],
     encode_option encode_u32 (fl_handle x) [],
     encode_option encode_u32 (fl_delivery_count x) [],
     encode_option encode_u32 (fl_link_credit x) [],
     encode_option encode_u32 (fl_available x) [],
     encode_bool (fl_drain x) [],
     encode_bool (fl_echo x) [],
     encode_option encode_fields (fl_properties x) []]"

definition flow_ok :: "flow \<Rightarrow> bool" where
  "flow_ok x \<longleftrightarrow> pred_option fields_ok (fl_properties x)"

abbreviation encode_flow :: "flow \<Rightarrow> bytes \<Rightarrow> bytes" where
  "encode_flow \<equiv> encode_composite FLOW flow_writes"

abbreviation decode_flow :: "flow decoder" where
  "decode_flow \<equiv> decode_composite FLOW flow_reads"

abbreviation rep_flow :: "flow \<Rightarrow> bool" where
  "rep_flow \<equiv> \<lambda>x. flow_ok x \<and> length (encode_flow x []) < 2 ^ 32"

interpretation flow_codec: composite FLOW flow_writes flow_reads flow_flds flow_ok
  by unfold_locales
    (simp_all add: flow_writes_def flow_reads_def flow_flds_def flow_ok_def fw_raws encoders field_steps)

lemmas flow_encoder [encoders] = flow_codec.comp.encoder_axioms
lemmas flow_steps [field_steps] =
  flow_codec.comp.ld_opt_option flow_codec.comp.ld_default_value flow_codec.comp.ld_req_value

record transfer =
  tr_handle :: u32
  tr_delivery_id :: "u32 option"
  tr_delivery_tag :: "bytes option"
  tr_message_format :: "u32 option"
  tr_settled :: "bool option"
  tr_more :: bool
  tr_rcv_settle_mode :: "receiver_settle_mode option"
  tr_state :: "delivery_state option"
  tr_resume :: bool
  tr_aborted :: bool
  tr_batchable :: bool

definition transfer_writes :: "transfer \<Rightarrow> field_writer \<Rightarrow> field_writer" where
  "transfer_writes x fw =
    (let fw = fw_field encode_u32 (tr_handle x) fw;
         fw = fw_field (encode_option encode_u32) (tr_delivery_id x) fw;
         fw = fw_field (encode_option encode_binary) (tr_delivery_tag x) fw;
         fw = fw_field (encode_option encode_u32) (tr_message_format x) fw;
         fw = fw_field (encode_option encode_bool) (tr_settled x) fw;
         fw = fw_field encode_bool (tr_more x) fw;
         fw = fw_field (encode_option encode_receiver_settle_mode) (tr_rcv_settle_mode x) fw;
         fw = fw_field (encode_option encode_delivery_state) (tr_state x) fw;
         fw = fw_field encode_bool (tr_resume x) fw;
         fw = fw_field encode_bool (tr_aborted x) fw;
         fw = fw_field encode_bool (tr_batchable x) fw
     in fw)"

definition transfer_reads :: "list_decoder \<Rightarrow> decode_error + transfer" where
  "transfer_reads d =
    rbind (ld_req decode_u32 ''handle'' d) (\<lambda>(handle, d).
    rbind (ld_opt decode_u32 d) (\<lambda>(delivery_id, d).
    rbind (ld_opt decode_binary d) (\<lambda>(delivery_tag, d).
    rbind (ld_opt decode_u32 d) (\<lambda>(message_format, d).
    rbind (ld_opt decode_bool d) (\<lambda>(settled, d).
    rbind (ld_default decode_bool False d) (\<lambda>(more, d).
    rbind (ld_opt decode_receiver_settle_mode d) (\<lambda>(rcv_settle_mode, d).
    rbind (ld_opt decode_delivery_state d) (\<lambda>(state, d).
    rbind (ld_default decode_bool False d) (\<lambda>(resume, d).
    rbind (ld_default decode_bool False d) (\<lambda>(aborted, d).
    rbind (ld_default decode_bool False d) (\<lambda>(batchable, d).
    Inr \<lparr>tr_handle = handle, tr_delivery_id = delivery_id, tr_delivery_tag = delivery_tag,
      tr_message_format = message_format, tr_settled = settled, tr_more = more,
      tr_rcv_settle_mode = rcv_settle_mode, tr_state = state, tr_resume = resume,
      tr_aborted = aborted, tr_batchable = batchable\<rparr>)))))))))))"

definition transfer_flds :: "transfer \<Rightarrow> bytes list" where
  "transfer_flds x =
    [encode_u32 (tr_handle x) [],
     encode_option encode_u32 (tr_delivery_id x) [],
     encode_option encode_binary (tr_delivery_tag x) [],
     encode_option encode_u32 (tr_message_format x) [],
     encode_option encode_bool (tr_settled x) [],
     encode_bool (tr_more x) [],
     encode_option encode_receiver_settle_mode (tr_rcv_settle_mode x) [],
     encode_option encode_delivery_state (tr_state x) [],
     encode_bool (tr_resume x) [],
     encode_bool (tr_aborted x) [],
     encode_bool (tr_batchable x) []]"

definition transfer_ok :: "transfer \<Rightarrow> bool" where
  "transfer_ok x \<longleftrightarrow> pred_option var_ok (tr_delivery_tag x) \<and>
    pred_option delivery_state_ok (tr_state x)"

abbreviation encode_transfer :: "transfer \<Rightarrow> bytes \<Rightarrow> bytes" where
  "encode_transfer \<equiv> encode_composite TRANSFER transfer_writes"

abbreviation decode_transfer :: "transfer decoder" where
  "decode_transfer \<equiv> decode_composite TRANSFER transfer_reads"

abbreviation rep_transfer :: "transfer \<Rightarrow> bool" where
  "rep_transfer \<equiv> \<lambda>x. transfer_ok x \<and> length (encode_transfer x []) < 2 ^ 32"

interpretation transfer_codec: composite TRANSFER transfer_writes transfer_reads transfer_flds transfer_ok
  by unfold_locales
    (simp_all add: transfer_writes_def transfer_reads_def transfer_flds_def transfer_ok_def fw_raws encoders field_steps)

lemmas transfer_encoder [encoders] = transfer_codec.comp.encoder_axioms
lemmas transfer_steps [field_steps] =
  transfer_codec.comp.ld_opt_option transfer_codec.comp.ld_default_value transfer_codec.comp.ld_req_value

record disposition =
  di_role :: role
  di_first :: u32
  di_last :: "u32 option"
  di_settled :: bool
  di_state :: "delivery_state option"
  di_batchable :: bool

definition disposition_writes :: "disposition \<Rightarrow> field_writer \<Rightarrow> field_writer" where
  "disposition_writes x fw =
    (let fw = fw_field encode_role (di_role x) fw;
         fw = fw_field encode_u32 (di_first x) fw;
         fw = fw_field (encode_option encode_u32) (di_last x) fw;
         fw = fw_field encode_bool (di_settled x) fw;
         fw = fw_field (encode_option encode_delivery_state) (di_state x) fw;
         fw = fw_field encode_bool (di_batchable x) fw
     in fw)"

definition disposition_reads :: "list_decoder \<Rightarrow> decode_error + disposition" where
  "disposition_reads d =
    rbind (ld_req decode_role ''role'' d) (\<lambda>(role, d).
    rbind (ld_req decode_u32 ''first'' d) (\<lambda>(first, d).
    rbind (ld_opt decode_u32 d) (\<lambda>(last, d).
    rbind (ld_default decode_bool False d) (\<lambda>(settled, d).
    rbind (ld_opt decode_delivery_state d) (\<lambda>(state, d).
    rbind (ld_default decode_bool False d) (\<lambda>(batchable, d).
    Inr \<lparr>di_role = role, di_first = first, di_last = last, di_settled = settled,
      di_state = state, di_batchable = batchable\<rparr>))))))"

definition disposition_flds :: "disposition \<Rightarrow> bytes list" where
  "disposition_flds x =
    [encode_role (di_role x) [],
     encode_u32 (di_first x) [],
     encode_option encode_u32 (di_last x) [],
     encode_bool (di_settled x) [],
     encode_option encode_delivery_state (di_state x) [],
     encode_bool (di_batchable x) []]"

definition disposition_ok :: "disposition \<Rightarrow> bool" where
  "disposition_ok x \<longleftrightarrow> pred_option delivery_state_ok (di_state x)"

abbreviation encode_disposition :: "disposition \<Rightarrow> bytes \<Rightarrow> bytes" where
  "encode_disposition \<equiv> encode_composite DISPOSITION disposition_writes"

abbreviation decode_disposition :: "disposition decoder" where
  "decode_disposition \<equiv> decode_composite DISPOSITION disposition_reads"

abbreviation rep_disposition :: "disposition \<Rightarrow> bool" where
  "rep_disposition \<equiv> \<lambda>x. disposition_ok x \<and> length (encode_disposition x []) < 2 ^ 32"

interpretation disposition_codec: composite DISPOSITION disposition_writes disposition_reads disposition_flds disposition_ok
  by unfold_locales
    (simp_all add: disposition_writes_def disposition_reads_def disposition_flds_def disposition_ok_def fw_raws encoders field_steps)

lemmas disposition_encoder [encoders] = disposition_codec.comp.encoder_axioms
lemmas disposition_steps [field_steps] =
  disposition_codec.comp.ld_opt_option disposition_codec.comp.ld_default_value disposition_codec.comp.ld_req_value

record detach =
  de_handle :: u32
  de_closed :: bool
  de_error :: "err option"

definition detach_writes :: "detach \<Rightarrow> field_writer \<Rightarrow> field_writer" where
  "detach_writes x fw =
    (let fw = fw_field encode_u32 (de_handle x) fw;
         fw = fw_field encode_bool (de_closed x) fw;
         fw = fw_field (encode_option encode_err) (de_error x) fw
     in fw)"

definition detach_reads :: "list_decoder \<Rightarrow> decode_error + detach" where
  "detach_reads d =
    rbind (ld_req decode_u32 ''handle'' d) (\<lambda>(handle, d).
    rbind (ld_default decode_bool False d) (\<lambda>(closed, d).
    rbind (ld_opt decode_err d) (\<lambda>(error, d).
    Inr \<lparr>de_handle = handle, de_closed = closed, de_error = error\<rparr>)))"

definition detach_flds :: "detach \<Rightarrow> bytes list" where
  "detach_flds x =
    [encode_u32 (de_handle x) [],
     encode_bool (de_closed x) [],
     encode_option encode_err (de_error x) []]"

definition detach_ok :: "detach \<Rightarrow> bool" where
  "detach_ok x \<longleftrightarrow> pred_option rep_err (de_error x)"

abbreviation encode_detach :: "detach \<Rightarrow> bytes \<Rightarrow> bytes" where
  "encode_detach \<equiv> encode_composite DETACH detach_writes"

abbreviation decode_detach :: "detach decoder" where
  "decode_detach \<equiv> decode_composite DETACH detach_reads"

abbreviation rep_detach :: "detach \<Rightarrow> bool" where
  "rep_detach \<equiv> \<lambda>x. detach_ok x \<and> length (encode_detach x []) < 2 ^ 32"

interpretation detach_codec: composite DETACH detach_writes detach_reads detach_flds detach_ok
  by unfold_locales
    (simp_all add: detach_writes_def detach_reads_def detach_flds_def detach_ok_def fw_raws encoders field_steps)

lemmas detach_encoder [encoders] = detach_codec.comp.encoder_axioms
lemmas detach_steps [field_steps] =
  detach_codec.comp.ld_opt_option detach_codec.comp.ld_default_value detach_codec.comp.ld_req_value

record end_perf =
  en_error :: "err option"

definition end_writes :: "end_perf \<Rightarrow> field_writer \<Rightarrow> field_writer" where
  "end_writes x fw =
    (let fw = fw_field (encode_option encode_err) (en_error x) fw
     in fw)"

definition end_reads :: "list_decoder \<Rightarrow> decode_error + end_perf" where
  "end_reads d =
    rbind (ld_opt decode_err d) (\<lambda>(error, d).
    Inr \<lparr>en_error = error\<rparr>)"

definition end_flds :: "end_perf \<Rightarrow> bytes list" where
  "end_flds x =
    [encode_option encode_err (en_error x) []]"

definition end_ok :: "end_perf \<Rightarrow> bool" where
  "end_ok x \<longleftrightarrow> pred_option rep_err (en_error x)"

abbreviation encode_end :: "end_perf \<Rightarrow> bytes \<Rightarrow> bytes" where
  "encode_end \<equiv> encode_composite END end_writes"

abbreviation decode_end :: "end_perf decoder" where
  "decode_end \<equiv> decode_composite END end_reads"

abbreviation rep_end :: "end_perf \<Rightarrow> bool" where
  "rep_end \<equiv> \<lambda>x. end_ok x \<and> length (encode_end x []) < 2 ^ 32"

interpretation end_codec: composite END end_writes end_reads end_flds end_ok
  by unfold_locales
    (simp_all add: end_writes_def end_reads_def end_flds_def end_ok_def fw_raws encoders field_steps)

lemmas end_encoder [encoders] = end_codec.comp.encoder_axioms
lemmas end_steps [field_steps] =
  end_codec.comp.ld_opt_option end_codec.comp.ld_default_value end_codec.comp.ld_req_value

record close =
  cl_error :: "err option"

definition close_writes :: "close \<Rightarrow> field_writer \<Rightarrow> field_writer" where
  "close_writes x fw =
    (let fw = fw_field (encode_option encode_err) (cl_error x) fw
     in fw)"

definition close_reads :: "list_decoder \<Rightarrow> decode_error + close" where
  "close_reads d =
    rbind (ld_opt decode_err d) (\<lambda>(error, d).
    Inr \<lparr>cl_error = error\<rparr>)"

definition close_flds :: "close \<Rightarrow> bytes list" where
  "close_flds x =
    [encode_option encode_err (cl_error x) []]"

definition close_ok :: "close \<Rightarrow> bool" where
  "close_ok x \<longleftrightarrow> pred_option rep_err (cl_error x)"

abbreviation encode_close :: "close \<Rightarrow> bytes \<Rightarrow> bytes" where
  "encode_close \<equiv> encode_composite CLOSE close_writes"

abbreviation decode_close :: "close decoder" where
  "decode_close \<equiv> decode_composite CLOSE close_reads"

abbreviation rep_close :: "close \<Rightarrow> bool" where
  "rep_close \<equiv> \<lambda>x. close_ok x \<and> length (encode_close x []) < 2 ^ 32"

interpretation close_codec: composite CLOSE close_writes close_reads close_flds close_ok
  by unfold_locales
    (simp_all add: close_writes_def close_reads_def close_flds_def close_ok_def fw_raws encoders field_steps)

lemmas close_encoder [encoders] = close_codec.comp.encoder_axioms
lemmas close_steps [field_steps] =
  close_codec.comp.ld_opt_option close_codec.comp.ld_default_value close_codec.comp.ld_req_value

subsection \<open>Dispatch\<close>

datatype performative =
    POpen "open_perf"
  | PBegin "begin_perf"
  | PAttach "attach"
  | PFlow "flow"
  | PTransfer "transfer"
  | PDisposition "disposition"
  | PDetach "detach"
  | PEnd "end_perf"
  | PClose "close"

fun encode_performative :: "performative \<Rightarrow> bytes \<Rightarrow> bytes" where
  "encode_performative (POpen p) buf = encode_open p buf"
| "encode_performative (PBegin p) buf = encode_begin p buf"
| "encode_performative (PAttach p) buf = encode_attach p buf"
| "encode_performative (PFlow p) buf = encode_flow p buf"
| "encode_performative (PTransfer p) buf = encode_transfer p buf"
| "encode_performative (PDisposition p) buf = encode_disposition p buf"
| "encode_performative (PDetach p) buf = encode_detach p buf"
| "encode_performative (PEnd p) buf = encode_end p buf"
| "encode_performative (PClose p) buf = encode_close p buf"

definition decode_performative :: "performative decoder" where
  "decode_performative buf = rbind (peek_descriptor buf) (\<lambda>d.
    if d = Code OPEN then rbind (decode_open buf) (\<lambda>(p, buf). Inr (POpen p, buf))
    else if d = Code BEGIN then rbind (decode_begin buf) (\<lambda>(p, buf). Inr (PBegin p, buf))
    else if d = Code ATTACH then rbind (decode_attach buf) (\<lambda>(p, buf). Inr (PAttach p, buf))
    else if d = Code FLOW then rbind (decode_flow buf) (\<lambda>(p, buf). Inr (PFlow p, buf))
    else if d = Code TRANSFER then rbind (decode_transfer buf) (\<lambda>(p, buf). Inr (PTransfer p, buf))
    else if d = Code DISPOSITION then rbind (decode_disposition buf) (\<lambda>(p, buf). Inr (PDisposition p, buf))
    else if d = Code DETACH then rbind (decode_detach buf) (\<lambda>(p, buf). Inr (PDetach p, buf))
    else if d = Code END then rbind (decode_end buf) (\<lambda>(p, buf). Inr (PEnd p, buf))
    else if d = Code CLOSE then rbind (decode_close buf) (\<lambda>(p, buf). Inr (PClose p, buf))
    else Inl (InvalidValue (UnknownPerformative d)))"

fun performative_ok :: "performative \<Rightarrow> bool" where
  "performative_ok (POpen p) = rep_open p"
| "performative_ok (PBegin p) = rep_begin p"
| "performative_ok (PAttach p) = rep_attach p"
| "performative_ok (PFlow p) = rep_flow p"
| "performative_ok (PTransfer p) = rep_transfer p"
| "performative_ok (PDisposition p) = rep_disposition p"
| "performative_ok (PDetach p) = rep_detach p"
| "performative_ok (PEnd p) = rep_end p"
| "performative_ok (PClose p) = rep_close p"

lemmas performative_peek =
  open_codec.peek_encoded
  begin_codec.peek_encoded
  attach_codec.peek_encoded
  flow_codec.peek_encoded
  transfer_codec.peek_encoded
  disposition_codec.peek_encoded
  detach_codec.peek_encoded
  end_codec.peek_encoded
  close_codec.peek_encoded

lemmas performative_decode =
  open_codec.comp.decode_encode
  begin_codec.comp.decode_encode
  attach_codec.comp.decode_encode
  flow_codec.comp.decode_encode
  transfer_codec.comp.decode_encode
  disposition_codec.comp.decode_encode
  detach_codec.comp.decode_encode
  end_codec.comp.decode_encode
  close_codec.comp.decode_encode

lemmas performative_appends =
  open_codec.comp.appends
  begin_codec.comp.appends
  attach_codec.comp.appends
  flow_codec.comp.appends
  transfer_codec.comp.appends
  disposition_codec.comp.appends
  detach_codec.comp.appends
  end_codec.comp.appends
  close_codec.comp.appends

interpretation performative_codec: field_codec encode_performative decode_performative performative_ok
proof unfold_locales
  show "encode_performative x buf = buf @ encode_performative x []" for x buf
    by (cases x) (simp_all, (rule performative_appends)+)
  show "performative_ok x \<Longrightarrow> decode_performative (encode_performative x [] @ rest) = Inr (x, rest)" for x rest
    by (cases x) (simp_all add: decode_performative_def performative_peek performative_decode)
  show "encode_performative x [] \<noteq> []" "hd (encode_performative x []) \<noteq> NULL" for x
    by (cases x; simp)+
qed

end
