(* ===== verification/Connection_Negotiate.thy ===== *)
theory Connection_Negotiate
  imports Types_Performatives
begin

section \<open>Opening a connection and keeping it alive (\<open>connection/negotiate.rs\<close>, \<open>connection/heartbeat.rs\<close>)\<close>

text \<open>
  A \<open>Duration\<close> and an \<open>Instant\<close> are counts of nanoseconds. The clock and the interval timer are
  parameters: an operation that reads the clock takes the time as an argument, and a run of the
  heartbeat is a list of time-stamped events.
\<close>

type_synonym duration = nat
type_synonym instant = nat

definition from_millis :: "nat \<Rightarrow> duration" where
  "from_millis ms = ms * 1000000"

definition as_millis :: "duration \<Rightarrow> nat" where
  "as_millis d = d div 1000000"

subsection \<open>Open negotiation\<close>

definition MIN_MAX_FRAME_SIZE :: u32 where
  "MIN_MAX_FRAME_SIZE = 512"

record connection_config =
  cc_container_id :: utf8
  cc_hostname :: "utf8 option"
  cc_max_frame_size :: u32
  cc_channel_max :: u16
  cc_idle_timeout :: "duration option"

record negotiated =
  ng_max_frame_size :: u32
  ng_channel_max :: u16
  ng_send_interval :: "duration option"
  ng_recv_timeout :: "duration option"

definition default_open :: open_perf where
  "default_open = \<lparr>op_container_id = [], op_hostname = None, op_max_frame_size = - 1, op_channel_max = - 1,
    op_idle_time_out = None, op_outgoing_locales = [], op_incoming_locales = [], op_offered_capabilities = [],
    op_desired_capabilities = [], op_properties = None\<rparr>"

definition option_filter :: "('a \<Rightarrow> bool) \<Rightarrow> 'a option \<Rightarrow> 'a option" where
  "option_filter p x = (case x of None \<Rightarrow> None | Some v \<Rightarrow> if p v then Some v else None)"

definition build_open :: "connection_config \<Rightarrow> open_perf" where
  "build_open config = default_open\<lparr>
    op_container_id := cc_container_id config,
    op_hostname := cc_hostname config,
    op_max_frame_size := cc_max_frame_size config,
    op_channel_max := cc_channel_max config,
    op_idle_time_out := option_filter (\<lambda>ms. ms > 0)
      (map_option (\<lambda>d. of_nat (min (as_millis d) (unat (- 1 :: u32)))) (cc_idle_timeout config))\<rparr>"

definition reconcile_open :: "open_perf \<Rightarrow> open_perf \<Rightarrow> negotiated" where
  "reconcile_open local remote = \<lparr>
    ng_max_frame_size = max (min (op_max_frame_size local) (op_max_frame_size remote)) MIN_MAX_FRAME_SIZE,
    ng_channel_max = min (op_channel_max local) (op_channel_max remote),
    ng_send_interval = map_option (\<lambda>ms. from_millis (unat (max (ms div 2) 1)))
      (option_filter (\<lambda>ms. ms > 0) (op_idle_time_out remote)),
    ng_recv_timeout = map_option (\<lambda>ms. from_millis (unat ms))
      (option_filter (\<lambda>ms. ms > 0) (op_idle_time_out local))\<rparr>"

text \<open>A graceful close is no error; the error of a close is reported as the peer's.\<close>

datatype close_error = PeerClosed err

definition close_to_error :: "close \<Rightarrow> close_error option" where
  "close_to_error c = map_option PeerClosed (cl_error c)"

subsection \<open>Heartbeat\<close>

datatype heartbeat_action = Idle | SendEmpty | PeerTimedOut

text \<open>The timer is its period: ticks come from the interval of the runtime.\<close>

record heartbeat =
  hb_timer :: "duration option"
  hb_send_after :: "duration option"
  hb_recv_timeout :: "duration option"
  hb_last_recv :: instant
  hb_last_send :: instant
  hb_recv_since_tick :: bool
  hb_send_since_tick :: bool

definition new_heartbeat :: "instant \<Rightarrow> duration option \<Rightarrow> duration option \<Rightarrow> heartbeat" where
  "new_heartbeat now send_after recv_timeout =
    (let check = (case (send_after, recv_timeout) of
           (Some s, Some r) \<Rightarrow> Some (min s (r div 2))
         | (Some s, None) \<Rightarrow> Some s
         | (None, Some r) \<Rightarrow> Some (r div 2)
         | (None, None) \<Rightarrow> None)
     in \<lparr>hb_timer = map_option (\<lambda>d. max d (from_millis 1)) check, hb_send_after = send_after,
         hb_recv_timeout = recv_timeout, hb_last_recv = now, hb_last_send = now,
         hb_recv_since_tick = False, hb_send_since_tick = False\<rparr>)"

definition record_recv :: "heartbeat \<Rightarrow> heartbeat" where
  "record_recv hb = hb\<lparr>hb_recv_since_tick := True\<rparr>"

definition record_send :: "heartbeat \<Rightarrow> heartbeat" where
  "record_send hb = hb\<lparr>hb_send_since_tick := True\<rparr>"

text \<open>
  A tick folds the activity flags into the timestamps and then decides. Without a timer it never
  completes.
\<close>

definition fold_activity :: "instant \<Rightarrow> heartbeat \<Rightarrow> heartbeat" where
  "fold_activity now hb = hb\<lparr>
    hb_last_recv := (if hb_recv_since_tick hb then now else hb_last_recv hb), hb_recv_since_tick := False,
    hb_last_send := (if hb_send_since_tick hb then now else hb_last_send hb), hb_send_since_tick := False\<rparr>"

definition due_action :: "instant \<Rightarrow> heartbeat \<Rightarrow> heartbeat_action" where
  "due_action now hb =
    (if (case hb_recv_timeout hb of Some to \<Rightarrow> now - hb_last_recv hb \<ge> to | None \<Rightarrow> False) then PeerTimedOut
     else if (case hb_send_after hb of Some sa \<Rightarrow> now - hb_last_send hb \<ge> sa | None \<Rightarrow> False) then SendEmpty
     else Idle)"

definition tick :: "instant \<Rightarrow> heartbeat \<Rightarrow> (heartbeat_action \<times> heartbeat) option" where
  "tick now hb = (case hb_timer hb of
      None \<Rightarrow> None
    | Some _ \<Rightarrow> let hb = fold_activity now hb in Some (due_action now hb, hb))"

text \<open>
  The heartbeat as the driver runs it: a received or sent frame sets a flag, and the empty frame
  that a tick asks for is itself recorded as sent.
\<close>

datatype heartbeat_event = FrameReceived | FrameSent | TimerFired

fun heartbeat_step :: "instant \<times> heartbeat_event \<Rightarrow> heartbeat \<Rightarrow> heartbeat_action \<times> heartbeat" where
  "heartbeat_step (_, FrameReceived) hb = (Idle, record_recv hb)"
| "heartbeat_step (_, FrameSent) hb = (Idle, record_send hb)"
| "heartbeat_step (now, TimerFired) hb = (case tick now hb of
      None \<Rightarrow> (Idle, hb)
    | Some (action, hb) \<Rightarrow> (action, if action = SendEmpty then record_send hb else hb))"

fun heartbeat_run :: "(instant \<times> heartbeat_event) list \<Rightarrow> heartbeat \<Rightarrow> (instant \<times> heartbeat_action) list \<times> heartbeat" where
  "heartbeat_run [] hb = ([], hb)"
| "heartbeat_run (e # es) hb =
    (let (a, hb) = heartbeat_step e hb;
         (as, hb) = heartbeat_run es hb
     in ((fst e, a) # as, hb))"

abbreviation heartbeat_after :: "(instant \<times> heartbeat_event) list \<Rightarrow> heartbeat \<Rightarrow> heartbeat" where
  "heartbeat_after es hb \<equiv> snd (heartbeat_run es hb)"

subsection \<open>Laws\<close>

lemma option_filter_eq_Some [simp]: "option_filter p x = Some v \<longleftrightarrow> x = Some v \<and> p v"
  by (auto simp: option_filter_def split: option.split)

lemma heartbeat_run_append:
  "heartbeat_run (es @ fs) hb =
    (let (as, hb) = heartbeat_run es hb; (bs, hb) = heartbeat_run fs hb in (as @ bs, hb))"
  by (induction es arbitrary: hb) (simp_all add: split_beta Let_def)

lemma fold_activity_simps [simp]:
  "hb_recv_since_tick (fold_activity now hb) = False"
  "hb_send_since_tick (fold_activity now hb) = False"
  "hb_last_recv (fold_activity now hb) = (if hb_recv_since_tick hb then now else hb_last_recv hb)"
  "hb_last_send (fold_activity now hb) = (if hb_send_since_tick hb then now else hb_last_send hb)"
  "hb_recv_timeout (fold_activity now hb) = hb_recv_timeout hb"
  "hb_send_after (fold_activity now hb) = hb_send_after hb"
  "hb_timer (fold_activity now hb) = hb_timer hb"
  by (simp_all add: fold_activity_def)

lemma record_simps [simp]:
  "hb_recv_since_tick (record_recv hb)" "hb_recv_since_tick (record_send hb) = hb_recv_since_tick hb"
  "hb_send_since_tick (record_send hb)" "hb_send_since_tick (record_recv hb) = hb_send_since_tick hb"
  "hb_last_recv (record_recv hb) = hb_last_recv hb" "hb_last_recv (record_send hb) = hb_last_recv hb"
  "hb_timer (record_recv hb) = hb_timer hb" "hb_timer (record_send hb) = hb_timer hb"
  "hb_send_after (record_recv hb) = hb_send_after hb" "hb_send_after (record_send hb) = hb_send_after hb"
  "hb_recv_timeout (record_recv hb) = hb_recv_timeout hb" "hb_recv_timeout (record_send hb) = hb_recv_timeout hb"
  "hb_last_send (record_recv hb) = hb_last_send hb" "hb_last_send (record_send hb) = hb_last_send hb"
  by (simp_all add: record_recv_def record_send_def)

text \<open>Configuration of a heartbeat that no event changes, and what an event does to the flags.\<close>

lemma heartbeat_step_config:
  "hb_timer (snd (heartbeat_step e hb)) = hb_timer hb"
  "hb_send_after (snd (heartbeat_step e hb)) = hb_send_after hb"
  "hb_recv_timeout (snd (heartbeat_step e hb)) = hb_recv_timeout hb"
  by (induction e hb rule: heartbeat_step.induct) (auto simp: tick_def Let_def split: option.split)

lemma heartbeat_run_config:
  "hb_timer (heartbeat_after es hb) = hb_timer hb"
  "hb_send_after (heartbeat_after es hb) = hb_send_after hb"
  "hb_recv_timeout (heartbeat_after es hb) = hb_recv_timeout hb"
  by (induction es arbitrary: hb) (simp_all add: split_beta Let_def heartbeat_step_config)

lemma timer_new [simp]:
  "hb_timer (new_heartbeat now sa (Some to)) \<noteq> None"
  "hb_timer (new_heartbeat now (Some d) to') \<noteq> None"
  "hb_recv_timeout (new_heartbeat now sa to') = to'"
  "hb_send_after (new_heartbeat now sa to') = sa"
  by (auto simp: new_heartbeat_def Let_def split: option.split)

text \<open>No receipt is forgotten: it is in the flag or no later than the last receipt folded in.\<close>

lemma recv_remembered:
  assumes "sorted (map fst es)" "(t, FrameReceived) \<in> set es"
  shows "hb_recv_since_tick (heartbeat_after es hb) \<or> t \<le> hb_last_recv (heartbeat_after es hb)"
  using assms
proof (induction es rule: rev_induct)
  case (snoc e es)
  obtain t' k where e: "e = (t', k)" by (cases e)
  let ?h = "heartbeat_after es hb"
  have run: "heartbeat_after (es @ [(t', k)]) hb = snd (heartbeat_step (t', k) ?h)"
    by (simp add: heartbeat_run_append split_beta Let_def)
  have old: "(hb_recv_since_tick ?h \<or> t \<le> hb_last_recv ?h) \<and> t \<le> t'" if "(t, FrameReceived) \<in> set es"
    using snoc that by (auto simp: sorted_append e)
  show ?case
    using old snoc.prems(2) unfolding e run
    by (cases k) (auto simp: tick_def Let_def split: option.split if_splits)
qed simp

text \<open>After a tick with nothing received since, the last receipt folded in is no later than that tick.\<close>

lemma silent_run_recv:
  assumes "\<forall>e \<in> set es. snd e \<noteq> FrameReceived" "\<not> hb_recv_since_tick hb"
  shows "\<not> hb_recv_since_tick (heartbeat_after es hb) \<and> hb_last_recv (heartbeat_after es hb) = hb_last_recv hb"
  using assms
proof (induction es arbitrary: hb)
  case (Cons e es)
  obtain t k where e: "e = (t, k)" by (cases e)
  have "\<not> hb_recv_since_tick (snd (heartbeat_step e hb)) \<and> hb_last_recv (snd (heartbeat_step e hb)) = hb_last_recv hb"
    using Cons.prems by (cases k) (auto simp: e tick_def Let_def split: option.split)
  with Cons.IH [of "snd (heartbeat_step e hb)"] Cons.prems(1) show ?case by (simp add: split_beta Let_def)
qed simp

lemma silent_run_send:
  assumes "\<forall>e \<in> set es. snd e \<noteq> FrameSent" "\<forall>a \<in> set (fst (heartbeat_run es hb)). snd a \<noteq> SendEmpty"
    and "\<not> hb_send_since_tick hb"
  shows "\<not> hb_send_since_tick (heartbeat_after es hb) \<and> hb_last_send (heartbeat_after es hb) = hb_last_send hb"
  using assms
proof (induction es arbitrary: hb)
  case (Cons e es)
  obtain t k where e: "e = (t, k)" by (cases e)
  have "\<not> hb_send_since_tick (snd (heartbeat_step e hb)) \<and> hb_last_send (snd (heartbeat_step e hb)) = hb_last_send hb"
    using Cons.prems by (cases k) (auto simp: e tick_def Let_def split_beta split: option.splits if_splits)
  with Cons.IH [of "snd (heartbeat_step e hb)"] Cons.prems(1,2) show ?case by (simp add: split_beta Let_def)
qed simp

lemma tick_folded:
  assumes "hb_timer hb \<noteq> None" "hb_last_recv hb \<le> f" "hb_last_send hb \<le> f"
  shows "\<not> hb_recv_since_tick (snd (heartbeat_step (f, TimerFired) hb)) \<and>
    hb_last_recv (snd (heartbeat_step (f, TimerFired) hb)) \<le> f \<and>
    hb_last_send (snd (heartbeat_step (f, TimerFired) hb)) \<le> f"
  using assms by (auto simp: tick_def Let_def split: if_splits)

lemma last_before:
  assumes "sorted (map fst es)" "\<forall>e \<in> set es. fst e \<le> f" "hb_last_recv hb \<le> f" "hb_last_send hb \<le> f"
  shows "hb_last_recv (heartbeat_after es hb) \<le> f \<and> hb_last_send (heartbeat_after es hb) \<le> f"
  using assms
proof (induction es arbitrary: hb)
  case (Cons e es)
  obtain t k where e: "e = (t, k)" by (cases e)
  have "hb_last_recv (snd (heartbeat_step e hb)) \<le> f \<and> hb_last_send (snd (heartbeat_step e hb)) \<le> f"
    using Cons.prems by (cases k) (auto simp: e tick_def Let_def split: option.split)
  with Cons.IH [of "snd (heartbeat_step e hb)"] Cons.prems(1,2) show ?case by (simp add: split_beta Let_def)
qed simp

lemma heartbeat_after_split:
  "heartbeat_after (es @ e # fs) hb = heartbeat_after fs (snd (heartbeat_step e (heartbeat_after es hb)))"
  by (simp add: heartbeat_run_append split_beta Let_def)

subsection \<open>Properties\<close>



text \<open>
  C28: no false alarm. When a tick declares the peer timed out, every frame received so far arrived
  at least the idle timeout before that tick.
\<close>

theorem heartbeat_no_false_timeout:
  assumes "sorted (map fst es @ [now])" "0 < to"
    and "tick now (heartbeat_after es (new_heartbeat t0 sa (Some to))) = Some (PeerTimedOut, hb)"
    and "(t, FrameReceived) \<in> set es"
  shows "t + to \<le> now"
proof -
  let ?h = "heartbeat_after es (new_heartbeat t0 sa (Some to))"
  have "to \<le> now - hb_last_recv (fold_activity now ?h)"
    using assms(3) by (auto simp: tick_def Let_def due_action_def heartbeat_run_config split: option.splits if_splits)
  with assms(2) have "\<not> hb_recv_since_tick ?h" "hb_last_recv ?h + to \<le> now"
    by (auto split: if_splits)
  with recv_remembered [OF _ assms(4)] assms(1) show ?thesis
    by (fastforce simp: sorted_append)
qed

theorem heartbeat_no_false_timeout_witness:
  "\<exists>hb. tick 130 (heartbeat_after [(20, FrameReceived), (25, TimerFired)] (new_heartbeat 0 None (Some 100))) =
      Some (PeerTimedOut, hb) \<and> (20 + 100 :: nat) \<le> 130"
proof -
  obtain hb where "tick 130 (heartbeat_after [(20, FrameReceived), (25, TimerFired)] (new_heartbeat 0 None (Some 100))) =
      Some (PeerTimedOut, hb)"
    by (simp add: new_heartbeat_def tick_def fold_activity_def due_action_def record_recv_def Let_def)
  with heartbeat_no_false_timeout [OF _ _ this, of 20] show ?thesis by simp
qed

text \<open>
  silence is detected. When nothing is received after a tick, every tick that comes at least
  the idle timeout later declares the peer timed out.
\<close>

theorem heartbeat_detects_silence:
  assumes "sorted (t0 # map fst es @ [f])" "\<forall>e \<in> set es'. snd e \<noteq> FrameReceived" "f + to \<le> now"
  shows "\<exists>hb. tick now (heartbeat_after (es @ (f, TimerFired) # es') (new_heartbeat t0 sa (Some to))) = Some (PeerTimedOut, hb)"
proof -
  let ?n = "new_heartbeat t0 sa (Some to)"
  let ?g = "heartbeat_after (es @ (f, TimerFired) # es') ?n"
  have n: "hb_last_recv ?n = t0" "hb_last_send ?n = t0" by (simp_all add: new_heartbeat_def Let_def)
  have "hb_last_recv (heartbeat_after es ?n) \<le> f \<and> hb_last_send (heartbeat_after es ?n) \<le> f"
    using assms(1) n by (intro last_before) (auto simp: sorted_append)
  then have "\<not> hb_recv_since_tick (snd (heartbeat_step (f, TimerFired) (heartbeat_after es ?n))) \<and>
      hb_last_recv (snd (heartbeat_step (f, TimerFired) (heartbeat_after es ?n))) \<le> f"
    using tick_folded [of "heartbeat_after es ?n" f] by (simp add: heartbeat_run_config)
  with silent_run_recv [OF assms(2)] have "\<not> hb_recv_since_tick ?g" "hb_last_recv ?g \<le> f"
    unfolding heartbeat_after_split by auto
  moreover have "hb_timer ?g \<noteq> None" "hb_recv_timeout ?g = Some to" by (simp_all only: heartbeat_run_config timer_new not_False_eq_True)
  ultimately show ?thesis
    using assms(3) by (auto simp: tick_def Let_def due_action_def)
qed

theorem heartbeat_detects_silence_witness:
  "\<exists>hb. tick 130 (heartbeat_after ([(20, FrameReceived)] @ (25, TimerFired) # [(40, FrameSent), (50, TimerFired)])
    (new_heartbeat 0 None (Some 100))) = Some (PeerTimedOut, hb)"
  by (rule heartbeat_detects_silence) auto

text \<open>
  keepalives do not meet the peer's idle timeout. A peer that advertised an idle timeout of
  2000 milliseconds obliges this side, whose own timeout is 1800 milliseconds, to send every 1000
  milliseconds. With a tick every 900 milliseconds, as the timer is set, and no other traffic sent,
  the only keepalives within the first 4500 milliseconds are at 1800 and at 4500 milliseconds: the
  peer sees 2700 milliseconds of silence.
\<close>

theorem keepalive_exceeds_peer_timeout:
  "let n = reconcile_open (default_open\<lparr>op_idle_time_out := Some 1800\<rparr>) (default_open\<lparr>op_idle_time_out := Some 2000\<rparr>);
       hb = new_heartbeat 0 (ng_send_interval n) (ng_recv_timeout n);
       es = concat (map (\<lambda>k. [(from_millis (900 * k), FrameReceived), (from_millis (900 * k), TimerFired)]) [1, 2, 3, 4, 5])
   in ng_send_interval n = Some (from_millis 1000) \<and> hb_timer hb = Some (from_millis 900) \<and>
      map fst (filter (\<lambda>a. snd a = SendEmpty) (fst (heartbeat_run es hb))) = [from_millis 1800, from_millis 4500]"
  by (simp add: reconcile_open_def default_open_def option_filter_def new_heartbeat_def from_millis_def tick_def
      fold_activity_def due_action_def record_recv_def record_send_def)

end
