(* ===== verification/Flow_Control.thy ===== *)
theory Flow_Control
  imports Amqp_Prelude
begin

section \<open>Credit-based flow control\<close>

text \<open>
  Link credit (\<open>link/credit.rs\<close>) and the session transfer window (\<open>session/window.rs\<close>) follow one
  scheme: the receiver counts what it has received and how much more it accepts, it advertises both
  in a flow, and the sender derives its own allowance as \<open>count + credit - sent\<close> in 32-bit serial
  arithmetic. The locale states the laws of one such pair of endpoints; the system below runs them
  over two ordered channels.
\<close>

record ('s, 'r) flow_system =
  fs_sender :: 's
  fs_receiver :: 'r
  fs_in_flight :: nat
  fs_flows :: "(u32 \<times> u32) list"

text \<open>
  Steps of the system: the sender sends while it may, the receiver takes the oldest transfer in
  flight, raises its credit, or advertises its state, and the sender applies the oldest flow.
\<close>

inductive flow_step ::
    "('s \<Rightarrow> bool) \<Rightarrow> ('s \<Rightarrow> 's) \<Rightarrow> (u32 \<times> u32 \<Rightarrow> 's \<Rightarrow> 's) \<Rightarrow> ('r \<Rightarrow> 'r) \<Rightarrow> ('g \<Rightarrow> 'r \<Rightarrow> 'r) \<Rightarrow> ('r \<Rightarrow> u32 \<times> u32) \<Rightarrow>
     ('s, 'r) flow_system \<Rightarrow> ('s, 'r) flow_system \<Rightarrow> bool"
  for can_send sent apply_flow received grant advertise where
  send: "can_send (fs_sender S) \<Longrightarrow>
    flow_step can_send sent apply_flow received grant advertise S
      (S\<lparr>fs_sender := sent (fs_sender S), fs_in_flight := Suc (fs_in_flight S)\<rparr>)"
| receive: "fs_in_flight S = Suc n \<Longrightarrow>
    flow_step can_send sent apply_flow received grant advertise S
      (S\<lparr>fs_receiver := received (fs_receiver S), fs_in_flight := n\<rparr>)"
| grant: "flow_step can_send sent apply_flow received grant advertise S
      (S\<lparr>fs_receiver := grant g (fs_receiver S)\<rparr>)"
| advertise: "flow_step can_send sent apply_flow received grant advertise S
      (S\<lparr>fs_flows := fs_flows S @ [advertise (fs_receiver S)]\<rparr>)"
| apply_flow: "fs_flows S = f # fs \<Longrightarrow>
    flow_step can_send sent apply_flow received grant advertise S
      (S\<lparr>fs_sender := apply_flow f (fs_sender S), fs_flows := fs\<rparr>)"

definition flow_start :: "'s \<Rightarrow> 'r \<Rightarrow> ('s, 'r) flow_system" where
  "flow_start s r = \<lparr>fs_sender = s, fs_receiver = r, fs_in_flight = 0, fs_flows = []\<rparr>"

locale flow_control =
  fixes can_send :: "'s \<Rightarrow> bool"
    and sent :: "'s \<Rightarrow> 's"
    and apply_flow :: "u32 \<times> u32 \<Rightarrow> 's \<Rightarrow> 's"
    and received :: "'r \<Rightarrow> 'r"
    and grant :: "'g \<Rightarrow> 'r \<Rightarrow> 'r"
    and advertise :: "'r \<Rightarrow> u32 \<times> u32"
    and snd_count :: "'s \<Rightarrow> u32"
    and snd_credit :: "'s \<Rightarrow> u32"
    and rcv_count :: "'r \<Rightarrow> u32"
    and rcv_credit :: "'r \<Rightarrow> u32"
  assumes can_send_iff: "can_send s \<longleftrightarrow> 0 < snd_credit s"
    and sent_laws: "snd_count (sent s) = snd_count s + 1" "unat (snd_credit (sent s)) = unat (snd_credit s) - 1"
    and apply_laws: "snd_count (apply_flow f s) = snd_count s"
      "snd_credit (apply_flow f s) = fst f + snd f - snd_count s"
    and received_laws: "rcv_count (received r) = rcv_count r + 1" "unat (rcv_credit (received r)) = unat (rcv_credit r) - 1"
    and grant_laws: "rcv_count (grant g r) = rcv_count r" "unat (rcv_credit r) \<le> unat (rcv_credit (grant g r))"
    and advertise_law: "advertise r = (rcv_count r, rcv_credit r)"
begin

text \<open>
  The invariant over unbounded counts: \<open>d\<close> transfers received, and for each flow in flight the
  count \<open>ds ! i\<close> at which it was sent. The limits that the sender, the flows and the receiver hold
  never decrease along the way from the sender to the receiver.
\<close>

definition inv_at :: "nat \<Rightarrow> nat list \<Rightarrow> ('s, 'r) flow_system \<Rightarrow> bool" where
  "inv_at d ds S \<longleftrightarrow> rcv_count (fs_receiver S) = of_nat d \<and> snd_count (fs_sender S) = of_nat (d + fs_in_flight S) \<and>
    map fst (fs_flows S) = map of_nat ds \<and> (\<forall>x \<in> set ds. x \<le> d) \<and>
    sorted ((d + fs_in_flight S + unat (snd_credit (fs_sender S)))
      # map (\<lambda>(x, f). x + unat (snd f)) (zip ds (fs_flows S)) @ [d + unat (rcv_credit (fs_receiver S))])"

lemma inv_lengths: "inv_at d ds S \<Longrightarrow> length ds = length (fs_flows S)"
  unfolding inv_at_def by (metis length_map)

lemma inv_no_overrun:
  assumes "inv_at d ds S"
  shows "fs_in_flight S + unat (snd_credit (fs_sender S)) \<le> unat (rcv_credit (fs_receiver S))"
  using assms by (auto simp: inv_at_def)

lemma flow_credit_exact:
  assumes "x \<le> d" "d + n + c \<le> x + unat (k :: u32)"
  shows "unat (of_nat x + k - of_nat (d + n) :: u32) = x + unat k - (d + n)"
proof -
  have "of_nat x + k - of_nat (d + n) = (of_nat (x + unat k - (d + n)) :: u32)"
    using assms by (simp add: of_nat_diff)
  moreover have "x + unat k - (d + n) < 2 ^ LENGTH(32)"
    using assms unat_less_2p [of k] by simp
  ultimately show ?thesis by (simp only: unat_of_nat_fits)
qed

lemma step_inv:
  assumes "flow_step can_send sent apply_flow received grant advertise S S'" "inv_at d ds S"
  shows "\<exists>d' ds'. inv_at d' ds' S'"
  using assms(1)
proof cases
  case send
  then have "0 < unat (snd_credit (fs_sender S))" by (simp add: can_send_iff word_gt_0 unat_gt_0)
  with assms(2) send have "inv_at d ds S'" by (auto simp: inv_at_def sent_laws)
  then show ?thesis by blast
next
  case (receive n)
  with inv_no_overrun [OF assms(2)] have "0 < unat (rcv_credit (fs_receiver S))" by simp
  with assms(2) receive have "inv_at (Suc d) ds S'" by (auto simp: inv_at_def received_laws sorted_append)
  then show ?thesis by blast
next
  case (grant g)
  then have "inv_at d ds S'"
    using assms(2) grant_laws(2) [of "fs_receiver S" g]
    by (auto simp: inv_at_def grant_laws(1) sorted_append intro: le_trans)
  then show ?thesis by blast
next
  case advertise
  then have "inv_at d (ds @ [d]) S'"
    using assms(2) inv_lengths [OF assms(2)] by (auto simp: inv_at_def advertise_law sorted_append)
  then show ?thesis by blast
next
  case (apply_flow f fs)
  then obtain x xs where ds: "ds = x # xs" using inv_lengths [OF assms(2)] by (cases ds) auto
  have f: "fst f = of_nat x" "x \<le> d" and le: "d + fs_in_flight S + unat (snd_credit (fs_sender S)) \<le> x + unat (snd f)"
    using assms(2) apply_flow by (auto simp: inv_at_def ds)
  have "unat (of_nat x + snd f - of_nat (d + fs_in_flight S)) = x + unat (snd f) - (d + fs_in_flight S)"
    by (rule flow_credit_exact [OF f(2) le])
  then have "inv_at d xs S'"
    using assms(2) apply_flow le f by (auto simp: inv_at_def ds apply_laws)
  then show ?thesis by blast
qed

lemma reachable_inv:
  assumes "(flow_step can_send sent apply_flow received grant advertise)\<^sup>*\<^sup>* (flow_start s r) S"
    and "snd_count s = rcv_count r" "snd_credit s \<le> rcv_credit r"
  shows "\<exists>d ds. inv_at d ds S"
  using assms(1)
proof (induction rule: rtranclp_induct)
  case base
  have "inv_at (unat (rcv_count r)) [] (flow_start s r)"
    using assms(2,3) by (simp add: inv_at_def flow_start_def word_le_nat_alt)
  then show ?case by blast
next
  case (step S S')
  then show ?case using step_inv by blast
qed

lemma no_overrun:
  assumes "(flow_step can_send sent apply_flow received grant advertise)\<^sup>*\<^sup>* (flow_start s r) S"
    and "snd_count s = rcv_count r" "snd_credit s \<le> rcv_credit r"
  shows "fs_in_flight S + unat (snd_credit (fs_sender S)) \<le> unat (rcv_credit (fs_receiver S))"
  using reachable_inv [OF assms] inv_no_overrun by blast

end

end
