(* ===== verification/Session_Window.thy ===== *)
theory Session_Window
  imports Types_Performatives Flow_Control
begin

section \<open>Session flow-control windows (\<open>ramqp-core/src/session/window.rs\<close>)\<close>

record session_config =
  sc_incoming_window :: u32
  sc_outgoing_window :: u32
  sc_handle_max :: u32

record session_windows =
  sw_next_outgoing_id :: u32
  sw_outgoing_window :: u32
  sw_remote_incoming_window :: u32
  sw_incoming_window :: u32
  sw_initial_incoming_window :: u32
  sw_next_incoming_id :: u32
  sw_remote_outgoing_window :: u32
  sw_initialized :: bool

definition default_flow :: flow where
  "default_flow = \<lparr>fl_next_incoming_id = None, fl_incoming_window = 0, fl_next_outgoing_id = 0, fl_outgoing_window = 0,
    fl_handle = None, fl_delivery_count = None, fl_link_credit = None, fl_available = None, fl_drain = False,
    fl_echo = False, fl_properties = None\<rparr>"

definition new_windows :: "session_config \<Rightarrow> session_windows" where
  "new_windows config = \<lparr>sw_next_outgoing_id = 0, sw_outgoing_window = sc_outgoing_window config,
    sw_remote_incoming_window = 0, sw_incoming_window = sc_incoming_window config,
    sw_initial_incoming_window = sc_incoming_window config, sw_next_incoming_id = 0,
    sw_remote_outgoing_window = 0, sw_initialized = False\<rparr>"

definition windows_on_peer_begin :: "begin_perf \<Rightarrow> session_windows \<Rightarrow> session_windows" where
  "windows_on_peer_begin b w = w\<lparr>sw_next_incoming_id := bg_next_outgoing_id b,
    sw_remote_incoming_window := bg_incoming_window b, sw_remote_outgoing_window := bg_outgoing_window b,
    sw_initialized := True\<rparr>"

definition windows_can_send :: "session_windows \<Rightarrow> bool" where
  "windows_can_send w \<longleftrightarrow> sw_remote_incoming_window w > 0"

definition record_outgoing :: "session_windows \<Rightarrow> session_windows" where
  "record_outgoing w = w\<lparr>sw_next_outgoing_id := sw_next_outgoing_id w + 1,
    sw_remote_incoming_window := saturating_sub (sw_remote_incoming_window w) 1\<rparr>"

definition record_incoming :: "session_windows \<Rightarrow> bool \<times> session_windows" where
  "record_incoming w =
    (let w = w\<lparr>sw_next_incoming_id := sw_next_incoming_id w + 1,
               sw_incoming_window := saturating_sub (sw_incoming_window w) 1\<rparr>
     in (sw_incoming_window w = 0, w))"

definition replenish_incoming :: "session_windows \<Rightarrow> session_windows" where
  "replenish_incoming w = w\<lparr>sw_incoming_window := max (sw_initial_incoming_window w) 1\<rparr>"

definition on_peer_flow :: "flow \<Rightarrow> session_windows \<Rightarrow> session_windows" where
  "on_peer_flow f w =
    (let w = (case fl_next_incoming_id f of
           Some ni \<Rightarrow> w\<lparr>sw_remote_incoming_window := ni + fl_incoming_window f - sw_next_outgoing_id w\<rparr>
         | None \<Rightarrow> w\<lparr>sw_remote_incoming_window := fl_incoming_window f - sw_next_outgoing_id w\<rparr>)
     in w\<lparr>sw_next_incoming_id := max (sw_next_incoming_id w) (fl_next_outgoing_id f),
          sw_remote_outgoing_window := fl_outgoing_window f\<rparr>)"

definition build_flow :: "session_windows \<Rightarrow> flow" where
  "build_flow w = default_flow\<lparr>
    fl_next_incoming_id := (if sw_initialized w then Some (sw_next_incoming_id w) else None),
    fl_incoming_window := sw_incoming_window w, fl_next_outgoing_id := sw_next_outgoing_id w,
    fl_outgoing_window := sw_outgoing_window w\<rparr>"

subsection \<open>The window as credit-based flow control\<close>

text \<open>
  One direction of a session: the flow that a receiving session builds, seen by the sending one.
  The session replenishes its window only when a transfer has exhausted it.
\<close>

definition window_flow :: "u32 \<times> u32 \<Rightarrow> flow" where
  "window_flow f = default_flow\<lparr>fl_next_incoming_id := Some (fst f), fl_incoming_window := snd f\<rparr>"

definition replenish_exhausted :: "unit \<Rightarrow> session_windows \<Rightarrow> session_windows" where
  "replenish_exhausted _ w = (if sw_incoming_window w = 0 then replenish_incoming w else w)"

definition advertised :: "session_windows \<Rightarrow> u32 \<times> u32" where
  "advertised w = (sw_next_incoming_id w, fl_incoming_window (build_flow w))"

interpretation window: flow_control windows_can_send record_outgoing "\<lambda>f. on_peer_flow (window_flow f)"
  "\<lambda>w. snd (record_incoming w)" replenish_exhausted advertised
  sw_next_outgoing_id sw_remote_incoming_window sw_next_incoming_id sw_incoming_window
  by unfold_locales (auto simp: windows_can_send_def record_outgoing_def on_peer_flow_def window_flow_def
      record_incoming_def replenish_exhausted_def replenish_incoming_def advertised_def build_flow_def Let_def)

lemma build_flow_advertised:
  "sw_initialized w \<Longrightarrow> on_peer_flow (build_flow w) v =
    (on_peer_flow (window_flow (advertised w)) v)\<lparr>
      sw_next_incoming_id := max (sw_next_incoming_id v) (sw_next_outgoing_id w),
      sw_remote_outgoing_window := sw_outgoing_window w\<rparr>"
  by (simp add: on_peer_flow_def build_flow_def window_flow_def advertised_def default_flow_def)

subsection \<open>Properties\<close>

text \<open>
  C4: the session window is never overrun. Starting from an exchange of begins, however two
  sessions interleave transfers, window flows and their arrival, and although transfer identifiers
  wrap, the transfers in flight plus what the sender believes it may still send never exceed the
  receiver's incoming window.
\<close>

theorem session_window_never_overrun:
  assumes "bg_incoming_window b = sc_incoming_window rconfig"
    and "bg_next_outgoing_id b' = next_id"
    and "(flow_step windows_can_send record_outgoing (\<lambda>f. on_peer_flow (window_flow f)) (\<lambda>w. snd (record_incoming w))
        replenish_exhausted advertised)\<^sup>*\<^sup>*
      (flow_start (windows_on_peer_begin b ((new_windows sconfig)\<lparr>sw_next_outgoing_id := next_id\<rparr>))
                  (windows_on_peer_begin b' (new_windows rconfig))) S"
  shows "fs_in_flight S + unat (sw_remote_incoming_window (fs_sender S)) \<le> unat (sw_incoming_window (fs_receiver S))"
  using assms(3) by (rule window.no_overrun) (simp_all add: windows_on_peer_begin_def new_windows_def assms(1,2))

theorem session_window_never_overrun_witness:
  "let cfg = \<lparr>sc_incoming_window = 5, sc_outgoing_window = 5, sc_handle_max = 1\<rparr>;
       b = \<lparr>bg_remote_channel = None, bg_next_outgoing_id = 9, bg_incoming_window = 5, bg_outgoing_window = 5, bg_handle_max = 1,
         bg_offered_capabilities = [], bg_desired_capabilities = [], bg_properties = None\<rparr>;
       s = windows_on_peer_begin b ((new_windows cfg)\<lparr>sw_next_outgoing_id := 9\<rparr>);
       r = windows_on_peer_begin b (new_windows cfg)
   in (flow_step windows_can_send record_outgoing (\<lambda>f. on_peer_flow (window_flow f)) (\<lambda>w. snd (record_incoming w))
        replenish_exhausted advertised)\<^sup>*\<^sup>* (flow_start s r)
        \<lparr>fs_sender = record_outgoing s, fs_receiver = r, fs_in_flight = 1, fs_flows = []\<rparr> \<and>
      1 + unat (sw_remote_incoming_window (record_outgoing s)) \<le> unat (sw_incoming_window r)"
proof -
  let ?step = "flow_step windows_can_send record_outgoing (\<lambda>f. on_peer_flow (window_flow f)) (\<lambda>w. snd (record_incoming w))
    replenish_exhausted advertised"
  let ?cfg = "\<lparr>sc_incoming_window = 5, sc_outgoing_window = 5, sc_handle_max = 1\<rparr>"
  let ?b = "\<lparr>bg_remote_channel = None, bg_next_outgoing_id = 9, bg_incoming_window = 5, bg_outgoing_window = 5, bg_handle_max = 1,
    bg_offered_capabilities = [], bg_desired_capabilities = [], bg_properties = None\<rparr>"
  let ?s = "windows_on_peer_begin ?b ((new_windows ?cfg)\<lparr>sw_next_outgoing_id := 9\<rparr>)"
  let ?r = "windows_on_peer_begin ?b (new_windows ?cfg)"
  have "windows_can_send ?s" by (simp add: windows_can_send_def windows_on_peer_begin_def)
  then have "?step (flow_start ?s ?r) \<lparr>fs_sender = record_outgoing ?s, fs_receiver = ?r, fs_in_flight = 1, fs_flows = []\<rparr>"
    using flow_step.send [of windows_can_send "flow_start ?s ?r"] by (simp add: flow_start_def)
  then have run: "?step\<^sup>*\<^sup>* (flow_start ?s ?r) \<lparr>fs_sender = record_outgoing ?s, fs_receiver = ?r, fs_in_flight = 1, fs_flows = []\<rparr>"
    by (rule r_into_rtranclp)
  with session_window_never_overrun [OF _ _ run] show ?thesis by (simp add: Let_def)
qed

end
