(* ===== verification/Ordered_Map.thy ===== *)
theory Ordered_Map
  imports Amqp_Prelude
begin

section \<open>Ordered maps\<close>

text \<open>
  \<open>BTreeMap<K, V>\<close> as the list of its entries in ascending key order. The locale \<open>sorted_map\<close> is
  the interface the components rely on; the association lists implement it.
\<close>

type_synonym ('k, 'v) btree = "('k \<times> 'v) list"

datatype rust_panic =
    RangeStartAfterEnd
  | ExpectFailed

definition bt_ok :: "('k::linorder, 'v) btree \<Rightarrow> bool" where
  "bt_ok m \<longleftrightarrow> sorted_wrt (<) (map fst m)"

fun bt_insert :: "'k::linorder \<Rightarrow> 'v \<Rightarrow> ('k, 'v) btree \<Rightarrow> ('k, 'v) btree" where
  "bt_insert k v [] = [(k, v)]"
| "bt_insert k v ((k', v') # m) =
    (if k < k' then (k, v) # (k', v') # m
     else if k = k' then (k, v) # m
     else (k', v') # bt_insert k v m)"

definition bt_remove :: "'k \<Rightarrow> ('k, 'v) btree \<Rightarrow> ('k, 'v) btree" where
  "bt_remove k m = filter (\<lambda>e. fst e \<noteq> k) m"

text \<open>\<open>range(lo..=hi)\<close> panics when the start is after the end.\<close>

definition bt_range :: "'k::linorder \<Rightarrow> 'k \<Rightarrow> ('k, 'v) btree \<Rightarrow> rust_panic + ('k \<times> 'v) list" where
  "bt_range lo hi m = (if hi < lo then Inl RangeStartAfterEnd else Inr (filter (\<lambda>e. lo \<le> fst e \<and> fst e \<le> hi) m))"

locale sorted_map =
  fixes empty :: "'m"
    and get :: "'m \<Rightarrow> 'k::linorder \<Rightarrow> 'v option"
    and insert :: "'k \<Rightarrow> 'v \<Rightarrow> 'm \<Rightarrow> 'm"
    and remove :: "'k \<Rightarrow> 'm \<Rightarrow> 'm"
    and entries :: "'m \<Rightarrow> ('k \<times> 'v) list"
    and invar :: "'m \<Rightarrow> bool"
  assumes get_empty: "get empty = Map.empty"
    and get_insert: "invar m \<Longrightarrow> get (insert k v m) = (get m)(k \<mapsto> v)"
    and get_remove: "invar m \<Longrightarrow> get (remove k m) = (get m)(k := None)"
    and entries_get: "invar m \<Longrightarrow> (k, v) \<in> set (entries m) \<longleftrightarrow> get m k = Some v"
    and entries_sorted: "invar m \<Longrightarrow> sorted_wrt (<) (map fst (entries m))"
    and invar_empty: "invar empty"
    and invar_insert: "invar m \<Longrightarrow> invar (insert k v m)"
    and invar_remove: "invar m \<Longrightarrow> invar (remove k m)"
begin

lemma dom_entries: "invar m \<Longrightarrow> dom (get m) = fst ` set (entries m)"
  using entries_get by (force simp: dom_def image_iff)

lemma finite_dom: "invar m \<Longrightarrow> finite (dom (get m))"
  by (simp add: dom_entries)

lemma entries_keys: "invar m \<Longrightarrow> entries m = map (\<lambda>k. (k, the (get m k))) (map fst (entries m))"
  by (rule sym) (auto simp: comp_def entries_get intro!: map_idI)

text \<open>Iteration in key order is determined by the lookups.\<close>

lemma entries_unique:
  assumes "invar m" "invar m'" "get m = get m'"
  shows "entries m = entries m'"
proof -
  have "map fst (entries m) = map fst (entries m')"
  proof (rule strict_sorted_equal)
    show "set (map fst (entries m)) = set (map fst (entries m'))"
      using dom_entries [OF assms(1)] dom_entries [OF assms(2)] assms(3) by simp
  qed (use assms entries_sorted in auto)
  then show ?thesis
    using entries_keys [OF assms(1)] entries_keys [OF assms(2)] assms(3) by metis
qed

end

subsection \<open>Association lists implement the interface\<close>

lemma bt_ok_Cons: "bt_ok ((k, v) # m) \<longleftrightarrow> (\<forall>e \<in> set m. k < fst e) \<and> bt_ok m"
  by (simp add: bt_ok_def)

lemma bt_ok_Nil [simp]: "bt_ok []"
  by (simp add: bt_ok_def)

lemma bt_ok_distinct: "bt_ok m \<Longrightarrow> distinct (map fst m)"
  by (simp add: bt_ok_def strict_sorted_iff)

lemma set_bt_insert: "bt_ok m \<Longrightarrow> set (bt_insert k v m) = insert (k, v) {e \<in> set m. fst e \<noteq> k}"
  by (induction k v m rule: bt_insert.induct) (auto simp: bt_ok_Cons)

lemma bt_ok_insert [simp]: "bt_ok m \<Longrightarrow> bt_ok (bt_insert k v m)"
  by (induction k v m rule: bt_insert.induct) (auto simp: bt_ok_Cons set_bt_insert)

lemma map_of_bt_insert: "bt_ok m \<Longrightarrow> map_of (bt_insert k v m) = (map_of m)(k \<mapsto> v)"
  by (induction k v m rule: bt_insert.induct) (auto simp: bt_ok_Cons fun_eq_iff)

lemma map_of_bt_remove: "map_of (bt_remove k m) = (map_of m)(k := None)"
  by (induction m) (auto simp: bt_remove_def fun_eq_iff)

lemma bt_ok_filter [simp]: "bt_ok m \<Longrightarrow> bt_ok (filter p m)"
  by (induction m) (auto simp: bt_ok_def)

lemma bt_ok_remove [simp]: "bt_ok m \<Longrightarrow> bt_ok (bt_remove k m)"
  by (simp add: bt_remove_def)

lemma bt_ok_map_values: "bt_ok m \<Longrightarrow> (\<And>e. fst (f e) = fst e) \<Longrightarrow> bt_ok (map f m)"
  by (simp add: bt_ok_def comp_def)

interpretation btree: sorted_map "[]" map_of bt_insert bt_remove "\<lambda>m. m" bt_ok
  by unfold_locales (auto simp: map_of_bt_insert map_of_bt_remove bt_ok_distinct, simp add: bt_ok_def)

lemma length_bt_insert: "bt_ok m \<Longrightarrow> length (bt_insert k v m) = (if map_of m k = None then Suc (length m) else length m)"
proof (induction k v m rule: bt_insert.induct)
  case (2 k v k' v' m)
  then have "k < k' \<Longrightarrow> map_of m k = None"
    by (metis bt_ok_Cons fst_conv map_of_SomeD not_None_eq order_less_asym' order_less_trans)
  with 2 show ?case by (auto simp: bt_ok_Cons)
qed simp

lemma bt_range_Inr [simp]: "lo \<le> hi \<Longrightarrow> bt_range lo hi m = Inr (filter (\<lambda>e. lo \<le> fst e \<and> fst e \<le> hi) m)"
  by (auto simp: bt_range_def)

text \<open>An entry of an ordered map splits it, and removal and replacement act at the split.\<close>

lemma bt_split:
  assumes "bt_ok ms" "map_of ms k = Some v"
  obtains xs ys where "ms = xs @ (k, v) # ys" "bt_remove k ms = xs @ ys" "\<And>w. bt_insert k w ms = xs @ (k, w) # ys"
proof -
  obtain xs ys where ms: "ms = xs @ (k, v) # ys" using assms(2) by (meson map_of_SomeD split_list)
  have "sorted_wrt (<) (map fst xs @ k # map fst ys)" using assms(1) by (simp add: bt_ok_def ms)
  then have lt: "\<forall>e \<in> set xs. fst e < k" "\<forall>e \<in> set ys. k < fst e" by (auto simp: sorted_wrt_append)
  have "filter (\<lambda>e. fst e \<noteq> k) xs = xs" "filter (\<lambda>e. fst e \<noteq> k) ys = ys" using lt by (auto simp: filter_id_conv)
  then have "bt_remove k ms = xs @ ys" by (simp add: bt_remove_def ms)
  moreover have "bt_insert k w ms = xs @ (k, w) # ys" for w
    using lt(1) unfolding ms by (induction xs) auto
  ultimately show thesis using ms that by blast
qed

lemma bt_insert_last: "\<forall>e \<in> set ms. fst e < k \<Longrightarrow> bt_insert k v ms = ms @ [(k, v)]"
  by (induction ms) auto

lemma bt_insert_map: "bt_insert k (f v) (map (\<lambda>(i, m). (i, f m)) ms) = map (\<lambda>(i, m). (i, f m)) (bt_insert k v ms)"
  by (induction k v ms rule: bt_insert.induct) auto

lemma bt_remove_map: "bt_remove k (map (\<lambda>(i, m). (i, f m)) ms) = map (\<lambda>(i, m). (i, f m)) (bt_remove k ms)"
  by (induction ms) (auto simp: bt_remove_def)

end
