(* ===== verification/Link_State.thy ===== *)
theory Link_State
  imports Types_Performatives Flow_Control Ordered_Map
begin

section \<open>Link state (\<open>ramqp-core/src/link/\<close>)\<close>

text \<open>
  Credit, unsettled deliveries, resumption, delivery assembly and the per-link state of senders and
  receivers. A one-shot reply channel and an event channel are numbers that name them. The instant
  kept with a pending reply serves a latency metric only and is left out.
\<close>

type_synonym reply = nat
type_synonym events = nat

subsection \<open>Credit (\<open>link/credit.rs\<close>)\<close>

datatype credit_mode = Manual | Auto u32 u32

record link_credit =
  lc_delivery_count :: u32
  lc_link_credit :: u32
  lc_available :: u32
  lc_drain :: bool
  lc_mode :: credit_mode

definition new_credit :: "u32 \<Rightarrow> credit_mode \<Rightarrow> link_credit" where
  "new_credit initial_delivery_count mode = \<lparr>lc_delivery_count = initial_delivery_count, lc_link_credit = 0,
    lc_available = 0, lc_drain = False, lc_mode = mode\<rparr>"

definition credit_can_send :: "link_credit \<Rightarrow> bool" where
  "credit_can_send c \<longleftrightarrow> lc_link_credit c > 0"

definition record_sent :: "link_credit \<Rightarrow> link_credit" where
  "record_sent c = c\<lparr>lc_delivery_count := lc_delivery_count c + 1, lc_link_credit := saturating_sub (lc_link_credit c) 1\<rparr>"

definition apply_flow_as_sender :: "u32 option \<Rightarrow> u32 option \<Rightarrow> bool \<Rightarrow> link_credit \<Rightarrow> link_credit" where
  "apply_flow_as_sender flow_delivery_count flow_link_credit drain c =
    (let peer_dc = (case flow_delivery_count of None \<Rightarrow> lc_delivery_count c | Some dc \<Rightarrow> dc);
         c = (case flow_link_credit of
                None \<Rightarrow> c
              | Some lc \<Rightarrow> c\<lparr>lc_link_credit := peer_dc + lc - lc_delivery_count c\<rparr>)
     in c\<lparr>lc_drain := drain\<rparr>)"

definition credit_grant :: "u32 \<Rightarrow> link_credit \<Rightarrow> link_credit" where
  "credit_grant credit c = c\<lparr>lc_link_credit := saturating_add (lc_link_credit c) credit, lc_drain := False\<rparr>"

definition set_credit :: "u32 \<Rightarrow> link_credit \<Rightarrow> link_credit" where
  "set_credit credit c = c\<lparr>lc_link_credit := credit, lc_drain := False\<rparr>"

definition record_received :: "link_credit \<Rightarrow> link_credit" where
  "record_received c = c\<lparr>lc_delivery_count := lc_delivery_count c + 1, lc_link_credit := saturating_sub (lc_link_credit c) 1\<rparr>"

definition auto_refill :: "link_credit \<Rightarrow> u32 option" where
  "auto_refill c = (case lc_mode c of
      Auto initial refill_threshold \<Rightarrow>
        if lc_link_credit c \<le> refill_threshold then Some (saturating_sub initial (lc_link_credit c)) else None
    | Manual \<Rightarrow> None)"

subsection \<open>Unsettled deliveries (\<open>link/settlement.rs\<close>)\<close>

record unsettled_entry =
  ue_delivery_tag :: bytes
  ue_state :: "delivery_state option"
  ue_settled :: bool

type_synonym unsettled_map = "(u32, unsettled_entry) btree"

definition id_range :: "unsettled_map \<Rightarrow> (u32 \<times> u32) option" where
  "id_range m = (if m = [] then None else Some (fst (hd m), fst (last m)))"

definition unsettled_insert :: "u32 \<Rightarrow> bytes \<Rightarrow> delivery_state option \<Rightarrow> unsettled_map \<Rightarrow> unsettled_map" where
  "unsettled_insert delivery_id delivery_tag state m =
    bt_insert delivery_id \<lparr>ue_delivery_tag = delivery_tag, ue_state = state, ue_settled = False\<rparr> m"

definition unsettled_get :: "unsettled_map \<Rightarrow> u32 \<Rightarrow> unsettled_entry option" where
  "unsettled_get m = map_of m"

definition settle :: "u32 \<Rightarrow> unsettled_map \<Rightarrow> unsettled_entry option \<times> unsettled_map" where
  "settle delivery_id m = (map_of m delivery_id, bt_remove delivery_id m)"

text \<open>The affected identifiers in order, and the map afterwards; the range lookup may panic.\<close>

definition apply_disposition ::
    "u32 \<Rightarrow> u32 \<Rightarrow> delivery_state option \<Rightarrow> bool \<Rightarrow> unsettled_map \<Rightarrow> rust_panic + u32 list \<times> unsettled_map" where
  "apply_disposition first last_id state settled m =
    rbind (bt_range first last_id m) (\<lambda>entries.
      let ids = map fst entries in
      if settled then Inr (ids, fold bt_remove ids m)
      else Inr (ids, map (\<lambda>e. if first \<le> fst e \<and> fst e \<le> last_id
             then (fst e, (snd e)\<lparr>ue_state := (if state \<noteq> None then state else ue_state (snd e)), ue_settled := False\<rparr>)
             else e) m))"

definition snapshot :: "unsettled_map \<Rightarrow> unsettled" where
  "snapshot m = fold (\<lambda>e om. case ue_state (snd e) of
      None \<Rightarrow> om
    | Some state \<Rightarrow> om_push (ue_delivery_tag (snd e)) state om) m []"

subsection \<open>Resumption (\<open>link/resume.rs\<close>)\<close>

datatype resume_action = Resend | Resume | Settle delivery_state | Abort

definition sender_resume_action :: "bool \<Rightarrow> delivery_state option \<Rightarrow> resume_action" where
  "sender_resume_action local_settled remote = (case remote of
      Some state \<Rightarrow> if is_terminal state then Settle state else Resume
    | None \<Rightarrow> if local_settled then Abort else Resend)"

definition reconcile :: "unsettled_map \<Rightarrow> unsettled \<Rightarrow> (u32 \<times> resume_action) list" where
  "reconcile local remote =
    map (\<lambda>e. (fst e, sender_resume_action (ue_settled (snd e)) (om_get remote (ue_delivery_tag (snd e))))) local"

subsection \<open>Delivery assembly (\<open>link/delivery.rs\<close>)\<close>

record delivery =
  dl_delivery_id :: u32
  dl_delivery_tag :: bytes
  dl_settled :: bool
  dl_state :: "delivery_state option"
  dl_body :: bytes

definition new_delivery :: "u32 \<Rightarrow> bytes \<Rightarrow> bool \<Rightarrow> bytes \<Rightarrow> delivery" where
  "new_delivery delivery_id delivery_tag settled body = \<lparr>dl_delivery_id = delivery_id, dl_delivery_tag = delivery_tag,
    dl_settled = settled, dl_state = None, dl_body = body\<rparr>"

definition with_state :: "delivery_state option \<Rightarrow> delivery \<Rightarrow> delivery" where
  "with_state state d = d\<lparr>dl_state := state\<rparr>"

record partial_delivery =
  pd_delivery_id :: u32
  pd_delivery_tag :: bytes
  pd_settled :: bool
  pd_state :: "delivery_state option"
  pd_buf :: bytes

definition new_partial :: "u32 \<Rightarrow> bytes \<Rightarrow> bool \<Rightarrow> delivery_state option \<Rightarrow> bytes \<Rightarrow> partial_delivery" where
  "new_partial delivery_id delivery_tag settled state first = \<lparr>pd_delivery_id = delivery_id, pd_delivery_tag = delivery_tag,
    pd_settled = settled, pd_state = state, pd_buf = first\<rparr>"

definition partial_append :: "bytes \<Rightarrow> partial_delivery \<Rightarrow> partial_delivery" where
  "partial_append payload p = p\<lparr>pd_buf := pd_buf p @ payload\<rparr>"

definition complete :: "partial_delivery \<Rightarrow> delivery" where
  "complete p = with_state (pd_state p) (new_delivery (pd_delivery_id p) (pd_delivery_tag p) (pd_settled p) (pd_buf p))"

subsection \<open>Sender and receiver links (\<open>link/sender.rs\<close>, \<open>link/receiver.rs\<close>, \<open>link/mod.rs\<close>)\<close>

definition MAX_UNSETTLED_PER_LINK :: nat where
  "MAX_UNSETTLED_PER_LINK = 65536"

definition HARD_MAX_MESSAGE_SIZE :: u64 where
  "HARD_MAX_MESSAGE_SIZE = 256 * 1024 * 1024"

record pending_send =
  ps_body :: bytes
  ps_settled :: bool
  ps_message_format :: u32
  ps_state :: "delivery_state option"
  ps_reply :: "reply option"

record sender_link =
  sl_handle :: u32
  sl_remote_handle :: "u32 option"
  sl_name :: utf8
  sl_attached :: bool
  sl_events :: events
  sl_pending_attach :: "reply option"
  sl_credit :: link_credit
  sl_unsettled :: unsettled_map
  sl_pending :: "u32 \<rightharpoonup> reply"
  sl_outbox :: "pending_send list"
  sl_settle_mode :: sender_settle_mode
  sl_next_tag :: u64

definition accepted_sender :: "u32 \<Rightarrow> utf8 \<Rightarrow> events \<Rightarrow> sender_settle_mode \<Rightarrow> credit_mode \<Rightarrow> sender_link" where
  "accepted_sender handle name events settle_mode credit_mode = \<lparr>sl_handle = handle, sl_remote_handle = None,
    sl_name = name, sl_attached = False, sl_events = events, sl_pending_attach = None,
    sl_credit = new_credit 0 credit_mode, sl_unsettled = [], sl_pending = Map.empty, sl_outbox = [],
    sl_settle_mode = settle_mode, sl_next_tag = 0\<rparr>"

definition new_sender :: "u32 \<Rightarrow> utf8 \<Rightarrow> events \<Rightarrow> reply \<Rightarrow> sender_settle_mode \<Rightarrow> credit_mode \<Rightarrow> sender_link" where
  "new_sender handle name events pending_attach settle_mode credit_mode = \<lparr>sl_handle = handle, sl_remote_handle = None,
    sl_name = name, sl_attached = False, sl_events = events, sl_pending_attach = Some pending_attach,
    sl_credit = new_credit 0 credit_mode, sl_unsettled = [], sl_pending = Map.empty, sl_outbox = [],
    sl_settle_mode = settle_mode, sl_next_tag = 0\<rparr>"

definition next_delivery_tag :: "sender_link \<Rightarrow> bytes \<times> sender_link" where
  "next_delivery_tag s = (to_be_bytes 8 (sl_next_tag s), s\<lparr>sl_next_tag := sl_next_tag s + 1\<rparr>)"

record receiver_link =
  rl_handle :: u32
  rl_remote_handle :: "u32 option"
  rl_name :: utf8
  rl_attached :: bool
  rl_events :: events
  rl_pending_attach :: "reply option"
  rl_credit :: link_credit
  rl_unsettled :: unsettled_map
  rl_partial :: "partial_delivery option"
  rl_settle_mode :: receiver_settle_mode
  rl_max_message_size :: "u64 option"

definition accepted_receiver ::
    "u32 \<Rightarrow> utf8 \<Rightarrow> events \<Rightarrow> receiver_settle_mode \<Rightarrow> credit_mode \<Rightarrow> u64 option \<Rightarrow> receiver_link" where
  "accepted_receiver handle name events settle_mode credit_mode max_message_size = \<lparr>rl_handle = handle,
    rl_remote_handle = None, rl_name = name, rl_attached = False, rl_events = events, rl_pending_attach = None,
    rl_credit = new_credit 0 credit_mode, rl_unsettled = [], rl_partial = None, rl_settle_mode = settle_mode,
    rl_max_message_size = max_message_size\<rparr>"

definition new_receiver ::
    "u32 \<Rightarrow> utf8 \<Rightarrow> events \<Rightarrow> reply \<Rightarrow> receiver_settle_mode \<Rightarrow> credit_mode \<Rightarrow> u64 option \<Rightarrow> receiver_link" where
  "new_receiver handle name events pending_attach settle_mode credit_mode max_message_size = \<lparr>rl_handle = handle,
    rl_remote_handle = None, rl_name = name, rl_attached = False, rl_events = events,
    rl_pending_attach = Some pending_attach, rl_credit = new_credit 0 credit_mode, rl_unsettled = [],
    rl_partial = None, rl_settle_mode = settle_mode, rl_max_message_size = max_message_size\<rparr>"

definition size_cap :: "receiver_link \<Rightarrow> u64" where
  "size_cap r = (case rl_max_message_size r of
      Some m \<Rightarrow> min m HARD_MAX_MESSAGE_SIZE
    | None \<Rightarrow> HARD_MAX_MESSAGE_SIZE)"

definition initial_credit :: "receiver_link \<Rightarrow> u32" where
  "initial_credit r = (case lc_mode (rl_credit r) of Auto initial _ \<Rightarrow> initial | Manual \<Rightarrow> 0)"

datatype link = LSender sender_link | LReceiver receiver_link

fun link_handle :: "link \<Rightarrow> u32" where
  "link_handle (LSender l) = sl_handle l"
| "link_handle (LReceiver l) = rl_handle l"

fun link_remote_handle :: "link \<Rightarrow> u32 option" where
  "link_remote_handle (LSender l) = sl_remote_handle l"
| "link_remote_handle (LReceiver l) = rl_remote_handle l"

fun set_remote_handle :: "u32 \<Rightarrow> link \<Rightarrow> link" where
  "set_remote_handle handle (LSender l) = LSender (l\<lparr>sl_remote_handle := Some handle\<rparr>)"
| "set_remote_handle handle (LReceiver l) = LReceiver (l\<lparr>rl_remote_handle := Some handle\<rparr>)"

fun mark_attached :: "link \<Rightarrow> link" where
  "mark_attached (LSender l) = LSender (l\<lparr>sl_attached := True\<rparr>)"
| "mark_attached (LReceiver l) = LReceiver (l\<lparr>rl_attached := True\<rparr>)"

fun link_events :: "link \<Rightarrow> events" where
  "link_events (LSender l) = sl_events l"
| "link_events (LReceiver l) = rl_events l"

fun take_pending_attach :: "link \<Rightarrow> reply option \<times> link" where
  "take_pending_attach (LSender l) = (sl_pending_attach l, LSender (l\<lparr>sl_pending_attach := None\<rparr>))"
| "take_pending_attach (LReceiver l) = (rl_pending_attach l, LReceiver (l\<lparr>rl_pending_attach := None\<rparr>))"

subsection \<open>Laws of credit\<close>

lemma unat_u32_max: "unat (w :: u32) \<le> 4294967295"
  using unat_less_2p [of w] by simp

interpretation credit: flow_control credit_can_send record_sent "\<lambda>f. apply_flow_as_sender (Some (fst f)) (Some (snd f)) False"
  record_received credit_grant "\<lambda>c. (lc_delivery_count c, lc_link_credit c)"
  lc_delivery_count lc_link_credit lc_delivery_count lc_link_credit
  by unfold_locales (auto simp: credit_can_send_def record_sent_def apply_flow_as_sender_def record_received_def
      credit_grant_def unat_saturating_add unat_u32_max)

text \<open>Refilling tops the credit up to the configured level.\<close>

lemma auto_refill_tops_up:
  assumes "lc_mode c = Auto initial threshold" "threshold \<le> initial" "auto_refill c = Some n"
  shows "lc_link_credit (credit_grant n c) = initial"
proof -
  from assms have le: "unat (lc_link_credit c) \<le> unat initial"
    by (auto simp: auto_refill_def word_le_nat_alt split: if_splits)
  have "unat n = unat initial - unat (lc_link_credit c)"
    using assms by (auto simp: auto_refill_def split: if_splits)
  then have "unat (lc_link_credit (credit_grant n c)) = unat initial"
    using le unat_less_2p [of initial] by (simp add: credit_grant_def unat_saturating_add)
  then show ?thesis by (simp only: word_unat_eq_iff)
qed

subsection \<open>Laws of the unsettled map\<close>

definition unsettled_inv :: "unsettled_map \<Rightarrow> bool" where
  "unsettled_inv m \<longleftrightarrow> bt_ok m \<and> (\<forall>e \<in> set m. \<not> ue_settled (snd e))"

lemma fold_bt_remove: "fold bt_remove ids m = filter (\<lambda>e. fst e \<notin> set ids) m"
  by (induction ids arbitrary: m) (auto simp: bt_remove_def intro: filter_cong)

lemma unsettled_inv_insert: "unsettled_inv m \<Longrightarrow> unsettled_inv (unsettled_insert i tag st m)"
  by (auto simp: unsettled_inv_def unsettled_insert_def set_bt_insert)

lemma unsettled_inv_settle: "unsettled_inv m \<Longrightarrow> unsettled_inv (snd (settle i m))"
  by (auto simp: unsettled_inv_def settle_def bt_remove_def)

lemma apply_disposition_cases:
  "last_id < first \<Longrightarrow> apply_disposition first last_id st settled m = Inl RangeStartAfterEnd"
  "first \<le> last_id \<Longrightarrow> apply_disposition first last_id st True m =
    Inr (filter (\<lambda>i. first \<le> i \<and> i \<le> last_id) (map fst m), filter (\<lambda>e. \<not> (first \<le> fst e \<and> fst e \<le> last_id)) m)"
  "first \<le> last_id \<Longrightarrow> apply_disposition first last_id st False m =
    Inr (filter (\<lambda>i. first \<le> i \<and> i \<le> last_id) (map fst m), map (\<lambda>e. if first \<le> fst e \<and> fst e \<le> last_id
      then (fst e, (snd e)\<lparr>ue_state := (if st \<noteq> None then st else ue_state (snd e)), ue_settled := False\<rparr>) else e) m)"
  by (auto simp: apply_disposition_def bt_range_def fold_bt_remove filter_map comp_def intro!: filter_cong)

lemma unsettled_inv_disposition:
  assumes "apply_disposition first last_id st settled m = Inr (ids, m')" "unsettled_inv m"
  shows "unsettled_inv m'"
proof (cases "first \<le> last_id")
  case True
  then show ?thesis
    using assms by (cases settled) (fastforce simp: apply_disposition_cases(2,3) [OF True] unsettled_inv_def intro!: bt_ok_map_values)+
qed (use assms apply_disposition_cases(1) [of last_id first] in simp)

subsection \<open>Properties\<close>

text \<open>
  C3: link credit is never overrun. However a sender and a receiver interleave sending, receiving,
  granting, advertising and applying flows, and although the counts wrap at 32 bits, the transfers
  in flight plus what the sender still believes it may send never exceed the receiver's credit.
\<close>

theorem link_credit_never_overrun:
  assumes "(flow_step credit_can_send record_sent (\<lambda>f. apply_flow_as_sender (Some (fst f)) (Some (snd f)) False)
      record_received credit_grant (\<lambda>c. (lc_delivery_count c, lc_link_credit c)))\<^sup>*\<^sup>*
      (flow_start (new_credit initial mode) (new_credit initial mode')) S"
  shows "fs_in_flight S + unat (lc_link_credit (fs_sender S)) \<le> unat (lc_link_credit (fs_receiver S))"
  using assms by (rule credit.no_overrun) (simp_all add: new_credit_def)

theorem link_credit_never_overrun_witness:
  "let step = flow_step credit_can_send record_sent (\<lambda>f. apply_flow_as_sender (Some (fst f)) (Some (snd f)) False)
      record_received credit_grant (\<lambda>c. (lc_delivery_count c, lc_link_credit c));
       s = (new_credit (- 1) Manual)\<lparr>lc_delivery_count := 0, lc_link_credit := 1\<rparr>;
       r = (new_credit (- 1) Manual)\<lparr>lc_link_credit := 2\<rparr>
   in step\<^sup>*\<^sup>* (flow_start (new_credit (- 1) Manual) (new_credit (- 1) Manual))
        \<lparr>fs_sender = s, fs_receiver = r, fs_in_flight = 1, fs_flows = []\<rparr> \<and> 1 + unat (lc_link_credit s) \<le> unat (lc_link_credit r)"
proof -
  let ?step = "flow_step credit_can_send record_sent (\<lambda>f. apply_flow_as_sender (Some (fst f)) (Some (snd f)) False)
    record_received credit_grant (\<lambda>c. (lc_delivery_count c, lc_link_credit c))"
  let ?c = "new_credit (- 1) Manual"
  let ?r = "?c\<lparr>lc_link_credit := 2\<rparr>"
  have 1: "?step (flow_start ?c ?c) ((flow_start ?c ?c)\<lparr>fs_receiver := ?r\<rparr>)"
    using flow_step.grant [of credit_can_send record_sent _ record_received credit_grant _ "flow_start ?c ?c" 2]
    by (simp add: flow_start_def credit_grant_def new_credit_def saturating_add_def)
  have 2: "?step ((flow_start ?c ?c)\<lparr>fs_receiver := ?r\<rparr>) ((flow_start ?c ?c)\<lparr>fs_receiver := ?r, fs_flows := [(- 1, 2)]\<rparr>)"
    using flow_step.advertise [of credit_can_send record_sent _ record_received credit_grant
        "\<lambda>c. (lc_delivery_count c, lc_link_credit c)" "(flow_start ?c ?c)\<lparr>fs_receiver := ?r\<rparr>"]
    by (simp add: flow_start_def new_credit_def)
  have 3: "?step ((flow_start ?c ?c)\<lparr>fs_receiver := ?r, fs_flows := [(- 1, 2)]\<rparr>)
      ((flow_start (?c\<lparr>lc_link_credit := 2\<rparr>) ?r))"
    using flow_step.apply_flow [of "(flow_start ?c ?c)\<lparr>fs_receiver := ?r, fs_flows := [(- 1, 2)]\<rparr>" "(- 1, 2)" "[]"
        credit_can_send record_sent "\<lambda>f. apply_flow_as_sender (Some (fst f)) (Some (snd f)) False"]
    by (simp add: flow_start_def new_credit_def apply_flow_as_sender_def)
  have 4: "?step (flow_start (?c\<lparr>lc_link_credit := 2\<rparr>) ?r)
      \<lparr>fs_sender = ?c\<lparr>lc_delivery_count := 0, lc_link_credit := 1\<rparr>, fs_receiver = ?r, fs_in_flight = 1, fs_flows = []\<rparr>"
    using flow_step.send [of credit_can_send "flow_start (?c\<lparr>lc_link_credit := 2\<rparr>) ?r" record_sent]
    by (simp add: flow_start_def new_credit_def credit_can_send_def record_sent_def saturating_sub_def
        word_le_nat_alt)
  from 1 2 3 4 have run: "?step\<^sup>*\<^sup>* (flow_start ?c ?c)
      \<lparr>fs_sender = ?c\<lparr>lc_delivery_count := 0, lc_link_credit := 1\<rparr>, fs_receiver = ?r, fs_in_flight = 1, fs_flows = []\<rparr>"
    by (meson converse_rtranclp_into_rtranclp r_into_rtranclp)
  with link_credit_never_overrun [OF run] show ?thesis by (simp add: Let_def)
qed

text \<open>
  C39: lowering credit below what is in flight wraps. When the receiver's flow arrives after the
  sender has sent \<open>k\<close> transfers that the flow does not count, and \<open>k\<close> exceeds the advertised
  credit, the sender's credit becomes \<open>2 ^ 32\<close> minus the excess instead of zero.
\<close>

theorem credit_reduction_wraps:
  assumes "unat lc < k" "k - unat lc < 2 ^ 32" "lc_delivery_count c = dc + of_nat k"
  shows "unat (lc_link_credit (apply_flow_as_sender (Some dc) (Some lc) drain c)) = 2 ^ 32 - (k - unat lc)"
proof -
  let ?x = "k - unat lc"
  have "dc + lc - (dc + of_nat k) = - (of_nat ?x :: u32)"
    using assms(1) by (simp add: of_nat_diff)
  also have "\<dots> = of_nat (2 ^ 32 - ?x)"
    using assms(2) by (simp add: of_nat_diff)
  finally have "unat (dc + lc - (dc + of_nat k)) = 2 ^ 32 - ?x"
    using assms(1) by (simp only:) (intro unat_of_nat_fits, simp)
  then show ?thesis using assms(3) by (simp add: apply_flow_as_sender_def)
qed

theorem credit_reduction_wraps_witness:
  "unat (lc_link_credit (apply_flow_as_sender (Some 7) (Some 0) False ((new_credit 10 Manual)\<lparr>lc_link_credit := 1\<rparr>))) = 2 ^ 32 - 3"
  using credit_reduction_wraps [of 0 3 "(new_credit 10 Manual)\<lparr>lc_link_credit := 1\<rparr>" 7 False]
  by (simp add: new_credit_def)

text \<open>
  a disposition over an identifier range reports exactly the tracked deliveries in the range in
  ascending order, removes them when it settles, otherwise keeps them with the new state if it
  carries one, and leaves every other delivery as it was.
\<close>

theorem disposition_applies:
  assumes "bt_ok m" "first \<le> last_id"
  shows "\<exists>ids m'. apply_disposition first last_id st settled m = Inr (ids, m') \<and> sorted ids \<and> distinct ids \<and>
    set ids = {i \<in> dom (unsettled_get m). first \<le> i \<and> i \<le> last_id} \<and>
    unsettled_get m' = (\<lambda>i. if first \<le> i \<and> i \<le> last_id
      then (if settled then None
            else map_option (\<lambda>e. e\<lparr>ue_state := (if st \<noteq> None then st else ue_state e), ue_settled := False\<rparr>) (unsettled_get m i))
      else unsettled_get m i)"
proof -
  let ?ids = "filter (\<lambda>i. first \<le> i \<and> i \<le> last_id) (map fst m)"
  have ids: "sorted ?ids" "distinct ?ids" "set ?ids = {i \<in> dom (unsettled_get m). first \<le> i \<and> i \<le> last_id}"
    using assms(1) by (auto simp: bt_ok_def strict_sorted_iff sorted_filter [of "\<lambda>x. x", simplified]
        unsettled_get_def btree.dom_entries)
  have rem: "map_of (filter (\<lambda>e. first \<le> fst e \<longrightarrow> \<not> fst e \<le> last_id) m) =
      (\<lambda>i. if first \<le> i \<and> i \<le> last_id then None else map_of m i)"
    by (induction m) (auto simp: fun_eq_iff)
  have upd: "map_of (map (\<lambda>e. if first \<le> fst e \<and> fst e \<le> last_id then (fst e, g (snd e)) else e) m) =
      (\<lambda>i. if first \<le> i \<and> i \<le> last_id then map_option g (map_of m i) else map_of m i)" for g
    by (induction m) (auto simp: fun_eq_iff)
  show ?thesis
    using ids upd [of "\<lambda>e. e\<lparr>ue_state := (if st \<noteq> None then st else ue_state e), ue_settled := False\<rparr>"]
    by (cases settled) (simp_all add: apply_disposition_cases(2,3) [OF assms(2)] unsettled_get_def rem cong: if_cong)
qed

theorem disposition_applies_witness:
  "let e = (\<lambda>tag. \<lparr>ue_delivery_tag = [tag], ue_state = None, ue_settled = False\<rparr>) in
   \<exists>m'. apply_disposition 2 9 None True [(1, e 1), (3, e 3), (9, e 9)] = Inr ([3, 9], m') \<and> unsettled_get m' = [1 \<mapsto> e 1]"
proof -
  let ?e = "\<lambda>tag. \<lparr>ue_delivery_tag = [tag], ue_state = None, ue_settled = False\<rparr>"
  show ?thesis
    using disposition_applies [of "[(1, ?e 1), (3, ?e 3), (9, ?e 9)]" 2 9 None True]
    by (auto simp: bt_ok_def apply_disposition_cases unsettled_get_def word_le_nat_alt word_less_nat_alt)
qed



end
