(* ===== verification/Id_Allocators.thy ===== *)
theory Id_Allocators
  imports Amqp_Prelude
begin

section \<open>Channel and handle allocation (\<open>connection/mux.rs\<close>, \<open>session/registry.rs\<close>)\<close>

text \<open>
  The two allocators of wire numbers, one for the channels of a connection and one for the link
  handles of a session, and the maps from the peer's numbers to ours. A \<open>Vec\<close> used as a stack is a
  list whose top is its last element. Both allocators meet one contract, the locale
  \<open>id_allocator\<close>, whose invariant relates the allocator to the set of numbers in use.
\<close>

subsection \<open>Channels\<close>

record channel_allocator =
  ca_channel_max :: u16
  ca_next :: u32
  ca_free :: "u16 list"

definition new_channels :: "u16 \<Rightarrow> channel_allocator" where
  "new_channels channel_max = \<lparr>ca_channel_max = channel_max, ca_next = 0, ca_free = []\<rparr>"

definition allocate_channel :: "channel_allocator \<Rightarrow> u16 option \<times> channel_allocator" where
  "allocate_channel a =
    (if ca_free a \<noteq> [] then (Some (last (ca_free a)), a\<lparr>ca_free := butlast (ca_free a)\<rparr>)
     else if ca_next a \<le> ucast (ca_channel_max a)
       then (Some (ucast (ca_next a)), a\<lparr>ca_next := ca_next a + 1\<rparr>)
     else (None, a))"

definition release_channel :: "u16 \<Rightarrow> channel_allocator \<Rightarrow> channel_allocator" where
  "release_channel channel a = a\<lparr>ca_free := ca_free a @ [channel]\<rparr>"

definition channels_in_use :: "channel_allocator \<Rightarrow> nat" where
  "channels_in_use a = unat (ca_next a) - length (ca_free a)"

type_synonym remote_channels = "u16 \<rightharpoonup> u16"

definition bind_channel :: "u16 \<Rightarrow> u16 \<Rightarrow> remote_channels \<Rightarrow> remote_channels" where
  "bind_channel remote local m = m(remote \<mapsto> local)"

definition resolve_channel :: "u16 \<Rightarrow> remote_channels \<Rightarrow> u16 option" where
  "resolve_channel remote m = m remote"

definition unbind_channel :: "u16 \<Rightarrow> remote_channels \<Rightarrow> remote_channels" where
  "unbind_channel remote m = m(remote := None)"

subsection \<open>Handles\<close>

record handle_allocator =
  ha_handle_max :: u32
  ha_next :: u64
  ha_free :: "u32 list"

definition new_handles :: "u32 \<Rightarrow> handle_allocator" where
  "new_handles handle_max = \<lparr>ha_handle_max = handle_max, ha_next = 0, ha_free = []\<rparr>"

definition allocate_handle :: "handle_allocator \<Rightarrow> u32 option \<times> handle_allocator" where
  "allocate_handle a =
    (if ha_free a \<noteq> [] then (Some (last (ha_free a)), a\<lparr>ha_free := butlast (ha_free a)\<rparr>)
     else if ha_next a \<le> ucast (ha_handle_max a)
       then (Some (ucast (ha_next a)), a\<lparr>ha_next := ha_next a + 1\<rparr>)
     else (None, a))"

definition release_handle :: "u32 \<Rightarrow> handle_allocator \<Rightarrow> handle_allocator" where
  "release_handle handle a = a\<lparr>ha_free := ha_free a @ [handle]\<rparr>"

type_synonym remote_handles = "u32 \<rightharpoonup> u32"

definition bind_handle :: "u32 \<Rightarrow> u32 \<Rightarrow> remote_handles \<Rightarrow> remote_handles" where
  "bind_handle remote local m = m(remote \<mapsto> local)"

definition resolve_handle :: "u32 \<Rightarrow> remote_handles \<Rightarrow> u32 option" where
  "resolve_handle remote m = m remote"

definition unbind_handle :: "u32 \<Rightarrow> remote_handles \<Rightarrow> remote_handles" where
  "unbind_handle remote m = m(remote := None)"

lemmas remote_handle_defs = bind_handle_def resolve_handle_def unbind_handle_def

subsection \<open>The contract of an allocator\<close>

text \<open>One step of a client that releases only what it holds.\<close>

inductive alloc_step ::
    "('s \<Rightarrow> 'i option \<times> 's) \<Rightarrow> ('i \<Rightarrow> 's \<Rightarrow> 's) \<Rightarrow> 'i set \<times> 's \<Rightarrow> 'i set \<times> 's \<Rightarrow> bool"
  for allocate release where
  take: "allocate s = (Some i, s') \<Longrightarrow> alloc_step allocate release (live, s) (insert i live, s')"
| exhausted: "allocate s = (None, s') \<Longrightarrow> alloc_step allocate release (live, s) (live, s')"
| give_back: "i \<in> live \<Longrightarrow> alloc_step allocate release (live, s) (live - {i}, release i s)"

inductive_cases alloc_stepE: "alloc_step allocate release (live, s) (live', s')"

locale id_allocator =
  fixes allocate :: "'s \<Rightarrow> 'i::linorder option \<times> 's"
    and release :: "'i \<Rightarrow> 's \<Rightarrow> 's"
    and bound :: "'s \<Rightarrow> 'i"
    and inv :: "'i set \<Rightarrow> 's \<Rightarrow> bool"
  assumes allocate_fresh: "inv live s \<Longrightarrow> allocate s = (Some i, s') \<Longrightarrow>
      i \<notin> live \<and> i \<le> bound s \<and> inv (insert i live) s' \<and> bound s' = bound s"
    and allocate_exhausted: "inv live s \<Longrightarrow> allocate s = (None, s') \<Longrightarrow> live = {..bound s} \<and> s' = s"
    and release_live: "inv live s \<Longrightarrow> i \<in> live \<Longrightarrow> inv (live - {i}) (release i s) \<and> bound (release i s) = bound s"
begin

lemma step_inv:
  assumes "alloc_step allocate release (live, s) (live', s')" "inv live s"
  shows "inv live' s' \<and> bound s' = bound s"
  using assms(1)
  by (rule alloc_stepE) (use assms(2) allocate_fresh allocate_exhausted release_live in blast)+

lemma reachable_inv:
  assumes "(alloc_step allocate release)\<^sup>*\<^sup>* (live, s) (live', s')" "inv live s"
  shows "inv live' s' \<and> bound s' = bound s"
  using assms
proof (induction "(live', s')" arbitrary: live' s' rule: rtranclp_induct)
  case base
  then show ?case by simp
next
  case (step y)
  then show ?case using step_inv by (cases y) fastforce
qed

lemma allocate_spec:
  assumes "inv live s"
  shows "case allocate s of (None, _) \<Rightarrow> live = {..bound s} | (Some i, _) \<Rightarrow> i \<notin> live \<and> i \<le> bound s"
  using allocate_fresh [OF assms] allocate_exhausted [OF assms] by (auto split: option.split)

text \<open>Handing a number out and taking it back at once leaves the numbers in use as they were.\<close>

lemma allocate_release:
  assumes "inv live s" "allocate s = (Some i, s')"
  shows "inv live (release i s')"
proof -
  from allocate_fresh [OF assms] have "i \<notin> live" "inv (insert i live) s'" by auto
  with release_live [of "insert i live" s' i] show ?thesis by simp
qed

end

subsection \<open>A counter with a stack of returned numbers\<close>

definition pool_inv :: "'a::len word set \<Rightarrow> 'a word list \<Rightarrow> nat \<Rightarrow> 'a word \<Rightarrow> bool" where
  "pool_inv live free n m \<longleftrightarrow> distinct free \<and> set free \<inter> live = {} \<and> n \<le> Suc (unat m) \<and>
    live \<union> set free = {c. unat c < n}"

lemma pool_inv_init: "pool_inv {} [] 0 m"
  by (simp add: pool_inv_def)

lemma pool_pop:
  assumes "pool_inv live free n m" "free \<noteq> []"
  shows "last free \<notin> live" "last free \<le> m" "pool_inv (insert (last free) live) (butlast free) n m"
proof -
  obtain fs c where f: "free = fs @ [c]" using assms(2) by (metis append_butlast_last_id)
  with assms(1) have "c \<in> {c. unat c < n}" "n \<le> Suc (unat m)" by (auto simp: pool_inv_def)
  then show "last free \<le> m" by (simp add: f word_le_nat_alt)
  show "last free \<notin> live" "pool_inv (insert (last free) live) (butlast free) n m"
    using assms(1) by (auto simp: pool_inv_def f)
qed

lemma pool_new:
  assumes "pool_inv live [] (unat c) m" "unat c \<le> unat m"
  shows "c \<notin> live" "c \<le> m" "pool_inv (insert c live) [] (Suc (unat c)) m"
proof -
  show "c \<notin> live" "c \<le> m"
    using assms by (auto simp: pool_inv_def word_le_nat_alt)
  have "insert c {x. unat x < unat c} = {x. unat x < Suc (unat c)}"
    by (auto simp: less_Suc_eq word_unat_eq_iff)
  then show "pool_inv (insert c live) [] (Suc (unat c)) m"
    using assms by (auto simp: pool_inv_def)
qed

lemma pool_full:
  assumes "pool_inv live [] n m" "unat m < n"
  shows "live = {..m}"
  using assms by (auto simp: pool_inv_def word_le_nat_alt)

lemma pool_release:
  assumes "pool_inv live free n m" "i \<in> live"
  shows "pool_inv (live - {i}) (free @ [i]) n m"
  using assms by (auto simp: pool_inv_def)

lemma pool_card:
  fixes m :: "'a::len word"
  assumes "pool_inv live free n m"
  shows "card live = n - length free"
proof -
  have "bij_betw unat {c :: 'a word. unat c < n} {..<n}"
  proof (rule bij_betw_imageI)
    show "inj_on unat {c :: 'a word. unat c < n}" by (auto simp: inj_on_def word_unat_eq_iff)
    have "k \<in> unat ` {c :: 'a word. unat c < n}" if "k < n" for k
    proof -
      have "unat (of_nat k :: 'a word) = k"
        using assms that by (intro unat_of_nat_fits le_less_trans [OF _ unat_less_2p [of m]]) (simp add: pool_inv_def)
      with that show ?thesis by (intro image_eqI [of _ _ "of_nat k"]) auto
    qed
    then show "unat ` {c :: 'a word. unat c < n} = {..<n}" by auto
  qed
  then have "card {c :: 'a word. unat c < n} = n" by (simp add: bij_betw_same_card)
  moreover have "card (live \<union> set free) = card live + length free"
    using assms by (subst card_Un_disjoint) (auto simp: pool_inv_def distinct_card)
  ultimately show ?thesis using assms by (simp add: pool_inv_def)
qed

subsection \<open>Both allocators meet the contract\<close>

definition channel_inv :: "u16 set \<Rightarrow> channel_allocator \<Rightarrow> bool" where
  "channel_inv live a \<longleftrightarrow> pool_inv live (ca_free a) (unat (ca_next a)) (ca_channel_max a)"

definition handle_inv :: "u32 set \<Rightarrow> handle_allocator \<Rightarrow> bool" where
  "handle_inv live a \<longleftrightarrow> pool_inv live (ha_free a) (unat (ha_next a)) (ha_handle_max a)"

lemma channel_counter:
  assumes "pool_inv live free (unat (n :: u32)) (m :: u16)"
  shows "n \<le> ucast m \<longleftrightarrow> unat n \<le> unat m" "unat (n + 1) = Suc (unat n)" "unat n \<le> unat m \<Longrightarrow> unat (ucast n :: u16) = unat n"
proof -
  have "unat (ucast m :: u32) = unat m" by (simp add: unat_ucast_wider)
  then show "n \<le> ucast m \<longleftrightarrow> unat n \<le> unat m" by (simp add: word_le_nat_alt)
  show "unat (n + 1) = Suc (unat n)"
    using assms unat_less_2p [of m] by (intro unat_plus_one) (auto simp: pool_inv_def)
  show "unat (ucast n :: u16) = unat n" if "unat n \<le> unat m"
    using that by (intro unat_ucast_narrow le_less_trans [OF _ unat_less_2p])
qed

lemma handle_counter:
  assumes "pool_inv live free (unat (n :: u64)) (m :: u32)"
  shows "n \<le> ucast m \<longleftrightarrow> unat n \<le> unat m" "unat (n + 1) = Suc (unat n)" "unat n \<le> unat m \<Longrightarrow> unat (ucast n :: u32) = unat n"
proof -
  have "unat (ucast m :: u64) = unat m" by (simp add: unat_ucast_wider)
  then show "n \<le> ucast m \<longleftrightarrow> unat n \<le> unat m" by (simp add: word_le_nat_alt)
  show "unat (n + 1) = Suc (unat n)"
    using assms unat_less_2p [of m] by (intro unat_plus_one) (auto simp: pool_inv_def)
  show "unat (ucast n :: u32) = unat n" if "unat n \<le> unat m"
    using that by (intro unat_ucast_narrow le_less_trans [OF _ unat_less_2p])
qed

interpretation channels: id_allocator allocate_channel release_channel ca_channel_max channel_inv
proof unfold_locales
  fix live s i s'
  assume inv: "channel_inv live s" and al: "allocate_channel s = (Some i, s')"
  show "i \<notin> live \<and> i \<le> ca_channel_max s \<and> channel_inv (insert i live) s' \<and> ca_channel_max s' = ca_channel_max s"
  proof (cases "ca_free s = []")
    case False
    with al inv pool_pop [of live "ca_free s"] show ?thesis
      by (auto simp: allocate_channel_def channel_inv_def)
  next
    case True
    with inv have p: "pool_inv live [] (unat (ca_next s)) (ca_channel_max s)" by (simp add: channel_inv_def)
    from al True channel_counter(1) [OF p] have le: "unat (ca_next s) \<le> unat (ca_channel_max s)"
      and i: "i = ucast (ca_next s)" and s': "s' = s\<lparr>ca_next := ca_next s + 1\<rparr>"
      by (auto simp: allocate_channel_def split: if_splits)
    have u: "unat i = unat (ca_next s)" unfolding i by (rule channel_counter(3) [OF p le])
    with p le have "pool_inv live [] (unat i) (ca_channel_max s)" "unat i \<le> unat (ca_channel_max s)" by simp_all
    from pool_new [OF this] show ?thesis
      by (simp add: s' channel_inv_def True channel_counter(2) [OF p] u)
  qed
next
  fix live s s'
  assume inv: "channel_inv live s" and al: "allocate_channel s = (None, s')"
  then have "ca_free s = []" by (auto simp: allocate_channel_def split: if_splits)
  with inv have p: "pool_inv live [] (unat (ca_next s)) (ca_channel_max s)" by (simp add: channel_inv_def)
  with al pool_full [OF p] channel_counter(1) [OF p] show "live = {..ca_channel_max s} \<and> s' = s"
    by (auto simp: allocate_channel_def split: if_splits)
next
  fix live s i
  assume "channel_inv live s" "i \<in> live"
  then show "channel_inv (live - {i}) (release_channel i s) \<and> ca_channel_max (release_channel i s) = ca_channel_max s"
    by (simp add: channel_inv_def release_channel_def pool_release)
qed

interpretation handles: id_allocator allocate_handle release_handle ha_handle_max handle_inv
proof unfold_locales
  fix live s i s'
  assume inv: "handle_inv live s" and al: "allocate_handle s = (Some i, s')"
  show "i \<notin> live \<and> i \<le> ha_handle_max s \<and> handle_inv (insert i live) s' \<and> ha_handle_max s' = ha_handle_max s"
  proof (cases "ha_free s = []")
    case False
    with al inv pool_pop [of live "ha_free s"] show ?thesis
      by (auto simp: allocate_handle_def handle_inv_def)
  next
    case True
    with inv have p: "pool_inv live [] (unat (ha_next s)) (ha_handle_max s)" by (simp add: handle_inv_def)
    from al True handle_counter(1) [OF p] have le: "unat (ha_next s) \<le> unat (ha_handle_max s)"
      and i: "i = ucast (ha_next s)" and s': "s' = s\<lparr>ha_next := ha_next s + 1\<rparr>"
      by (auto simp: allocate_handle_def split: if_splits)
    have u: "unat i = unat (ha_next s)" unfolding i by (rule handle_counter(3) [OF p le])
    with p le have "pool_inv live [] (unat i) (ha_handle_max s)" "unat i \<le> unat (ha_handle_max s)" by simp_all
    from pool_new [OF this] show ?thesis
      by (simp add: s' handle_inv_def True handle_counter(2) [OF p] u)
  qed
next
  fix live s s'
  assume inv: "handle_inv live s" and al: "allocate_handle s = (None, s')"
  then have "ha_free s = []" by (auto simp: allocate_handle_def split: if_splits)
  with inv have p: "pool_inv live [] (unat (ha_next s)) (ha_handle_max s)" by (simp add: handle_inv_def)
  with al pool_full [OF p] handle_counter(1) [OF p] show "live = {..ha_handle_max s} \<and> s' = s"
    by (auto simp: allocate_handle_def split: if_splits)
next
  fix live s i
  assume "handle_inv live s" "i \<in> live"
  then show "handle_inv (live - {i}) (release_handle i s) \<and> ha_handle_max (release_handle i s) = ha_handle_max s"
    by (simp add: handle_inv_def release_handle_def pool_release)
qed

lemma channel_inv_new: "channel_inv {} (new_channels m)"
  by (simp add: channel_inv_def new_channels_def pool_inv_init)

lemma handle_inv_new: "handle_inv {} (new_handles m)"
  by (simp add: handle_inv_def new_handles_def pool_inv_init)

subsection \<open>Properties\<close>

text \<open>
  C27: however channels are allocated and released, a channel handed out is not in use and is within
  channel-max, allocation fails only when every channel up to channel-max is in use, and the
  reported number in use is the size of the set in use.
\<close>

theorem channel_allocator_correct:
  assumes "(alloc_step allocate_channel release_channel)\<^sup>*\<^sup>* ({}, new_channels m) (live, a)"
  shows "(case allocate_channel a of (None, _) \<Rightarrow> live = {..m} | (Some c, _) \<Rightarrow> c \<notin> live \<and> c \<le> m) \<and>
    channels_in_use a = card live"
proof -
  from channels.reachable_inv [OF assms channel_inv_new]
  have inv: "channel_inv live a" and m: "ca_channel_max a = m" by (simp_all add: new_channels_def)
  from inv have "channels_in_use a = card live"
    by (simp add: channel_inv_def channels_in_use_def pool_card)
  with channels.allocate_spec [OF inv] show ?thesis by (simp only: m)
qed

theorem channel_allocator_correct_witness:
  "(alloc_step allocate_channel release_channel)\<^sup>*\<^sup>* ({}, new_channels 1)
      ({1}, \<lparr>ca_channel_max = 1, ca_next = 2, ca_free = [0]\<rparr>) \<and>
    (case allocate_channel \<lparr>ca_channel_max = 1, ca_next = 2, ca_free = [0]\<rparr> of (Some c, _) \<Rightarrow> c \<notin> {1} | (None, _) \<Rightarrow> False)"
proof -
  let ?s = "alloc_step allocate_channel release_channel"
  have 1: "?s ({}, new_channels 1) ({0}, \<lparr>ca_channel_max = 1, ca_next = 1, ca_free = []\<rparr>)"
    by (rule alloc_step.take) (simp add: allocate_channel_def new_channels_def)
  have 2: "?s ({0}, \<lparr>ca_channel_max = 1, ca_next = 1, ca_free = []\<rparr>) ({1, 0}, \<lparr>ca_channel_max = 1, ca_next = 2, ca_free = []\<rparr>)"
    by (rule alloc_step.take) (simp add: allocate_channel_def)
  have 3: "?s ({1, 0}, \<lparr>ca_channel_max = 1, ca_next = 2, ca_free = []\<rparr>)
      ({1, 0} - {0}, release_channel 0 \<lparr>ca_channel_max = 1, ca_next = 2, ca_free = []\<rparr>)"
    by (rule alloc_step.give_back) simp
  have "{1, 0 :: u16} - {0} = {1}" by auto
  with 1 2 3 have "?s\<^sup>*\<^sup>* ({}, new_channels 1) ({1}, \<lparr>ca_channel_max = 1, ca_next = 2, ca_free = [0]\<rparr>)"
    by (simp add: release_channel_def converse_rtranclp_into_rtranclp)
  moreover from channel_allocator_correct [OF this]
  have "case allocate_channel \<lparr>ca_channel_max = 1, ca_next = 2, ca_free = [0]\<rparr> of (Some c, _) \<Rightarrow> c \<notin> {1} | (None, _) \<Rightarrow> False"
    by (simp add: allocate_channel_def)
  ultimately show ?thesis by (rule conjI)
qed

text \<open>
  the allocators do not keep a lowest-free policy. After the channels 0, 1 and 2 are taken and
  0 and then 1 are released, the next channel handed out is 1 although 0 is free.
\<close>

theorem allocation_not_lowest_free:
  "let a = fold (\<lambda>_ a. snd (allocate_channel a)) [0 :: nat, 1, 2] (new_channels 5);
       a = release_channel 1 (release_channel 0 a)
   in fst (allocate_channel a) = Some 1 \<and> 0 \<in> set (ca_free a)"
  by (simp add: new_channels_def allocate_channel_def release_channel_def)

end
