(* ===== verification/Transport_Frame.thy ===== *)
theory Transport_Frame
  imports Types_Performatives Types_Sasl
begin

section \<open>Frames and the framed transport (\<open>ramqp-core/src/transport/frame.rs\<close>)\<close>

text \<open>
  The frame codec, the buffered writer that may hold large transfer bodies out of its buffer for
  a gathered write, and the reader that accumulates socket reads until a frame is complete. The
  socket is a parameter: what a read returns is a list of chunks, what a vectored write accepts is
  a list of byte counts.
\<close>

subsection \<open>Frame codec\<close>

abbreviation (input) FRAME_TYPE_AMQP :: u8 where "FRAME_TYPE_AMQP \<equiv> 0"
abbreviation (input) FRAME_TYPE_SASL :: u8 where "FRAME_TYPE_SASL \<equiv> 1"

definition FRAME_HEADER_LEN :: nat where
  "FRAME_HEADER_LEN = 8"

datatype frame_body =
    AmqpBody performative "bytes option"
  | SaslBody sasl_frame
  | EmptyBody

record frame =
  fr_channel :: u16
  fr_body :: frame_body

datatype connect_error =
    SizeBelowHeader nat
  | SizeExceedsMax nat nat
  | InvalidDataOffset u8
  | TruncatedExtendedHeader
  | UnknownFrameType u8
  | FrameDecode decode_error
  | ConnectionClosedByPeer
  | ClosedMidFrame
  | ClosedDuringWrite

definition encode_amqp_header :: "u16 \<Rightarrow> performative \<Rightarrow> nat \<Rightarrow> bytes \<Rightarrow> bytes" where
  "encode_amqp_header channel perf trailing buf =
    (let size_pos = length buf;
         buf = put_u32 0 buf;
         buf = put_u8 2 buf;
         buf = put_u8 FRAME_TYPE_AMQP buf;
         buf = put_u16 channel buf;
         buf = encode_performative perf buf;
         size = of_nat (length buf - size_pos + trailing) :: u32
     in copy_into size_pos (to_be_bytes 4 size) buf)"

definition encode_amqp_frame :: "u16 \<Rightarrow> performative \<Rightarrow> bytes option \<Rightarrow> bytes \<Rightarrow> bytes" where
  "encode_amqp_frame channel perf payload buf =
    (let buf = encode_amqp_header channel perf (case payload of None \<Rightarrow> 0 | Some p \<Rightarrow> length p) buf
     in case payload of None \<Rightarrow> buf | Some p \<Rightarrow> put_slice p buf)"

definition encode_sasl :: "sasl_frame \<Rightarrow> bytes \<Rightarrow> bytes" where
  "encode_sasl frame buf =
    (let size_pos = length buf;
         buf = put_u32 0 buf;
         buf = put_u8 2 buf;
         buf = put_u8 FRAME_TYPE_SASL buf;
         buf = put_u16 0 buf;
         buf = encode_sasl_frame frame buf;
         size = of_nat (length buf - size_pos) :: u32
     in copy_into size_pos (to_be_bytes 4 size) buf)"

definition encode_empty_frame :: "u16 \<Rightarrow> bytes \<Rightarrow> bytes" where
  "encode_empty_frame channel buf = put_u16 channel (put_u8 FRAME_TYPE_AMQP (put_u8 2 (put_u32 8 buf)))"

definition max_payload_for_frame :: "nat \<Rightarrow> nat \<Rightarrow> nat" where
  "max_payload_for_frame max_frame_size performative_size = max_frame_size - (FRAME_HEADER_LEN + performative_size)"

definition lift_decode :: "decode_error + 'a \<Rightarrow> connect_error + 'a" where
  "lift_decode r = (case r of Inl e \<Rightarrow> Inl (FrameDecode e) | Inr x \<Rightarrow> Inr x)"

definition decode_amqp_body :: "bytes \<Rightarrow> connect_error + frame_body" where
  "decode_amqp_body body =
    (if body = [] then Inr EmptyBody
     else rbind (lift_decode (decode_performative body)) (\<lambda>(perf, body).
       Inr (AmqpBody perf (if body = [] then None else Some body))))"

text \<open>The result \<open>Inr None\<close> asks for more bytes and leaves the buffer as it is.\<close>

definition decode_frame :: "bytes \<Rightarrow> nat \<Rightarrow> connect_error + (frame \<times> bytes) option" where
  "decode_frame src max_frame_size =
    (if length src < FRAME_HEADER_LEN then Inr None
     else let size = unat (from_be_bytes (take 4 src) :: u32) in
       if size < FRAME_HEADER_LEN then Inl (SizeBelowHeader size)
       else if size > max_frame_size then Inl (SizeExceedsMax size max_frame_size)
       else if length src < size then Inr None
       else let frame = take size src;
                rest = drop size src;
                doff = frame ! 4;
                ftype = frame ! 5;
                channel = from_be_bytes (take 2 (drop 6 frame)) :: u16;
                frame = drop 8 frame;
                header_len = unat doff * 4
            in if header_len < FRAME_HEADER_LEN \<or> header_len > size then Inl (InvalidDataOffset doff)
               else let extended = header_len - FRAME_HEADER_LEN in
                 if length frame < extended then Inl TruncatedExtendedHeader
                 else let frame = drop extended frame in
                   rbind (if ftype = FRAME_TYPE_AMQP then decode_amqp_body frame
                          else if ftype = FRAME_TYPE_SASL then
                            rbind (lift_decode (decode_sasl_frame frame)) (\<lambda>(f, _). Inr (SaslBody f))
                          else Inl (UnknownFrameType ftype)) (\<lambda>body.
                   Inr (Some (\<lparr>fr_channel = channel, fr_body = body\<rparr>, rest))))"

subsection \<open>The framed transport\<close>

definition BODY_SEGMENT_THRESHOLD :: nat where
  "BODY_SEGMENT_THRESHOLD = 4096"

record framed =
  write_buf :: bytes
  out_bodies :: "(nat \<times> bytes) list"
  vectored :: bool

definition queue_amqp :: "u16 \<Rightarrow> performative \<Rightarrow> bytes option \<Rightarrow> framed \<Rightarrow> framed" where
  "queue_amqp channel perf payload t = t\<lparr>write_buf := encode_amqp_frame channel perf payload (write_buf t)\<rparr>"

definition queue_transfer :: "u16 \<Rightarrow> performative \<Rightarrow> bytes \<Rightarrow> framed \<Rightarrow> framed" where
  "queue_transfer channel perf body t =
    (if vectored t \<and> length body \<ge> BODY_SEGMENT_THRESHOLD
     then let buf = encode_amqp_header channel perf (length body) (write_buf t)
          in t\<lparr>write_buf := buf, out_bodies := out_bodies t @ [(length buf, body)]\<rparr>
     else t\<lparr>write_buf := encode_amqp_frame channel perf (Some body) (write_buf t)\<rparr>)"

definition queue_sasl :: "sasl_frame \<Rightarrow> framed \<Rightarrow> framed" where
  "queue_sasl frame t = t\<lparr>write_buf := encode_sasl frame (write_buf t)\<rparr>"

definition queue_empty :: "u16 \<Rightarrow> framed \<Rightarrow> framed" where
  "queue_empty channel t = t\<lparr>write_buf := encode_empty_frame channel (write_buf t)\<rparr>"

definition pending_bytes :: "framed \<Rightarrow> nat" where
  "pending_bytes t = length (write_buf t) + sum_list (map (\<lambda>(_, b). length b) (out_bodies t))"

text \<open>The slices of the gathered write, in wire order.\<close>

fun gather :: "bytes \<Rightarrow> nat \<Rightarrow> (nat \<times> bytes) list \<Rightarrow> bytes list" where
  "gather wb pos [] = (if pos < length wb then [drop pos wb] else [])"
| "gather wb pos ((off, body) # bodies) =
    (if off > pos then [take (off - pos) (drop pos wb)] else []) @ body # gather wb off bodies"

fun advance_slices :: "nat \<Rightarrow> bytes list \<Rightarrow> bytes list" where
  "advance_slices n [] = []"
| "advance_slices n (s # ss) = (if length s \<le> n then advance_slices (n - length s) ss else drop n s # ss)"

text \<open>
  The write loop. The list gives what successive \<open>write_vectored\<close> calls of the stream report;
  the stream takes that many bytes from the front of the remaining slices. The result is what
  reached the wire and whether all slices were written; a list that ends early stands for a
  write that never completes.
\<close>

fun write_gathered :: "nat list \<Rightarrow> bytes list \<Rightarrow> bytes \<times> (connect_error + bool)" where
  "write_gathered ns [] = ([], Inr True)"
| "write_gathered [] (s # ss) = ([], Inr False)"
| "write_gathered (n # ns) (s # ss) =
    (if n = 0 then ([], Inl ClosedDuringWrite)
     else let (out, r) = write_gathered ns (advance_slices n (s # ss))
          in (take n (concat (s # ss)) @ out, r))"

text \<open>\<open>flush\<close>: what reaches the wire and the transport afterwards, with the stream's write counts.\<close>

definition flush_wire :: "nat list \<Rightarrow> framed \<Rightarrow> (bytes \<times> (connect_error + bool)) \<times> framed" where
  "flush_wire ns t =
    (if write_buf t = [] then (([], Inr True), t)
     else if out_bodies t = [] then ((write_buf t, Inr True), t\<lparr>write_buf := []\<rparr>)
     else let (out, r) = write_gathered ns (gather (write_buf t) 0 (out_bodies t))
          in ((out, r), if r = Inr True then t\<lparr>out_bodies := [], write_buf := []\<rparr> else t))"

fun read_frame :: "nat \<Rightarrow> bytes \<Rightarrow> bytes list \<Rightarrow> connect_error + frame \<times> bytes \<times> bytes list" where
  "read_frame max_frame_size buf chunks = (case decode_frame buf max_frame_size of
      Inl e \<Rightarrow> Inl e
    | Inr (Some (f, buf)) \<Rightarrow> Inr (f, buf, chunks)
    | Inr None \<Rightarrow> (case chunks of
          [] \<Rightarrow> Inl (if buf = [] then ConnectionClosedByPeer else ClosedMidFrame)
        | c # cs \<Rightarrow>
            if c = [] then Inl (if buf = [] then ConnectionClosedByPeer else ClosedMidFrame)
            else read_frame max_frame_size (buf @ c) cs))"

declare read_frame.simps [simp del]

subsection \<open>Layout of encoded frames\<close>

definition frame_layout :: "u8 \<Rightarrow> u16 \<Rightarrow> bytes \<Rightarrow> nat \<Rightarrow> bytes" where
  "frame_layout ftype channel body trailing =
    to_be_bytes 4 (of_nat (8 + length body + trailing) :: u32) @ [2, ftype] @ to_be_bytes 2 channel @ body"

lemma length_frame_layout [simp]: "length (frame_layout t ch body n) = 8 + length body"
  by (simp add: frame_layout_def)

lemma frame_layout_neq_Nil [simp]: "frame_layout t ch body n \<noteq> []"
  by (simp add: frame_layout_def)

lemma backpatch_frame:
  "copy_into (length buf) (to_be_bytes 4 (of_nat (length (buf @ to_be_bytes 4 (0 :: u32) @ [2, t] @ to_be_bytes 2 ch @ body)
      - length buf + n) :: u32)) (buf @ to_be_bytes 4 (0 :: u32) @ [2, t] @ to_be_bytes 2 ch @ body)
    = buf @ frame_layout t ch body n"
  by (subst copy_into_mid) (simp_all add: frame_layout_def)

lemma encode_amqp_header_eq:
  "encode_amqp_header ch perf n buf = buf @ frame_layout FRAME_TYPE_AMQP ch (encode_performative perf []) n"
  using backpatch_frame [of buf FRAME_TYPE_AMQP ch "encode_performative perf []" n]
  by (simp add: encode_amqp_header_def put_defs performative_codec.appends [of perf "_ @ _"])

lemma frame_layout_append:
  "frame_layout t ch body (length p) @ p = frame_layout t ch (body @ p) 0"
  by (simp add: frame_layout_def add.assoc)

lemma encode_amqp_frame_eq:
  "encode_amqp_frame ch perf payload buf =
    buf @ frame_layout FRAME_TYPE_AMQP ch (encode_performative perf [] @ (case payload of None \<Rightarrow> [] | Some p \<Rightarrow> p)) 0"
  by (simp add: encode_amqp_frame_def encode_amqp_header_eq put_slice_def frame_layout_append split: option.split)

lemma encode_sasl_eq: "encode_sasl f buf = buf @ frame_layout FRAME_TYPE_SASL 0 (encode_sasl_frame f []) 0"
  using backpatch_frame [of buf FRAME_TYPE_SASL 0 "encode_sasl_frame f []" 0]
  by (simp add: encode_sasl_def put_defs sasl_frame_codec.appends [of f "_ @ _"])

lemma encode_empty_frame_eq: "encode_empty_frame ch buf = buf @ frame_layout FRAME_TYPE_AMQP ch [] 0"
  by (simp add: encode_empty_frame_def put_defs frame_layout_def)

subsection \<open>Decoding whole and partial frames\<close>

definition decode_typed_body :: "u8 \<Rightarrow> bytes \<Rightarrow> connect_error + frame_body" where
  "decode_typed_body ftype body =
    (if ftype = FRAME_TYPE_AMQP then decode_amqp_body body
     else if ftype = FRAME_TYPE_SASL then rbind (lift_decode (decode_sasl_frame body)) (\<lambda>(f, _). Inr (SaslBody f))
     else Inl (UnknownFrameType ftype))"

lemma decode_frame_layout:
  assumes "8 + length body < 2 ^ 32" "8 + length body \<le> max_frame_size"
  shows "decode_frame (frame_layout t ch body 0 @ rest) max_frame_size =
    rbind (decode_typed_body t body) (\<lambda>b. Inr (Some (\<lparr>fr_channel = ch, fr_body = b\<rparr>, rest)))"
proof -
  have sz: "unat (of_nat (8 + length body) :: u32) = 8 + length body"
    using assms(1) by (rule unat_of_nat_u32)
  let ?hdr = "to_be_bytes 4 (of_nat (8 + length body) :: u32)"
  have src: "frame_layout t ch body 0 @ rest = ?hdr @ [2, t] @ to_be_bytes 2 ch @ body @ rest"
    by (simp only: frame_layout_def add_0_right append_assoc)
  have size: "unat (from_be_bytes (take 4 (frame_layout t ch body 0 @ rest)) :: u32) = 8 + length body"
    unfolding src using sz by simp
  have dr: "drop (8 + length body) (frame_layout t ch body 0 @ rest) = rest" by simp
  have "take (8 + length body) (frame_layout t ch body 0 @ rest) = frame_layout t ch body 0" by simp
  then have tk: "take (8 + length body) (frame_layout t ch body 0 @ rest) = ?hdr @ [2, t] @ to_be_bytes 2 ch @ body"
    by (simp only: frame_layout_def add_0_right append_assoc)
  have parts: "(?hdr @ [2, t] @ to_be_bytes 2 ch @ body) ! 4 = 2" "(?hdr @ [2, t] @ to_be_bytes 2 ch @ body) ! 5 = t"
    "(from_be_bytes (take 2 (drop 6 (?hdr @ [2, t] @ to_be_bytes 2 ch @ body))) :: u16) = ch"
    "drop 8 (?hdr @ [2, t] @ to_be_bytes 2 ch @ body) = body"
    by (simp_all add: nth_append)
  show ?thesis
    unfolding decode_frame_def Let_def size tk dr parts
    using assms(2) by (simp add: FRAME_HEADER_LEN_def decode_typed_body_def)
qed

text \<open>A proper prefix of a frame never yields a frame or an error: the decoder asks for more.\<close>

lemma decode_frame_prefix:
  assumes "8 + length body < 2 ^ 32" "8 + length body \<le> max_frame_size"
    and "frame_layout t ch body 0 = p @ q" "q \<noteq> []"
  shows "decode_frame p max_frame_size = Inr None"
proof (cases "length p < 8")
  case False
  have len: "length p + length q = 8 + length body"
    using arg_cong [OF assms(3), of length] by simp
  have "take 4 p = take 4 (p @ q)" using False by simp
  also have "\<dots> = to_be_bytes 4 (of_nat (8 + length body) :: u32)"
    unfolding assms(3) [symmetric] frame_layout_def by simp
  finally have "unat (from_be_bytes (take 4 p) :: u32) = 8 + length body"
    using unat_of_nat_u32 [OF assms(1)] by simp
  then show ?thesis
    using False assms(2,4) len by (cases q) (simp_all add: decode_frame_def FRAME_HEADER_LEN_def Let_def)
qed (simp add: decode_frame_def FRAME_HEADER_LEN_def)

text \<open>The wire form of a frame, and the frames that fit the negotiated size.\<close>

definition frame_bytes :: "frame \<Rightarrow> bytes" where
  "frame_bytes f = (case fr_body f of
      AmqpBody perf payload \<Rightarrow> encode_amqp_frame (fr_channel f) perf payload []
    | SaslBody s \<Rightarrow> encode_sasl s []
    | EmptyBody \<Rightarrow> encode_empty_frame (fr_channel f) [])"

definition frame_ok :: "nat \<Rightarrow> frame \<Rightarrow> bool" where
  "frame_ok max_frame_size f \<longleftrightarrow>
    (case fr_body f of
       AmqpBody perf payload \<Rightarrow> performative_ok perf \<and> payload \<noteq> Some []
     | SaslBody s \<Rightarrow> sasl_frame_ok s \<and> fr_channel f = 0
     | EmptyBody \<Rightarrow> True) \<and>
    length (frame_bytes f) \<le> max_frame_size \<and> length (frame_bytes f) < 2 ^ 32"

lemma frame_bytes_layout:
  assumes "frame_ok max_frame_size f"
  obtains t body where "frame_bytes f = frame_layout t (fr_channel f) body 0" "decode_typed_body t body = Inr (fr_body f)"
    "8 + length body < 2 ^ 32" "8 + length body \<le> max_frame_size"
proof (cases "fr_body f")
  case (AmqpBody perf payload)
  let ?p = "case payload of None \<Rightarrow> [] | Some p \<Rightarrow> p"
  have ne: "encode_performative perf [] \<noteq> []"
    using performative_codec.encode_nonempty [of perf] assms by (simp add: frame_ok_def AmqpBody)
  have "decode_typed_body FRAME_TYPE_AMQP (encode_performative perf [] @ ?p) = Inr (fr_body f)"
    using assms ne
    by (cases payload) (auto simp: frame_ok_def AmqpBody decode_typed_body_def decode_amqp_body_def lift_decode_def
        performative_codec.decode_encode performative_codec.decode_encode [of _ "[]", simplified])
  then show ?thesis
    using assms by (intro that [of FRAME_TYPE_AMQP "encode_performative perf [] @ ?p"])
      (simp_all add: frame_ok_def frame_bytes_def AmqpBody encode_amqp_frame_eq)
next
  case (SaslBody s)
  have "decode_typed_body FRAME_TYPE_SASL (encode_sasl_frame s []) = Inr (fr_body f)"
    using assms sasl_frame_codec.decode_encode [of s "[]"]
    by (simp add: frame_ok_def SaslBody decode_typed_body_def lift_decode_def)
  then show ?thesis
    using assms by (intro that [of FRAME_TYPE_SASL "encode_sasl_frame s []"])
      (simp_all add: frame_ok_def frame_bytes_def SaslBody encode_sasl_eq)
next
  case EmptyBody
  then show ?thesis
    using assms by (intro that [of FRAME_TYPE_AMQP "[]"])
      (simp_all add: frame_ok_def frame_bytes_def encode_empty_frame_eq decode_typed_body_def decode_amqp_body_def)
qed

lemma decode_frame_bytes:
  assumes "frame_ok max_frame_size f"
  shows "decode_frame (frame_bytes f @ rest) max_frame_size = Inr (Some (f, rest))"
proof -
  from assms obtain t body where "frame_bytes f = frame_layout t (fr_channel f) body 0"
    "decode_typed_body t body = Inr (fr_body f)" "8 + length body < 2 ^ 32" "8 + length body \<le> max_frame_size"
    by (rule frame_bytes_layout)
  then show ?thesis by (simp only: decode_frame_layout rbind_simps) simp
qed

lemma decode_frame_bytes_prefix:
  assumes "frame_ok max_frame_size f" "frame_bytes f = p @ q" "q \<noteq> []"
  shows "decode_frame p max_frame_size = Inr None"
proof -
  from assms(1) obtain t body where "frame_bytes f = frame_layout t (fr_channel f) body 0"
    "8 + length body < 2 ^ 32" "8 + length body \<le> max_frame_size"
    by (rule frame_bytes_layout)
  with assms(2,3) show ?thesis by (intro decode_frame_prefix) simp_all
qed

subsection \<open>The reader and the chunks of the stream\<close>

fun read_frames :: "nat \<Rightarrow> nat \<Rightarrow> bytes \<Rightarrow> bytes list \<Rightarrow> connect_error + frame list \<times> bytes \<times> bytes list" where
  "read_frames max_frame_size 0 buf chunks = Inr ([], buf, chunks)"
| "read_frames max_frame_size (Suc n) buf chunks =
    rbind (read_frame max_frame_size buf chunks) (\<lambda>(f, buf, chunks).
      rbind (read_frames max_frame_size n buf chunks) (\<lambda>(fs, buf, chunks). Inr (f # fs, buf, chunks)))"

lemma read_frame_chunks:
  assumes "frame_ok max_frame_size f" "\<forall>c \<in> set chunks. c \<noteq> []" "buf @ concat chunks = frame_bytes f @ later"
  shows "\<exists>buf' chunks'. read_frame max_frame_size buf chunks = Inr (f, buf', chunks') \<and>
    buf' @ concat chunks' = later \<and> (\<forall>c \<in> set chunks'. c \<noteq> [])"
  using assms(2,3)
proof (induction chunks arbitrary: buf)
  case Nil
  then show ?case
    using decode_frame_bytes [OF assms(1), of later] by (subst read_frame.simps) simp
next
  case (Cons c cs)
  consider (whole) us where "buf = frame_bytes f @ us" "us @ concat (c # cs) = later"
    | (part) us where "frame_bytes f = buf @ us" "us \<noteq> []"
  proof -
    assume *: "\<And>us. buf = frame_bytes f @ us \<Longrightarrow> us @ concat (c # cs) = later \<Longrightarrow> thesis"
      "\<And>us. frame_bytes f = buf @ us \<Longrightarrow> us \<noteq> [] \<Longrightarrow> thesis"
    obtain us where "buf = frame_bytes f @ us \<and> us @ concat (c # cs) = later \<or>
        buf @ us = frame_bytes f \<and> concat (c # cs) = us @ later"
      using Cons.prems(2) unfolding append_eq_append_conv2 by blast
    then show thesis using * [of us] * (1) [of "[]"] by (cases "us = []") auto
  qed
  then show ?case
  proof cases
    case whole
    then show ?thesis
      using decode_frame_bytes [OF assms(1), of us] Cons.prems(1) by (subst read_frame.simps) simp
  next
    case part
    then have "read_frame max_frame_size buf (c # cs) = read_frame max_frame_size (buf @ c) cs"
      using decode_frame_bytes_prefix [OF assms(1)] Cons.prems(1) by (subst read_frame.simps) simp
    then show ?thesis using Cons.IH [of "buf @ c"] Cons.prems by simp
  qed
qed

lemma read_frames_chunks:
  assumes "\<forall>f \<in> set fs. frame_ok max_frame_size f" "\<forall>c \<in> set chunks. c \<noteq> []"
    and "buf @ concat chunks = concat (map frame_bytes fs) @ later"
  shows "\<exists>buf' chunks'. read_frames max_frame_size (length fs) buf chunks = Inr (fs, buf', chunks') \<and>
    buf' @ concat chunks' = later \<and> (\<forall>c \<in> set chunks'. c \<noteq> [])"
  using assms
proof (induction fs arbitrary: buf chunks)
  case (Cons f fs)
  obtain b cs where "read_frame max_frame_size buf chunks = Inr (f, b, cs)"
    "b @ concat cs = concat (map frame_bytes fs) @ later" "\<forall>c \<in> set cs. c \<noteq> []"
    using read_frame_chunks [of max_frame_size f chunks buf "concat (map frame_bytes fs) @ later"] Cons.prems by auto
  with Cons.IH [of cs b] Cons.prems(1) show ?case by auto
qed simp

subsection \<open>Gathered writes equal inline writes\<close>

text \<open>What a transport has queued, in wire order, and the positions it keeps for held bodies.\<close>

definition wire :: "framed \<Rightarrow> bytes" where
  "wire t = concat (gather (write_buf t) 0 (out_bodies t))"

definition framed_inv :: "framed \<Rightarrow> bool" where
  "framed_inv t \<longleftrightarrow> sorted (map fst (out_bodies t)) \<and> (\<forall>e \<in> set (out_bodies t). fst e \<le> length (write_buf t) \<and> snd e \<noteq> []) \<and>
    (write_buf t = [] \<longrightarrow> out_bodies t = [])"

lemma concat_gather [simp]:
  "concat (gather wb pos []) = drop pos wb"
  "concat (gather wb pos ((off, body) # bodies)) = take (off - pos) (drop pos wb) @ body @ concat (gather wb off bodies)"
  by auto

declare gather.simps [simp del]

lemma gather_append:
  assumes "sorted (map fst bodies)" "\<forall>(off, b) \<in> set bodies. pos \<le> off \<and> off \<le> length wb" "pos \<le> length wb"
    and "\<forall>(off, b) \<in> set tail. length wb \<le> off"
  shows "concat (gather (wb @ h) pos (bodies @ tail)) =
    concat (gather wb pos bodies) @ concat (gather (wb @ h) (length wb) tail)"
  using assms(1-3)
proof (induction bodies arbitrary: pos)
  case Nil
  then show ?case
    using assms(4) by (cases tail) (auto simp: take_append drop_append)
next
  case (Cons e es)
  obtain off b where e: "e = (off, b)" by (cases e)
  have "concat (gather (wb @ h) off (es @ tail)) = concat (gather wb off es) @ concat (gather (wb @ h) (length wb) tail)"
    using Cons.prems by (intro Cons.IH) (auto simp: e)
  with Cons.prems show ?case by (simp add: e take_append drop_append)
qed

lemma wire_append:
  assumes "framed_inv t" "write_buf t' = write_buf t @ h" "out_bodies t' = out_bodies t @ tail"
    and "\<forall>(off, b) \<in> set tail. length (write_buf t) \<le> off"
  shows "wire t' = wire t @ concat (gather (write_buf t @ h) (length (write_buf t)) tail)"
  using assms gather_append [of "out_bodies t" 0 "write_buf t" tail h]
  by (auto simp: wire_def framed_inv_def split_beta)

lemma wire_queue_amqp:
  "framed_inv t \<Longrightarrow> wire (queue_amqp ch perf payload t) = wire t @ encode_amqp_frame ch perf payload []"
  using wire_append [of t "queue_amqp ch perf payload t" "encode_amqp_frame ch perf payload []" "[]"]
  by (simp add: queue_amqp_def encode_amqp_frame_eq [of _ _ _ "write_buf t"] encode_amqp_frame_eq [of _ _ _ "[]"])

lemma wire_queue_transfer:
  assumes "framed_inv t"
  shows "wire (queue_transfer ch perf body t) = wire t @ encode_amqp_frame ch perf (Some body) []"
proof (cases "vectored t \<and> length body \<ge> BODY_SEGMENT_THRESHOLD")
  case True
  let ?h = "frame_layout FRAME_TYPE_AMQP ch (encode_performative perf []) (length body)"
  have "wire (queue_transfer ch perf body t) =
      wire t @ concat (gather (write_buf t @ ?h) (length (write_buf t)) [(length (write_buf t @ ?h), body)])"
    using True assms by (intro wire_append) (auto simp: queue_transfer_def Let_def encode_amqp_header_eq)
  then show ?thesis by (simp add: encode_amqp_frame_eq frame_layout_append)
next
  case False
  then have "queue_transfer ch perf body t = queue_amqp ch perf (Some body) t"
    by (auto simp: queue_transfer_def queue_amqp_def)
  then show ?thesis by (simp add: wire_queue_amqp [OF assms])
qed

lemma wire_queue_sasl: "framed_inv t \<Longrightarrow> wire (queue_sasl f t) = wire t @ encode_sasl f []"
  using wire_append [of t "queue_sasl f t" "encode_sasl f []" "[]"]
  by (simp add: queue_sasl_def encode_sasl_eq [of _ "write_buf t"] encode_sasl_eq [of _ "[]"])

lemma wire_queue_empty: "framed_inv t \<Longrightarrow> wire (queue_empty ch t) = wire t @ encode_empty_frame ch []"
  using wire_append [of t "queue_empty ch t" "encode_empty_frame ch []" "[]"]
  by (simp add: queue_empty_def encode_empty_frame_eq [of _ "write_buf t"] encode_empty_frame_eq [of _ "[]"])

lemma framed_inv_queue:
  assumes "framed_inv t"
  shows "framed_inv (queue_amqp ch perf payload t)" "framed_inv (queue_transfer ch perf body t)"
    "framed_inv (queue_sasl f t)" "framed_inv (queue_empty ch t)"
proof -
  have ge: "framed_inv (t\<lparr>write_buf := write_buf t @ frame_layout x c b n\<rparr>)" for x c b n
    using assms by (auto simp: framed_inv_def)
  show "framed_inv (queue_amqp ch perf payload t)" "framed_inv (queue_sasl f t)" "framed_inv (queue_empty ch t)"
    by (simp_all add: queue_amqp_def queue_sasl_def queue_empty_def encode_amqp_frame_eq encode_sasl_eq
        encode_empty_frame_eq ge)
  show "framed_inv (queue_transfer ch perf body t)"
  proof (cases "vectored t \<and> length body \<ge> BODY_SEGMENT_THRESHOLD")
    case True
    then show ?thesis
      using assms
      by (auto simp: queue_transfer_def encode_amqp_header_eq Let_def framed_inv_def sorted_append
          BODY_SEGMENT_THRESHOLD_def)
  next
    case False
    then have "queue_transfer ch perf body t = queue_amqp ch perf (Some body) t"
      by (auto simp: queue_transfer_def queue_amqp_def)
    then show ?thesis by (simp add: queue_amqp_def encode_amqp_frame_eq ge)
  qed
qed

lemma concat_advance_slices: "concat (advance_slices n ss) = drop n (concat ss)"
  by (induction n ss rule: advance_slices.induct) auto

lemma write_gathered_complete:
  assumes "write_gathered ns ss = (out, Inr True)"
  shows "out = concat ss"
  using assms
proof (induction ns ss arbitrary: out rule: write_gathered.induct)
  case (3 n ns s ss)
  then obtain out' where rec: "write_gathered ns (advance_slices n (s # ss)) = (out', Inr True)"
    and out: "out = take n (concat (s # ss)) @ out'" and n: "n \<noteq> 0"
    by (auto split: if_splits prod.splits)
  have "out' = drop n (concat (s # ss))"
    using "3.IH" [OF n rec] by (simp only: concat_advance_slices)
  then show ?case by (simp only: out append_take_drop_id)
qed simp_all

text \<open>Writes that accept at least one byte each finish after at most as many calls as there are bytes.\<close>

lemma write_gathered_terminates:
  assumes "\<forall>n \<in> set ns. 0 < n" "\<forall>s \<in> set ss. s \<noteq> []" "length (concat ss) \<le> length ns"
  shows "write_gathered ns ss = (concat ss, Inr True)"
proof -
  have "snd (write_gathered ns ss) = Inr True"
    using assms
  proof (induction ns ss rule: write_gathered.induct)
    case (2 s ss)
    then show ?case by simp
  next
    case (3 n ns s ss)
    have ne: "\<forall>x \<in> set (advance_slices n (s # ss)). x \<noteq> []"
    proof -
      have "\<forall>x \<in> set (advance_slices k zs). x \<noteq> []" if "\<forall>x \<in> set zs. x \<noteq> []" for k zs
        using that by (induction k zs rule: advance_slices.induct) auto
      then show ?thesis using "3.prems"(2) by blast
    qed
    have "length (concat (advance_slices n (s # ss))) \<le> length ns"
      using "3.prems"(1,3) unfolding concat_advance_slices length_drop by auto
    then have "snd (write_gathered ns (advance_slices n (s # ss))) = Inr True"
      using "3.prems" ne by (intro "3.IH") (auto simp del: advance_slices.simps)
    then show ?case using "3.prems"(1) by (auto split: prod.split simp del: advance_slices.simps)
  qed simp
  then obtain out where "write_gathered ns ss = (out, Inr True)" by (cases "write_gathered ns ss") auto
  with write_gathered_complete [OF this] show ?thesis by simp
qed

lemma gather_slices:
  assumes "sorted (map fst bodies)" "\<forall>e \<in> set bodies. pos \<le> fst e \<and> fst e \<le> length wb \<and> snd e \<noteq> []" "pos \<le> length wb"
  shows "\<forall>s \<in> set (gather wb pos bodies). s \<noteq> []"
    and "length (concat (gather wb pos bodies)) = length wb - pos + sum_list (map (\<lambda>(_, b). length b) bodies)"
  using assms
proof (induction bodies arbitrary: pos)
  case Nil
  {
    case 1
    then show ?case by (simp add: gather.simps)
  next
    case 2
    then show ?case by simp
  }
next
  case (Cons e es)
  obtain off b where e: "e = (off, b)" by (cases e)
  {
    case 1
    then show ?case using Cons.IH(1) [of off] by (auto simp: e gather.simps)
  next
    case 2
    then show ?case using Cons.IH(2) [of off] by (auto simp: e)
  }
qed

lemma length_wire: "framed_inv t \<Longrightarrow> length (wire t) = pending_bytes t"
  using gather_slices(2) [of "out_bodies t" 0 "write_buf t"] by (simp add: wire_def framed_inv_def pending_bytes_def)

lemma flush_wire_completes:
  assumes "framed_inv t" "\<forall>n \<in> set ns. 0 < n" "pending_bytes t \<le> length ns"
  shows "\<exists>t'. flush_wire ns t = ((wire t, Inr True), t')"
proof -
  have "write_gathered ns (gather (write_buf t) 0 (out_bodies t)) = (wire t, Inr True)"
    unfolding wire_def
    using assms gather_slices [of "out_bodies t" 0 "write_buf t"] length_wire [OF assms(1)]
    by (intro write_gathered_terminates) (auto simp: framed_inv_def wire_def)
  then show ?thesis
    using assms(1) by (auto simp: flush_wire_def framed_inv_def wire_def)
qed

lemma flush_wire_written:
  assumes "framed_inv t" "flush_wire ns t = ((out, Inr True), t')"
  shows "out = wire t" "write_buf t' = []" "out_bodies t' = []" "vectored t' = vectored t"
proof -
  have empty: "out_bodies t = [] \<Longrightarrow> wire t = write_buf t"
    by (simp add: wire_def)
  show "out = wire t" "write_buf t' = []" "out_bodies t' = []" "vectored t' = vectored t"
    using assms empty write_gathered_complete [of ns "gather (write_buf t) 0 (out_bodies t)" out]
    by (auto simp: flush_wire_def framed_inv_def wire_def split: if_splits prod.splits)
qed

datatype queue_op =
    QueueAmqp u16 performative "bytes option"
  | QueueTransfer u16 performative bytes
  | QueueSasl sasl_frame
  | QueueEmpty u16

fun wire_step :: "queue_op \<Rightarrow> framed \<Rightarrow> framed" where
  "wire_step (QueueAmqp ch perf payload) t = queue_amqp ch perf payload t"
| "wire_step (QueueTransfer ch perf body) t = queue_transfer ch perf body t"
| "wire_step (QueueSasl f) t = queue_sasl f t"
| "wire_step (QueueEmpty ch) t = queue_empty ch t"

text \<open>The frame that the peer is meant to see: an empty payload is the same as none.\<close>

fun op_frame :: "queue_op \<Rightarrow> frame" where
  "op_frame (QueueAmqp ch perf payload) =
    \<lparr>fr_channel = ch, fr_body = AmqpBody perf (if payload = Some [] then None else payload)\<rparr>"
| "op_frame (QueueTransfer ch perf body) =
    \<lparr>fr_channel = ch, fr_body = AmqpBody perf (if body = [] then None else Some body)\<rparr>"
| "op_frame (QueueSasl f) = \<lparr>fr_channel = 0, fr_body = SaslBody f\<rparr>"
| "op_frame (QueueEmpty ch) = \<lparr>fr_channel = ch, fr_body = EmptyBody\<rparr>"

lemma queue_step_wire:
  assumes "framed_inv t"
  shows "framed_inv (wire_step op t)" "wire (wire_step op t) = wire t @ frame_bytes (op_frame op)"
    "vectored (wire_step op t) = vectored t"
proof -
  show "framed_inv (wire_step op t)" by (cases op) (simp_all add: framed_inv_queue assms)
  show "wire (wire_step op t) = wire t @ frame_bytes (op_frame op)"
    by (cases op) (auto simp: wire_queue_amqp wire_queue_transfer wire_queue_sasl wire_queue_empty assms frame_bytes_def
        encode_amqp_frame_eq split: option.split)
  show "vectored (wire_step op t) = vectored t"
    by (cases op) (simp_all add: queue_amqp_def queue_transfer_def queue_sasl_def queue_empty_def Let_def)
qed

lemma queue_steps_wire:
  "framed_inv t \<Longrightarrow> framed_inv (fold wire_step ops t) \<and>
    wire (fold wire_step ops t) = wire t @ concat (map (\<lambda>op. frame_bytes (op_frame op)) ops)"
  by (induction ops arbitrary: t) (simp_all add: queue_step_wire)

definition new_framed :: "bool \<Rightarrow> framed" where
  "new_framed v = \<lparr>write_buf = [], out_bodies = [], vectored = v\<rparr>"

lemma new_framed_wire: "framed_inv (new_framed v)" "wire (new_framed v) = []"
  by (simp_all add: new_framed_def framed_inv_def wire_def)

subsection \<open>Properties\<close>

text \<open>
  C6: any sequence of queued frames, on a vectored stream or not, is put on the wire by one flush
  whose writes make progress, and a reader that receives those bytes in arbitrary non-empty
  chunks returns exactly the queued frames in order and leaves nothing over.
\<close>

theorem transport_delivers_frames:
  fixes ops :: "queue_op list" and v :: bool
  assumes "\<forall>op \<in> set ops. frame_ok max_frame_size (op_frame op)"
    and "\<forall>n \<in> set ns. 0 < n" "pending_bytes (fold wire_step ops (new_framed v)) \<le> length ns"
    and "flush_wire ns (fold wire_step ops (new_framed v)) = ((out, r), t')"
    and "concat chunks = out" "\<forall>c \<in> set chunks. c \<noteq> []"
  shows "r = Inr True \<and> read_frames max_frame_size (length ops) [] chunks = Inr (map op_frame ops, [], []) \<and>
    write_buf t' = [] \<and> out_bodies t' = []"
proof -
  let ?t = "fold wire_step ops (new_framed v)"
  have inv: "framed_inv ?t" and w: "wire ?t = concat (map frame_bytes (map op_frame ops))"
    using queue_steps_wire [OF new_framed_wire(1), of ops v] by (simp_all add: new_framed_wire comp_def)
  have flushed: "r = Inr True" "out = wire ?t"
    using flush_wire_completes [OF inv assms(2,3)] assms(4) by auto
  obtain buf' chunks' where rd: "read_frames max_frame_size (length (map op_frame ops)) [] chunks =
      Inr (map op_frame ops, buf', chunks')" "buf' @ concat chunks' = []" "\<forall>c \<in> set chunks'. c \<noteq> []"
    using read_frames_chunks [of "map op_frame ops" max_frame_size chunks "[]" "[]"] assms(1,5,6) flushed w
    by auto
  then have rest: "buf' = []" "chunks' = []" by (cases chunks'; auto)+
  have "flush_wire ns ?t = ((out, Inr True), t')" using assms(4) flushed(1) by simp
  from flush_wire_written(2,3) [OF inv this] rd(1) flushed(1) show ?thesis
    unfolding rest length_map by blast
qed

text \<open>A witness with a heartbeat, an end performative, a SASL response and a transfer whose body is held out.\<close>

definition sample_transfer :: performative where
  "sample_transfer = PTransfer \<lparr>tr_handle = 3, tr_delivery_id = Some 1, tr_delivery_tag = Some [7], tr_message_format = Some 0,
    tr_settled = Some True, tr_more = False, tr_rcv_settle_mode = None, tr_state = None, tr_resume = False, tr_aborted = False,
    tr_batchable = False\<rparr>"

definition sample_ops :: "queue_op list" where
  "sample_ops = [QueueEmpty 0, QueueAmqp 5 (PEnd \<lparr>en_error = None\<rparr>) (Some []),
    QueueSasl (FResponse \<lparr>sr_response = [1, 2]\<rparr>), QueueTransfer 5 sample_transfer (replicate 4096 9)]"

lemmas field_eval =
  length_described_layout encode_descriptor_def encode_option_def encode_null_def encode_prim_defs put_defs

lemma sample_lengths:
  "length (encode_performative sample_transfer []) = 27"
  "length (encode_performative (PEnd \<lparr>en_error = None\<rparr>) []) = 12"
  "length (encode_sasl_frame (FResponse \<lparr>sr_response = [1, 2]\<rparr>) []) = 16"
  by (simp_all add: sample_transfer_def transfer_codec.encode_layout end_codec.encode_layout
      sasl_response_codec.encode_layout transfer_flds_def end_flds_def sasl_response_flds_def field_eval)

lemma sample_ok: "\<forall>op \<in> set sample_ops. frame_ok 8192 (op_frame op)"
proof -
  have "transfer_ok (case sample_transfer of PTransfer t \<Rightarrow> t)" "performative_ok (PEnd \<lparr>en_error = None\<rparr>)"
    "sasl_frame_ok (FResponse \<lparr>sr_response = [1, 2]\<rparr>)"
    using sample_lengths by (simp_all add: sample_transfer_def transfer_ok_def var_ok_def end_ok_def sasl_response_ok_def)
  then show ?thesis
    using sample_lengths
    by (auto simp: sample_ops_def frame_ok_def frame_bytes_def encode_amqp_frame_eq encode_sasl_eq encode_empty_frame_eq
        sample_transfer_def)
qed

lemma sample_pending: "pending_bytes (fold wire_step sample_ops (new_framed v)) = 4183"
proof -
  have "pending_bytes (fold wire_step sample_ops (new_framed v)) =
      length (concat (map (\<lambda>op. frame_bytes (op_frame op)) sample_ops))"
    using queue_steps_wire [OF new_framed_wire(1), of sample_ops v] by (simp add: length_wire [symmetric] new_framed_wire)
  also have "\<dots> = 4183"
    using sample_lengths
    by (simp add: sample_ops_def frame_bytes_def encode_amqp_frame_eq encode_sasl_eq encode_empty_frame_eq)
  finally show ?thesis .
qed

theorem transport_delivers_frames_witness:
  "\<exists>out t'. flush_wire (replicate 5000 7) (fold wire_step sample_ops (new_framed True)) = ((out, Inr True), t') \<and>
    read_frames 8192 4 [] [take 10 out, drop 10 out] = Inr (map op_frame sample_ops, [], [])"
proof -
  let ?t = "fold wire_step sample_ops (new_framed True)" and ?ns = "replicate 5000 (7 :: nat)"
  have inv: "framed_inv ?t" using queue_steps_wire [OF new_framed_wire(1)] by blast
  obtain t' where fl: "flush_wire ?ns ?t = ((wire ?t, Inr True), t')"
    using flush_wire_completes [OF inv, of ?ns] sample_pending [of True] by auto
  have len: "length (wire ?t) = 4183" by (simp only: length_wire [OF inv] sample_pending)
  then have "wire ?t \<noteq> []" by auto
  with len have "read_frames 8192 (length sample_ops) [] [take 10 (wire ?t), drop 10 (wire ?t)] = Inr (map op_frame sample_ops, [], [])"
    using transport_delivers_frames [OF sample_ok, of ?ns True "wire ?t" "Inr True" t' "[take 10 (wire ?t), drop 10 (wire ?t)]"]
      fl sample_pending [of True] by auto
  moreover have "length sample_ops = 4" by (simp add: sample_ops_def)
  ultimately show ?thesis using fl by auto
qed

end
