(* ===== verification/Session_State.thy ===== *)
theory Session_State
  imports Session_Window Link_State Id_Allocators Transport_Frame
begin

section \<open>The session state machine (\<open>ramqp-core/src/session/state.rs\<close>)\<close>

text \<open>
  A session owns its windows, its handle allocator and its links. Every operation of the source is a
  function from the session to the session and the list of its effects, in order: frames queued on
  the transport, replies completed and events pushed. Metrics only observe and are left out. The
  links are a hash map; an operation that iterates over them takes the iteration order as the list
  \<open>order\<close>, which a caller instantiates with any enumeration of the handles.
\<close>

datatype session_phase = BeginSent | Mapped | EndSent | Ended

record incoming_delivery =
  id_handle :: u32
  id_delivery_id :: u32
  id_delivery_tag :: bytes
  id_message :: bytes
  id_settled :: bool
  id_state :: "delivery_state option"

datatype link_event =
    DeliveryEvent incoming_delivery
  | DispositionEvent u32 u32 delivery_state bool
  | CreditEvent u32 u32 bool
  | DetachedEvent u32 "err option"

datatype link_failure =
    HandleMaxExhausted
  | DuplicateAttach utf8 role
  | NoSuchSenderLink

text \<open>
  \<open>Emit\<close> waits for room in the event channel; \<open>TryEmit\<close> drops the event when there is none.
\<close>

datatype effect =
    Queue queue_op
  | ReplyBegin reply u16 u64
  | ReplyEnd reply "err option"
  | SessionEnded "err option"
  | ReplyAttach reply "link_failure + u32 \<times> attach"
  | ReplyDetach reply
  | ReplySend reply "link_failure + delivery_state"
  | Emit events link_event
  | TryEmit events link_event

datatype session_failure =
    InterleavedDelivery
  | Panicked rust_panic

record session =
  ss_session_id :: u64
  ss_local_channel :: u16
  ss_remote_channel :: "u16 option"
  ss_phase :: session_phase
  ss_windows :: session_windows
  ss_handles :: handle_allocator
  ss_remote_handles :: remote_handles
  ss_links :: "u32 \<rightharpoonup> link"
  ss_link_handles :: "utf8 \<times> role \<rightharpoonup> u32"
  ss_pending_begin :: "reply option"
  ss_pending_end :: "reply option"

record accepted_link =
  al_handle :: u32
  al_role :: role

definition default_begin :: begin_perf where
  "default_begin = \<lparr>bg_remote_channel = None, bg_next_outgoing_id = 0, bg_incoming_window = 0, bg_outgoing_window = 0,
    bg_handle_max = - 1, bg_offered_capabilities = [], bg_desired_capabilities = [], bg_properties = None\<rparr>"

definition default_attach :: attach where
  "default_attach = \<lparr>at_name = [], at_handle = 0, at_role = Sender, at_snd_settle_mode = Mixed, at_rcv_settle_mode = First,
    at_source = None, at_target = None, at_unsettled = None, at_incomplete_unsettled = False,
    at_initial_delivery_count = None, at_max_message_size = None, at_offered_capabilities = [],
    at_desired_capabilities = [], at_properties = None\<rparr>"

definition default_transfer :: transfer where
  "default_transfer = \<lparr>tr_handle = 0, tr_delivery_id = None, tr_delivery_tag = None, tr_message_format = None,
    tr_settled = None, tr_more = False, tr_rcv_settle_mode = None, tr_state = None, tr_resume = False,
    tr_aborted = False, tr_batchable = False\<rparr>"

subsection \<open>Lifecycle\<close>

definition new_session :: "u64 \<Rightarrow> u16 \<Rightarrow> begin_perf \<Rightarrow> reply \<Rightarrow> session" where
  "new_session session_id local_channel b pending_begin =
    (let windows = new_windows \<lparr>sc_incoming_window = bg_incoming_window b, sc_outgoing_window = bg_outgoing_window b,
           sc_handle_max = bg_handle_max b\<rparr>;
         windows = windows\<lparr>sw_next_outgoing_id := bg_next_outgoing_id b\<rparr>
     in \<lparr>ss_session_id = session_id, ss_local_channel = local_channel, ss_remote_channel = None, ss_phase = BeginSent,
         ss_windows = windows, ss_handles = new_handles (bg_handle_max b), ss_remote_handles = Map.empty,
         ss_links = Map.empty, ss_link_handles = Map.empty, ss_pending_begin = Some pending_begin, ss_pending_end = None\<rparr>)"

definition session_on_peer_begin :: "u16 \<Rightarrow> begin_perf \<Rightarrow> session \<Rightarrow> session \<times> effect list" where
  "session_on_peer_begin remote_channel b s =
    (if ss_phase s \<noteq> BeginSent then (s, [])
     else (s\<lparr>ss_remote_channel := Some remote_channel, ss_windows := windows_on_peer_begin b (ss_windows s),
             ss_phase := Mapped, ss_pending_begin := None\<rparr>,
           case ss_pending_begin s of
             Some reply \<Rightarrow> [ReplyBegin reply (ss_local_channel s) (ss_session_id s)]
           | None \<Rightarrow> []))"

definition accept_peer_begin :: "u64 \<Rightarrow> u16 \<Rightarrow> u16 \<Rightarrow> begin_perf \<Rightarrow> session_config \<Rightarrow> session \<times> begin_perf" where
  "accept_peer_begin session_id local_channel remote_channel peer_begin config =
    (let windows = windows_on_peer_begin peer_begin (new_windows config);
         handle_max = min (sc_handle_max config) (bg_handle_max peer_begin);
         s = \<lparr>ss_session_id = session_id, ss_local_channel = local_channel, ss_remote_channel = Some remote_channel,
              ss_phase = Mapped, ss_windows = windows, ss_handles = new_handles handle_max,
              ss_remote_handles = Map.empty, ss_links = Map.empty, ss_link_handles = Map.empty,
              ss_pending_begin = None, ss_pending_end = None\<rparr>
     in (s, default_begin\<lparr>bg_remote_channel := Some remote_channel,
              bg_next_outgoing_id := sw_next_outgoing_id (ss_windows s), bg_incoming_window := sc_incoming_window config,
              bg_outgoing_window := sc_outgoing_window config, bg_handle_max := sc_handle_max config\<rparr>))"

definition begin_end :: "reply \<Rightarrow> session \<Rightarrow> session" where
  "begin_end reply s = s\<lparr>ss_phase := EndSent, ss_pending_end := Some reply\<rparr>"

definition is_ending :: "session \<Rightarrow> bool" where
  "is_ending s \<longleftrightarrow> ss_phase s = EndSent"

definition session_on_peer_end :: "err option \<Rightarrow> session \<Rightarrow> session \<times> effect list" where
  "session_on_peer_end e s =
    (s\<lparr>ss_phase := Ended, ss_pending_end := None\<rparr>,
     case ss_pending_end s of
       Some reply \<Rightarrow> [ReplyEnd reply e]
     | None \<Rightarrow> [SessionEnded e])"

definition build_end :: "err option \<Rightarrow> end_perf" where
  "build_end e = \<lparr>en_error = e\<rparr>"

subsection \<open>Attaching\<close>

definition link_flow :: "u32 \<Rightarrow> link_credit \<Rightarrow> session_windows \<Rightarrow> flow" where
  "link_flow handle credit windows = (build_flow windows)\<lparr>
    fl_handle := Some handle, fl_delivery_count := Some (lc_delivery_count credit),
    fl_link_credit := Some (lc_link_credit credit), fl_available := Some (lc_available credit),
    fl_drain := lc_drain credit\<rparr>"

definition put_link :: "u32 \<Rightarrow> link \<Rightarrow> session \<Rightarrow> session" where
  "put_link h l s = s\<lparr>ss_links := (ss_links s)(h \<mapsto> l)\<rparr>"

definition queue_perf :: "session \<Rightarrow> performative \<Rightarrow> effect" where
  "queue_perf s perf = Queue (QueueAmqp (ss_local_channel s) perf None)"

definition attach_link :: "attach \<Rightarrow> credit_mode \<Rightarrow> events \<Rightarrow> reply \<Rightarrow> session \<Rightarrow> session \<times> effect list" where
  "attach_link a credit_mode events reply s =
    (case allocate_handle (ss_handles s) of
       (None, hs) \<Rightarrow> (s\<lparr>ss_handles := hs\<rparr>, [ReplyAttach reply (Inl HandleMaxExhausted)])
     | (Some handle, hs) \<Rightarrow>
         let a = a\<lparr>at_handle := handle\<rparr>;
             name = at_name a;
             s = s\<lparr>ss_handles := hs, ss_link_handles := (ss_link_handles s)((name, at_role a) \<mapsto> handle)\<rparr>;
             (a, l) = (case at_role a of
                 Sender \<Rightarrow>
                   (if at_initial_delivery_count a = None then a\<lparr>at_initial_delivery_count := Some 0\<rparr> else a,
                    LSender (new_sender handle name events reply (at_snd_settle_mode a) credit_mode))
               | Receiver \<Rightarrow>
                   (a, LReceiver (new_receiver handle name events reply (at_rcv_settle_mode a) credit_mode
                        (at_max_message_size a))))
         in (put_link handle l s, [queue_perf s (PAttach a)]))"

text \<open>What the peer's responding attach does to the link it names, and the flow that grants credit.\<close>

definition bind_peer :: "attach \<Rightarrow> session_windows \<Rightarrow> link \<Rightarrow> link \<times> flow option" where
  "bind_peer a windows l =
    (case mark_attached (set_remote_handle (at_handle a) l) of
       LSender sl \<Rightarrow> (LSender sl, None)
     | LReceiver r \<Rightarrow>
         let r = r\<lparr>rl_settle_mode := at_rcv_settle_mode a\<rparr>;
             r = (case at_initial_delivery_count a of
                    Some idc \<Rightarrow> r\<lparr>rl_credit := (rl_credit r)\<lparr>lc_delivery_count := idc\<rparr>\<rparr>
                  | None \<Rightarrow> r);
             grant = initial_credit r
         in if grant > 0
            then let r = r\<lparr>rl_credit := set_credit grant (rl_credit r)\<rparr>
                 in (LReceiver r, Some (link_flow (rl_handle r) (rl_credit r) windows))
            else (LReceiver r, None))"

definition on_peer_attach :: "attach \<Rightarrow> session \<Rightarrow> session \<times> effect list" where
  "on_peer_attach a s =
    (case ss_link_handles s (at_name a, opposite (at_role a)) of
       None \<Rightarrow> (s, [])
     | Some local \<Rightarrow>
         (case ss_links s local of
            None \<Rightarrow> (s, [])
          | Some l \<Rightarrow>
              if link_remote_handle l \<noteq> None then (s, [])
              else let s = s\<lparr>ss_remote_handles := bind_handle (at_handle a) local (ss_remote_handles s)\<rparr>;
                       (l, flow_to_send) = bind_peer a (ss_windows s) l;
                       (pending, l) = take_pending_attach l
                   in (put_link local l s,
                       (case pending of Some reply \<Rightarrow> [ReplyAttach reply (Inr (local, a))] | None \<Rightarrow> []) @
                       (case flow_to_send of Some f \<Rightarrow> [queue_perf s (PFlow f)] | None \<Rightarrow> []))))"

definition knows_link :: "utf8 \<Rightarrow> role \<Rightarrow> session \<Rightarrow> bool" where
  "knows_link name remote_role s \<longleftrightarrow> ss_link_handles s (name, opposite remote_role) \<noteq> None"

definition accept_peer_attach ::
    "attach \<Rightarrow> credit_mode \<Rightarrow> u32 \<Rightarrow> u64 option \<Rightarrow> events \<Rightarrow> session \<Rightarrow> (link_failure + accepted_link) \<times> session \<times> effect list" where
  "accept_peer_attach a credit_mode credit max_message_size events s =
    (let our_role = opposite (at_role a) in
     if ss_link_handles s (at_name a, our_role) \<noteq> None then (Inl (DuplicateAttach (at_name a) our_role), s, [])
     else case allocate_handle (ss_handles s) of
       (None, hs) \<Rightarrow> (Inl HandleMaxExhausted, s\<lparr>ss_handles := hs\<rparr>, [])
     | (Some local, hs) \<Rightarrow>
         let s = s\<lparr>ss_handles := hs\<rparr>;
             response = default_attach\<lparr>at_name := at_name a, at_handle := local, at_role := our_role,
               at_snd_settle_mode := at_snd_settle_mode a, at_rcv_settle_mode := at_rcv_settle_mode a,
               at_source := at_source a, at_target := at_target a\<rparr>;
             (response, l, flow_to_send) = (case our_role of
                 Receiver \<Rightarrow>
                   let r = accepted_receiver local (at_name a) events (at_rcv_settle_mode a) credit_mode max_message_size;
                       r = (case at_initial_delivery_count a of
                              Some idc \<Rightarrow> r\<lparr>rl_credit := (rl_credit r)\<lparr>lc_delivery_count := idc\<rparr>\<rparr>
                            | None \<Rightarrow> r);
                       response = response\<lparr>at_max_message_size := max_message_size\<rparr>
                   in if credit > 0
                      then let r = r\<lparr>rl_credit := set_credit credit (rl_credit r)\<rparr>
                           in (response, LReceiver r, Some (link_flow local (rl_credit r) (ss_windows s)))
                      else (response, LReceiver r, None)
               | Sender \<Rightarrow>
                   (response\<lparr>at_initial_delivery_count := Some 0\<rparr>,
                    LSender (accepted_sender local (at_name a) events (at_snd_settle_mode a) credit_mode), None));
             l = mark_attached (set_remote_handle (at_handle a) l);
             s = s\<lparr>ss_link_handles := (ss_link_handles s)((at_name a, our_role) \<mapsto> local),
                   ss_remote_handles := bind_handle (at_handle a) local (ss_remote_handles s)\<rparr>
         in (Inr \<lparr>al_handle = local, al_role = our_role\<rparr>, put_link local l s,
             queue_perf s (PAttach response) #
             (case flow_to_send of Some f \<Rightarrow> [queue_perf s (PFlow f)] | None \<Rightarrow> [])))"

definition refuse_peer_attach :: "attach \<Rightarrow> err \<Rightarrow> session \<Rightarrow> session \<times> effect list" where
  "refuse_peer_attach a e s =
    (let our_role = (case at_role a of Sender \<Rightarrow> Receiver | Receiver \<Rightarrow> Sender);
         (handle, hs) = allocate_handle (ss_handles s);
         local = (case handle of Some h \<Rightarrow> h | None \<Rightarrow> 0);
         response = default_attach\<lparr>at_name := at_name a, at_handle := local, at_role := our_role,
           at_snd_settle_mode := at_snd_settle_mode a, at_rcv_settle_mode := at_rcv_settle_mode a,
           at_source := None, at_target := None\<rparr>;
         hs = (if handle \<noteq> None then release_handle local hs else hs)
     in (s\<lparr>ss_handles := hs\<rparr>,
         [queue_perf s (PAttach response),
          queue_perf s (PDetach \<lparr>de_handle = local, de_closed = True, de_error = Some e\<rparr>)]))"

subsection \<open>Sending\<close>

definition TRANSFER_PERF_BOUND :: nat where
  "TRANSFER_PERF_BOUND = 72"

definition max_payload_per_frame :: "nat \<Rightarrow> nat" where
  "max_payload_per_frame max_frame_size = max (max_frame_size - (8 + TRANSFER_PERF_BOUND)) 1"

text \<open>
  The transfers of a message larger than one frame, from a byte offset on. The payload per frame is
  always positive (\<^const>\<open>max_payload_per_frame\<close>); the loop of the source does not end for zero.
\<close>

function send_chunks ::
    "u16 \<Rightarrow> u32 \<Rightarrow> u32 \<Rightarrow> bytes option \<Rightarrow> bool \<Rightarrow> u32 \<Rightarrow> delivery_state option \<Rightarrow> bytes \<Rightarrow> nat \<Rightarrow> bool \<Rightarrow> nat \<Rightarrow>
     session_windows \<Rightarrow> effect list \<times> session_windows" where
  "send_chunks channel handle delivery_id tag settled message_format state body max_payload first_frame offset windows =
    (if offset < length body \<and> 0 < max_payload then
       let end_offset = min (offset + max_payload) (length body);
           is_last = (end_offset = length body);
           chunk = take (end_offset - offset) (drop offset body);
           t = (if first_frame
                then default_transfer\<lparr>tr_handle := handle, tr_delivery_id := Some delivery_id, tr_delivery_tag := tag,
                       tr_message_format := Some message_format, tr_settled := Some settled, tr_more := \<not> is_last,
                       tr_state := state\<rparr>
                else default_transfer\<lparr>tr_handle := handle, tr_more := \<not> is_last\<rparr>);
           (effects, windows) = send_chunks channel handle delivery_id None settled message_format state body max_payload
             False end_offset (record_outgoing windows)
       in (Queue (QueueTransfer channel (PTransfer t) chunk) # effects, windows)
     else ([], windows))"
  by pat_completeness auto

termination
  by (relation "measure (\<lambda>(_, _, _, _, _, _, _, body, _, _, offset, _). length body - offset)") auto

declare send_chunks.simps [simp del]

definition send_message_frames ::
    "u16 \<Rightarrow> u32 \<Rightarrow> u32 \<Rightarrow> bytes \<Rightarrow> bool \<Rightarrow> u32 \<Rightarrow> delivery_state option \<Rightarrow> bytes \<Rightarrow> nat \<Rightarrow> session_windows \<Rightarrow>
     effect list \<times> session_windows" where
  "send_message_frames channel handle delivery_id tag settled message_format state body max_payload windows =
    (if length body \<le> max_payload then
       ([Queue (QueueTransfer channel (PTransfer (default_transfer\<lparr>tr_handle := handle, tr_delivery_id := Some delivery_id,
           tr_delivery_tag := Some tag, tr_message_format := Some message_format, tr_settled := Some settled,
           tr_more := False, tr_state := state\<rparr>)) body)], record_outgoing windows)
     else send_chunks channel handle delivery_id (Some tag) settled message_format state body max_payload True 0 windows)"

definition div_ceil :: "nat \<Rightarrow> nat \<Rightarrow> nat" where
  "div_ceil a b = (a + b - 1) div b"

text \<open>One message taken from the outbox and put on the wire.\<close>

definition send_pending ::
    "u16 \<Rightarrow> u32 \<Rightarrow> nat \<Rightarrow> pending_send \<Rightarrow> sender_link \<Rightarrow> session_windows \<Rightarrow> effect list \<times> sender_link \<times> session_windows" where
  "send_pending channel handle max_payload p sender windows =
    (let delivery_id = sw_next_outgoing_id windows;
         (tag, sender) = next_delivery_tag sender;
         (effects, windows) = send_message_frames channel handle delivery_id tag (ps_settled p) (ps_message_format p)
           (ps_state p) (ps_body p) max_payload windows;
         sender = sender\<lparr>sl_credit := record_sent (sl_credit sender)\<rparr>
     in if ps_settled p
        then (effects @ (case ps_reply p of Some reply \<Rightarrow> [ReplySend reply (Inr (SAccepted ()))] | None \<Rightarrow> []), sender, windows)
        else (effects,
              sender\<lparr>sl_unsettled := unsettled_insert delivery_id tag None (sl_unsettled sender),
                     sl_pending := (case ps_reply p of Some reply \<Rightarrow> (sl_pending sender)(delivery_id \<mapsto> reply)
                                    | None \<Rightarrow> sl_pending sender)\<rparr>, windows))"

definition frame_count :: "nat \<Rightarrow> pending_send \<Rightarrow> u32" where
  "frame_count max_payload p = of_nat (max (div_ceil (length (ps_body p)) max_payload) 1)"

definition may_send :: "nat \<Rightarrow> pending_send \<Rightarrow> sender_link \<Rightarrow> session_windows \<Rightarrow> bool" where
  "may_send max_payload p sender windows \<longleftrightarrow> sl_attached sender \<and> credit_can_send (sl_credit sender) \<and>
    (ps_settled p \<or> length (sl_unsettled sender) < MAX_UNSETTLED_PER_LINK) \<and>
    frame_count max_payload p \<le> sw_remote_incoming_window windows"

fun flush_outbox ::
    "u16 \<Rightarrow> u32 \<Rightarrow> nat \<Rightarrow> pending_send list \<Rightarrow> sender_link \<Rightarrow> session_windows \<Rightarrow> effect list \<times> sender_link \<times> session_windows" where
  "flush_outbox channel handle max_payload [] sender windows = ([], sender\<lparr>sl_outbox := []\<rparr>, windows)"
| "flush_outbox channel handle max_payload (p # outbox) sender windows =
    (if may_send max_payload p sender windows
     then let (effects, sender, windows) = send_pending channel handle max_payload p sender windows;
              (effects', sender, windows) = flush_outbox channel handle max_payload outbox sender windows
          in (effects @ effects', sender, windows)
     else ([], sender\<lparr>sl_outbox := p # outbox\<rparr>, windows))"

text \<open>A drain completes when nothing is left to send: the remaining credit is consumed and reported.\<close>

definition complete_drain :: "u16 \<Rightarrow> u32 \<Rightarrow> session_windows \<Rightarrow> sender_link \<Rightarrow> effect list \<times> sender_link" where
  "complete_drain channel handle windows sender =
    (let c = sl_credit sender in
     if lc_drain c \<and> sl_outbox sender = [] \<and> lc_link_credit c > 0
     then let c = c\<lparr>lc_delivery_count := lc_delivery_count c + lc_link_credit c, lc_link_credit := 0\<rparr>
          in ([Queue (QueueAmqp channel (PFlow (link_flow handle c windows)) None)],
              sender\<lparr>sl_credit := c\<lparr>lc_drain := False\<rparr>\<rparr>)
     else ([], sender))"

definition flush_sender :: "u32 \<Rightarrow> nat \<Rightarrow> session \<Rightarrow> session \<times> effect list" where
  "flush_sender handle max_frame_size s =
    (case ss_links s handle of
       Some (LSender sender) \<Rightarrow>
         let (effects, sender, windows) = flush_outbox (ss_local_channel s) handle (max_payload_per_frame max_frame_size)
               (sl_outbox sender) sender (ss_windows s);
             (effects', sender) = complete_drain (ss_local_channel s) handle windows sender
         in ((put_link handle (LSender sender) s)\<lparr>ss_windows := windows\<rparr>, effects @ effects')
     | _ \<Rightarrow> (s, []))"

definition send_transfer ::
    "u32 \<Rightarrow> bytes \<Rightarrow> bool \<Rightarrow> u32 \<Rightarrow> delivery_state option \<Rightarrow> reply option \<Rightarrow> nat \<Rightarrow> session \<Rightarrow> session \<times> effect list" where
  "send_transfer handle body settled message_format state reply max_frame_size s =
    (case ss_links s handle of
       Some (LSender sender) \<Rightarrow>
         let p = \<lparr>ps_body = body, ps_settled = settled, ps_message_format = message_format, ps_state = state, ps_reply = reply\<rparr>
         in flush_sender handle max_frame_size
              (put_link handle (LSender (sender\<lparr>sl_outbox := sl_outbox sender @ [p]\<rparr>)) s)
     | _ \<Rightarrow> (s, case reply of Some reply \<Rightarrow> [ReplySend reply (Inl NoSuchSenderLink)] | None \<Rightarrow> []))"

subsection \<open>Receiving\<close>

text \<open>
  What a transfer does to its receiver link: the link afterwards, the event to emit, and whether the
  message exceeds the size cap. A delivery is tracked when the sender did not settle it.
\<close>

definition deliver :: "delivery \<Rightarrow> receiver_link \<Rightarrow> receiver_link \<times> link_event" where
  "deliver d r =
    (let r = r\<lparr>rl_credit := record_received (rl_credit r)\<rparr>;
         r = (if dl_settled d then r
              else r\<lparr>rl_unsettled := unsettled_insert (dl_delivery_id d) (dl_delivery_tag d) None (rl_unsettled r)\<rparr>)
     in (r, DeliveryEvent \<lparr>id_handle = rl_handle r, id_delivery_id = dl_delivery_id d, id_delivery_tag = dl_delivery_tag d,
          id_message = dl_body d, id_settled = dl_settled d, id_state = dl_state d\<rparr>))"

definition exceeds :: "nat \<Rightarrow> u64 \<Rightarrow> bool" where
  "exceeds n cap \<longleftrightarrow> unat cap < n"

definition unwrap_or :: "'a \<Rightarrow> 'a option \<Rightarrow> 'a" where
  "unwrap_or d x = (case x of Some v \<Rightarrow> v | None \<Rightarrow> d)"

text \<open>The first frame of a delivery that the transfer opens.\<close>

definition opened_delivery :: "transfer \<Rightarrow> bytes \<Rightarrow> partial_delivery" where
  "opened_delivery t payload = new_partial (unwrap_or 0 (tr_delivery_id t)) (unwrap_or [] (tr_delivery_tag t))
    (unwrap_or False (tr_settled t)) (tr_state t) payload"

definition receive_transfer ::
    "transfer \<Rightarrow> bytes option \<Rightarrow> receiver_link \<Rightarrow> session_failure + receiver_link \<times> link_event option \<times> bool" where
  "receive_transfer t payload r =
    (if tr_aborted t then Inr (r\<lparr>rl_partial := None, rl_credit := record_received (rl_credit r)\<rparr>, None, False)
     else if (case (rl_partial r, tr_delivery_id t) of (Some p, Some did) \<Rightarrow> pd_delivery_id p \<noteq> did | _ \<Rightarrow> False)
       then Inl InterleavedDelivery
     else let payload = unwrap_or [] payload in
       if rl_partial r = None \<and> \<not> tr_more t then
         if exceeds (length payload) (size_cap r) then Inr (r, None, True)
         else let (r, event) = deliver (complete (opened_delivery t payload)) r in Inr (r, Some event, False)
       else
         let p = (case rl_partial r of Some p \<Rightarrow> partial_append payload p | None \<Rightarrow> opened_delivery t payload) in
         if exceeds (length (pd_buf p)) (size_cap r) then Inr (r\<lparr>rl_partial := None\<rparr>, None, True)
         else if \<not> tr_more t
           then let (r, event) = deliver (complete p) (r\<lparr>rl_partial := None\<rparr>) in Inr (r, Some event, False)
         else Inr (r\<lparr>rl_partial := Some p\<rparr>, None, False))"

definition link_key :: "link \<Rightarrow> utf8 \<times> role" where
  "link_key l = (case l of LSender s \<Rightarrow> (sl_name s, Sender) | LReceiver r \<Rightarrow> (rl_name r, Receiver))"

definition forget_link :: "u32 \<Rightarrow> session \<Rightarrow> session" where
  "forget_link local s =
    (let s = (case ss_links s local of
          Some l \<Rightarrow> s\<lparr>ss_links := (ss_links s)(local := None), ss_link_handles := (ss_link_handles s)(link_key l := None)\<rparr>
        | None \<Rightarrow> s)
     in s\<lparr>ss_handles := release_handle local (ss_handles s)\<rparr>)"

definition unbind_link :: "u32 option \<Rightarrow> session \<Rightarrow> session" where
  "unbind_link remote s = (case remote of
      Some r \<Rightarrow> s\<lparr>ss_remote_handles := unbind_handle r (ss_remote_handles s)\<rparr>
    | None \<Rightarrow> s)"

definition detach_with_error :: "u32 \<Rightarrow> link_error \<Rightarrow> utf8 \<Rightarrow> session \<Rightarrow> session \<times> effect list" where
  "detach_with_error local condition description s =
    (let e = \<lparr>er_condition = Link condition, er_description = Some description, er_info = None\<rparr>;
         remote = Option.bind (ss_links s local) link_remote_handle
     in (forget_link local (unbind_link remote s),
         queue_perf s (PDetach \<lparr>de_handle = local, de_closed = True, de_error = Some e\<rparr>) #
         (case ss_links s local of
            Some l \<Rightarrow> [TryEmit (link_events l) (DetachedEvent local (Some e))]
          | None \<Rightarrow> [])))"

text \<open>The session flow that replenishes an exhausted incoming window.\<close>

definition replenish_session :: "bool \<Rightarrow> session \<Rightarrow> session \<times> effect list" where
  "replenish_session need s =
    (if need
     then let s = s\<lparr>ss_windows := replenish_incoming (ss_windows s)\<rparr>
          in (s, [queue_perf s (PFlow (build_flow (ss_windows s)))])
     else (s, []))"

definition on_transfer :: "transfer \<Rightarrow> bytes option \<Rightarrow> session \<Rightarrow> session_failure + session \<times> effect list" where
  "on_transfer t payload s =
    (case resolve_handle (tr_handle t) (ss_remote_handles s) of
       None \<Rightarrow> Inr (s, [])
     | Some local \<Rightarrow>
         let (need_session_flow, windows) = record_incoming (ss_windows s);
             s = s\<lparr>ss_windows := windows\<rparr>
         in rbind (case ss_links s local of
               Some (LReceiver r) \<Rightarrow>
                 rbind (receive_transfer t payload r) (\<lambda>(r', event, size_exceeded).
                   Inr (put_link local (LReceiver r') s,
                        case event of Some ev \<Rightarrow> [Emit (rl_events r) ev] | None \<Rightarrow> [], size_exceeded))
             | _ \<Rightarrow> Inr (s, [], False)) (\<lambda>(s, emitted, size_exceeded).
           let (s, flows) = replenish_session need_session_flow s;
               (s, detached) = (if size_exceeded
                 then detach_with_error local MessageSizeExceeded (ascii ''assembled message exceeds max-message-size'') s
                 else (s, []))
           in Inr (s, flows @ emitted @ detached)))"

subsection \<open>Settling\<close>

text \<open>The outcome with which a disposition completes a send, if it completes it.\<close>

definition resolution :: "delivery_state option \<Rightarrow> bool \<Rightarrow> delivery_state option" where
  "resolution state settled = (case state of
      Some st \<Rightarrow> if is_terminal st then Some st else if settled then Some (SAccepted ()) else None
    | None \<Rightarrow> if settled then Some (SAccepted ()) else None)"

fun resolve_sends ::
    "delivery_state option \<Rightarrow> bool \<Rightarrow> u32 list \<Rightarrow> sender_link \<Rightarrow> sender_link \<times> effect list" where
  "resolve_sends state settled [] sender = (sender, [])"
| "resolve_sends state settled (i # ids) sender =
    (let (sender, replied) = (case (resolution state settled, sl_pending sender i) of
           (Some rs, Some reply) \<Rightarrow> (sender\<lparr>sl_pending := (sl_pending sender)(i := None)\<rparr>, [ReplySend reply (Inr rs)])
         | _ \<Rightarrow> (sender, []));
         emitted = (case state of
           Some st \<Rightarrow> [TryEmit (sl_events sender) (DispositionEvent (sl_handle sender) i st settled)]
         | None \<Rightarrow> []);
         (sender, effects) = resolve_sends state settled ids sender
     in (sender, replied @ emitted @ effects))"

definition dispose_link :: "disposition \<Rightarrow> link \<Rightarrow> session_failure + link \<times> effect list" where
  "dispose_link d l =
    (let first = di_first d;
         last_id = unwrap_or first (di_last d);
         failed = (\<lambda>r. case r of Inl p \<Rightarrow> Inl (Panicked p) | Inr x \<Rightarrow> Inr x)
     in case (di_role d, l) of
       (Receiver, LSender sender) \<Rightarrow>
         if sl_unsettled sender = [] then Inr (l, [])
         else rbind (failed (apply_disposition first last_id (di_state d) (di_settled d) (sl_unsettled sender)))
           (\<lambda>(affected, m).
             let (sender, effects) = resolve_sends (di_state d) (di_settled d) affected (sender\<lparr>sl_unsettled := m\<rparr>)
             in Inr (LSender sender, effects))
     | (Sender, LReceiver r) \<Rightarrow>
         if rl_unsettled r = [] then Inr (l, [])
         else rbind (failed (apply_disposition first last_id (di_state d) (di_settled d) (rl_unsettled r)))
           (\<lambda>(_, m). Inr (LReceiver (r\<lparr>rl_unsettled := m\<rparr>), []))
     | _ \<Rightarrow> Inr (l, []))"

fun on_disposition :: "u32 list \<Rightarrow> disposition \<Rightarrow> session \<Rightarrow> session_failure + session \<times> effect list" where
  "on_disposition [] d s = Inr (s, [])"
| "on_disposition (h # order) d s =
    (case ss_links s h of
       None \<Rightarrow> on_disposition order d s
     | Some l \<Rightarrow> rbind (dispose_link d l) (\<lambda>(l, effects).
         rbind (on_disposition order d (put_link h l s)) (\<lambda>(s, effects'). Inr (s, effects @ effects'))))"

definition send_disposition ::
    "u32 \<Rightarrow> u32 \<Rightarrow> u32 option \<Rightarrow> delivery_state \<Rightarrow> bool \<Rightarrow> session \<Rightarrow> session_failure + session \<times> effect list" where
  "send_disposition handle first last_id state settled s =
    (let l = unwrap_or first last_id;
         second_mode = (case ss_links s handle of Some (LReceiver r) \<Rightarrow> rl_settle_mode r = Second | _ \<Rightarrow> False);
         wire_settled = (settled \<and> \<not> second_mode);
         queued = queue_perf s (PDisposition \<lparr>di_role = Receiver, di_first = first, di_last = last_id,
           di_settled = wire_settled, di_state = Some state, di_batchable = False\<rparr>)
     in case ss_links s handle of
          Some (LReceiver r) \<Rightarrow>
            if rl_unsettled r = [] then Inr (s, [queued])
            else (case apply_disposition first l (Some state) wire_settled (rl_unsettled r) of
                    Inl p \<Rightarrow> Inl (Panicked p)
                  | Inr (_, m) \<Rightarrow> Inr (put_link handle (LReceiver (r\<lparr>rl_unsettled := m\<rparr>)) s, [queued]))
        | _ \<Rightarrow> Inr (s, [queued]))"

subsection \<open>Flow\<close>

definition grant_credit :: "u32 \<Rightarrow> u32 \<Rightarrow> session \<Rightarrow> session \<times> effect list" where
  "grant_credit handle credit s =
    (case ss_links s handle of
       Some (LReceiver r) \<Rightarrow>
         let r = r\<lparr>rl_credit := credit_grant credit (rl_credit r)\<rparr>
         in (put_link handle (LReceiver r) s, [queue_perf s (PFlow (link_flow handle (rl_credit r) (ss_windows s)))])
     | _ \<Rightarrow> (s, []))"

definition flow_credit :: "flow \<Rightarrow> session \<Rightarrow> session \<times> effect list" where
  "flow_credit f s =
    (case Option.bind (fl_handle f) (\<lambda>h. resolve_handle h (ss_remote_handles s)) of
       None \<Rightarrow> (s, [])
     | Some local \<Rightarrow>
         (case ss_links s local of
            Some (LSender sender) \<Rightarrow>
              let c = apply_flow_as_sender (fl_delivery_count f) (fl_link_credit f) (fl_drain f) (sl_credit sender)
              in (put_link local (LSender (sender\<lparr>sl_credit := c\<rparr>)) s,
                  [TryEmit (sl_events sender) (CreditEvent local (lc_link_credit c) (lc_drain c))])
          | _ \<Rightarrow> (s, [])))"

fun flush_senders :: "u32 list \<Rightarrow> nat \<Rightarrow> session \<Rightarrow> session \<times> effect list" where
  "flush_senders [] max_frame_size s = (s, [])"
| "flush_senders (h # hs) max_frame_size s =
    (let (s, effects) = flush_sender h max_frame_size s;
         (s, effects') = flush_senders hs max_frame_size s
     in (s, effects @ effects'))"

definition stalled :: "u32 list \<Rightarrow> session \<Rightarrow> u32 list" where
  "stalled order s = filter (\<lambda>h. case ss_links s h of Some (LSender sender) \<Rightarrow> sl_outbox sender \<noteq> [] | _ \<Rightarrow> False) order"

definition echo_flow :: "flow \<Rightarrow> session \<Rightarrow> flow" where
  "echo_flow f s =
    (let response = build_flow (ss_windows s) in
     case Option.bind (fl_handle f) (\<lambda>h. resolve_handle h (ss_remote_handles s)) of
       None \<Rightarrow> response
     | Some local \<Rightarrow>
         (case ss_links s local of
            Some (LSender sender) \<Rightarrow> response\<lparr>fl_handle := Some local, fl_delivery_count := Some (lc_delivery_count (sl_credit sender)),
              fl_link_credit := Some (lc_link_credit (sl_credit sender))\<rparr>
          | Some (LReceiver r) \<Rightarrow> response\<lparr>fl_handle := Some local, fl_delivery_count := Some (lc_delivery_count (rl_credit r)),
              fl_link_credit := Some (lc_link_credit (rl_credit r))\<rparr>
          | None \<Rightarrow> response))"

definition on_flow :: "u32 list \<Rightarrow> flow \<Rightarrow> nat \<Rightarrow> session \<Rightarrow> session \<times> effect list" where
  "on_flow order f max_frame_size s =
    (let s = s\<lparr>ss_windows := on_peer_flow f (ss_windows s)\<rparr>;
         (s, credited) = flow_credit f s;
         (s, flushed) = flush_senders (stalled order s) max_frame_size s;
         echoed = (if fl_echo f then [queue_perf s (PFlow (echo_flow f s))] else [])
     in (s, credited @ flushed @ echoed))"

definition send_flow :: "flow \<Rightarrow> session \<Rightarrow> session \<times> effect list" where
  "send_flow f s =
    (let s = (case Option.bind (fl_handle f) (ss_links s) of
           Some (LReceiver r) \<Rightarrow>
             (case fl_link_credit f of
                Some lc \<Rightarrow> put_link (the (fl_handle f)) (LReceiver (r\<lparr>rl_credit := set_credit lc (rl_credit r)\<rparr>)) s
              | None \<Rightarrow> s)
         | _ \<Rightarrow> s);
         win = build_flow (ss_windows s);
         f = f\<lparr>fl_next_incoming_id := fl_next_incoming_id win, fl_incoming_window := fl_incoming_window win,
               fl_next_outgoing_id := fl_next_outgoing_id win, fl_outgoing_window := fl_outgoing_window win\<rparr>
     in (s, [queue_perf s (PFlow f)]))"

subsection \<open>Detaching\<close>

definition detach_link :: "u32 \<Rightarrow> bool \<Rightarrow> err option \<Rightarrow> reply \<Rightarrow> session \<Rightarrow> session \<times> effect list" where
  "detach_link handle closed e reply s =
    (case ss_links s handle of
       Some l \<Rightarrow> (forget_link handle (unbind_link (link_remote_handle l) s),
         [queue_perf s (PDetach \<lparr>de_handle = handle, de_closed = closed, de_error = e\<rparr>), ReplyDetach reply])
     | None \<Rightarrow> (s, [ReplyDetach reply]))"

definition on_peer_detach :: "detach \<Rightarrow> session \<Rightarrow> session \<times> effect list" where
  "on_peer_detach d s =
    (case resolve_handle (de_handle d) (ss_remote_handles s) of
       None \<Rightarrow> (s, [])
     | Some local \<Rightarrow>
         (forget_link local (s\<lparr>ss_remote_handles := unbind_handle (de_handle d) (ss_remote_handles s)\<rparr>),
          (case ss_links s local of Some l \<Rightarrow> [TryEmit (link_events l) (DetachedEvent local (de_error d))] | None \<Rightarrow> []) @
          [queue_perf s (PDetach \<lparr>de_handle = local, de_closed = de_closed d, de_error = None\<rparr>)]))"

subsection \<open>Dispatch\<close>

fun handle_link_frame ::
    "u32 list \<Rightarrow> performative \<Rightarrow> bytes option \<Rightarrow> nat \<Rightarrow> session \<Rightarrow> session_failure + session \<times> effect list" where
  "handle_link_frame order (PAttach a) payload max_frame_size s = Inr (on_peer_attach a s)"
| "handle_link_frame order (PTransfer t) payload max_frame_size s = on_transfer t payload s"
| "handle_link_frame order (PDisposition d) payload max_frame_size s = on_disposition order d s"
| "handle_link_frame order (PFlow f) payload max_frame_size s = Inr (on_flow order f max_frame_size s)"
| "handle_link_frame order (PDetach d) payload max_frame_size s = Inr (on_peer_detach d s)"
| "handle_link_frame order _ payload max_frame_size s = Inr (s, [])"

text \<open>Diagnostics: what each sender link still holds.\<close>

record sender_backlog =
  sb_handle :: u32
  sb_outbox :: nat
  sb_unsettled :: nat
  sb_pending :: nat
  sb_unsettled_ids :: "(u32 \<times> u32) option"

definition session_backlog :: "u32 list \<Rightarrow> session \<Rightarrow> sender_backlog list" where
  "session_backlog order s = concat (map (\<lambda>h. case ss_links s h of
      Some (LSender sender) \<Rightarrow> [\<lparr>sb_handle = h, sb_outbox = length (sl_outbox sender),
        sb_unsettled = length (sl_unsettled sender), sb_pending = card (dom (sl_pending sender)),
        sb_unsettled_ids = id_range (sl_unsettled sender)\<rparr>]
    | _ \<Rightarrow> []) order)"

end
