(* ===== verification/Session_Invariant.thy ===== *)
theory Session_Invariant
  imports Session_State
begin

section \<open>The indexes of a session stay consistent\<close>

text \<open>
  The invariant that ties the handle allocator, the link table, the map from the peer's handles and
  the index by name and role together, and that every operation of the session keeps.
\<close>

fun link_unsettled :: "link \<Rightarrow> unsettled_map" where
  "link_unsettled (LSender s) = sl_unsettled s"
| "link_unsettled (LReceiver r) = rl_unsettled r"

definition session_inv :: "session \<Rightarrow> bool" where
  "session_inv s \<longleftrightarrow> handle_inv (dom (ss_links s)) (ss_handles s) \<and>
    (\<forall>h l. ss_links s h = Some l \<longrightarrow> link_handle l = h \<and> unsettled_inv (link_unsettled l)) \<and>
    (\<forall>r h. ss_remote_handles s r = Some h \<longrightarrow> (\<exists>l. ss_links s h = Some l \<and> link_remote_handle l = Some r)) \<and>
    (\<forall>k h. ss_link_handles s k = Some h \<longrightarrow> (\<exists>l. ss_links s h = Some l \<and> link_key l = k))"

text \<open>The parts of a link that the session's indexes mirror.\<close>

definition same_identity :: "link \<Rightarrow> link \<Rightarrow> bool" where
  "same_identity l l' \<longleftrightarrow> link_handle l' = link_handle l \<and> link_remote_handle l' = link_remote_handle l \<and> link_key l' = link_key l"

named_theorems session_ops \<open>operations that keep the session invariant\<close>

subsection \<open>Updates that do not touch the indexes\<close>

lemma session_inv_frame [simp]:
  "session_inv (s\<lparr>ss_windows := w\<rparr>) = session_inv s"
  "session_inv (s\<lparr>ss_phase := p\<rparr>) = session_inv s"
  "session_inv (s\<lparr>ss_remote_channel := c\<rparr>) = session_inv s"
  "session_inv (s\<lparr>ss_pending_begin := b\<rparr>) = session_inv s"
  "session_inv (s\<lparr>ss_pending_end := e\<rparr>) = session_inv s"
  by (simp_all add: session_inv_def)

lemma put_link_simps [simp]:
  "ss_links (put_link h l s) = (ss_links s)(h \<mapsto> l)"
  "ss_handles (put_link h l s) = ss_handles s"
  "ss_remote_handles (put_link h l s) = ss_remote_handles s"
  "ss_link_handles (put_link h l s) = ss_link_handles s"
  "ss_windows (put_link h l s) = ss_windows s"
  "ss_local_channel (put_link h l s) = ss_local_channel s"
  by (simp_all add: put_link_def)

lemma same_identity_refl [simp]: "same_identity l l"
  by (simp add: same_identity_def)

lemma session_inv_link:
  assumes "session_inv s" "ss_links s h = Some l"
  shows "link_handle l = h" "unsettled_inv (link_unsettled l)"
  using assms by (auto simp: session_inv_def)

lemma session_inv_remote:
  assumes "session_inv s" "ss_remote_handles s r = Some h"
  obtains l where "ss_links s h = Some l" "link_remote_handle l = Some r"
  using assms unfolding session_inv_def by blast

lemma session_inv_key:
  assumes "session_inv s" "ss_link_handles s k = Some h"
  obtains l where "ss_links s h = Some l" "link_key l = k"
  using assms unfolding session_inv_def by blast

lemma session_invI:
  assumes "handle_inv (dom (ss_links s)) (ss_handles s)"
    and "\<And>h l. ss_links s h = Some l \<Longrightarrow> link_handle l = h \<and> unsettled_inv (link_unsettled l)"
    and "\<And>r h. ss_remote_handles s r = Some h \<Longrightarrow> \<exists>l. ss_links s h = Some l \<and> link_remote_handle l = Some r"
    and "\<And>k h. ss_link_handles s k = Some h \<Longrightarrow> \<exists>l. ss_links s h = Some l \<and> link_key l = k"
  shows "session_inv s"
  unfolding session_inv_def using assms by blast

lemma session_inv_put_link:
  assumes "session_inv s" "ss_links s h = Some l" "same_identity l l'" "unsettled_inv (link_unsettled l')"
  shows "session_inv (put_link h l' s)"
proof (rule session_invI, goal_cases)
  case 1
  have "dom ((ss_links s)(h \<mapsto> l')) = dom (ss_links s)" using assms(2) by auto
  then show ?case using assms(1) by (simp add: session_inv_def)
next
  case (2 h' l'')
  then show ?case
    using assms session_inv_link [OF assms(1), of h'] by (auto simp: same_identity_def split: if_splits)
next
  case (3 r h')
  then have "ss_remote_handles s r = Some h'" by simp
  with assms(1) show ?case using assms(2,3) by (elim session_inv_remote) (auto simp: same_identity_def)
next
  case (4 k h')
  then have "ss_link_handles s k = Some h'" by simp
  with assms(1) show ?case using assms(2,3) by (elim session_inv_key) (auto simp: same_identity_def)
qed

subsection \<open>Adding, binding and forgetting links\<close>

lemma session_inv_add:
  assumes "session_inv s" "allocate_handle (ss_handles s) = (Some h, hs)"
    and "link_handle l = h" "unsettled_inv (link_unsettled l)" "link_key l = k"
  shows "session_inv (put_link h l (s\<lparr>ss_handles := hs, ss_link_handles := (ss_link_handles s)(k \<mapsto> h)\<rparr>))"
proof -
  have fresh: "ss_links s h = None" "handle_inv (insert h (dom (ss_links s))) hs"
    using handles.allocate_fresh [OF _ assms(2), of "dom (ss_links s)"] assms(1) by (auto simp: session_inv_def)
  show ?thesis
  proof (rule session_invI, goal_cases)
    case 1
    then show ?case using fresh(2) by simp
  next
    case (2 h' l')
    then show ?case using assms session_inv_link [OF assms(1), of h'] by (auto split: if_splits)
  next
    case (3 r h')
    then have "ss_remote_handles s r = Some h'" by simp
    with assms(1) show ?case using fresh(1) by (elim session_inv_remote) auto
  next
    case (4 k' h')
    show ?case
    proof (cases "k' = k")
      case False
      then have "ss_link_handles s k' = Some h'" using 4 by simp
      with assms(1) show ?thesis using fresh(1) by (elim session_inv_key) auto
    qed (use 4 assms(5) in simp)
  qed
qed

lemma session_inv_bind:
  assumes "session_inv s" "ss_links s h = Some l" "link_remote_handle l = None"
    and "link_handle l' = link_handle l" "link_key l' = link_key l" "link_remote_handle l' = Some r"
    and "unsettled_inv (link_unsettled l')"
  shows "session_inv (put_link h l' (s\<lparr>ss_remote_handles := bind_handle r h (ss_remote_handles s)\<rparr>))"
proof (rule session_invI, goal_cases)
  case 1
  have "dom ((ss_links s)(h \<mapsto> l')) = dom (ss_links s)" using assms(2) by auto
  then show ?case using assms(1) by (simp add: session_inv_def)
next
  case (2 h' l'')
  then show ?case using assms session_inv_link [OF assms(1), of h'] by (auto split: if_splits)
next
  case (3 r' h')
  show ?case
  proof (cases "r' = r")
    case False
    then have "ss_remote_handles s r' = Some h'" using 3 by (simp add: bind_handle_def)
    with assms(1) show ?thesis using assms(2,3) by (elim session_inv_remote) auto
  qed (use 3 assms(6) in \<open>simp add: bind_handle_def\<close>)
next
  case (4 k h')
  then have "ss_link_handles s k = Some h'" by simp
  with assms(1) show ?case using assms(2,5) by (elim session_inv_key) auto
qed

lemma session_inv_forget:
  assumes "session_inv s" "ss_links s h = Some l"
  shows "session_inv (forget_link h (unbind_link (link_remote_handle l) s))"
proof -
  let ?s = "forget_link h (unbind_link (link_remote_handle l) s)"
  have f: "ss_links ?s = (ss_links s)(h := None)" "ss_link_handles ?s = (ss_link_handles s)(link_key l := None)"
    "ss_handles ?s = release_handle h (ss_handles s)"
    using assms(2) by (simp_all add: forget_link_def unbind_link_def split: option.split)
  have r: "ss_remote_handles ?s r = Some h' \<Longrightarrow> ss_remote_handles s r = Some h' \<and> link_remote_handle l \<noteq> Some r" for r h'
    using assms(2) by (auto simp: forget_link_def unbind_link_def unbind_handle_def split: option.splits if_splits)
  show ?thesis
  proof (rule session_invI, goal_cases)
    case 1
    have "dom ((ss_links s)(h := None)) = dom (ss_links s) - {h}" by auto
    then show ?case
      using handles.release_live [of "dom (ss_links s)" "ss_handles s" h] assms by (auto simp: f session_inv_def)
  next
    case (2 h' l')
    then show ?case using session_inv_link [OF assms(1), of h'] by (auto simp: f split: if_splits)
  next
    case (3 r h')
    with r have "ss_remote_handles s r = Some h'" "link_remote_handle l \<noteq> Some r" by auto
    with assms(1) show ?case using assms(2) by (elim session_inv_remote) (auto simp: f)
  next
    case (4 k h')
    then have "ss_link_handles s k = Some h'" "k \<noteq> link_key l" by (auto simp: f split: if_splits)
    with assms(1) show ?case using assms(2) by (elim session_inv_key) (auto simp: f)
  qed
qed

subsection \<open>Lifecycle and attaching\<close>

lemma unsettled_inv_Nil [simp]: "unsettled_inv []"
  by (simp add: unsettled_inv_def)

lemma session_inv_new:
  "session_inv (new_session i c b r)" "session_inv (fst (accept_peer_begin i c rc b cfg))"
  by (simp_all add: session_inv_def new_session_def accept_peer_begin_def handle_inv_new Let_def)

lemma session_inv_lifecycle [session_ops]:
  assumes "session_inv s"
  shows "session_inv (fst (session_on_peer_begin c b s))" "session_inv (begin_end r s)"
    "session_inv (fst (session_on_peer_end e s))"
  using assms by (simp_all add: session_on_peer_begin_def begin_end_def session_on_peer_end_def)

lemma session_inv_handles:
  "session_inv s \<Longrightarrow> handle_inv (dom (ss_links s)) hs \<Longrightarrow> session_inv (s\<lparr>ss_handles := hs\<rparr>)"
  by (simp add: session_inv_def)

lemma session_inv_exhausted:
  assumes "session_inv s" "allocate_handle (ss_handles s) = (None, hs)"
  shows "session_inv (s\<lparr>ss_handles := hs\<rparr>)"
  using assms handles.allocate_exhausted [OF _ assms(2)] by (auto simp: session_inv_def)

lemma new_links:
  "link_handle (LSender (new_sender h n e p sm cm)) = h" "link_key (LSender (new_sender h n e p sm cm)) = (n, Sender)"
  "link_handle (LReceiver (new_receiver h n e p rm cm ms)) = h" "link_key (LReceiver (new_receiver h n e p rm cm ms)) = (n, Receiver)"
  "link_unsettled (LSender (new_sender h n e p sm cm)) = []" "link_unsettled (LReceiver (new_receiver h n e p rm cm ms)) = []"
  by (simp_all add: new_sender_def new_receiver_def link_key_def)

lemma session_inv_attach_link [session_ops]:
  assumes "session_inv s"
  shows "session_inv (fst (attach_link a m e r s))"
proof (cases "allocate_handle (ss_handles s)")
  case (Pair x hs)
  show ?thesis
  proof (cases x)
    case None
    with Pair session_inv_exhausted [OF assms] show ?thesis by (simp add: attach_link_def)
  next
    case (Some h)
    with Pair session_inv_add [OF assms, of h hs] new_links show ?thesis
      by (cases "at_role a") (simp_all add: attach_link_def Let_def)
  qed
qed

lemma link_updates [simp]:
  "link_handle (set_remote_handle h l) = link_handle l" "link_key (set_remote_handle h l) = link_key l"
  "link_remote_handle (set_remote_handle h l) = Some h" "link_unsettled (set_remote_handle h l) = link_unsettled l"
  "link_handle (mark_attached l) = link_handle l" "link_key (mark_attached l) = link_key l"
  "link_remote_handle (mark_attached l) = link_remote_handle l" "link_unsettled (mark_attached l) = link_unsettled l"
  "link_handle (snd (take_pending_attach l)) = link_handle l" "link_key (snd (take_pending_attach l)) = link_key l"
  "link_remote_handle (snd (take_pending_attach l)) = link_remote_handle l"
  "link_unsettled (snd (take_pending_attach l)) = link_unsettled l"
  by (cases l; simp add: link_key_def)+

lemma bind_peer_link:
  "link_handle (fst (bind_peer a w l)) = link_handle l" "link_key (fst (bind_peer a w l)) = link_key l"
  "link_remote_handle (fst (bind_peer a w l)) = Some (at_handle a)"
  "link_unsettled (fst (bind_peer a w l)) = link_unsettled l"
  by (cases l; simp add: bind_peer_def Let_def link_key_def split: option.split)+

lemma session_inv_on_peer_attach [session_ops]:
  assumes "session_inv s"
  shows "session_inv (fst (on_peer_attach a s))"
proof (cases "\<exists>h l. ss_link_handles s (at_name a, opposite (at_role a)) = Some h \<and> ss_links s h = Some l \<and>
    link_remote_handle l = None")
  case True
  then obtain h l where "ss_link_handles s (at_name a, opposite (at_role a)) = Some h"
    and l: "ss_links s h = Some l" "link_remote_handle l = None" by blast
  moreover have "session_inv (put_link h (snd (take_pending_attach (fst (bind_peer a (ss_windows s) l))))
      (s\<lparr>ss_remote_handles := bind_handle (at_handle a) h (ss_remote_handles s)\<rparr>))"
    by (rule session_inv_bind [OF assms l])
      (simp_all add: bind_peer_link session_inv_link [OF assms l(1)])
  ultimately show ?thesis by (simp add: on_peer_attach_def Let_def split_beta)
qed (auto simp: on_peer_attach_def assms split: option.split)

lemma accepted_links:
  "sl_handle (accepted_sender h n e sm cm) = h" "sl_name (accepted_sender h n e sm cm) = n"
  "sl_remote_handle (accepted_sender h n e sm cm) = None" "sl_unsettled (accepted_sender h n e sm cm) = []"
  "rl_handle (accepted_receiver h n e rm cm ms) = h" "rl_name (accepted_receiver h n e rm cm ms) = n"
  "rl_remote_handle (accepted_receiver h n e rm cm ms) = None" "rl_unsettled (accepted_receiver h n e rm cm ms) = []"
  by (simp_all add: accepted_sender_def accepted_receiver_def)

lemma session_inv_add_bound:
  assumes "session_inv s" "allocate_handle (ss_handles s) = (Some h, hs)"
    and "link_handle l = h" "link_unsettled l = []" "link_key l = k" "link_remote_handle l = None"
  shows "session_inv (put_link h (mark_attached (set_remote_handle r l))
    (s\<lparr>ss_handles := hs, ss_link_handles := (ss_link_handles s)(k \<mapsto> h),
       ss_remote_handles := bind_handle r h (ss_remote_handles s)\<rparr>))"
proof -
  let ?t = "put_link h l (s\<lparr>ss_handles := hs, ss_link_handles := (ss_link_handles s)(k \<mapsto> h)\<rparr>)"
  have "session_inv ?t" using assms by (intro session_inv_add) simp_all
  then have "session_inv (put_link h (mark_attached (set_remote_handle r l))
      (?t\<lparr>ss_remote_handles := bind_handle r h (ss_remote_handles ?t)\<rparr>))"
    using assms by (intro session_inv_bind [where l = l]) simp_all
  then show ?thesis by (simp add: put_link_def)
qed

lemma session_inv_accept_peer_attach [session_ops]:
  assumes "session_inv s"
  shows "session_inv (fst (snd (accept_peer_attach a m c ms e s)))"
proof (cases "ss_link_handles s (at_name a, opposite (at_role a)) = None")
  case True
  obtain x hs where al: "allocate_handle (ss_handles s) = (x, hs)" by (cases "allocate_handle (ss_handles s)")
  show ?thesis
  proof (cases x)
    case None
    with al True session_inv_exhausted [OF assms] show ?thesis by (simp add: accept_peer_attach_def Let_def)
  next
    case (Some h)
    note bound = session_inv_add_bound [OF assms al [unfolded Some]]
    show ?thesis
      using True al Some
      by (cases "at_role a") (auto simp: accept_peer_attach_def Let_def split_beta link_key_def accepted_links
          simp del: mark_attached.simps set_remote_handle.simps intro!: bound split: option.split)
  qed
qed (auto simp: accept_peer_attach_def Let_def assms)

lemma session_inv_refuse [session_ops]:
  assumes "session_inv s"
  shows "session_inv (fst (refuse_peer_attach a e s))"
proof -
  obtain x hs where al: "allocate_handle (ss_handles s) = (x, hs)" by (cases "allocate_handle (ss_handles s)")
  have h: "handle_inv (dom (ss_links s)) (ss_handles s)" using assms by (simp add: session_inv_def)
  show ?thesis
  proof (cases x)
    case None
    with al session_inv_exhausted [OF assms] show ?thesis by (simp add: refuse_peer_attach_def Let_def)
  next
    case (Some i)
    with al handles.allocate_release [OF h, of i hs] session_inv_handles [OF assms] show ?thesis
      by (simp add: refuse_peer_attach_def Let_def)
  qed
qed

subsection \<open>Sending\<close>

text \<open>What the indexes see of a sender link is kept while it sends.\<close>

definition sender_keeps :: "sender_link \<Rightarrow> sender_link \<Rightarrow> bool" where
  "sender_keeps s s' \<longleftrightarrow> same_identity (LSender s) (LSender s') \<and> (unsettled_inv (sl_unsettled s) \<longrightarrow> unsettled_inv (sl_unsettled s'))"

lemma sender_keeps_trans: "sender_keeps s t \<Longrightarrow> sender_keeps t u \<Longrightarrow> sender_keeps s u"
  by (auto simp: sender_keeps_def same_identity_def)

lemma sender_keeps_updates [simp]:
  "sender_keeps s (s\<lparr>sl_outbox := ob\<rparr>)" "sender_keeps s (s\<lparr>sl_credit := c\<rparr>)" "sender_keeps s (s\<lparr>sl_pending := pd\<rparr>)" "sender_keeps s s"
  by (simp_all add: sender_keeps_def same_identity_def link_key_def)

lemma sender_keeps_send_pending:
  "send_pending ch h mp p s w = (effs, s', w') \<Longrightarrow> sender_keeps s s'"
  by (auto simp: send_pending_def next_delivery_tag_def sender_keeps_def same_identity_def link_key_def
      unsettled_inv_insert Let_def split: prod.splits if_splits)

lemma sender_keeps_flush_outbox:
  "flush_outbox ch h mp ob s w = (effs, s', w') \<Longrightarrow> sender_keeps s s'"
proof (induction ch h mp ob s w arbitrary: effs s' w' rule: flush_outbox.induct)
  case (2 ch h mp p ob s w)
  then show ?case
    by (auto split: if_splits prod.splits intro: sender_keeps_trans dest: sender_keeps_send_pending)
qed auto

lemma session_inv_put_sender:
  assumes "session_inv s" "ss_links s h = Some (LSender l)" "sender_keeps l l'"
  shows "session_inv (put_link h (LSender l') s)"
  using assms session_inv_link(2) [OF assms(1,2)]
  by (intro session_inv_put_link [OF assms(1,2)]) (auto simp: sender_keeps_def)

lemma sender_keeps_complete_drain: "sender_keeps s (snd (complete_drain ch h w s))"
  by (simp add: complete_drain_def Let_def)

lemma session_inv_flush_sender [session_ops]:
  assumes "session_inv s"
  shows "session_inv (fst (flush_sender h mfs s))"
proof (cases "ss_links s h")
  case (Some l)
  show ?thesis
  proof (cases l)
    case (LSender sl)
    obtain effs sl' w where f: "flush_outbox (ss_local_channel s) h (max_payload_per_frame mfs) (sl_outbox sl) sl (ss_windows s) = (effs, sl', w)"
      by (rule prod_cases3)
    have "sender_keeps sl (snd (complete_drain (ss_local_channel s) h w sl'))"
      using sender_keeps_flush_outbox [OF f] sender_keeps_complete_drain by (rule sender_keeps_trans)
    with session_inv_put_sender [OF assms] Some LSender f show ?thesis
      by (simp add: flush_sender_def split_beta Let_def)
  qed (simp add: flush_sender_def Some assms)
qed (simp add: flush_sender_def assms)

lemma session_inv_send_transfer [session_ops]:
  assumes "session_inv s"
  shows "session_inv (fst (send_transfer h b st mf ds r mfs s))"
proof (cases "\<exists>l. ss_links s h = Some (LSender l)")
  case True
  with assms show ?thesis
    by (auto simp: send_transfer_def intro!: session_inv_flush_sender session_inv_put_sender)
qed (use assms in \<open>auto simp: send_transfer_def split: option.split link.split\<close>)

lemma session_inv_flush_senders: "session_inv s \<Longrightarrow> session_inv (fst (flush_senders hs mfs s))"
  by (induction hs arbitrary: s) (simp_all add: split_beta Let_def session_inv_flush_sender)

lemma session_inv_on_flow [session_ops]:
  assumes "session_inv s"
  shows "session_inv (fst (on_flow order f mfs s))"
proof -
  let ?s = "s\<lparr>ss_windows := on_peer_flow f (ss_windows s)\<rparr>"
  have "session_inv (fst (flow_credit f ?s))"
    using assms by (auto simp: flow_credit_def Let_def intro!: session_inv_put_sender split: option.split link.split)
  then show ?thesis
    by (simp add: on_flow_def split_beta Let_def session_inv_flush_senders)
qed

subsection \<open>Receiving and settling\<close>

lemma receive_transfer_keeps:
  assumes "receive_transfer t p r = Inr (r', ev, big)" "unsettled_inv (rl_unsettled r)"
  shows "same_identity (LReceiver r) (LReceiver r') \<and> unsettled_inv (rl_unsettled r')"
  using assms
  by (auto simp: receive_transfer_def deliver_def same_identity_def link_key_def unsettled_inv_insert Let_def
      split: if_splits option.splits)

lemma session_inv_detach_with_error:
  assumes "session_inv s" "ss_links s h = Some l"
  shows "session_inv (fst (detach_with_error h c d s))"
  using session_inv_forget [OF assms] assms(2) by (simp add: detach_with_error_def Let_def)

lemma session_inv_on_transfer [session_ops]:
  assumes "session_inv s" "on_transfer t p s = Inr (s', effs)"
  shows "session_inv s'"
proof (cases "resolve_handle (tr_handle t) (ss_remote_handles s)")
  case None
  with assms show ?thesis by (simp add: on_transfer_def)
next
  case (Some h)
  obtain l where l: "ss_links s h = Some l"
    using assms(1) Some by (auto simp: resolve_handle_def elim: session_inv_remote)
  obtain need w where rec: "record_incoming (ss_windows s) = (need, w)" by (cases "record_incoming (ss_windows s)")
  let ?s = "s\<lparr>ss_windows := w\<rparr>"
  have fin: "session_inv (fst (if big then detach_with_error h c d (fst (replenish_session need u)) else (fst (replenish_session need u), [])))"
    if "session_inv u" "ss_links u h \<noteq> None" for u big c d
    using that by (auto simp: replenish_session_def Let_def intro!: session_inv_detach_with_error)
  show ?thesis
  proof (cases l)
    case (LSender sl)
    with assms Some l rec fin [of ?s False] show ?thesis
      by (auto simp: on_transfer_def Let_def split_beta)
  next
    case (LReceiver r)
    then obtain r' ev big where r: "receive_transfer t p r = Inr (r', ev, big)"
      using assms Some l rec by (auto simp: on_transfer_def Let_def split_beta)
    have "session_inv (put_link h (LReceiver r') ?s)"
      using receive_transfer_keeps [OF r] session_inv_link(2) [OF assms(1) l] assms(1) l LReceiver
      by (intro session_inv_put_link [where l = l]) auto
    from fin [OF this, of big] assms(2) Some l rec LReceiver r show ?thesis
      by (auto simp: on_transfer_def Let_def split_beta)
  qed
qed

lemma resolve_sends_keeps: "sender_keeps s (fst (resolve_sends st settled ids s))"
proof (induction ids arbitrary: s)
  case (Cons i ids)
  show ?case
    using Cons.IH [of s] sender_keeps_trans [OF _ Cons.IH [of "s\<lparr>sl_pending := (sl_pending s)(i := None)\<rparr>"], of s]
    by (auto simp: Let_def split_beta split: option.split)
qed simp

lemma dispose_link_keeps:
  assumes "dispose_link d l = Inr (l', effs)" "unsettled_inv (link_unsettled l)"
  shows "same_identity l l' \<and> unsettled_inv (link_unsettled l')"
  using assms resolve_sends_keeps
  by (auto simp: dispose_link_def Let_def split_beta same_identity_def link_key_def sender_keeps_def
      split: role.splits link.splits if_splits sum.splits dest: unsettled_inv_disposition)

lemma session_inv_on_disposition [session_ops]:
  "session_inv s \<Longrightarrow> on_disposition order d s = Inr (s', effs) \<Longrightarrow> session_inv s'"
proof (induction order arbitrary: s s' effs)
  case (Cons h order)
  show ?case
  proof (cases "ss_links s h")
    case None
    with Cons show ?thesis by auto
  next
    case (Some l)
    with Cons.prems(2) obtain l' e e' where l': "dispose_link d l = Inr (l', e)"
      and rest: "on_disposition order d (put_link h l' s) = Inr (s', e')"
      by (auto elim!: rbind_InrE)
    have "session_inv (put_link h l' s)"
      using dispose_link_keeps [OF l'] session_inv_link [OF Cons.prems(1) Some] Cons.prems(1) Some
      by (intro session_inv_put_link) auto
    then show ?thesis using rest by (rule Cons.IH)
  qed
qed simp

lemma session_inv_put_receiver:
  assumes "session_inv s" "ss_links s h = Some (LReceiver r)" "same_identity (LReceiver r) (LReceiver r')"
    and "unsettled_inv (rl_unsettled r) \<Longrightarrow> unsettled_inv (rl_unsettled r')"
  shows "session_inv (put_link h (LReceiver r') s)"
  using assms session_inv_link(2) [OF assms(1,2)] by (intro session_inv_put_link [OF assms(1,2)]) auto

lemma session_inv_send_disposition [session_ops]:
  assumes "session_inv s" "send_disposition h f l st settled s = Inr (s', effs)"
  shows "session_inv s'"
  using assms
  by (auto simp: send_disposition_def Let_def same_identity_def link_key_def
      split: option.splits link.splits if_splits sum.splits intro!: session_inv_put_receiver
      dest: unsettled_inv_disposition)

lemma session_inv_grant_credit [session_ops]: "session_inv s \<Longrightarrow> session_inv (fst (grant_credit h c s))"
  by (auto simp: grant_credit_def Let_def same_identity_def link_key_def split: option.split link.split
      intro!: session_inv_put_receiver)

lemma session_inv_send_flow [session_ops]: "session_inv s \<Longrightarrow> session_inv (fst (send_flow f s))"
  by (cases "fl_handle f") (auto simp: send_flow_def Let_def same_identity_def link_key_def
      split: option.split link.split intro!: session_inv_put_receiver)

lemma session_inv_detach_link [session_ops]: "session_inv s \<Longrightarrow> session_inv (fst (detach_link h c e r s))"
  by (auto simp: detach_link_def session_inv_forget split: option.split)

lemma session_inv_on_peer_detach [session_ops]:
  assumes "session_inv s"
  shows "session_inv (fst (on_peer_detach d s))"
proof (cases "resolve_handle (de_handle d) (ss_remote_handles s)")
  case (Some h)
  then obtain l where l: "ss_links s h = Some l" "link_remote_handle l = Some (de_handle d)"
    using assms by (auto simp: resolve_handle_def elim: session_inv_remote)
  with session_inv_forget [OF assms l(1)] Some show ?thesis
    by (simp add: on_peer_detach_def unbind_link_def)
qed (simp add: on_peer_detach_def assms)

lemma session_inv_handle_link_frame [session_ops]:
  assumes "session_inv s" "handle_link_frame order perf p mfs s = Inr (s', effs)"
  shows "session_inv s'"
proof (cases perf)
  case (PAttach a)
  with assms session_inv_on_peer_attach [OF assms(1), of a] show ?thesis by simp
next
  case (PFlow f)
  with assms session_inv_on_flow [OF assms(1), of order f mfs] show ?thesis by simp
next
  case (PDetach d)
  with assms session_inv_on_peer_detach [OF assms(1), of d] show ?thesis by simp
next
  case (PTransfer t)
  with assms show ?thesis by (simp add: session_inv_on_transfer)
next
  case (PDisposition d)
  with assms show ?thesis by (simp add: session_inv_on_disposition)
qed (use assms in simp_all)

subsection \<open>Reachable sessions\<close>

inductive session_step :: "session \<Rightarrow> session \<Rightarrow> bool" where
  peer_begin: "session_step s (fst (session_on_peer_begin c b s))"
| end_begun: "session_step s (begin_end r s)"
| peer_end: "session_step s (fst (session_on_peer_end e s))"
| attach: "session_step s (fst (attach_link a m ev r s))"
| accept_attach: "session_step s (fst (snd (accept_peer_attach a m c ms ev s)))"
| refuse_attach: "session_step s (fst (refuse_peer_attach a e s))"
| send: "session_step s (fst (send_transfer h body settled fmt st r mfs s))"
| dispose: "send_disposition h f l st settled s = Inr (s', effs) \<Longrightarrow> session_step s s'"
| grant: "session_step s (fst (grant_credit h c s))"
| flow: "session_step s (fst (send_flow f s))"
| detach: "session_step s (fst (detach_link h c e r s))"
| frame: "handle_link_frame order perf payload mfs s = Inr (s', effs) \<Longrightarrow> session_step s s'"

inductive session_reachable :: "session \<Rightarrow> bool" where
  opened: "session_reachable (new_session i c b r)"
| accepted: "session_reachable (fst (accept_peer_begin i c rc b cfg))"
| step: "session_reachable s \<Longrightarrow> session_step s s' \<Longrightarrow> session_reachable s'"

lemma session_step_inv: "session_step s s' \<Longrightarrow> session_inv s \<Longrightarrow> session_inv s'"
  by (induction rule: session_step.induct) (auto intro: session_ops)

lemma session_reachable_inv: "session_reachable s \<Longrightarrow> session_inv s"
  by (induction rule: session_reachable.induct) (auto simp: session_inv_new intro: session_step_inv)

subsection \<open>Properties\<close>



text \<open>
  the index by name and role does not follow a second attach of the same name and role. Such an
  attach is accepted, and once the first of the two links is detached the second one has lost its
  index entry: the peer's response to it is ignored and the caller's attach is never completed.
\<close>

theorem duplicate_attach_orphans_link:
  assumes "ss_handles s = new_handles 1024" "ss_links s = Map.empty" "a = default_attach\<lparr>at_name := [97]\<rparr>"
    and "s1 = fst (attach_link a Manual 1 10 s)" "s2 = fst (attach_link a Manual 2 20 s1)"
    and "s3 = fst (detach_link 0 True None 30 s2)"
  shows "(\<exists>l. ss_links s3 1 = Some l \<and> link_key l = ([97], Sender)) \<and> ss_link_handles s3 ([97], Sender) = None \<and>
    on_peer_attach (default_attach\<lparr>at_name := [97], at_role := Receiver\<rparr>) s3 = (s3, [])"
  using assms(1,2)
  by (simp add: assms(3-6) attach_link_def default_attach_def allocate_handle_def new_handles_def detach_link_def
      forget_link_def unbind_link_def release_handle_def link_key_def new_sender_def on_peer_attach_def put_link_def Let_def
      word_le_nat_alt)

theorem duplicate_attach_orphans_link_witness:
  "let a = default_attach\<lparr>at_name := [97]\<rparr>;
       s1 = fst (attach_link a Manual 1 10 (new_session 1 2 (default_begin\<lparr>bg_handle_max := 1024\<rparr>) 3));
       s3 = fst (detach_link 0 True None 30 (fst (attach_link a Manual 2 20 s1)))
   in (\<exists>l. ss_links s3 1 = Some l) \<and> ss_link_handles s3 ([97], Sender) = None"
proof -
  have "ss_handles (new_session 1 2 (default_begin\<lparr>bg_handle_max := 1024\<rparr>) 3) = new_handles 1024" "ss_links (new_session 1 2 (default_begin\<lparr>bg_handle_max := 1024\<rparr>) 3) = Map.empty"
    by (simp_all add: new_session_def default_begin_def Let_def)
  from duplicate_attach_orphans_link [OF this refl refl refl refl] show ?thesis unfolding Let_def by blast
qed

end
