(* ===== verification/Session_Transfer.thy ===== *)
theory Session_Transfer
  imports Session_State
begin

section \<open>Splitting, gating and assembling messages\<close>

text \<open>
  How the session puts messages on the wire and how it assembles what arrives: the transfers of a
  message, the frame sizes they need, the credit and window they consume, and the round trip from
  the sending session to the receiving one.
\<close>

subsection \<open>The transfers of a message\<close>

function split_chunks :: "nat \<Rightarrow> bytes \<Rightarrow> bytes list" where
  "split_chunks mp xs = (if length xs \<le> mp \<or> mp = 0 then [xs] else take mp xs # split_chunks mp (drop mp xs))"
  by pat_completeness auto

termination
  by (relation "measure (\<lambda>(_, xs). length xs)") auto

declare split_chunks.simps [simp del]

definition nth_transfer ::
    "u32 \<Rightarrow> u32 \<Rightarrow> bytes \<Rightarrow> bool \<Rightarrow> u32 \<Rightarrow> delivery_state option \<Rightarrow> bool \<Rightarrow> bool \<Rightarrow> transfer" where
  "nth_transfer handle delivery_id tag settled message_format state first continued =
    (if first then default_transfer\<lparr>tr_handle := handle, tr_delivery_id := Some delivery_id, tr_delivery_tag := Some tag,
       tr_message_format := Some message_format, tr_settled := Some settled, tr_more := continued, tr_state := state\<rparr>
     else default_transfer\<lparr>tr_handle := handle, tr_more := continued\<rparr>)"

fun chunk_transfers :: "(bool \<Rightarrow> bool \<Rightarrow> transfer) \<Rightarrow> bool \<Rightarrow> bytes list \<Rightarrow> (transfer \<times> bytes) list" where
  "chunk_transfers f first [] = []"
| "chunk_transfers f first (c # cs) = (f first (cs \<noteq> []), c) # chunk_transfers f False cs"

definition queue_transfers :: "u16 \<Rightarrow> (transfer \<times> bytes) list \<Rightarrow> effect list" where
  "queue_transfers ch ts = map (\<lambda>tc. Queue (QueueTransfer ch (PTransfer (fst tc)) (snd tc))) ts"

lemma split_chunks_not_Nil [simp]: "split_chunks mp xs \<noteq> []"
  by (subst split_chunks.simps) simp

lemma split_chunks_first: "0 < mp \<Longrightarrow> \<exists>cs. split_chunks mp xs = take mp xs # cs"
  by (subst split_chunks.simps) auto

lemma concat_split_chunks [simp]: "concat (split_chunks mp xs) = xs"
  by (induction mp xs rule: split_chunks.induct) (subst split_chunks.simps, simp)

lemma split_chunks_bound: "0 < mp \<Longrightarrow> c \<in> set (split_chunks mp xs) \<Longrightarrow> length c \<le> mp"
  by (induction mp xs rule: split_chunks.induct) (subst (asm) split_chunks.simps, auto split: if_splits)

lemma split_chunks_nonempty: "xs \<noteq> [] \<Longrightarrow> c \<in> set (split_chunks mp xs) \<Longrightarrow> c \<noteq> []"
proof (induction mp xs rule: split_chunks.induct)
  case (1 mp xs)
  then show ?case by (subst (asm) (2) split_chunks.simps) (auto split: if_splits)
qed

lemma length_split_chunks: "0 < mp \<Longrightarrow> length (split_chunks mp xs) = max (div_ceil (length xs) mp) 1"
proof (induction mp xs rule: split_chunks.induct)
  case (1 mp xs)
  show ?case
  proof (cases "length xs \<le> mp")
    case True
    have "(length xs + mp - 1) div mp \<le> (2 * mp - 1) div mp"
      using True by (intro div_le_mono) simp
    also have "(2 * mp - 1) div mp = 1"
      using 1(2) by (intro div_nat_eqI) auto
    finally show ?thesis using True by (subst split_chunks.simps) (simp add: div_ceil_def)
  next
    case False
    then have "length (split_chunks mp xs) = Suc (max (div_ceil (length xs - mp) mp) 1)"
      using 1 by (subst split_chunks.simps) simp
    moreover have "div_ceil (length xs) mp = Suc (div_ceil (length xs - mp) mp)"
    proof -
      have "length xs + mp - 1 = (length xs - mp + mp - 1) + mp" using False 1(2) by simp
      then show ?thesis using 1(2) by (simp only: div_ceil_def div_add_self2)
    qed
    moreover have "1 \<le> div_ceil (length xs - mp) mp"
      using False 1(2) by (simp add: div_ceil_def div_greater_zero_iff Suc_le_eq)
    ultimately show ?thesis by simp
  qed
qed

lemma send_chunks_eq:
  assumes "0 < mp" "off < length body" "first \<Longrightarrow> tag = Some tg"
  shows "send_chunks ch h did tag st fmt ds body mp first off w =
    (queue_transfers ch (chunk_transfers (nth_transfer h did tg st fmt ds) first (split_chunks mp (drop off body))),
     (record_outgoing ^^ length (split_chunks mp (drop off body))) w)"
  using assms
proof (induction ch h did tag st fmt ds body mp first off w rule: send_chunks.induct)
  case (1 ch h did tag st fmt ds body mp first off w)
  show ?case
  proof (cases "length body - off \<le> mp")
    case True
    then have e: "min (off + mp) (length body) = length body" using "1.prems"(2) by simp
    have "send_chunks ch h did None st fmt ds body mp False (length body) w' = ([], w')" for w'
      by (subst send_chunks.simps) simp
    moreover have "split_chunks mp (drop off body) = [drop off body]" using True by (subst split_chunks.simps) simp
    ultimately show ?thesis
      using True "1.prems" by (subst send_chunks.simps) (simp add: e queue_transfers_def nth_transfer_def Let_def)
  next
    case False
    then have e: "min (off + mp) (length body) = off + mp" "off + mp < length body" by simp_all
    have IH: "send_chunks ch h did None st fmt ds body mp False (off + mp) (record_outgoing w) =
      (queue_transfers ch (chunk_transfers (nth_transfer h did tg st fmt ds) False (split_chunks mp (drop (off + mp) body))),
       (record_outgoing ^^ length (split_chunks mp (drop (off + mp) body))) (record_outgoing w))"
      using "1.IH" [OF _ refl refl refl refl] "1.prems" e by simp
    have sp: "split_chunks mp (drop off body) = take mp (drop off body) # split_chunks mp (drop (off + mp) body)"
      using False "1.prems" by (subst split_chunks.simps) (simp add: add.commute)
    show ?thesis
      using e "1.prems" unfolding sp
      by (subst send_chunks.simps) (simp add: IH queue_transfers_def nth_transfer_def Let_def funpow_Suc_right del: funpow.simps)
  qed
qed

lemma send_message_frames_eq:
  assumes "0 < mp"
  shows "send_message_frames ch h did tag st fmt ds body mp w =
    (queue_transfers ch (chunk_transfers (nth_transfer h did tag st fmt ds) True (split_chunks mp body)),
     (record_outgoing ^^ length (split_chunks mp body)) w)"
proof (cases "length body \<le> mp")
  case True
  then have "split_chunks mp body = [body]" by (subst split_chunks.simps) simp
  with True show ?thesis by (simp add: send_message_frames_def queue_transfers_def nth_transfer_def)
next
  case False
  then have "0 < length body" by auto
  with False send_chunks_eq [OF assms, of 0 body True "Some tag" tag] show ?thesis
    by (simp add: send_message_frames_def)
qed

subsection \<open>What a message costs\<close>

lemma record_outgoing_pow:
  "sw_next_outgoing_id ((record_outgoing ^^ n) w) = sw_next_outgoing_id w + of_nat n"
  "unat (sw_remote_incoming_window ((record_outgoing ^^ n) w)) = unat (sw_remote_incoming_window w) - n"
  by (induction n) (simp_all add: record_outgoing_def)

definition frames_of :: "nat \<Rightarrow> pending_send \<Rightarrow> nat" where
  "frames_of mp p = length (split_chunks mp (ps_body p))"

text \<open>The frame count that gates a send is exact for bodies below 4 GiB.\<close>

lemma unat_frame_count:
  assumes "0 < mp" "length (ps_body p) < 2 ^ 32"
  shows "unat (frame_count mp p) = frames_of mp p"
proof -
  let ?n = "max (div_ceil (length (ps_body p)) mp) 1"
  have "div_ceil (length (ps_body p)) mp \<le> max (length (ps_body p)) 1"
  proof (cases "ps_body p")
    case Nil
    then show ?thesis using assms(1) by (simp add: div_ceil_def)
  next
    case (Cons x xs)
    have "(length (ps_body p) + mp - 1) \<le> length (ps_body p) * mp"
      using assms(1) by (cases mp) (auto simp: Cons)
    then have "div_ceil (length (ps_body p)) mp \<le> length (ps_body p) * mp div mp"
      unfolding div_ceil_def by (rule div_le_mono)
    then show ?thesis using assms(1) by simp
  qed
  then have "?n < 2 ^ LENGTH(32)" using assms(2) by simp
  then show ?thesis
    using assms(1) by (simp only: frame_count_def frames_of_def length_split_chunks unat_of_nat_fits)
qed

text \<open>The transfers among the effects of an operation.\<close>

fun queued_transfers :: "effect list \<Rightarrow> (transfer \<times> bytes) list" where
  "queued_transfers [] = []"
| "queued_transfers (Queue (QueueTransfer ch (PTransfer t) c) # es) = (t, c) # queued_transfers es"
| "queued_transfers (e # es) = queued_transfers es"

lemma queued_transfers_append [simp]: "queued_transfers (es @ fs) = queued_transfers es @ queued_transfers fs"
  by (induction es rule: queued_transfers.induct) auto

lemma queued_queue_transfers [simp]: "queued_transfers (queue_transfers ch ts) = ts"
  by (induction ts) (auto simp: queue_transfers_def)

lemma queued_ReplySend [simp]: "queued_transfers (case r of None \<Rightarrow> [] | Some x \<Rightarrow> [ReplySend x v]) = []"
  by (cases r) auto

lemma map_snd_chunk_transfers [simp]: "map snd (chunk_transfers f first cs) = cs"
  by (induction cs arbitrary: first) auto

lemma send_pending_spec:
  assumes "send_pending ch h mp p s w = (effs, s', w')" "0 < mp"
  shows "w' = (record_outgoing ^^ frames_of mp p) w"
    and "sl_credit s' = record_sent (sl_credit s)" "sl_attached s' = sl_attached s"
    and "concat (map snd (queued_transfers effs)) = ps_body p" "length (queued_transfers effs) = frames_of mp p"
proof -
  obtain tag t where "next_delivery_tag s = (tag, t)" by (cases "next_delivery_tag s")
  note defs = send_pending_def send_message_frames_eq [OF assms(2)] this frames_of_def
  have t: "sl_credit t = sl_credit s" "sl_attached t = sl_attached s"
    using \<open>next_delivery_tag s = (tag, t)\<close> by (auto simp: next_delivery_tag_def)
  show "w' = (record_outgoing ^^ frames_of mp p) w" "sl_credit s' = record_sent (sl_credit s)" "sl_attached s' = sl_attached s"
    using assms(1) t by (auto simp: defs Let_def split: if_splits)
  have q: "\<exists>f. queued_transfers effs = chunk_transfers f True (split_chunks mp (ps_body p))"
    using assms(1) by (auto simp: defs Let_def split: if_splits)
  then have "map snd (queued_transfers effs) = split_chunks mp (ps_body p)" by auto
  then show "concat (map snd (queued_transfers effs)) = ps_body p" "length (queued_transfers effs) = frames_of mp p"
    by (simp, metis frames_of_def length_map)
qed

lemma funpow_commute: "(f ^^ m) ((f ^^ n) x) = (f ^^ (n + m)) x"
  by (simp add: funpow_add add.commute [of n])

lemma flush_outbox_spec:
  assumes "flush_outbox ch h mp ob s w = (effs, s', w')" "0 < mp" "\<forall>p \<in> set ob. length (ps_body p) < 2 ^ 32"
  shows "\<exists>k. sl_outbox s' = drop k ob \<and> k \<le> length ob \<and>
    concat (map snd (queued_transfers effs)) = concat (map ps_body (take k ob)) \<and>
    length (queued_transfers effs) = sum_list (map (frames_of mp) (take k ob)) \<and>
    sum_list (map (frames_of mp) (take k ob)) \<le> unat (sw_remote_incoming_window w) \<and>
    w' = (record_outgoing ^^ sum_list (map (frames_of mp) (take k ob))) w \<and>
    k \<le> unat (lc_link_credit (sl_credit s)) \<and>
    unat (lc_link_credit (sl_credit s')) = unat (lc_link_credit (sl_credit s)) - k \<and>
    lc_delivery_count (sl_credit s') = lc_delivery_count (sl_credit s) + of_nat k \<and>
    (sl_outbox s' \<noteq> [] \<longrightarrow> \<not> may_send mp (hd (sl_outbox s')) s' w')"
  using assms
proof (induction ch h mp ob s w arbitrary: effs s' w' rule: flush_outbox.induct)
  case (1 ch h mp s w)
  then show ?case by auto
next
  case (2 ch h mp p ob s w)
  show ?case
  proof (cases "may_send mp p s w")
    case False
    with "2.prems"(1) have "s' = s\<lparr>sl_outbox := p # ob\<rparr>" "w' = w" "effs = []" by auto
    moreover have "\<not> may_send mp p (s\<lparr>sl_outbox := p # ob\<rparr>) w" using False by (simp add: may_send_def)
    ultimately show ?thesis by (intro exI [of _ 0]) simp
  next
    case True
    obtain e1 s1 w1 where one: "send_pending ch h mp p s w = (e1, s1, w1)" by (rule prod_cases3)
    obtain e2 where rest: "flush_outbox ch h mp ob s1 w1 = (e2, s', w')" and effs: "effs = e1 @ e2"
      using "2.prems"(1) True one by (auto split: prod.splits)
    note sp = send_pending_spec [OF one "2.prems"(2)]
    have small: "\<forall>p \<in> set ob. length (ps_body p) < 2 ^ 32" using "2.prems"(3) by simp
    obtain k where k: "sl_outbox s' = drop k ob" "k \<le> length ob"
      "concat (map snd (queued_transfers e2)) = concat (map ps_body (take k ob))"
      "length (queued_transfers e2) = sum_list (map (frames_of mp) (take k ob))"
      "sum_list (map (frames_of mp) (take k ob)) \<le> unat (sw_remote_incoming_window w1)"
      "w' = (record_outgoing ^^ sum_list (map (frames_of mp) (take k ob))) w1"
      "k \<le> unat (lc_link_credit (sl_credit s1))"
      "unat (lc_link_credit (sl_credit s')) = unat (lc_link_credit (sl_credit s1)) - k"
      "lc_delivery_count (sl_credit s') = lc_delivery_count (sl_credit s1) + of_nat k"
      "sl_outbox s' \<noteq> [] \<longrightarrow> \<not> may_send mp (hd (sl_outbox s')) s' w'"
      using "2.IH" [OF True one [symmetric] refl refl rest "2.prems"(2) small] by blast
    have credit: "0 < unat (lc_link_credit (sl_credit s))" and fits: "frames_of mp p \<le> unat (sw_remote_incoming_window w)"
      using True unat_frame_count [OF "2.prems"(2), of p] "2.prems"(3)
      by (auto simp: may_send_def credit_can_send_def word_le_nat_alt word_gt_0 unat_gt_0)
    show ?thesis
      using k sp credit fits
      by (intro exI [of _ "Suc k"]) (auto simp: effs record_outgoing_pow record_sent_def funpow_commute add.commute add.left_commute)
  qed
qed

subsection \<open>Assembling a message\<close>

fun emitted :: "effect list \<Rightarrow> (events \<times> link_event) list" where
  "emitted [] = []"
| "emitted (Emit ch ev # es) = (ch, ev) # emitted es"
| "emitted (e # es) = emitted es"

lemma emitted_append [simp]: "emitted (es @ fs) = emitted es @ emitted fs"
  by (induction es rule: emitted.induct) auto

text \<open>A session that receives a list of transfers in order.\<close>

fun on_transfers :: "(transfer \<times> bytes option) list \<Rightarrow> session \<Rightarrow> session_failure + session \<times> effect list" where
  "on_transfers [] s = Inr (s, [])"
| "on_transfers ((t, payload) # ts) s =
    rbind (on_transfer t payload s) (\<lambda>(s, effects).
      rbind (on_transfers ts s) (\<lambda>(s, effects'). Inr (s, effects @ effects')))"

text \<open>What the peer sees of a queued transfer: an empty payload is none.\<close>

definition wire_transfer :: "transfer \<times> bytes \<Rightarrow> transfer \<times> bytes option" where
  "wire_transfer tc = (fst tc, if snd tc = [] then None else Some (snd tc))"

lemma unwrap_wire [simp]: "unwrap_or [] (if c = [] then None else Some c) = c"
  by (simp add: unwrap_or_def)

lemma on_transfer_receives:
  assumes "resolve_handle (tr_handle t) (ss_remote_handles s) = Some local" "ss_links s local = Some (LReceiver r)"
    and "receive_transfer t p r = Inr (r', ev, False)"
  shows "\<exists>w effs. on_transfer t p s = Inr (put_link local (LReceiver r') (s\<lparr>ss_windows := w\<rparr>), effs) \<and>
    emitted effs = (case ev of None \<Rightarrow> [] | Some e \<Rightarrow> [(rl_events r, e)])"
proof -
  obtain need w where "record_incoming (ss_windows s) = (need, w)" by (cases "record_incoming (ss_windows s)")
  with assms show ?thesis
    by (intro exI [of _ "if need then replenish_incoming w else w"])
      (auto simp: on_transfer_def replenish_session_def put_link_def queue_perf_def Let_def split: option.split)
qed

lemma receive_continuation:
  assumes "rl_partial r = Some p" "length (pd_buf p) + length c \<le> unat (size_cap r)"
    and "t = default_transfer\<lparr>tr_handle := h, tr_more := continued\<rparr>"
  shows "receive_transfer t (if c = [] then None else Some c) r =
    (if continued then Inr (r\<lparr>rl_partial := Some (partial_append c p)\<rparr>, None, False)
     else let (r', ev) = deliver (complete (partial_append c p)) (r\<lparr>rl_partial := None\<rparr>) in Inr (r', Some ev, False))"
  using assms by (simp add: receive_transfer_def default_transfer_def exceeds_def partial_append_def Let_def)

lemma on_transfers_continue:
  assumes "cs \<noteq> []" "resolve_handle h (ss_remote_handles s) = Some local" "ss_links s local = Some (LReceiver r)"
    and "rl_partial r = Some p" "length (pd_buf p) + length (concat cs) \<le> unat (size_cap r)"
    and "deliver (complete (partial_append (concat cs) p)) (r\<lparr>rl_partial := None\<rparr>) = (r', ev)"
  shows "\<exists>w effs. on_transfers (map wire_transfer (chunk_transfers (nth_transfer h did tag st fmt ds) False cs)) s =
      Inr (put_link local (LReceiver r') (s\<lparr>ss_windows := w\<rparr>), effs) \<and> emitted effs = [(rl_events r, ev)]"
  using assms
proof (induction cs arbitrary: s r p)
  case (Cons c cs)
  let ?t = "default_transfer\<lparr>tr_handle := h, tr_more := (cs \<noteq> [])\<rparr>"
  have rc: "receive_transfer ?t (if c = [] then None else Some c) r =
    (if cs \<noteq> [] then Inr (r\<lparr>rl_partial := Some (partial_append c p)\<rparr>, None, False)
     else let (r', ev) = deliver (complete (partial_append c p)) (r\<lparr>rl_partial := None\<rparr>) in Inr (r', Some ev, False))"
    using Cons.prems by (intro receive_continuation) auto
  have h: "resolve_handle (tr_handle ?t) (ss_remote_handles s) = Some local" using Cons.prems(2) by simp
  show ?case
  proof (cases "cs = []")
    case True
    with rc Cons.prems(6) have "receive_transfer ?t (if c = [] then None else Some c) r = Inr (r', Some ev, False)" by simp
    from on_transfer_receives [OF h Cons.prems(3) this] show ?thesis
      using True by (auto simp: nth_transfer_def wire_transfer_def)
  next
    case False
    let ?r = "r\<lparr>rl_partial := Some (partial_append c p)\<rparr>"
    have "receive_transfer ?t (if c = [] then None else Some c) r = Inr (?r, None, False)" using rc False by simp
    from on_transfer_receives [OF h Cons.prems(3) this] obtain w effs
      where first: "on_transfer ?t (if c = [] then None else Some c) s = Inr (put_link local (LReceiver ?r) (s\<lparr>ss_windows := w\<rparr>), effs)"
        and none: "emitted effs = []" by auto
    have "size_cap ?r = size_cap r" by (simp add: size_cap_def)
    moreover have "partial_append (concat cs) (partial_append c p) = partial_append (concat (c # cs)) p"
      by (simp add: partial_append_def)
    ultimately obtain w' effs' where rest: "on_transfers (map wire_transfer (chunk_transfers (nth_transfer h did tag st fmt ds) False cs))
        (put_link local (LReceiver ?r) (s\<lparr>ss_windows := w\<rparr>)) =
        Inr (put_link local (LReceiver r') ((put_link local (LReceiver ?r) (s\<lparr>ss_windows := w\<rparr>))\<lparr>ss_windows := w'\<rparr>), effs')"
      and ev: "emitted effs' = [(rl_events r, ev)]"
      using Cons.IH [OF False, of "put_link local (LReceiver ?r) (s\<lparr>ss_windows := w\<rparr>)" ?r "partial_append c p"] Cons.prems
      by (auto simp: partial_append_def put_link_def)
    have step: "map wire_transfer (chunk_transfers (nth_transfer h did tag st fmt ds) False (c # cs)) =
      (?t, if c = [] then None else Some c) # map wire_transfer (chunk_transfers (nth_transfer h did tag st fmt ds) False cs)"
      by (simp add: wire_transfer_def nth_transfer_def)
    show ?thesis
      unfolding step on_transfers.simps first rest rbind_simps prod.case
      using none ev by (intro exI [of _ w'] exI [of _ "effs @ effs'"]) (simp add: put_link_def)
  qed
qed simp


lemma receive_opening:
  assumes "rl_partial r = None" "length c \<le> unat (size_cap r)" "t = nth_transfer h did tag st fmt ds True continued"
  shows "receive_transfer t (if c = [] then None else Some c) r =
    (if continued then Inr (r\<lparr>rl_partial := Some (new_partial did tag st ds c)\<rparr>, None, False)
     else let (r', ev) = deliver (complete (new_partial did tag st ds c)) r in Inr (r', Some ev, False))"
  using assms
  by (auto simp: receive_transfer_def nth_transfer_def default_transfer_def exceeds_def opened_delivery_def
      unwrap_or_def new_partial_def deliver_def Let_def)

lemma on_transfers_message:
  assumes "cs \<noteq> []" "resolve_handle h (ss_remote_handles s) = Some local" "ss_links s local = Some (LReceiver r)"
    and "rl_partial r = None" "length (concat cs) \<le> unat (size_cap r)"
    and "deliver (complete (new_partial did tag st ds (concat cs))) r = (r', ev)"
  shows "\<exists>w effs. on_transfers (map wire_transfer (chunk_transfers (nth_transfer h did tag st fmt ds) True cs)) s =
      Inr (put_link local (LReceiver r') (s\<lparr>ss_windows := w\<rparr>), effs) \<and> emitted effs = [(rl_events r, ev)]"
proof -
  obtain c cs' where cs: "cs = c # cs'" using assms(1) by (cases cs) auto
  let ?t = "nth_transfer h did tag st fmt ds True (cs' \<noteq> [])" and ?p = "new_partial did tag st ds"
  have rc: "receive_transfer ?t (if c = [] then None else Some c) r =
    (if cs' \<noteq> [] then Inr (r\<lparr>rl_partial := Some (?p c)\<rparr>, None, False)
     else let (r', ev) = deliver (complete (?p c)) r in Inr (r', Some ev, False))"
    using assms(4,5) cs by (intro receive_opening) auto
  have h: "resolve_handle (tr_handle ?t) (ss_remote_handles s) = Some local" using assms(2) by (simp add: nth_transfer_def)
  show ?thesis
  proof (cases "cs' = []")
    case True
    with rc assms(6) have "receive_transfer ?t (if c = [] then None else Some c) r = Inr (r', Some ev, False)" by (simp add: cs)
    from on_transfer_receives [OF h assms(3) this] show ?thesis
      using True by (auto simp: cs wire_transfer_def)
  next
    case False
    let ?r = "r\<lparr>rl_partial := Some (?p c)\<rparr>"
    have "receive_transfer ?t (if c = [] then None else Some c) r = Inr (?r, None, False)" using rc False by simp
    from on_transfer_receives [OF h assms(3) this] obtain w effs
      where first: "on_transfer ?t (if c = [] then None else Some c) s = Inr (put_link local (LReceiver ?r) (s\<lparr>ss_windows := w\<rparr>), effs)"
        and none: "emitted effs = []" by auto
    let ?s = "put_link local (LReceiver ?r) (s\<lparr>ss_windows := w\<rparr>)"
    have "partial_append (concat cs') (?p c) = ?p (concat cs)" "?r\<lparr>rl_partial := None\<rparr> = r"
      using assms(4) by (simp_all add: partial_append_def new_partial_def cs)
    then obtain w' effs' where rest: "on_transfers (map wire_transfer (chunk_transfers (nth_transfer h did tag st fmt ds) False cs')) ?s =
        Inr (put_link local (LReceiver r') (?s\<lparr>ss_windows := w'\<rparr>), effs')" and ev: "emitted effs' = [(rl_events r, ev)]"
      using on_transfers_continue [OF False, of h ?s local ?r "?p c" r' ev did tag st fmt ds] assms(2,5,6)
      by (auto simp: put_link_def new_partial_def size_cap_def cs)
    have step: "map wire_transfer (chunk_transfers (nth_transfer h did tag st fmt ds) True cs) =
      (?t, if c = [] then None else Some c) # map wire_transfer (chunk_transfers (nth_transfer h did tag st fmt ds) False cs')"
      by (simp add: wire_transfer_def cs)
    show ?thesis
      unfolding step on_transfers.simps first rest rbind_simps prod.case
      using none ev by (intro exI [of _ w'] exI [of _ "effs @ effs'"]) (simp add: put_link_def)
  qed
qed

subsection \<open>Messages over the size cap\<close>

lemma on_transfers_unbound:
  "\<forall>tc \<in> set ts. tr_handle (fst tc) = h \<Longrightarrow> resolve_handle h (ss_remote_handles s) = None \<Longrightarrow> on_transfers ts s = Inr (s, [])"
  by (induction ts) (auto simp: on_transfer_def)

lemma tr_handle_chunks:
  "\<forall>tc \<in> set (map wire_transfer (chunk_transfers (nth_transfer h did tag st fmt ds) first cs)). tr_handle (fst tc) = h"
  by (induction cs arbitrary: first) (auto simp: nth_transfer_def wire_transfer_def)

text \<open>What is left of a link that the peer bound to its handle \<open>h\<close> and that the session gave up.\<close>

definition gone :: "u32 \<Rightarrow> u32 \<Rightarrow> session \<Rightarrow> bool" where
  "gone h local s \<longleftrightarrow> ss_links s local = None \<and> resolve_handle h (ss_remote_handles s) = None"

definition size_exceeded_detach :: "session \<Rightarrow> u32 \<Rightarrow> effect" where
  "size_exceeded_detach s local = queue_perf s (PDetach \<lparr>de_handle = local, de_closed = True,
     de_error = Some \<lparr>er_condition = Link MessageSizeExceeded,
       er_description = Some (ascii ''assembled message exceeds max-message-size''), er_info = None\<rparr>\<rparr>)"

lemma queue_perf_put_link [simp]: "queue_perf (put_link l x s) = queue_perf s" "queue_perf (s\<lparr>ss_windows := w\<rparr>) = queue_perf s"
  by (simp_all add: queue_perf_def put_link_def fun_eq_iff)

lemma on_transfer_exceeds:
  assumes "resolve_handle (tr_handle t) (ss_remote_handles s) = Some local" "ss_links s local = Some (LReceiver r)"
    and "receive_transfer t p r = Inr (r', None, True)" "rl_remote_handle r' = Some (tr_handle t)"
  shows "\<exists>s' effs. on_transfer t p s = Inr (s', effs) \<and> gone (tr_handle t) local s' \<and> emitted effs = [] \<and>
    size_exceeded_detach s local \<in> set effs"
proof -
  obtain need w where "record_incoming (ss_windows s) = (need, w)" by (cases "record_incoming (ss_windows s)")
  with assms show ?thesis
    by (auto simp: on_transfer_def replenish_session_def put_link_def queue_perf_def Let_def detach_with_error_def gone_def
        forget_link_def unbind_link_def resolve_handle_def unbind_handle_def size_exceeded_detach_def)
qed

lemma receive_remote_handle:
  "receive_transfer t p r = Inr (r', ev, b) \<Longrightarrow> rl_remote_handle r' = rl_remote_handle r"
  by (auto simp: receive_transfer_def deliver_def Let_def split: if_splits option.splits)

lemma on_transfers_exceed:
  assumes "resolve_handle h (ss_remote_handles s) = Some local" "ss_links s local = Some (LReceiver r)"
    and "rl_remote_handle r = Some h" "if first then rl_partial r = None else rl_partial r = Some p"
    and "unat (size_cap r) < (if first then 0 else length (pd_buf p)) + length (concat cs)"
    and "\<not> first \<longrightarrow> length (pd_buf p) \<le> unat (size_cap r)"
  shows "\<exists>s' effs. on_transfers (map wire_transfer (chunk_transfers (nth_transfer h did tag st fmt ds) first cs)) s = Inr (s', effs) \<and>
    gone h local s' \<and> emitted effs = [] \<and> size_exceeded_detach s local \<in> set effs"
  using assms
proof (induction cs arbitrary: s r p first)
  case Nil
  then show ?case by (auto split: if_splits)
next
  case (Cons c cs)
  let ?t = "nth_transfer h did tag st fmt ds first (cs \<noteq> [])" and ?c = "if c = [] then None else Some c"
  let ?p = "if first then new_partial did tag st ds c else partial_append c p"
  let ?rest = "map wire_transfer (chunk_transfers (nth_transfer h did tag st fmt ds) False cs)"
  have h: "tr_handle ?t = h" by (simp add: nth_transfer_def)
  have step: "map wire_transfer (chunk_transfers (nth_transfer h did tag st fmt ds) first (c # cs)) = (?t, ?c) # ?rest"
    by (simp add: wire_transfer_def)
  show ?case
  proof (cases "unat (size_cap r) < length (pd_buf ?p)")
    case True
    then have "\<exists>r'. receive_transfer ?t ?c r = Inr (r', None, True)"
      using Cons.prems(4) by (cases first) (auto simp: receive_transfer_def nth_transfer_def default_transfer_def exceeds_def
          opened_delivery_def unwrap_or_def new_partial_def partial_append_def Let_def)
    then obtain r' where rc: "receive_transfer ?t ?c r = Inr (r', None, True)" ..
    have "rl_remote_handle r' = Some (tr_handle ?t)" using receive_remote_handle [OF rc] Cons.prems(3) h by simp
    from on_transfer_exceeds [OF _ Cons.prems(2) rc this] obtain s' effs where one: "on_transfer ?t ?c s = Inr (s', effs)"
      "gone h local s'" "emitted effs = []" "size_exceeded_detach s local \<in> set effs"
      using Cons.prems(1) unfolding h by auto
    moreover have "on_transfers ?rest s' = Inr (s', [])"
      using one(2) by (intro on_transfers_unbound [OF tr_handle_chunks]) (simp add: gone_def)
    ultimately show ?thesis unfolding step on_transfers.simps by simp
  next
    case False
    have more: "cs \<noteq> []"
      using Cons.prems(5) False by (auto simp: new_partial_def partial_append_def split: if_splits)
    let ?r = "r\<lparr>rl_partial := Some ?p\<rparr>"
    have "receive_transfer ?t ?c r = Inr (?r, None, False)"
      using False more Cons.prems(4) receive_opening [of r c ?t h did tag st fmt ds True]
        receive_continuation [of r p c ?t True h]
      by (cases first) (auto simp: new_partial_def partial_append_def nth_transfer_def)
    from on_transfer_receives [OF _ Cons.prems(2) this] obtain w effs
      where one: "on_transfer ?t ?c s = Inr (put_link local (LReceiver ?r) (s\<lparr>ss_windows := w\<rparr>), effs)" "emitted effs = []"
      using Cons.prems(1) unfolding h by auto
    let ?s = "put_link local (LReceiver ?r) (s\<lparr>ss_windows := w\<rparr>)"
    have "\<exists>s' effs. on_transfers ?rest ?s = Inr (s', effs) \<and> gone h local s' \<and> emitted effs = [] \<and>
        size_exceeded_detach ?s local \<in> set effs"
      using Cons.prems False
      by (intro Cons.IH [of ?s ?r False ?p]) (auto simp: put_link_def size_cap_def new_partial_def partial_append_def split: if_splits)
    moreover have "size_exceeded_detach ?s local = size_exceeded_detach s local" by (simp add: size_exceeded_detach_def)
    ultimately show ?thesis unfolding step on_transfers.simps one(1) using one(2) by auto
  qed
qed

subsection \<open>Frame sizes\<close>

lemma length_strip_nulls: "length (concat (strip_nulls fs)) \<le> length (concat fs)"
proof -
  obtain n where n: "strip_nulls fs = take n fs" using strip_nulls_prefix by blast
  have "length (concat (take n fs)) + length (concat (drop n fs)) = length (concat fs)"
    by (metis append_take_drop_id concat_append length_append)
  then show ?thesis unfolding n by linarith
qed

lemma field_sizes:
  "length (encode_u32 n []) \<le> 5" "length (encode_bool b []) = 1" "length (encode_option encode_bool ob []) = 1"
  "length (encode_option encode_u32 on []) \<le> 5" "1 \<le> length (encode_u32 n [])" "1 \<le> length (encode_option encode_u32 on [])"
  "length (encode_option encode_receiver_settle_mode None []) = 1"
  by (auto simp: encode_u32_def encode_bool_def encode_option_def encode_null_def put_defs split: option.split)

lemma tag_size: "length tag \<le> 8 \<Longrightarrow> length (encode_option encode_binary (Some tag) []) = 2 + length tag"
  by (simp add: encode_option_def encode_binary_def encode_var_def put_defs)

text \<open>The encoded size of a delivery state, one byte when there is none.\<close>

abbreviation state_size :: "delivery_state option \<Rightarrow> nat" where
  "state_size ds \<equiv> length (encode_option encode_delivery_state ds [])"

lemma nth_transfer_size:
  assumes "length tag \<le> 8" "state_size ds \<le> 29"
  shows "length (encode_performative (PTransfer (nth_transfer h did tag st fmt ds first continued)) []) \<le> TRANSFER_PERF_BOUND"
proof -
  let ?t = "nth_transfer h did tag st fmt ds first continued"
  have none: "length (encode_option encode_binary None []) = 1"
    "length (encode_option encode_delivery_state None []) = 1"
    by (simp_all add: encode_option_def encode_null_def put_defs)
  have "length (encode_transfer ?t []) = 12 + length (concat (strip_nulls (transfer_flds ?t)))"
    by (simp add: transfer_codec.encode_layout length_described_layout encode_descriptor_def put_defs)
  also have "\<dots> \<le> 12 + length (concat (transfer_flds ?t))" using length_strip_nulls by simp
  also have "\<dots> \<le> TRANSFER_PERF_BOUND"
    using assms field_sizes(1) [of h] field_sizes(4) [of "Some did"] field_sizes(4) [of "Some fmt"]
      field_sizes(4) [of None] tag_size [OF assms(1)]
    by (cases first) (simp_all add: transfer_flds_def nth_transfer_def default_transfer_def TRANSFER_PERF_BOUND_def
        field_sizes(2,3,7) none)
  finally show ?thesis by simp
qed

lemma nth_transfer_size_ge:
  assumes "length tag = 8" "42 \<le> state_size ds"
  shows "73 \<le> length (encode_performative (PTransfer (nth_transfer h did tag st fmt ds True continued)) [])"
proof -
  let ?t = "nth_transfer h did tag st fmt ds True continued"
  have "encode_bool (tr_batchable ?t) [] \<noteq> [NULL]" by (simp add: encode_bool_def put_defs)
  then have "strip_nulls (transfer_flds ?t) = transfer_flds ?t" by (simp add: transfer_flds_def)
  then have "length (encode_transfer ?t []) = 12 + length (concat (transfer_flds ?t))"
    by (simp add: transfer_codec.encode_layout length_described_layout encode_descriptor_def put_defs)
  also have "73 \<le> \<dots>"
    using assms field_sizes(5) [of h] field_sizes(6) [of "Some did"] field_sizes(6) [of "Some fmt"] tag_size [of tag]
      field_sizes(7)
    by (simp add: transfer_flds_def nth_transfer_def default_transfer_def field_sizes(2,3))
  finally show ?thesis by simp
qed

lemma chunk_transfers_shape:
  "tc \<in> set (chunk_transfers f first cs) \<Longrightarrow> \<exists>b m. fst tc = f b m \<and> snd tc \<in> set cs"
  by (induction f first cs rule: chunk_transfers.induct) (auto, blast)

lemma max_payload_pos [simp]: "0 < max_payload_per_frame n"
  by (simp add: max_payload_per_frame_def)

lemma nth_transfer_ok:
  assumes "length tag \<le> 8" "state_size ds \<le> 29" "pred_option delivery_state_ok ds"
  shows "performative_ok (PTransfer (nth_transfer h did tag st fmt ds first continued))"
  using nth_transfer_size [OF assms(1,2), of h did st fmt first continued] assms
  by (auto simp: transfer_ok_def nth_transfer_def default_transfer_def var_ok_def TRANSFER_PERF_BOUND_def)

lemma sent_frames_ok:
  assumes "length tag \<le> 8" "state_size ds \<le> 29" "pred_option delivery_state_ok ds" "80 < max_frame_size" "max_frame_size < 2 ^ 32"
    and "tc \<in> set (chunk_transfers (nth_transfer h did tag st fmt ds) first (split_chunks (max_payload_per_frame max_frame_size) body))"
  shows "frame_ok max_frame_size (op_frame (QueueTransfer ch (PTransfer (fst tc)) (snd tc)))"
proof -
  obtain b m where t: "fst tc = nth_transfer h did tag st fmt ds b m"
    and c: "snd tc \<in> set (split_chunks (max_payload_per_frame max_frame_size) body)"
    using chunk_transfers_shape [OF assms(6)] by auto
  have "length (snd tc) \<le> max_frame_size - 80"
    using split_chunks_bound [OF _ c] assms(4) by (simp add: max_payload_per_frame_def TRANSFER_PERF_BOUND_def)
  moreover have "length (encode_performative (PTransfer (fst tc)) []) \<le> 72"
    using nth_transfer_size [OF assms(1,2)] unfolding t by (simp only: TRANSFER_PERF_BOUND_def)
  ultimately have "length (frame_bytes (op_frame (QueueTransfer ch (PTransfer (fst tc)) (snd tc)))) \<le> max_frame_size"
    using assms(4) by (auto simp: frame_bytes_def encode_amqp_frame_eq)
  then show ?thesis
    using nth_transfer_ok [OF assms(1-3)] assms(5) unfolding frame_ok_def t by (auto simp del: performative_ok.simps)
qed

subsection \<open>Dispositions with a reversed range\<close>

definition settles_on :: "disposition \<Rightarrow> link \<Rightarrow> bool" where
  "settles_on d l \<longleftrightarrow> (case (di_role d, l) of
      (Receiver, LSender x) \<Rightarrow> sl_unsettled x \<noteq> []
    | (Sender, LReceiver r) \<Rightarrow> rl_unsettled r \<noteq> []
    | _ \<Rightarrow> False)"

lemma dispose_link_reversed:
  "unwrap_or (di_first d) (di_last d) < di_first d \<Longrightarrow>
    dispose_link d l = (if settles_on d l then Inl (Panicked RangeStartAfterEnd) else Inr (l, []))"
  by (auto simp: dispose_link_def settles_on_def apply_disposition_cases(1) Let_def split: role.split link.split)

lemma dispose_link_ordered:
  "\<not> unwrap_or (di_first d) (di_last d) < di_first d \<Longrightarrow> \<exists>l' effs. dispose_link d l = Inr (l', effs)"
  using apply_disposition_cases(2,3) [of "di_first d" "unwrap_or (di_first d) (di_last d)" "di_state d"]
  by (cases "di_settled d") (auto simp: dispose_link_def Let_def split: role.split link.split prod.split)

lemma put_same_link: "ss_links s h = Some l \<Longrightarrow> put_link h l s = s"
  by (simp add: put_link_def fun_upd_idem)

subsection \<open>Properties\<close>

text \<open>A session with one receiver link, capped at four bytes, that the peer knows by handle 9.\<close>

definition sample_windows :: session_windows where
  "sample_windows = (new_windows \<lparr>sc_incoming_window = 0, sc_outgoing_window = 0, sc_handle_max = 0\<rparr>)
    \<lparr>sw_remote_incoming_window := 8\<rparr>"

definition sample_receiver :: receiver_link where
  "sample_receiver = (accepted_receiver 5 [] 7 First Manual (Some 4))\<lparr>rl_remote_handle := Some 9\<rparr>"

definition sample_session :: session where
  "sample_session = (new_session 1 2 default_begin 3)
    \<lparr>ss_links := [5 \<mapsto> LReceiver sample_receiver], ss_remote_handles := [9 \<mapsto> 5]\<rparr>"

lemma sample_session_simps [simp]:
  "resolve_handle 9 (ss_remote_handles sample_session) = Some 5" "ss_links sample_session 5 = Some (LReceiver sample_receiver)"
  "rl_partial sample_receiver = None" "rl_remote_handle sample_receiver = Some 9" "unat (size_cap sample_receiver) = 4"
  by (simp_all add: sample_session_def sample_receiver_def accepted_receiver_def resolve_handle_def size_cap_def
      HARD_MAX_MESSAGE_SIZE_def min_def)

text \<open>
  C2: a message that the session splits into transfers is assembled again by the peer's session:
  whatever the frame size, the transfers put on the wire for a message, received in order by a
  session whose handle leads to an idle receiver link with room for the message, make it emit
  exactly one delivery, with the id, the tag, the settlement, the state and the whole body, use one
  credit, remember the delivery unless it was settled, and leave no partial delivery behind.
\<close>

theorem message_roundtrip:
  assumes "send_message_frames ch h did tag settled fmt ds body (max_payload_per_frame max_frame_size) w = (effs, w')"
    and "resolve_handle h (ss_remote_handles s) = Some local" "ss_links s local = Some (LReceiver r)"
    and "rl_partial r = None" "length body \<le> unat (size_cap r)"
  shows "\<exists>s' r' effs'. on_transfers (map wire_transfer (queued_transfers effs)) s = Inr (s', effs') \<and>
    emitted effs' = [(rl_events r, DeliveryEvent \<lparr>id_handle = rl_handle r, id_delivery_id = did, id_delivery_tag = tag,
      id_message = body, id_settled = settled, id_state = ds\<rparr>)] \<and>
    ss_links s' = (ss_links s)(local \<mapsto> LReceiver r') \<and> rl_partial r' = None \<and>
    rl_credit r' = record_received (rl_credit r) \<and>
    rl_unsettled r' = (if settled then rl_unsettled r else unsettled_insert did tag None (rl_unsettled r))"
proof -
  let ?cs = "split_chunks (max_payload_per_frame max_frame_size) body"
  obtain r' ev where d: "deliver (complete (new_partial did tag settled ds (concat ?cs))) r = (r', ev)" by fastforce
  have q: "queued_transfers effs = chunk_transfers (nth_transfer h did tag settled fmt ds) True ?cs"
    using assms(1) by (auto simp: send_message_frames_eq)
  have "length (concat ?cs) \<le> unat (size_cap r)" using assms(5) by simp
  from on_transfers_message [OF split_chunks_not_Nil assms(2,3,4) this d, of fmt] obtain w1 effs'
    where "on_transfers (map wire_transfer (queued_transfers effs)) s = Inr (put_link local (LReceiver r') (s\<lparr>ss_windows := w1\<rparr>), effs')"
      "emitted effs' = [(rl_events r, ev)]" unfolding q by blast
  then show ?thesis
    using d assms(4) by (intro exI [of _ "put_link local (LReceiver r') (s\<lparr>ss_windows := w1\<rparr>)"] exI [of _ r'] exI [of _ effs'])
      (auto simp: deliver_def complete_def new_partial_def new_delivery_def with_state_def put_link_def Let_def)
qed

text \<open>Three bytes in three frames.\<close>

theorem message_roundtrip_witness:
  "\<exists>effs w' s' effs'. send_message_frames 0 9 1 [8] False 0 None [1, 2, 3] (max_payload_per_frame 81) sample_windows = (effs, w') \<and>
    length (queued_transfers effs) = 3 \<and>
    on_transfers (map wire_transfer (queued_transfers effs)) sample_session = Inr (s', effs') \<and>
    length (emitted effs') = 1"
proof -
  let ?m = "send_message_frames 0 9 1 [8] False 0 None [1, 2, 3] (max_payload_per_frame 81) sample_windows"
  have n: "length (queued_transfers (fst ?m)) = 3"
    by (simp add: send_message_frames_eq max_payload_per_frame_def TRANSFER_PERF_BOUND_def split_chunks.simps)
  from message_roundtrip [of 0 9 1 "[8]" False 0 None "[1, 2, 3]" 81 sample_windows "fst ?m" "snd ?m" sample_session 5 sample_receiver]
  obtain s' effs' where "on_transfers (map wire_transfer (queued_transfers (fst ?m))) sample_session = Inr (s', effs')"
    "length (emitted effs') = 1" by auto
  with n show ?thesis by (metis prod.collapse)
qed

text \<open>
  C30: a message that is larger than the receiver's size cap is never delivered, in one frame or in
  many: the session answers with a detach that reports the size, forgets the link and its handle,
  and ignores the transfers that are still on their way.
\<close>

theorem oversized_message_detaches:
  assumes "send_message_frames ch h did tag settled fmt ds body (max_payload_per_frame max_frame_size) w = (effs, w')"
    and "resolve_handle h (ss_remote_handles s) = Some local" "ss_links s local = Some (LReceiver r)"
    and "rl_remote_handle r = Some h" "rl_partial r = None" "unat (size_cap r) < length body"
  shows "\<exists>s' effs'. on_transfers (map wire_transfer (queued_transfers effs)) s = Inr (s', effs') \<and> emitted effs' = [] \<and>
    ss_links s' local = None \<and> resolve_handle h (ss_remote_handles s') = None \<and> size_exceeded_detach s local \<in> set effs'"
proof -
  have "queued_transfers effs = chunk_transfers (nth_transfer h did tag settled fmt ds) True
      (split_chunks (max_payload_per_frame max_frame_size) body)"
    using assms(1) by (auto simp: send_message_frames_eq)
  then show ?thesis
    using on_transfers_exceed [OF assms(2,3,4), of True undefined "split_chunks (max_payload_per_frame max_frame_size) body"
        did tag settled fmt ds] assms(5,6) by (auto simp: gone_def)
qed

text \<open>Five bytes in five frames for a link that takes four.\<close>

theorem oversized_message_detaches_witness:
  "\<exists>effs w' s' effs'. send_message_frames 0 9 1 [8] False 0 None [1, 2, 3, 4, 5] (max_payload_per_frame 81) sample_windows = (effs, w') \<and>
    on_transfers (map wire_transfer (queued_transfers effs)) sample_session = Inr (s', effs') \<and>
    emitted effs' = [] \<and> ss_links s' 5 = None"
proof -
  let ?m = "send_message_frames 0 9 1 [8] False 0 None [1, 2, 3, 4, 5] (max_payload_per_frame 81) sample_windows"
  from oversized_message_detaches [of 0 9 1 "[8]" False 0 None "[1, 2, 3, 4, 5]" 81 sample_windows "fst ?m" "snd ?m" sample_session 5 sample_receiver]
  obtain s' effs' where "on_transfers (map wire_transfer (queued_transfers (fst ?m))) sample_session = Inr (s', effs')"
    "emitted effs' = []" "ss_links s' 5 = None" by auto
  then show ?thesis by (metis prod.collapse)
qed


text \<open>Two messages queued on an attached link with one credit.\<close>

definition sample_outbox :: "pending_send list" where
  "sample_outbox = map (\<lambda>b. \<lparr>ps_body = b, ps_settled = False, ps_message_format = 0, ps_state = None, ps_reply = None\<rparr>) [[1, 2], [3]]"

definition sample_sender :: sender_link where
  "sample_sender = (accepted_sender 6 [] 7 Mixed Manual)\<lparr>sl_attached := True, sl_outbox := sample_outbox,
    sl_credit := (new_credit 0 Manual)\<lparr>lc_link_credit := 1\<rparr>\<rparr>"

definition sending_session :: session where
  "sending_session = (new_session 1 2 default_begin 3)\<lparr>ss_links := [6 \<mapsto> LSender sample_sender],
    ss_windows := sample_windows\<rparr>"


text \<open>
  C31: every transfer that the session queues for a message fits the negotiated frame size and reads
  back as the same frame, provided that the encoded delivery state takes at most 29 bytes.
\<close>

theorem transfer_frames_fit:
  assumes "send_message_frames ch h did tag settled fmt ds body (max_payload_per_frame max_frame_size) w = (effs, w')"
    and "length tag \<le> 8" "state_size ds \<le> 29" "pred_option delivery_state_ok ds" "80 < max_frame_size" "max_frame_size < 2 ^ 32"
    and "Queue op \<in> set effs"
  shows "length (frame_bytes (op_frame op)) \<le> max_frame_size \<and>
    decode_frame (frame_bytes (op_frame op) @ rest) max_frame_size = Inr (Some (op_frame op, rest))"
proof -
  obtain tc where "op = QueueTransfer ch (PTransfer (fst tc)) (snd tc)"
    "tc \<in> set (chunk_transfers (nth_transfer h did tag settled fmt ds) True (split_chunks (max_payload_per_frame max_frame_size) body))"
    using assms(1,7) by (auto simp: send_message_frames_eq queue_transfers_def)
  with sent_frames_ok [OF assms(2-6), of tc] have "frame_ok max_frame_size (op_frame op)" by blast
  from decode_frame_bytes [OF this] this show ?thesis by (simp add: frame_ok_def)
qed

theorem transfer_frames_fit_witness:
  "\<exists>effs w' op. send_message_frames 0 9 1 [8] False 0 None [1, 2, 3] (max_payload_per_frame 81) sample_windows = (effs, w') \<and>
    Queue op \<in> set effs \<and> length (frame_bytes (op_frame op)) \<le> 81"
proof -
  let ?m = "send_message_frames 0 9 1 [8] False 0 None [1, 2, 3] (max_payload_per_frame 81) sample_windows"
  obtain op where op: "Queue op \<in> set (fst ?m)"
    by (simp add: send_message_frames_eq max_payload_per_frame_def TRANSFER_PERF_BOUND_def split_chunks.simps queue_transfers_def) blast
  have "state_size None \<le> 29" by (simp add: encode_option_def encode_null_def put_defs)
  with transfer_frames_fit [of 0 9 1 "[8]" False 0 None "[1, 2, 3]" 81 sample_windows "fst ?m" "snd ?m" op "[]"] op
  have "length (frame_bytes (op_frame op)) \<le> 81" by simp
  with op show ?thesis by (metis prod.collapse)
qed

text \<open>
  C38: the bound that splits the payload is not an upper bound for every transfer. With a delivery
  state of 42 bytes or more, as a transactional state with a transaction id of 32 bytes has, the
  first frame of a message that fills it exceeds the negotiated frame size.
\<close>

theorem transfer_bound_exceeded:
  assumes "length tag = 8" "42 \<le> state_size ds" "80 < max_frame_size" "max_frame_size - 80 \<le> length body"
    and "send_message_frames ch h did tag settled fmt ds body (max_payload_per_frame max_frame_size) w = (effs, w')"
  shows "\<exists>op. hd effs = Queue op \<and> max_frame_size < length (frame_bytes (op_frame op))"
proof -
  let ?cs = "split_chunks (max_payload_per_frame max_frame_size) body"
  let ?t = "nth_transfer h did tag settled fmt ds True (tl ?cs \<noteq> [])"
  have "max_payload_per_frame max_frame_size = max_frame_size - 80"
    using assms(3) by (simp add: max_payload_per_frame_def TRANSFER_PERF_BOUND_def)
  then obtain cs where cs: "?cs = take (max_frame_size - 80) body # cs"
    using split_chunks_first [OF max_payload_pos] by metis
  have "hd effs = Queue (QueueTransfer ch (PTransfer ?t) (take (max_frame_size - 80) body))"
    using assms(5) by (auto simp: send_message_frames_eq queue_transfers_def cs)
  moreover have "take (max_frame_size - 80) body \<noteq> []" using assms(3,4) by auto
  moreover have "73 \<le> length (encode_performative (PTransfer ?t) [])"
    using nth_transfer_size_ge [OF assms(1,2)] .
  ultimately show ?thesis using assms(3,4) by (auto simp: frame_bytes_def encode_amqp_frame_eq)
qed

text \<open>A transactional state with a transaction id of 32 bytes.\<close>

definition long_txn_state :: delivery_state where
  "long_txn_state = SOther (VDescribed (VUlong TRANSACTIONAL_STATE) (VList [VBinary (replicate 32 0)]))"

theorem transfer_bound_exceeded_witness:
  "\<exists>op. hd (fst (send_message_frames 0 9 1 (replicate 8 0) False 0 (Some long_txn_state) (replicate 1000 0)
      (max_payload_per_frame 512) sample_windows)) = Queue op \<and> 512 < length (frame_bytes (op_frame op))"
proof -
  have "42 \<le> state_size (Some long_txn_state)"
    by (simp add: encode_option_def long_txn_state_def encode_value_VDescribed encode_value_VList del: encode_value.simps)
      (simp add: encode_binary_def encode_var_def encode_u64_def put_defs)
  from transfer_bound_exceeded [OF _ this, of "replicate 8 0" 512 "replicate 1000 0" 0 9 1 False 0 sample_windows] show ?thesis
    by (simp add: prod_eq_iff)
qed

text \<open>
  C37: a disposition whose range is reversed panics exactly when a link of the side it addresses has
  an unsettled delivery; otherwise it changes nothing.
\<close>

theorem reversed_disposition_panics:
  "on_disposition order d s = Inl (Panicked RangeStartAfterEnd) \<longleftrightarrow>
    unwrap_or (di_first d) (di_last d) < di_first d \<and> (\<exists>h l. h \<in> set order \<and> ss_links s h = Some l \<and> settles_on d l)"
proof (cases "unwrap_or (di_first d) (di_last d) < di_first d")
  case True
  then show ?thesis
    by (induction order) (auto simp: dispose_link_reversed put_same_link rbind_def split: option.split sum.split)
next
  case False
  have "\<exists>x. on_disposition order d s = Inr x"
  proof (induction order arbitrary: s)
    case (Cons h order)
    show ?case
    proof (cases "ss_links s h")
      case (Some l)
      then show ?thesis using dispose_link_ordered [OF False, of l] Cons.IH by (auto simp: rbind_def split: sum.split) (metis sum.distinct(1))
    qed (use Cons.IH in simp)
  qed simp
  with False show ?thesis by auto
qed

end
