(* ===== verification/Broker_Dispatch.thy ===== *)
theory Broker_Dispatch
  imports Connection_Negotiate
begin

section \<open>Queue policies and consumer dispatch (\<open>ramqp-broker/src/dispatch.rs\<close>, \<open>policy.rs\<close>)\<close>

text \<open>
  What the queue actors share: addresses (\<open>registry.rs\<close>), the effective policy of a queue, the
  mailbox protocol (\<open>queue.rs\<close>), the subscriber ring and the confirmation of publishes. A channel
  to a connection or to a waiting caller is a number; what an actor sends is a list of effects, in
  order. A \<open>usize\<close> is a natural number, with saturation at 64 bits where the source saturates.
\<close>

type_synonym conn = nat
type_synonym sub_id = u64
type_synonym reply_to = nat

definition USIZE_MAX :: nat where
  "USIZE_MAX = 2 ^ 64 - 1"

definition usize_add :: "nat \<Rightarrow> nat \<Rightarrow> nat" where
  "usize_add a b = min (a + b) USIZE_MAX"

subsection \<open>The mailbox protocol\<close>

datatype settle_outcome = Ack | Requeue | RequeueFailed | Drop

record publish_ack =
  pa_conn :: conn
  pa_channel :: u16
  pa_handle :: u32
  pa_binding_gen :: u64
  pa_delivery_id :: u32

datatype queue_msg =
    Publish bytes "publish_ack option"
  | PublishReserved bytes "publish_ack option"
  | Reserve u32 reply_to
  | Unreserve u32
  | Subscribe conn u16 u32 u64 reply_to
  | Demand sub_id u32 bool
  | SettleMsg sub_id u64 settle_outcome
  | Unsubscribe sub_id
  | Stats reply_to

record queue_stats =
  qs_ready :: nat
  qs_unacked :: nat
  qs_consumers :: nat

text \<open>\<open>Deliver channel handle binding_gen msg_id body\<close>, \<open>SettleIncoming channel handle binding_gen delivery_id accepted\<close>.\<close>

datatype conn_cmd =
    Deliver u16 u32 u64 u64 bytes
  | SettleIncoming u16 u32 u64 u32 bool

datatype broker_effect =
    ToConn conn conn_cmd
  | ReplyReserved reply_to bool
  | ReplySubscribed reply_to sub_id
  | ReplyStats reply_to queue_stats
  | DeadLetter utf8 bytes

subsection \<open>Addresses (\<open>registry.rs\<close>)\<close>

datatype queue_kind = Transient | Quorum | Durable

definition strip_prefix :: "utf8 \<Rightarrow> utf8 \<Rightarrow> utf8 option" where
  "strip_prefix p s = (if take (length p) s = p then Some (drop (length p) s) else None)"

definition parse_address :: "utf8 \<Rightarrow> (queue_kind \<times> utf8) option" where
  "parse_address address =
    (case strip_prefix (ascii ''/quorum/'') address of
       Some name \<Rightarrow> if name \<noteq> [] then Some (Quorum, name) else None
     | None \<Rightarrow>
         (case strip_prefix (ascii ''/durable/'') address of
            Some name \<Rightarrow> if name \<noteq> [] then Some (Durable, name) else None
          | None \<Rightarrow>
              let name = (case strip_prefix (ascii ''/queues/'') address of
                            Some name \<Rightarrow> name
                          | None \<Rightarrow> dropWhile (\<lambda>b. b = 47) address)
              in if name \<noteq> [] then Some (Transient, name) else None))"

subsection \<open>Policies\<close>

datatype overflow_behavior = RejectPublish | DropHead

record queue_policy =
  qp_message_ttl :: "duration option"
  qp_max_length :: "nat option"
  qp_max_length_bytes :: "nat option"
  qp_overflow :: overflow_behavior
  qp_dead_letter :: "utf8 option"
  qp_max_delivery_attempts :: "u32 option"

text \<open>\<open>ep_dlx\<close> tells whether the actor holds a channel to the dead-letter router.\<close>

record effective_policy =
  ep_ttl_ms :: "u64 option"
  ep_max_len :: nat
  ep_max_bytes :: nat
  ep_drop_head :: bool
  ep_dead_letter :: "utf8 option"
  ep_max_attempts :: "u32 option"
  ep_dlx :: bool

definition depth_only :: "nat \<Rightarrow> effective_policy" where
  "depth_only max_len = \<lparr>ep_ttl_ms = None, ep_max_len = max_len, ep_max_bytes = USIZE_MAX, ep_drop_head = False,
    ep_dead_letter = None, ep_max_attempts = None, ep_dlx = False\<rparr>"

definition resolve_policy :: "(utf8 \<times> queue_policy) list \<Rightarrow> utf8 \<Rightarrow> nat \<Rightarrow> nat \<Rightarrow> bool \<Rightarrow> effective_policy" where
  "resolve_policy config_policies queue global_max_depth global_max_bytes dlx =
    (let global_bytes = (if global_max_bytes = 0 then USIZE_MAX else global_max_bytes) in
     case find (\<lambda>(prefix, _). strip_prefix prefix queue \<noteq> None) config_policies of
       Some (_, p) \<Rightarrow> \<lparr>
         ep_ttl_ms = map_option (\<lambda>d. of_nat (as_millis d)) (qp_message_ttl p),
         ep_max_len = (case qp_max_length p of Some n \<Rightarrow> n | None \<Rightarrow> global_max_depth),
         ep_max_bytes = (case qp_max_length_bytes p of Some n \<Rightarrow> n | None \<Rightarrow> global_bytes),
         ep_drop_head = (qp_overflow p = DropHead),
         ep_dead_letter = option_filter
           (\<lambda>target. \<not> (case parse_address target of Some (_, target_name) \<Rightarrow> target_name = queue | None \<Rightarrow> False)) (qp_dead_letter p),
         ep_max_attempts = qp_max_delivery_attempts p,
         ep_dlx = dlx\<rparr>
     | None \<Rightarrow> (depth_only global_max_depth)\<lparr>ep_max_bytes := global_bytes\<rparr>)"

definition expired :: "effective_policy \<Rightarrow> u64 \<Rightarrow> u64 \<Rightarrow> bool" where
  "expired policy enqueued_ms now_ms = (case ep_ttl_ms policy of
      Some ttl \<Rightarrow> saturating_sub now_ms enqueued_ms \<ge> ttl
    | None \<Rightarrow> False)"

definition attempts_exhausted :: "effective_policy \<Rightarrow> u32 \<Rightarrow> bool" where
  "attempts_exhausted policy failures = (case ep_max_attempts policy of
      Some m \<Rightarrow> failures \<ge> m
    | None \<Rightarrow> False)"

definition dead_letter :: "effective_policy \<Rightarrow> bytes \<Rightarrow> broker_effect list" where
  "dead_letter policy body = (case ep_dead_letter policy of
      Some target \<Rightarrow> if ep_dlx policy then [DeadLetter target body] else []
    | None \<Rightarrow> [])"

subsection \<open>Subscribers\<close>

record subscriber =
  sub_id :: sub_id
  sub_conn :: conn
  sub_channel :: u16
  sub_handle :: u32
  sub_binding_gen :: u64
  sub_demand :: u32
  sub_drain_pending :: bool

definition new_subscriber :: "sub_id \<Rightarrow> conn \<Rightarrow> u16 \<Rightarrow> u32 \<Rightarrow> u64 \<Rightarrow> subscriber" where
  "new_subscriber i conn channel handle binding_gen = \<lparr>sub_id = i, sub_conn = conn, sub_channel = channel,
    sub_handle = handle, sub_binding_gen = binding_gen, sub_demand = 0, sub_drain_pending = False\<rparr>"

definition grant :: "u32 \<Rightarrow> bool \<Rightarrow> subscriber \<Rightarrow> subscriber" where
  "grant credit drain s = s\<lparr>sub_demand := saturating_add (sub_demand s) credit, sub_drain_pending := drain\<rparr>"

definition pick_ready :: "subscriber list \<Rightarrow> nat \<Rightarrow> nat option" where
  "pick_ready subs rr =
    (let n = length subs
     in find (\<lambda>idx. sub_demand (subs ! idx) > 0) (map (\<lambda>i. (rr + i) mod n) [0..<n]))"

definition complete_drains :: "subscriber list \<Rightarrow> subscriber list" where
  "complete_drains subs = map (\<lambda>s. if sub_drain_pending s then s\<lparr>sub_demand := 0, sub_drain_pending := False\<rparr> else s) subs"

definition settle_publish :: "bool \<Rightarrow> publish_ack option \<Rightarrow> broker_effect list" where
  "settle_publish accepted ack = (case ack of
      Some a \<Rightarrow> [ToConn (pa_conn a) (SettleIncoming (pa_channel a) (pa_handle a) (pa_binding_gen a) (pa_delivery_id a) accepted)]
    | None \<Rightarrow> [])"

definition confirm_publish :: "publish_ack option \<Rightarrow> broker_effect list" where
  "confirm_publish ack = settle_publish True ack"

definition refuse_publish :: "publish_ack option \<Rightarrow> broker_effect list" where
  "refuse_publish ack = settle_publish False ack"

text \<open>The first subscriber with the identifier, changed in place.\<close>

fun update_subscriber :: "sub_id \<Rightarrow> (subscriber \<Rightarrow> subscriber) \<Rightarrow> subscriber list \<Rightarrow> subscriber list" where
  "update_subscriber i f [] = []"
| "update_subscriber i f (s # subs) = (if sub_id s = i then f s # subs else s # update_subscriber i f subs)"

definition retain_others :: "sub_id \<Rightarrow> subscriber list \<Rightarrow> subscriber list" where
  "retain_others i subs = filter (\<lambda>s. sub_id s \<noteq> i) subs"

text \<open>The result of the next send of an actor; a list that has run out stands for sends that succeed.\<close>

fun next_send :: "bool list \<Rightarrow> bool \<times> bool list" where
  "next_send [] = (True, [])"
| "next_send (ok # sends) = (ok, sends)"

subsection \<open>The ring\<close>

lemma find_map_upt: "find P (map f [0..<n]) = Some y \<longleftrightarrow> (\<exists>k < n. y = f k \<and> P (f k) \<and> (\<forall>j < k. \<not> P (f j)))"
  by (auto simp: find_Some_iff)

lemma pick_ready_Some:
  "pick_ready subs rr = Some idx \<longleftrightarrow>
    (\<exists>k < length subs. idx = (rr + k) mod length subs \<and> 0 < sub_demand (subs ! idx) \<and>
      (\<forall>j < k. sub_demand (subs ! ((rr + j) mod length subs)) = 0))"
  by (auto simp: pick_ready_def Let_def find_map_upt word_neq_0_conv [symmetric])

lemma pick_ready_bound: "pick_ready subs rr = Some idx \<Longrightarrow> idx < length subs"
  by (auto simp: pick_ready_Some intro: mod_less_divisor)

lemma pick_ready_demand: "pick_ready subs rr = Some idx \<Longrightarrow> 0 < sub_demand (subs ! idx)"
  by (auto simp: pick_ready_Some)

lemma mod_reaches:
  assumes "j < n"
  obtains i where "i < n" "(rr + i) mod n = (j :: nat)"
proof
  have "rr mod n < n" using assms by simp
  then have "rr mod n + (j + (n - rr mod n)) = j + n" by simp
  then show "(rr + (j + (n - rr mod n)) mod n) mod n = j"
    using assms by (metis mod_add_left_eq mod_add_right_eq mod_add_self2 mod_less)
qed (use assms in simp)

lemma pick_ready_None: "pick_ready subs rr = None \<longleftrightarrow> (\<forall>s \<in> set subs. sub_demand s = 0)"
proof -
  let ?n = "length subs"
  have "pick_ready subs rr = None \<longleftrightarrow> (\<forall>i < ?n. sub_demand (subs ! ((rr + i) mod ?n)) = 0)"
    by (auto simp: pick_ready_def Let_def find_None_iff word_neq_0_conv [symmetric])
  also have "\<dots> \<longleftrightarrow> (\<forall>j < ?n. sub_demand (subs ! j) = 0)"
    by (metis mod_reaches mod_less_divisor not_less_zero gr_zeroI)
  finally show ?thesis by (simp add: all_set_conv_all_nth)
qed

lemma complete_drains_ids [simp]: "map sub_id (complete_drains subs) = map sub_id subs"
  by (simp add: complete_drains_def)

lemma update_subscriber_ids [simp]:
  "(\<And>s. sub_id (f s) = sub_id s) \<Longrightarrow> map sub_id (update_subscriber i f subs) = map sub_id subs"
  by (induction subs) auto

lemma retain_others_ids [simp]: "map sub_id (retain_others i subs) = filter (\<lambda>j. j \<noteq> i) (map sub_id subs)"
  by (simp add: retain_others_def filter_map comp_def)

end
