(* ===== verification/Broker_Queue.thy ===== *)
theory Broker_Queue
  imports Broker_Dispatch "HOL-Library.Multiset"
begin

section \<open>The transient queue (\<open>ramqp-broker/src/queue.rs\<close>)\<close>

text \<open>
  The actor of an in-memory queue. Its state is the set of local variables of the source's loop, a
  message of its mailbox is one step, and what it sends is the list of effects of the step. The
  clock and the results of its sends are parameters of a step. The map of unacknowledged messages
  is an association list with at most one entry for a key; the order of its entries is immaterial.
\<close>

subsection \<open>State and operations\<close>

record stored =
  st_id :: u64
  st_body :: bytes
  st_failures :: u32
  st_enqueued_ms :: u64

type_synonym unacked = "(u64 \<times> stored \<times> sub_id) list"

definition unacked_remove :: "u64 \<Rightarrow> unacked \<Rightarrow> unacked" where
  "unacked_remove i un = filter (\<lambda>e. fst e \<noteq> i) un"

definition unacked_insert :: "u64 \<Rightarrow> stored \<times> sub_id \<Rightarrow> unacked \<Rightarrow> unacked" where
  "unacked_insert i v un = (i, v) # unacked_remove i un"

record queue_actor =
  qa_ready :: "stored list"
  qa_unacked :: unacked
  qa_subs :: "subscriber list"
  qa_reserved :: nat
  qa_bytes :: nat
  qa_next_msg_id :: u64
  qa_next_sub_id :: sub_id
  qa_rr :: nat

definition new_queue :: queue_actor where
  "new_queue = \<lparr>qa_ready = [], qa_unacked = [], qa_subs = [], qa_reserved = 0, qa_bytes = 0, qa_next_msg_id = 0,
    qa_next_sub_id = 0, qa_rr = 0\<rparr>"

text \<open>What a step reads from outside: the clock at a publish, the clock at dispatch, the results of its sends.\<close>

record step_env =
  se_enqueue_ms :: u64
  se_now_ms :: u64
  se_sends :: "bool list"

text \<open>At a bound, by depth or by bytes.\<close>

definition over :: "effective_policy \<Rightarrow> nat \<Rightarrow> nat \<Rightarrow> nat \<Rightarrow> nat \<Rightarrow> nat \<Rightarrow> bool" where
  "over policy body_len reserved unacked_len ready_len bytes_now \<longleftrightarrow>
    ready_len + unacked_len + reserved \<ge> ep_max_len policy \<or> usize_add bytes_now body_len > ep_max_bytes policy"

text \<open>The loop that makes room from the head: whether room is still needed, what is left and what was displaced.\<close>

fun drop_heads :: "effective_policy \<Rightarrow> nat \<Rightarrow> nat \<Rightarrow> nat \<Rightarrow> stored list \<Rightarrow> nat \<Rightarrow> bool \<times> stored list \<times> nat \<times> broker_effect list" where
  "drop_heads policy body_len reserved unacked_len [] bytes = (True, [], bytes, [])"
| "drop_heads policy body_len reserved unacked_len (old # ready) bytes =
    (let bytes = bytes - length (st_body old);
         effects = dead_letter policy (st_body old)
     in if over policy body_len reserved unacked_len (length ready) bytes
        then let (needs_room, ready, bytes, effects') = drop_heads policy body_len reserved unacked_len ready bytes
             in (needs_room, ready, bytes, effects @ effects')
        else (False, ready, bytes, effects))"

definition make_room :: "effective_policy \<Rightarrow> nat \<Rightarrow> queue_actor \<Rightarrow> bool \<times> queue_actor \<times> broker_effect list" where
  "make_room policy body_len s =
    (let needs_room = over policy body_len (qa_reserved s) (length (qa_unacked s)) (length (qa_ready s)) (qa_bytes s)
     in if needs_room \<and> ep_drop_head policy
        then let (needs_room, ready, bytes, effects) =
               drop_heads policy body_len (qa_reserved s) (length (qa_unacked s)) (qa_ready s) (qa_bytes s)
             in (needs_room, s\<lparr>qa_ready := ready, qa_bytes := bytes\<rparr>, effects)
        else (needs_room, s, []))"

text \<open>A handler's last component tells whether the loop goes on to dispatch.\<close>

definition publish ::
    "effective_policy \<Rightarrow> u64 \<Rightarrow> bool \<Rightarrow> bytes \<Rightarrow> publish_ack option \<Rightarrow> queue_actor \<Rightarrow> queue_actor \<times> broker_effect list \<times> bool" where
  "publish policy now from_reserved body ack s =
    (let s = (if from_reserved then s\<lparr>qa_reserved := qa_reserved s - 1\<rparr> else s);
         (needs_room, s, dropped) = make_room policy (length body) s
     in if needs_room \<and> \<not> from_reserved then (s, dropped @ refuse_publish ack, False)
        else let msg_id = qa_next_msg_id s + 1
             in (s\<lparr>qa_next_msg_id := msg_id, qa_bytes := usize_add (qa_bytes s) (length body),
                   qa_ready := qa_ready s @ [\<lparr>st_id = msg_id, st_body = body, st_failures = 0, st_enqueued_ms = now\<rparr>]\<rparr>,
                 dropped @ confirm_publish ack, True))"

definition reserve :: "effective_policy \<Rightarrow> u32 \<Rightarrow> reply_to \<Rightarrow> queue_actor \<Rightarrow> queue_actor \<times> broker_effect list" where
  "reserve policy slots reply s =
    (let ok = (ep_drop_head policy \<or>
           length (qa_ready s) + length (qa_unacked s) + qa_reserved s + unat slots \<le> ep_max_len policy);
         s = (if ok \<and> \<not> ep_drop_head policy then s\<lparr>qa_reserved := qa_reserved s + unat slots\<rparr> else s)
     in (s, [ReplyReserved reply ok]))"

definition subscribe :: "conn \<Rightarrow> u16 \<Rightarrow> u32 \<Rightarrow> u64 \<Rightarrow> reply_to \<Rightarrow> queue_actor \<Rightarrow> queue_actor \<times> broker_effect list" where
  "subscribe conn channel handle binding_gen reply s =
    (let i = qa_next_sub_id s + 1
     in (s\<lparr>qa_next_sub_id := i, qa_subs := qa_subs s @ [new_subscriber i conn channel handle binding_gen]\<rparr>,
         [ReplySubscribed reply i]))"

definition settle_stored ::
    "effective_policy \<Rightarrow> sub_id \<Rightarrow> u64 \<Rightarrow> settle_outcome \<Rightarrow> queue_actor \<Rightarrow> queue_actor \<times> broker_effect list \<times> bool" where
  "settle_stored policy sub msg_id outcome s =
    (case map_of (qa_unacked s) msg_id of
       None \<Rightarrow> (s, [], False)
     | Some (stored, owner) \<Rightarrow>
         if owner \<noteq> sub then (s, [], False)
         else let s = s\<lparr>qa_unacked := unacked_remove msg_id (qa_unacked s)\<rparr>;
                  released = s\<lparr>qa_bytes := qa_bytes s - length (st_body stored)\<rparr>
              in (case outcome of
                    Ack \<Rightarrow> (released, [], True)
                  | Drop \<Rightarrow> (released, [], True)
                  | Requeue \<Rightarrow> (s\<lparr>qa_ready := stored # qa_ready s\<rparr>, [], True)
                  | RequeueFailed \<Rightarrow>
                      let stored = stored\<lparr>st_failures := st_failures stored + 1\<rparr>
                      in if attempts_exhausted policy (st_failures stored)
                         then (released, dead_letter policy (st_body stored), True)
                         else (s\<lparr>qa_ready := stored # qa_ready s\<rparr>, [], True)))"

text \<open>The messages a subscriber holds go back to the front, oldest first.\<close>

definition orphaned :: "sub_id \<Rightarrow> unacked \<Rightarrow> u64 list" where
  "orphaned sub un = sort (map fst (filter (\<lambda>(_, _, owner). owner = sub) un))"

definition requeue :: "u64 list \<Rightarrow> unacked \<Rightarrow> stored list \<Rightarrow> unacked \<times> stored list" where
  "requeue ids un ready = foldr (\<lambda>i (un, ready).
      case map_of un i of
        Some (stored, _) \<Rightarrow> (unacked_remove i un, stored # ready)
      | None \<Rightarrow> (un, ready)) ids (un, ready)"

definition unsubscribe :: "sub_id \<Rightarrow> queue_actor \<Rightarrow> queue_actor" where
  "unsubscribe sub s =
    (let (un, ready) = requeue (orphaned sub (qa_unacked s)) (qa_unacked s) (qa_ready s)
     in s\<lparr>qa_subs := retain_others sub (qa_subs s), qa_unacked := un, qa_ready := ready\<rparr>)"

fun handle_queue_msg :: "effective_policy \<Rightarrow> u64 \<Rightarrow> queue_msg \<Rightarrow> queue_actor \<Rightarrow> queue_actor \<times> broker_effect list \<times> bool" where
  "handle_queue_msg policy now (Publish body ack) s = publish policy now False body ack s"
| "handle_queue_msg policy now (PublishReserved body ack) s = publish policy now True body ack s"
| "handle_queue_msg policy now (Reserve slots reply) s = (let (s, effects) = reserve policy slots reply s in (s, effects, True))"
| "handle_queue_msg policy now (Unreserve slots) s = (s\<lparr>qa_reserved := qa_reserved s - unat slots\<rparr>, [], True)"
| "handle_queue_msg policy now (Subscribe conn channel handle binding_gen reply) s =
    (let (s, effects) = subscribe conn channel handle binding_gen reply s in (s, effects, True))"
| "handle_queue_msg policy now (Demand sub credit drain) s =
    (s\<lparr>qa_subs := update_subscriber sub (grant credit drain) (qa_subs s)\<rparr>, [], True)"
| "handle_queue_msg policy now (SettleMsg sub msg_id outcome) s = settle_stored policy sub msg_id outcome s"
| "handle_queue_msg policy now (Stats reply) s =
    (s, [ReplyStats reply \<lparr>qs_ready = length (qa_ready s), qs_unacked = length (qa_unacked s), qs_consumers = length (qa_subs s)\<rparr>], True)"
| "handle_queue_msg policy now (Unsubscribe sub) s = (unsubscribe sub s, [], True)"

text \<open>Lazy expiry from the head.\<close>

fun expire_heads :: "effective_policy \<Rightarrow> u64 \<Rightarrow> stored list \<Rightarrow> nat \<Rightarrow> stored list \<times> nat \<times> broker_effect list" where
  "expire_heads policy now [] bytes = ([], bytes, [])"
| "expire_heads policy now (m # ready) bytes =
    (if expired policy (st_enqueued_ms m) now
     then let (ready, bytes, effects) = expire_heads policy now ready (bytes - length (st_body m))
          in (ready, bytes, dead_letter policy (st_body m) @ effects)
     else (m # ready, bytes, []))"

lemma retain_others_less:
  assumes "idx < length subs" "sub_id t = sub_id (subs ! idx)"
  shows "length (retain_others (sub_id (subs ! idx)) (subs[idx := t])) < length subs"
proof -
  have "subs[idx := t] ! idx \<in> set (subs[idx := t])" using assms(1) by (intro nth_mem) simp
  then have "length (filter (\<lambda>x. sub_id x \<noteq> sub_id (subs ! idx)) (subs[idx := t])) < length (subs[idx := t])"
    using assms by (intro length_filter_less [of t]) auto
  then show ?thesis by (simp add: retain_others_def)
qed

text \<open>One delivery attempt takes a unit of demand; a failed send drops the subscriber and requeues what it held.\<close>

function dispatch_loop ::
    "bool list \<Rightarrow> stored list \<Rightarrow> unacked \<Rightarrow> subscriber list \<Rightarrow> nat \<Rightarrow>
     stored list \<times> unacked \<times> subscriber list \<times> nat \<times> broker_effect list" where
  "dispatch_loop sends [] un subs rr = ([], un, complete_drains subs, rr, [])"
| "dispatch_loop sends (m # ready) un subs rr =
    (case pick_ready subs rr of
       None \<Rightarrow> (m # ready, un, subs, rr, [])
     | Some idx \<Rightarrow>
         let rr = (idx + 1) mod length subs;
             sub = subs ! idx;
             subs = subs[idx := sub\<lparr>sub_demand := sub_demand sub - 1\<rparr>];
             cmd = Deliver (sub_channel sub) (sub_handle sub) (sub_binding_gen sub) (st_id m) (st_body m);
             (ok, sends) = next_send sends
         in if ok
            then let (ready, un, subs, rr, effects) =
                   dispatch_loop sends ready (unacked_insert (st_id m) (m, sub_id sub) un) subs rr
                 in (ready, un, subs, rr, ToConn (sub_conn sub) cmd # effects)
            else let (un, ready) = requeue (orphaned (sub_id sub) un) un (m # ready)
                 in dispatch_loop sends ready un (retain_others (sub_id sub) subs) rr)"
  by pat_completeness auto

termination
  by (relation "measures [\<lambda>(_, _, _, subs, _). length subs, \<lambda>(_, ready, _, _, _). length ready]")
    (auto intro!: retain_others_less dest: pick_ready_bound)

definition dispatch :: "effective_policy \<Rightarrow> u64 \<Rightarrow> bool list \<Rightarrow> queue_actor \<Rightarrow> queue_actor \<times> broker_effect list" where
  "dispatch policy now sends s =
    (let (ready, bytes, expired) =
           (if ep_ttl_ms policy \<noteq> None then expire_heads policy now (qa_ready s) (qa_bytes s) else (qa_ready s, qa_bytes s, []));
         (ready, un, subs, rr, effects) = dispatch_loop sends ready (qa_unacked s) (qa_subs s) (qa_rr s)
     in (s\<lparr>qa_ready := ready, qa_bytes := bytes, qa_unacked := un, qa_subs := subs, qa_rr := rr\<rparr>, expired @ effects))"

text \<open>One iteration of the actor's loop, and a run of it.\<close>

definition queue_step :: "effective_policy \<Rightarrow> step_env \<Rightarrow> queue_msg \<Rightarrow> queue_actor \<Rightarrow> queue_actor \<times> broker_effect list" where
  "queue_step policy env msg s =
    (let (s, effects, go) = handle_queue_msg policy (se_enqueue_ms env) msg s
     in if go
        then let (s, effects') = dispatch policy (se_now_ms env) (se_sends env) s in (s, effects @ effects')
        else (s, effects))"

fun queue_run :: "effective_policy \<Rightarrow> (step_env \<times> queue_msg) list \<Rightarrow> queue_actor \<Rightarrow> queue_actor \<times> broker_effect list" where
  "queue_run policy [] s = (s, [])"
| "queue_run policy ((env, msg) # msgs) s =
    (let (s, effects) = queue_step policy env msg s;
         (s, effects') = queue_run policy msgs s
     in (s, effects @ effects'))"

subsection \<open>Requeueing\<close>

text \<open>The messages a queue holds, wherever they are.\<close>

definition msgs :: "stored list \<Rightarrow> unacked \<Rightarrow> stored multiset" where
  "msgs ready un = mset ready + mset (map (fst \<circ> snd) un)"

definition ring_inv :: "stored list \<Rightarrow> unacked \<Rightarrow> subscriber list \<Rightarrow> bool" where
  "ring_inv ready un subs \<longleftrightarrow> distinct (map st_id ready @ map fst un) \<and>
    (\<forall>(i, m, owner) \<in> set un. st_id m = i \<and> owner \<in> sub_id ` set subs) \<and> distinct (map sub_id subs)"

lemma requeue_Cons: "requeue (i # ids) un ready =
    (case requeue ids un ready of (un, ready) \<Rightarrow>
      (case map_of un i of Some (stored, _) \<Rightarrow> (unacked_remove i un, stored # ready) | None \<Rightarrow> (un, ready)))"
  by (simp add: requeue_def)

lemma map_of_filter_fst: "map_of (filter (\<lambda>e. P (fst e)) xs) k = (if P k then map_of xs k else None)"
  by (induction xs) auto

lemma requeue_eq:
  assumes "distinct ids" "set ids \<subseteq> fst ` set un"
  shows "requeue ids un ready = (filter (\<lambda>e. fst e \<notin> set ids) un, map (\<lambda>i. fst (the (map_of un i))) ids @ ready)"
  using assms
proof (induction ids)
  case Nil
  then show ?case by (simp add: requeue_def)
next
  case (Cons i ids)
  obtain m o' where "map_of un i = Some (m, o')"
    using Cons.prems(2) by (metis domD domIff dom_map_of_conv_image_fst insert_subset list.simps(15) prod.exhaust)
  moreover from this have "map_of (filter (\<lambda>e. fst e \<notin> set ids) un) i = Some (m, o')"
    using Cons.prems(1) map_of_filter_fst [of "\<lambda>k. k \<notin> set ids" un i] by simp
  ultimately show ?case
    using Cons by (simp add: requeue_Cons unacked_remove_def conj_commute)
qed

lemma orphaned_props:
  assumes "distinct (map fst un)"
  shows "distinct (orphaned sub un)" "set (orphaned sub un) \<subseteq> fst ` set un"
    "e \<in> set un \<Longrightarrow> fst e \<in> set (orphaned sub un) \<longleftrightarrow> snd (snd e) = sub"
proof -
  show "distinct (orphaned sub un)"
    using assms by (auto simp: orphaned_def distinct_map intro: inj_on_subset)
  show "set (orphaned sub un) \<subseteq> fst ` set un" by (auto simp: orphaned_def)
  show "fst e \<in> set (orphaned sub un) \<longleftrightarrow> snd (snd e) = sub" if "e \<in> set un"
    using that assms by (auto simp: orphaned_def distinct_map inj_on_def)
qed

lemma requeue_orphaned:
  assumes "distinct (map fst un)"
  shows "fst (requeue (orphaned sub un) un ready) = filter (\<lambda>e. snd (snd e) \<noteq> sub) un"
    and "mset (snd (requeue (orphaned sub un) un ready)) = mset ready + mset (map (fst \<circ> snd) (filter (\<lambda>e. snd (snd e) = sub) un))"
proof -
  note eq = requeue_eq [OF orphaned_props(1,2) [OF assms], of sub ready]
  show "fst (requeue (orphaned sub un) un ready) = filter (\<lambda>e. snd (snd e) \<noteq> sub) un"
    using orphaned_props(3) [OF assms] unfolding eq by (auto intro: filter_cong)
  let ?h = "filter (\<lambda>e. snd (snd e) = sub) un"
  have "mset (map (\<lambda>i. fst (the (map_of un i))) (orphaned sub un)) = mset (map (\<lambda>e. fst (the (map_of un (fst e)))) ?h)"
    by (simp add: orphaned_def case_prod_beta' multiset.map_comp comp_def)
  also have "map (\<lambda>e. fst (the (map_of un (fst e)))) ?h = map (fst \<circ> snd) ?h"
    using assms by (auto simp: map_of_eq_Some_iff)
  finally show "mset (snd (requeue (orphaned sub un) un ready)) = mset ready + mset (map (fst \<circ> snd) ?h)"
    unfolding eq by simp
qed

lemma msgs_requeue:
  assumes "distinct (map fst un)" "requeue (orphaned sub un) un ready = (un', ready')"
  shows "msgs ready' un' = msgs ready un" "un' = filter (\<lambda>e. snd (snd e) \<noteq> sub) un"
proof -
  show "un' = filter (\<lambda>e. snd (snd e) \<noteq> sub) un" using requeue_orphaned(1) [OF assms(1), of sub ready] assms(2) by simp
  then show "msgs ready' un' = msgs ready un"
    using requeue_orphaned(2) [OF assms(1), of sub ready] assms(2) by (simp add: msgs_def flip: mset_append) 
      (metis mset_map multiset_partition image_mset_union)
qed

lemma ring_ids:
  assumes "\<forall>(i, m, owner) \<in> set un. st_id m = i"
  shows "mset (map st_id ready @ map fst un) = image_mset st_id (msgs ready un)"
proof -
  have "mset (map fst un) = image_mset st_id (mset (map (fst \<circ> snd) un))"
    using assms by (auto simp: multiset.map_comp intro!: image_mset_cong)
  then show ?thesis by (simp add: msgs_def)
qed

lemma ring_inv_requeue:
  assumes "ring_inv ready un subs" "requeue (orphaned sub un) un ready = (un', ready')"
    and "set (map sub_id subs') = set (map sub_id subs) - {sub}" "distinct (map sub_id subs')"
  shows "ring_inv ready' un' subs'"
proof -
  have d: "distinct (map fst un)" using assms(1) by (simp add: ring_inv_def)
  note r = msgs_requeue [OF d assms(2)]
  have k: "\<forall>(i, m, owner) \<in> set un. st_id m = i" "\<forall>(i, m, owner) \<in> set un'. st_id m = i"
    using assms(1) unfolding r(2) by (auto simp: ring_inv_def)
  have "mset (map st_id ready' @ map fst un') = mset (map st_id ready @ map fst un)"
    unfolding ring_ids [OF k(1)] ring_ids [OF k(2)] r(1) ..
  then have "distinct (map st_id ready' @ map fst un')"
    using assms(1) unfolding ring_inv_def by (metis mset_eq_imp_distinct_iff)
  then show ?thesis
    using assms(1,3,4) unfolding ring_inv_def r(2) by (fastforce simp flip: set_map)
qed

subsection \<open>Dispatch\<close>

lemma ring_inv_subs: "ring_inv ready un subs \<Longrightarrow> map sub_id subs' = map sub_id subs \<Longrightarrow> ring_inv ready un subs'"
  by (simp add: ring_inv_def flip: set_map)

lemma deliver_insert:
  assumes "ring_inv (m # ready) un subs" "i \<in> sub_id ` set subs"
  shows "unacked_insert (st_id m) (m, i) un = (st_id m, m, i) # un" "ring_inv ready ((st_id m, m, i) # un) subs"
    "msgs ready ((st_id m, m, i) # un) = msgs (m # ready) un"
proof -
  have "st_id m \<notin> fst ` set un" using assms(1) by (auto simp: ring_inv_def)
  then have "unacked_remove (st_id m) un = un" by (force simp: unacked_remove_def filter_id_conv)
  then show "unacked_insert (st_id m) (m, i) un = (st_id m, m, i) # un" by (simp add: unacked_insert_def)
qed (use assms in \<open>auto simp: ring_inv_def msgs_def\<close>)

definition held_by :: "sub_id \<Rightarrow> unacked \<Rightarrow> nat" where
  "held_by i un = length (filter (\<lambda>e. snd (snd e) = i) un)"

definition demand_of :: "sub_id \<Rightarrow> subscriber list \<Rightarrow> nat" where
  "demand_of i subs = sum_list (map (\<lambda>s. if sub_id s = i then unat (sub_demand s) else 0) subs)"

lemma demand_of_simps [simp]:
  "demand_of i [] = 0"
  "demand_of i (s # subs) = (if sub_id s = i then unat (sub_demand s) else 0) + demand_of i subs"
  "demand_of i (xs @ ys) = demand_of i xs + demand_of i ys"
  by (simp_all add: demand_of_def)

lemma held_by_others: "held_by i (filter (\<lambda>e. snd (snd e) \<noteq> j) un) = (if i = j then 0 else held_by i un)"
  by (induction un) (auto simp: held_by_def)

lemma demand_of_retain: "demand_of i (retain_others j subs) = (if i = j then 0 else demand_of i subs)"
  by (induction subs) (auto simp: retain_others_def)

lemma demand_of_complete: "demand_of i (complete_drains subs) \<le> demand_of i subs"
  by (induction subs) (auto simp: complete_drains_def)

lemma demand_of_deliver:
  assumes "idx < length subs" "0 < sub_demand (subs ! idx)"
  shows "demand_of i (subs[idx := (subs ! idx)\<lparr>sub_demand := sub_demand (subs ! idx) - 1\<rparr>]) =
    demand_of i subs - (if sub_id (subs ! idx) = i then 1 else 0)"
    "sub_id (subs ! idx) = i \<Longrightarrow> 0 < demand_of i subs"
  using assms
proof (induction subs arbitrary: idx)
  case (Cons s subs)
  have u: "0 < sub_demand s \<Longrightarrow> unat (sub_demand s - 1) = unat (sub_demand s) - 1 \<and> 0 < unat (sub_demand s)"
    by (simp add: word_gr_0_pred unat_gt_0 word_neq_0_conv)
  { case 1 then show ?case using u Cons.IH by (cases idx) (auto simp: Suc_le_eq) }
  { case 2 then show ?case using u Cons.IH(2) by (cases idx) auto }
qed simp_all

text \<open>The bodies that went to the dead-letter router.\<close>

fun dead_bodies :: "broker_effect list \<Rightarrow> bytes multiset" where
  "dead_bodies [] = {#}"
| "dead_bodies (DeadLetter target body # es) = add_mset body (dead_bodies es)"
| "dead_bodies (e # es) = dead_bodies es"

lemma dead_bodies_append [simp]: "dead_bodies (es @ fs) = dead_bodies es + dead_bodies fs"
  by (induction es rule: dead_bodies.induct) auto

lemma sub_ids_deliver: "map sub_id (subs[idx := (subs ! idx)\<lparr>sub_demand := d\<rparr>]) = map sub_id subs"
  by (cases "idx < length subs") (auto simp: map_update list_update_same_conv list_update_beyond)

lemma retain_others_set:
  "set (map sub_id (retain_others i subs)) = set (map sub_id subs) - {i}"
  "distinct (map sub_id subs) \<Longrightarrow> distinct (map sub_id (retain_others i subs))"
  by auto

lemma dispatch_loop_spec:
  assumes "ring_inv ready un subs" "dispatch_loop sends ready un subs rr = (ready', un', subs', rr', effs)"
  shows "ring_inv ready' un' subs' \<and> msgs ready' un' = msgs ready un \<and> set (map sub_id subs') \<subseteq> set (map sub_id subs) \<and>
    (ready' = [] \<or> (\<forall>s \<in> set subs'. sub_demand s = 0)) \<and> dead_bodies effs = {#} \<and>
    held_by i un' + demand_of i subs' \<le> held_by i un + demand_of i subs"
  using assms
proof (induction sends ready un subs rr arbitrary: ready' un' subs' rr' effs rule: dispatch_loop.induct)
  case (1 sends un subs rr)
  then show ?case
    using demand_of_complete [of i subs] by (auto intro: ring_inv_subs [OF _ complete_drains_ids] simp flip: set_map)
next
  case (2 sends m ready un subs rr)
  show ?case
  proof (cases "pick_ready subs rr")
    case None
    then show ?thesis using "2.prems" pick_ready_None [of subs rr] by auto
  next
    case (Some idx)
    let ?s = "subs ! idx" let ?subs = "subs[idx := ?s\<lparr>sub_demand := sub_demand ?s - 1\<rparr>]"
    note idx = pick_ready_bound [OF Some] pick_ready_demand [OF Some]
    obtain ok sends' where n: "next_send sends = (ok, sends')" by fastforce
    have inv: "ring_inv (m # ready) un ?subs" by (rule ring_inv_subs [OF "2.prems"(1) sub_ids_deliver])
    have mem: "sub_id ?s \<in> sub_id ` set ?subs"
      using idx(1) by (metis image_set nth_mem sub_ids_deliver image_eqI)
    show ?thesis
    proof (cases ok)
      case True
      let ?un = "(st_id m, m, sub_id ?s) # un"
      note di = deliver_insert [OF inv mem]
      obtain es where rest: "dispatch_loop sends' ready ?un ?subs ((idx + 1) mod length subs) = (ready', un', subs', rr', es)"
        and effs: "effs = ToConn (sub_conn ?s) (Deliver (sub_channel ?s) (sub_handle ?s) (sub_binding_gen ?s) (st_id m) (st_body m)) # es"
        using "2.prems"(2) Some n True di(1) by (auto simp: Let_def split: prod.splits)
      have "held_by i ?un + demand_of i ?subs \<le> held_by i un + demand_of i subs"
        using demand_of_deliver [OF idx, of i] by (auto simp: held_by_def)
      then show ?thesis
        using "2.IH"(1) [OF Some refl refl refl refl n [symmetric] refl True, unfolded di(1), OF di(2) rest] di(3) effs
          sub_ids_deliver [of subs idx "sub_demand ?s - 1"] by (auto simp flip: set_map)
    next
      case False
      obtain un1 ready1 where rq: "requeue (orphaned (sub_id ?s) un) un (m # ready) = (un1, ready1)" by fastforce
      let ?rest = "retain_others (sub_id ?s) ?subs"
      have rest: "dispatch_loop sends' ready1 un1 ?rest ((idx + 1) mod length subs) = (ready', un', subs', rr', effs)"
        using "2.prems"(2) Some n False rq by (auto simp: Let_def)
      have d: "distinct (map fst un)" using inv by (simp add: ring_inv_def)
      note m = msgs_requeue [OF d rq]
      have inv1: "ring_inv ready1 un1 ?rest"
        using inv by (intro ring_inv_requeue [OF inv rq] retain_others_set) (simp add: ring_inv_def)
      have "held_by i un1 + demand_of i ?rest \<le> held_by i un + demand_of i subs"
        using demand_of_deliver(1) [OF idx, of i] by (simp add: m(2) held_by_others demand_of_retain)
      then show ?thesis
        using "2.IH"(2) [OF Some refl refl refl refl n [symmetric] refl False rq [symmetric] refl inv1 rest] m(1)
          sub_ids_deliver [of subs idx "sub_demand ?s - 1"] by (auto simp flip: set_map)
    qed
  qed
qed

end
