(* ===== verification/Broker_Queue_Laws.thy ===== *)
theory Broker_Queue_Laws
  imports Broker_Queue
begin

section \<open>What the transient queue guarantees\<close>

text \<open>
  The invariant of the queue actor, that every step keeps it, and what follows: no accepted message
  is lost, none is held twice, the bounds of the policy hold, dispatch stops only when there is
  nothing to do, and no consumer gets more than it asked for.
\<close>

subsection \<open>Invariant\<close>

definition body_bytes :: "stored multiset \<Rightarrow> nat" where
  "body_bytes M = (\<Sum>m\<in>#M. length (st_body m))"

lemma body_bytes_simps [simp]:
  "body_bytes {#} = 0" "body_bytes (add_mset m M) = length (st_body m) + body_bytes M" "body_bytes (M + N) = body_bytes M + body_bytes N"
  by (simp_all add: body_bytes_def)

abbreviation held :: "queue_actor \<Rightarrow> stored multiset" where
  "held s \<equiv> msgs (qa_ready s) (qa_unacked s)"

definition bodies :: "queue_actor \<Rightarrow> bytes multiset" where
  "bodies s = image_mset st_body (held s)"

definition core_inv :: "queue_actor \<Rightarrow> bool" where
  "core_inv s \<longleftrightarrow> ring_inv (qa_ready s) (qa_unacked s) (qa_subs s) \<and> qa_bytes s = body_bytes (held s) \<and>
    (\<forall>m \<in># held s. unat (st_id m) \<le> unat (qa_next_msg_id s)) \<and>
    (\<forall>x \<in> set (qa_subs s). unat (sub_id x) \<le> unat (qa_next_sub_id s))"

text \<open>Nothing is ready, or nobody wants it.\<close>

definition idle :: "queue_actor \<Rightarrow> bool" where
  "idle s \<longleftrightarrow> qa_ready s = [] \<or> (\<forall>x \<in> set (qa_subs s). sub_demand x = 0)"

definition dlx_on :: "effective_policy \<Rightarrow> bool" where
  "dlx_on p \<longleftrightarrow> ep_dlx p \<and> ep_dead_letter p \<noteq> None"

lemma dead_letter_bodies: "dlx_on p \<Longrightarrow> dead_bodies (dead_letter p b) = {#b#}"
  by (auto simp: dlx_on_def dead_letter_def)

lemma dead_bodies_settle [simp]: "dead_bodies (confirm_publish ack) = {#}" "dead_bodies (refuse_publish ack) = {#}"
  by (cases ack; simp add: confirm_publish_def refuse_publish_def settle_publish_def)+

lemma msgs_simps [simp]:
  "msgs (m # ready) un = add_mset m (msgs ready un)" "msgs [] [] = {#}" "msgs (xs @ ys) un = mset ys + msgs xs un"
  by (simp_all add: msgs_def)

lemma conserve_trans:
  fixes s :: "'a multiset"
  assumes "t' + e' + x' = t + a'" "t + e + x = s + a"
  shows "t' + (e + e') + (x + x') = s + (a + a')"
proof -
  have "t' + (e + e') + (x + x') = (t' + e' + x') + (e + x)" by (simp add: ac_simps)
  also have "\<dots> = (t + e + x) + a'" unfolding assms(1) by (simp add: ac_simps)
  finally show ?thesis unfolding assms(2) by (simp add: ac_simps)
qed

subsection \<open>Dropping from the head\<close>

lemma drop_heads_spec:
  assumes "drop_heads p n r u ready b = (nr, ready', b', effs)" "b = body_bytes (msgs ready un)"
  shows "\<exists>k. ready' = drop k ready \<and> b' = body_bytes (msgs ready' un) \<and>
    (dlx_on p \<longrightarrow> dead_bodies effs = mset (map st_body (take k ready))) \<and> (\<not> nr \<longrightarrow> \<not> over p n r u (length ready') b') \<and>
    (nr \<longrightarrow> ready' = [])"
  using assms
proof (induction p n r u ready b arbitrary: effs rule: drop_heads.induct)
  case (1 p n r u b)
  then show ?case by simp
next
  case (2 p n r u old ready b)
  let ?b = "b - length (st_body old)"
  have b: "?b = body_bytes (msgs ready un)" using "2.prems"(2) by simp
  show ?case
  proof (cases "over p n r u (length ready) ?b")
    case True
    then obtain es where "drop_heads p n r u ready ?b = (nr, ready', b', es)" "effs = dead_letter p (st_body old) @ es"
      using "2.prems"(1) by (auto simp: Let_def split: prod.splits)
    with "2.IH" [OF refl refl True this(1) b] obtain k where "ready' = drop k ready" "b' = body_bytes (msgs ready' un)"
      "dlx_on p \<longrightarrow> dead_bodies es = mset (map st_body (take k ready))" "\<not> nr \<longrightarrow> \<not> over p n r u (length ready') b'" "nr \<longrightarrow> ready' = []"
      by blast
    then show ?thesis
      using \<open>effs = _\<close> by (intro exI [of _ "Suc k"]) (auto simp: dead_letter_bodies)
  next
    case False
    with "2.prems"(1) b show ?thesis
      by (intro exI [of _ 1]) (auto simp: Let_def dead_letter_bodies)
  qed
qed

lemma make_room_spec:
  assumes "make_room p n s = (nr, s', effs)" "qa_bytes s = body_bytes (held s)"
  shows "\<exists>k. s' = s\<lparr>qa_ready := drop k (qa_ready s), qa_bytes := body_bytes (msgs (drop k (qa_ready s)) (qa_unacked s))\<rparr> \<and>
    (dlx_on p \<longrightarrow> dead_bodies effs = mset (map st_body (take k (qa_ready s)))) \<and>
    (\<not> nr \<longrightarrow> \<not> over p n (qa_reserved s) (length (qa_unacked s)) (length (qa_ready s')) (qa_bytes s')) \<and>
    (\<not> ep_drop_head p \<longrightarrow> k = 0)"
proof (cases "over p n (qa_reserved s) (length (qa_unacked s)) (length (qa_ready s)) (qa_bytes s) \<and> ep_drop_head p")
  case True
  then obtain ready b where d: "drop_heads p n (qa_reserved s) (length (qa_unacked s)) (qa_ready s) (qa_bytes s) = (nr, ready, b, effs)"
    and s': "s' = s\<lparr>qa_ready := ready, qa_bytes := b\<rparr>"
    using assms(1) by (auto simp: make_room_def Let_def split: prod.splits)
  from drop_heads_spec [OF d assms(2)] True show ?thesis unfolding s' by auto
next
  case False
  with assms show ?thesis by (intro exI [of _ 0]) (auto simp: make_room_def Let_def)
qed

lemma expire_heads_spec:
  assumes "expire_heads p now ready b = (ready', b', effs)" "b = body_bytes (msgs ready un)"
  shows "\<exists>k. ready' = drop k ready \<and> b' = body_bytes (msgs ready' un) \<and>
    (dlx_on p \<longrightarrow> dead_bodies effs = mset (map st_body (take k ready))) \<and>
    (\<forall>m \<in> set (take k ready). expired p (st_enqueued_ms m) now) \<and>
    (ready' \<noteq> [] \<longrightarrow> \<not> expired p (st_enqueued_ms (hd ready')) now)"
  using assms
proof (induction p now ready b arbitrary: effs rule: expire_heads.induct)
  case (1 p now b)
  then show ?case by simp
next
  case (2 p now m ready b)
  show ?case
  proof (cases "expired p (st_enqueued_ms m) now")
    case True
    then obtain es where e: "expire_heads p now ready (b - length (st_body m)) = (ready', b', es)" "effs = dead_letter p (st_body m) @ es"
      using "2.prems"(1) by (auto split: prod.splits)
    have "b - length (st_body m) = body_bytes (msgs ready un)" using "2.prems"(2) by simp
    from "2.IH" [OF True e(1) this] obtain k where "ready' = drop k ready" "b' = body_bytes (msgs ready' un)"
      "dlx_on p \<longrightarrow> dead_bodies es = mset (map st_body (take k ready))" "\<forall>m \<in> set (take k ready). expired p (st_enqueued_ms m) now"
      "ready' \<noteq> [] \<longrightarrow> \<not> expired p (st_enqueued_ms (hd ready')) now" by blast
    then show ?thesis using True e(2) by (intro exI [of _ "Suc k"]) (auto simp: dead_letter_bodies)
  next
    case False
    with "2.prems" show ?thesis by (intro exI [of _ 0]) auto
  qed
qed

lemma ring_inv_drop: "ring_inv ready un subs \<Longrightarrow> ring_inv (drop k ready) un subs"
proof -
  assume inv: "ring_inv ready un subs"
  then have "distinct (map st_id (drop k ready))" by (simp add: ring_inv_def drop_map [symmetric])
  moreover have "st_id ` set (drop k ready) \<subseteq> st_id ` set ready" by (intro image_mono set_drop_subset)
  ultimately show ?thesis using inv unfolding ring_inv_def by auto
qed

lemma msgs_take_drop: "mset (take k ready) + msgs (drop k ready) un = msgs ready un"
  by (simp add: msgs_def flip: mset_append union_assoc)

lemma core_inv_drop:
  assumes "core_inv s" "s' = s\<lparr>qa_ready := drop k (qa_ready s), qa_bytes := body_bytes (msgs (drop k (qa_ready s)) (qa_unacked s))\<rparr>"
  shows "core_inv s'" "bodies s = mset (map st_body (take k (qa_ready s))) + bodies s'"
proof -
  have "held s = mset (take k (qa_ready s)) + held s'" unfolding assms(2) by (simp add: msgs_take_drop)
  then show "core_inv s'" "bodies s = mset (map st_body (take k (qa_ready s))) + bodies s'"
    using assms(1) ring_inv_drop by (auto simp: core_inv_def assms(2) bodies_def)
qed

subsection \<open>Steps\<close>

lemma dispatch_spec:
  assumes "core_inv s" "dispatch p now sends s = (s', effs)"
  shows "core_inv s' \<and> idle s' \<and> (dlx_on p \<longrightarrow> bodies s = bodies s' + dead_bodies effs) \<and>
    held_by i (qa_unacked s') + demand_of i (qa_subs s') \<le> held_by i (qa_unacked s) + demand_of i (qa_subs s) \<and>
    size (held s') \<le> size (held s) \<and> qa_bytes s' \<le> qa_bytes s \<and> qa_reserved s' = qa_reserved s \<and>
    qa_next_msg_id s' = qa_next_msg_id s \<and> qa_next_sub_id s' = qa_next_sub_id s"
proof -
  obtain ready b ex where e: "(if ep_ttl_ms p \<noteq> None then expire_heads p now (qa_ready s) (qa_bytes s)
      else (qa_ready s, qa_bytes s, [])) = (ready, b, ex)" by (rule prod_cases3)
  have "\<exists>k. ready = drop k (qa_ready s) \<and> b = body_bytes (msgs ready (qa_unacked s)) \<and>
      (dlx_on p \<longrightarrow> dead_bodies ex = mset (map st_body (take k (qa_ready s))))"
  proof (cases "ep_ttl_ms p")
    case None
    with e assms(1) show ?thesis by (intro exI [of _ 0]) (auto simp: core_inv_def)
  next
    case (Some ttl)
    then have "expire_heads p now (qa_ready s) (qa_bytes s) = (ready, b, ex)" using e by simp
    from expire_heads_spec [OF this, of "qa_unacked s"] assms(1) show ?thesis by (auto simp: core_inv_def)
  qed
  then obtain k where k: "ready = drop k (qa_ready s)" "b = body_bytes (msgs ready (qa_unacked s))"
    "dlx_on p \<longrightarrow> dead_bodies ex = mset (map st_body (take k (qa_ready s)))" by blast
  let ?s = "s\<lparr>qa_ready := ready, qa_bytes := b\<rparr>"
  have s1: "core_inv ?s" "bodies s = mset (map st_body (take k (qa_ready s))) + bodies ?s"
    using core_inv_drop [OF assms(1), of ?s k] k by auto
  obtain ready' un' subs' rr' es where l: "dispatch_loop sends ready (qa_unacked s) (qa_subs s) (qa_rr s) = (ready', un', subs', rr', es)"
    by (metis prod_cases5)
  have s': "s' = s\<lparr>qa_ready := ready', qa_bytes := b, qa_unacked := un', qa_subs := subs', qa_rr := rr'\<rparr>" "effs = ex @ es"
    using assms(2) e l by (auto simp: dispatch_def Let_def)
  have "ring_inv ready (qa_unacked s) (qa_subs s)" using s1(1) by (simp add: core_inv_def)
  note d = dispatch_loop_spec [OF this l, of i]
  have b: "bodies ?s = bodies s'" using d by (simp add: bodies_def s')
  have size: "size (msgs ready (qa_unacked s)) \<le> size (held s)" "b \<le> qa_bytes s"
    using msgs_take_drop [of k "qa_ready s" "qa_unacked s", symmetric] assms(1) by (auto simp: k core_inv_def)
  have "core_inv s'"
    using s1(1) d by (auto simp: core_inv_def s')
  moreover have "idle s'" using d by (simp add: idle_def s')
  ultimately show ?thesis using d s1(2) k(3) b size by (auto simp: s')
qed

lemma core_inv_push:
  assumes "core_inv s" "Suc (unat (qa_next_msg_id s)) < 2 ^ 64" "usize_add (qa_bytes s) (length body) = qa_bytes s + length body"
  shows "core_inv (s\<lparr>qa_next_msg_id := qa_next_msg_id s + 1, qa_bytes := usize_add (qa_bytes s) (length body),
    qa_ready := qa_ready s @ [\<lparr>st_id = qa_next_msg_id s + 1, st_body = body, st_failures = 0, st_enqueued_ms = now\<rparr>]\<rparr>)"
proof -
  have n: "unat (qa_next_msg_id s + 1) = Suc (unat (qa_next_msg_id s))"
    using assms(2) by (intro unat_plus_one) simp
  have fresh: "st_id m \<noteq> qa_next_msg_id s + 1" if "m \<in># held s" for m
    using assms(1) that n by (force simp: core_inv_def)
  have ids: "\<forall>e \<in> set (qa_unacked s). st_id (fst (snd e)) = fst e" using assms(1) by (auto simp: core_inv_def ring_inv_def)
  have "qa_next_msg_id s + 1 \<notin> fst ` set (qa_unacked s)" "qa_next_msg_id s + 1 \<notin> st_id ` set (qa_ready s)"
    using fresh ids by (force simp: msgs_def)+
  then show ?thesis
    using assms(1,3) n by (auto simp: core_inv_def ring_inv_def)
qed

lemma publish_spec:
  assumes "core_inv s" "publish p now fr body ack s = (s', effs, go)"
    and "Suc (unat (qa_next_msg_id s)) < 2 ^ 64" "qa_bytes s + length body \<le> USIZE_MAX"
  shows "core_inv s' \<and> qa_unacked s' = qa_unacked s \<and> qa_subs s' = qa_subs s \<and>
    qa_reserved s' = (if fr then qa_reserved s - 1 else qa_reserved s) \<and> qa_next_sub_id s' = qa_next_sub_id s \<and>
    (go \<longrightarrow> (dlx_on p \<longrightarrow> bodies s' + dead_bodies effs = bodies s + {#body#}) \<and> qa_next_msg_id s' = qa_next_msg_id s + 1) \<and>
    (\<not> go \<longrightarrow> \<not> fr \<and> (dlx_on p \<longrightarrow> bodies s' + dead_bodies effs = bodies s) \<and> qa_next_msg_id s' = qa_next_msg_id s \<and>
      (\<exists>k. qa_ready s' = drop k (qa_ready s)))"
proof -
  let ?s = "if fr then s\<lparr>qa_reserved := qa_reserved s - 1\<rparr> else s"
  have inv: "core_inv ?s" "bodies ?s = bodies s" using assms(1) by (auto simp: core_inv_def bodies_def)
  obtain nr t es where m: "make_room p (length body) ?s = (nr, t, es)" by (rule prod_cases3)
  have "qa_bytes ?s = body_bytes (held ?s)" using inv(1) by (simp add: core_inv_def)
  from make_room_spec [OF m this] obtain k where
    t: "t = ?s\<lparr>qa_ready := drop k (qa_ready ?s), qa_bytes := body_bytes (msgs (drop k (qa_ready ?s)) (qa_unacked ?s))\<rparr>"
    and es: "dlx_on p \<longrightarrow> dead_bodies es = mset (map st_body (take k (qa_ready ?s)))" by blast
  note ti = core_inv_drop [OF inv(1) t]
  have b: "dlx_on p \<longrightarrow> bodies s = dead_bodies es + bodies t" using ti(2) es inv(2) by auto
  have le: "qa_bytes t \<le> qa_bytes s"
    using ti(1) assms(1) msgs_take_drop [of k "qa_ready s" "qa_unacked s", symmetric] by (auto simp: t core_inv_def)
  show ?thesis
  proof (cases "nr \<and> \<not> fr")
    case True
    then have "s' = t" "effs = es @ refuse_publish ack" "\<not> go" using assms(2) m by (auto simp: publish_def)
    then show ?thesis using True ti(1) b by (auto simp: t)
  next
    case False
    have g: "Suc (unat (qa_next_msg_id t)) < 2 ^ 64" "usize_add (qa_bytes t) (length body) = qa_bytes t + length body"
      using assms(3,4) le by (auto simp: t usize_add_def)
    from False have "go" "effs = es @ confirm_publish ack"
      "s' = t\<lparr>qa_next_msg_id := qa_next_msg_id t + 1, qa_bytes := usize_add (qa_bytes t) (length body),
        qa_ready := qa_ready t @ [\<lparr>st_id = qa_next_msg_id t + 1, st_body = body, st_failures = 0, st_enqueued_ms = now\<rparr>]\<rparr>"
      using assms(2) m by (auto simp: publish_def Let_def)
    moreover from this have "core_inv s'" using core_inv_push [OF ti(1) g] by simp
    ultimately show ?thesis using b by (auto simp: t bodies_def)
  qed
qed

lemma publish_bytes:
  assumes "core_inv s" "publish p now fr body ack s = (s', effs, go)"
  shows "qa_bytes s' \<le> qa_bytes s + length body"
proof -
  let ?s = "if fr then s\<lparr>qa_reserved := qa_reserved s - 1\<rparr> else s"
  obtain nr t es where m: "make_room p (length body) ?s = (nr, t, es)" by (rule prod_cases3)
  have b: "qa_bytes s = body_bytes (held s)" "qa_bytes ?s = body_bytes (held ?s)" using assms(1) by (auto simp: core_inv_def)
  from make_room_spec [OF m b(2)] obtain k where
    t: "t = ?s\<lparr>qa_ready := drop k (qa_ready ?s), qa_bytes := body_bytes (msgs (drop k (qa_ready ?s)) (qa_unacked ?s))\<rparr>" by blast
  have "qa_bytes t = body_bytes (msgs (drop k (qa_ready s)) (qa_unacked s))" by (cases fr) (simp_all add: t)
  then have "qa_bytes t \<le> qa_bytes s"
    using msgs_take_drop [of k "qa_ready s" "qa_unacked s", symmetric] by (simp add: b(1))
  then show ?thesis using assms(2) m by (auto simp: publish_def usize_add_def Let_def split: if_splits)
qed

lemma unacked_take:
  assumes "map_of un i = Some (m, owner)" "distinct (map fst un)"
  shows "mset un = add_mset (i, m, owner) (mset (unacked_remove i un))" "msgs ready un = add_mset m (msgs ready (unacked_remove i un))"
proof -
  show "mset un = add_mset (i, m, owner) (mset (unacked_remove i un))"
    using assms
  proof (induction un)
    case (Cons e un)
    have "mset (filter (\<lambda>x. fst x \<noteq> fst e) un) = mset un" if "fst e \<notin> fst ` set un"
      using that by (intro arg_cong [of _ _ mset] filter_True) (metis image_eqI)
    with Cons show ?case by (cases e) (auto simp: unacked_remove_def split: if_splits)
  qed simp
  then show "msgs ready un = add_mset m (msgs ready (unacked_remove i un))" by (simp add: msgs_def)
qed

lemma ring_inv_remove:
  assumes "ring_inv ready un subs" "map_of un i = Some (m, owner)"
  shows "ring_inv ready (unacked_remove i un) subs" "st_id m' = st_id m \<Longrightarrow> ring_inv (m' # ready) (unacked_remove i un) subs"
proof -
  have sub: "set (unacked_remove i un) \<subseteq> set un" "i \<notin> fst ` set (unacked_remove i un)" by (auto simp: unacked_remove_def)
  have d: "distinct (map fst (unacked_remove i un))" using assms(1) by (simp add: ring_inv_def unacked_remove_def distinct_map_filter)
  have i: "st_id m = i" "i \<notin> st_id ` set ready" using assms map_of_SomeD [OF assms(2)] by (force simp: ring_inv_def)+
  have dis: "st_id ` set ready \<inter> fst ` set (unacked_remove i un) = {}"
  proof -
    have "st_id ` set ready \<inter> fst ` set un = {}" using assms(1) by (simp add: ring_inv_def)
    with image_mono [OF sub(1), of fst] show ?thesis by blast
  qed
  show "ring_inv ready (unacked_remove i un) subs"
    using assms(1) sub d dis by (auto simp: ring_inv_def)
  with sub i show "st_id m' = st_id m \<Longrightarrow> ring_inv (m' # ready) (unacked_remove i un) subs" by (auto simp: ring_inv_def)
qed

lemma held_by_remove: "held_by j (unacked_remove i un) \<le> held_by j un"
  by (induction un) (auto simp: held_by_def unacked_remove_def)

text \<open>What a step takes in, and what a consumer's settlement takes out.\<close>

definition admitted :: "effective_policy \<Rightarrow> queue_msg \<Rightarrow> queue_actor \<Rightarrow> bytes multiset" where
  "admitted p msg s = (case msg of
      Publish body _ \<Rightarrow> if fst (make_room p (length body) s) then {#} else {#body#}
    | PublishReserved body _ \<Rightarrow> {#body#}
    | _ \<Rightarrow> {#})"

definition settled :: "queue_msg \<Rightarrow> queue_actor \<Rightarrow> bytes multiset" where
  "settled msg s = (case msg of
      SettleMsg sub i outcome \<Rightarrow>
        (case map_of (qa_unacked s) i of
           Some (m, owner) \<Rightarrow> if owner = sub \<and> (outcome = Ack \<or> outcome = Drop) then {#st_body m#} else {#}
         | None \<Rightarrow> {#})
    | _ \<Rightarrow> {#})"

lemma settle_spec:
  assumes "core_inv s" "settle_stored p sub i outcome s = (s', effs, go)"
  shows "core_inv s' \<and> (dlx_on p \<longrightarrow> bodies s' + dead_bodies effs + settled (SettleMsg sub i outcome) s = bodies s) \<and>
    (\<not> go \<longrightarrow> s' = s) \<and> qa_subs s' = qa_subs s \<and> qa_reserved s' = qa_reserved s \<and> size (held s') \<le> size (held s) \<and>
    qa_bytes s' \<le> qa_bytes s \<and> held_by j (qa_unacked s') \<le> held_by j (qa_unacked s) \<and>
    qa_next_msg_id s' = qa_next_msg_id s \<and> qa_next_sub_id s' = qa_next_sub_id s"
proof (cases "\<exists>m. map_of (qa_unacked s) i = Some (m, sub)")
  case False
  then have "s' = s" "effs = []" "settled (SettleMsg sub i outcome) s = {#}"
    using assms(2) by (auto simp: settle_stored_def settled_def split: option.splits if_splits)
  then show ?thesis using assms(1) by simp
next
  case True
  then obtain m where m: "map_of (qa_unacked s) i = Some (m, sub)" by blast
  have ring: "ring_inv (qa_ready s) (qa_unacked s) (qa_subs s)" using assms(1) by (simp add: core_inv_def)
  then have d: "distinct (map fst (qa_unacked s))" by (simp add: ring_inv_def)
  note t = unacked_take [OF m d] and r = ring_inv_remove [OF ring m]
  let ?un = "unacked_remove i (qa_unacked s)"
  let ?gone = "s\<lparr>qa_unacked := ?un, qa_bytes := qa_bytes s - length (st_body m)\<rparr>"
  let ?kept = "\<lambda>m'. s\<lparr>qa_unacked := ?un, qa_ready := m' # qa_ready s\<rparr>"
  have gone: "core_inv ?gone" "bodies s = bodies ?gone + {#st_body m#}" "size (held ?gone) \<le> size (held s)"
    using assms(1) t(2) [of "qa_ready s"] r(1) by (auto simp: core_inv_def bodies_def)
  have again: "core_inv (?kept m')" "bodies (?kept m') = bodies s" "size (held (?kept m')) \<le> size (held s)"
    if "st_id m' = st_id m" "st_body m' = st_body m" for m'
    using assms(1) t(2) [of "qa_ready s"] r(2) [OF that(1)] that by (auto simp: core_inv_def bodies_def)
  note le = held_by_remove [of j i "qa_unacked s"]
  let ?m = "m\<lparr>st_failures := st_failures m + 1\<rparr>"
  consider "outcome = Ack \<or> outcome = Drop" "s' = ?gone" "effs = []" "go"
    | "outcome = Requeue" "s' = ?kept m" "effs = []" "go"
    | "outcome = RequeueFailed" "s' = ?gone" "effs = dead_letter p (st_body m)" "go"
    | "outcome = RequeueFailed" "s' = ?kept ?m" "effs = []" "go"
    using assms(2) m by (cases outcome) (auto simp: settle_stored_def Let_def split: if_splits)
  then show ?thesis
  proof cases
    case 1
    then show ?thesis using gone le m by (auto simp: settled_def)
  next
    case 2
    then show ?thesis using again [of m] le m by (auto simp: settled_def)
  next
    case 3
    then show ?thesis using gone le m by (auto simp: settled_def dead_letter_bodies)
  next
    case 4
    then show ?thesis using again [of ?m] le m by (auto simp: settled_def)
  qed
qed

lemma set_retain_others: "set (retain_others i subs) = {x \<in> set subs. sub_id x \<noteq> i}"
  by (simp add: retain_others_def)

lemma unsubscribe_spec:
  assumes "core_inv s" "s' = unsubscribe sub s"
  shows "core_inv s' \<and> held s' = held s \<and> qa_bytes s' = qa_bytes s \<and> qa_reserved s' = qa_reserved s \<and>
    held_by j (qa_unacked s') + demand_of j (qa_subs s') \<le> held_by j (qa_unacked s) + demand_of j (qa_subs s) \<and>
    qa_next_msg_id s' = qa_next_msg_id s \<and> qa_next_sub_id s' = qa_next_sub_id s"
proof -
  obtain un ready where rq: "requeue (orphaned sub (qa_unacked s)) (qa_unacked s) (qa_ready s) = (un, ready)" by fastforce
  have ring: "ring_inv (qa_ready s) (qa_unacked s) (qa_subs s)" using assms(1) by (simp add: core_inv_def)
  then have d: "distinct (map fst (qa_unacked s))" by (simp add: ring_inv_def)
  note m = msgs_requeue [OF d rq]
  have s': "s' = s\<lparr>qa_subs := retain_others sub (qa_subs s), qa_unacked := un, qa_ready := ready\<rparr>"
    by (simp add: assms(2) unsubscribe_def rq)
  have "ring_inv ready un (retain_others sub (qa_subs s))"
    using ring by (intro ring_inv_requeue [OF ring rq] retain_others_set) (simp add: ring_inv_def)
  then show ?thesis
    using assms(1) m by (auto simp: s' core_inv_def held_by_others demand_of_retain set_retain_others)
qed

lemma publish_go: "publish p now False body ack s = (s', effs, go) \<Longrightarrow> go \<longleftrightarrow> \<not> fst (make_room p (length body) s)"
  by (auto simp: publish_def Let_def split: prod.splits if_splits)

definition granted :: "sub_id \<Rightarrow> queue_msg \<Rightarrow> nat" where
  "granted i msg = (case msg of Demand sub credit _ \<Rightarrow> if sub = i then unat credit else 0 | _ \<Rightarrow> 0)"

definition publish_len :: "queue_msg \<Rightarrow> nat" where
  "publish_len msg = (case msg of Publish body _ \<Rightarrow> length body | PublishReserved body _ \<Rightarrow> length body | _ \<Rightarrow> 0)"

lemma demand_of_grant: "demand_of i (update_subscriber sub (grant credit drain) subs) \<le> demand_of i subs + (if sub = i then unat credit else 0)"
proof (induction subs)
  case (Cons x subs)
  have "unat (saturating_add (sub_demand x) credit) \<le> unat (sub_demand x) + unat credit" by (simp add: unat_saturating_add)
  with Cons show ?case by (auto simp: grant_def)
qed simp

lemma grant_id [simp]: "sub_id (grant credit drain x) = sub_id x"
  by (simp add: grant_def)

lemma sub_ids_bound:
  "map sub_id subs' = map sub_id subs \<Longrightarrow> (\<forall>x \<in> set subs'. P (sub_id x)) \<longleftrightarrow> (\<forall>x \<in> set subs. P (sub_id x))"
  by (metis (mono_tags, lifting) list.set_map ball_imageD image_iff)

definition counters_fit :: "queue_actor \<Rightarrow> bool" where
  "counters_fit s \<longleftrightarrow> Suc (unat (qa_next_msg_id s)) < 2 ^ 64 \<and> Suc (unat (qa_next_sub_id s)) < 2 ^ 64"

lemma subscribe_spec:
  assumes "core_inv s" "counters_fit s" "subscribe conn ch h bg reply s = (s', effs)"
  shows "core_inv s' \<and> dead_bodies effs = {#} \<and> bodies s' = bodies s \<and> held s' = held s \<and> qa_unacked s' = qa_unacked s \<and>
    demand_of i (qa_subs s') = demand_of i (qa_subs s) \<and> qa_reserved s' = qa_reserved s \<and> qa_bytes s' = qa_bytes s \<and>
    qa_next_msg_id s' = qa_next_msg_id s \<and> unat (qa_next_sub_id s') = Suc (unat (qa_next_sub_id s))"
proof -
  let ?i = "qa_next_sub_id s + 1"
  have n: "unat ?i = Suc (unat (qa_next_sub_id s))" using assms(2) by (intro unat_plus_one) (simp add: counters_fit_def)
  then have "?i \<notin> sub_id ` set (qa_subs s)" using assms(1) by (force simp: core_inv_def)
  moreover have "s' = s\<lparr>qa_next_sub_id := ?i, qa_subs := qa_subs s @ [new_subscriber ?i conn ch h bg]\<rparr>" "effs = [ReplySubscribed reply ?i]"
    using assms(3) by (auto simp: subscribe_def Let_def)
  ultimately show ?thesis
    using assms(1) n by (fastforce simp: core_inv_def ring_inv_def new_subscriber_def bodies_def)
qed

text \<open>What one message does before dispatch.\<close>

lemma handle_spec:
  assumes "core_inv s" "counters_fit s" "qa_bytes s + publish_len msg \<le> USIZE_MAX"
    and "handle_queue_msg p now msg s = (s', effs, go)"
  shows "core_inv s' \<and> (\<not> go \<longrightarrow> idle s \<longrightarrow> idle s') \<and>
    (dlx_on p \<longrightarrow> bodies s' + dead_bodies effs + settled msg s = bodies s + admitted p msg s) \<and>
    held_by i (qa_unacked s') + demand_of i (qa_subs s') \<le> held_by i (qa_unacked s) + demand_of i (qa_subs s) + granted i msg \<and>
    qa_bytes s' \<le> qa_bytes s + publish_len msg \<and>
    unat (qa_next_msg_id s') \<le> Suc (unat (qa_next_msg_id s)) \<and> unat (qa_next_sub_id s') \<le> Suc (unat (qa_next_sub_id s))"
proof -
  have pub: ?thesis if "publish p now fr body ack s = (s', effs, go)" "msg = (if fr then PublishReserved body ack else Publish body ack)" for fr body ack
  proof -
    have n: "unat (qa_next_msg_id s + 1) = Suc (unat (qa_next_msg_id s))"
      using assms(2) by (intro unat_plus_one) (simp add: counters_fit_def)
    have len: "publish_len msg = length body" using that(2) by (simp add: publish_len_def)
    then have "Suc (unat (qa_next_msg_id s)) < 2 ^ 64" "qa_bytes s + length body \<le> USIZE_MAX"
      using assms(2,3) by (simp_all add: counters_fit_def)
    note ps = publish_spec [OF assms(1) that(1) this]
    have "(dlx_on p \<longrightarrow> bodies s' + dead_bodies effs + settled msg s = bodies s + admitted p msg s)"
      using ps publish_go [of p now body ack s s' effs go] that by (cases fr; cases go) (auto simp: settled_def admitted_def)
    moreover have "qa_bytes s' \<le> qa_bytes s + publish_len msg" using publish_bytes [OF assms(1) that(1)] len by simp
    ultimately show ?thesis using ps n by (auto simp: idle_def granted_def that(2))
  qed
  show ?thesis
  proof (cases msg)
    case (Publish body ack)
    then show ?thesis using pub [of False body ack] assms(4) by simp
  next
    case (PublishReserved body ack)
    then show ?thesis using pub [of True body ack] assms(4) by simp
  next
    case (Demand sub credit drain)
    let ?subs = "update_subscriber sub (grant credit drain) (qa_subs s)"
    have ids: "map sub_id ?subs = map sub_id (qa_subs s)" by simp
    have "ring_inv (qa_ready s) (qa_unacked s) ?subs" "\<forall>x \<in> set ?subs. unat (sub_id x) \<le> unat (qa_next_sub_id s)"
      using assms(1) sub_ids_bound [OF ids, of "\<lambda>j. unat j \<le> unat (qa_next_sub_id s)"] ring_inv_subs [OF _ ids]
      by (simp_all add: core_inv_def)
    then show ?thesis
      using Demand assms(1,4) demand_of_grant [of i sub credit drain "qa_subs s"]
      by (auto simp: core_inv_def bodies_def settled_def admitted_def granted_def)
  next
    case (Subscribe conn ch h bg reply)
    then show ?thesis
      using subscribe_spec [OF assms(1,2), of conn ch h bg reply s' effs i] assms(4)
      by (auto simp: settled_def admitted_def granted_def split: prod.splits)
  next
    case (SettleMsg sub m outcome)
    then show ?thesis
      using settle_spec [OF assms(1), of p sub m outcome s' effs go i] assms(4)
      by (auto simp: admitted_def granted_def)
  next
    case (Unsubscribe sub)
    then show ?thesis
      using unsubscribe_spec [OF assms(1) refl, of sub i] assms(4)
      by (auto simp: admitted_def granted_def settled_def bodies_def)
  qed (use assms in \<open>auto simp: reserve_def Let_def core_inv_def bodies_def admitted_def settled_def granted_def split: if_splits\<close>)
qed

lemma step_spec:
  assumes "core_inv s" "idle s" "counters_fit s" "qa_bytes s + publish_len msg \<le> USIZE_MAX"
    and "queue_step p env msg s = (s', effs)"
  shows "core_inv s' \<and> idle s' \<and>
    (dlx_on p \<longrightarrow> bodies s' + dead_bodies effs + settled msg s = bodies s + admitted p msg s) \<and>
    held_by i (qa_unacked s') + demand_of i (qa_subs s') \<le> held_by i (qa_unacked s) + demand_of i (qa_subs s) + granted i msg \<and>
    qa_bytes s' \<le> qa_bytes s + publish_len msg \<and>
    unat (qa_next_msg_id s') \<le> Suc (unat (qa_next_msg_id s)) \<and> unat (qa_next_sub_id s') \<le> Suc (unat (qa_next_sub_id s))"
proof -
  obtain t es go where h: "handle_queue_msg p (se_enqueue_ms env) msg s = (t, es, go)" by (rule prod_cases3)
  note hs = handle_spec [OF assms(1,3,4) h, of i]
  show ?thesis
  proof (cases go)
    case True
    then obtain es' where d: "dispatch p (se_now_ms env) (se_sends env) t = (s', es')" and effs: "effs = es @ es'"
      using assms(5) h by (auto simp: queue_step_def split: prod.splits)
    have "core_inv t" using hs by blast
    note ds = dispatch_spec [OF this d, of i]
    have "dlx_on p \<longrightarrow> bodies s' + dead_bodies effs + settled msg s = bodies s + admitted p msg s"
      using hs ds by (auto simp: effs ac_simps)
    with hs ds show ?thesis by auto
  next
    case False
    then show ?thesis using hs assms(2,5) h by (auto simp: queue_step_def)
  qed
qed

subsection \<open>Runs\<close>

text \<open>The total, over a run, of what each step contributes.\<close>

fun run_sum :: "effective_policy \<Rightarrow> (queue_msg \<Rightarrow> queue_actor \<Rightarrow> 'a::comm_monoid_add) \<Rightarrow> (step_env \<times> queue_msg) list \<Rightarrow> queue_actor \<Rightarrow> 'a" where
  "run_sum p f [] s = 0"
| "run_sum p f ((env, msg) # run) s = f msg s + run_sum p f run (fst (queue_step p env msg s))"

definition run_fits :: "(step_env \<times> queue_msg) list \<Rightarrow> queue_actor \<Rightarrow> bool" where
  "run_fits run s \<longleftrightarrow> unat (qa_next_msg_id s) + length run < 2 ^ 64 \<and> unat (qa_next_sub_id s) + length run < 2 ^ 64 \<and>
    qa_bytes s + sum_list (map (publish_len \<circ> snd) run) \<le> USIZE_MAX"

lemma run_spec:
  assumes "core_inv s" "idle s" "run_fits run s" "queue_run p run s = (s', effs)"
  shows "core_inv s' \<and> idle s' \<and>
    (dlx_on p \<longrightarrow> bodies s' + dead_bodies effs + run_sum p settled run s = bodies s + run_sum p (admitted p) run s) \<and>
    held_by i (qa_unacked s') + demand_of i (qa_subs s') \<le>
      held_by i (qa_unacked s) + demand_of i (qa_subs s) + sum_list (map (granted i \<circ> snd) run)"
  using assms
proof (induction p run s arbitrary: effs rule: queue_run.induct)
  case (1 p s)
  then show ?case by simp
next
  case (2 p env msg run s)
  obtain t es where st: "queue_step p env msg s = (t, es)" by fastforce
  obtain es' where rest: "queue_run p run t = (s', es')" and effs: "effs = es @ es'"
    using "2.prems"(4) st by (auto split: prod.splits)
  have fit: "counters_fit s" "qa_bytes s + publish_len msg \<le> USIZE_MAX"
    using "2.prems"(3) by (auto simp: run_fits_def counters_fit_def)
  note sp = step_spec [OF "2.prems"(1,2) fit st, of i]
  have "run_fits run t" using "2.prems"(3) sp by (auto simp: run_fits_def)
  then have IH: "core_inv s' \<and> idle s' \<and>
      (dlx_on p \<longrightarrow> bodies s' + dead_bodies es' + run_sum p settled run t = bodies t + run_sum p (admitted p) run t) \<and>
      held_by i (qa_unacked s') + demand_of i (qa_subs s') \<le>
        held_by i (qa_unacked t) + demand_of i (qa_subs t) + sum_list (map (granted i \<circ> snd) run)"
    using sp by (intro "2.IH" [OF st [symmetric] refl _ _ _ rest]) auto
  then have "dlx_on p \<longrightarrow> bodies s' + dead_bodies effs + run_sum p settled ((env, msg) # run) s =
      bodies s + run_sum p (admitted p) ((env, msg) # run) s"
    using sp by (auto simp: effs st intro!: conserve_trans)
  moreover have "held_by i (qa_unacked s') + demand_of i (qa_subs s') \<le>
      held_by i (qa_unacked s) + demand_of i (qa_subs s) + sum_list (map (granted i \<circ> snd) ((env, msg) # run))"
    using IH sp by simp
  ultimately show ?case using IH by blast
qed

lemma new_queue_inv [simp]: "core_inv new_queue" "idle new_queue" "bodies new_queue = {#}" "held_by i (qa_unacked new_queue) = 0"
  "demand_of i (qa_subs new_queue) = 0" "qa_bytes new_queue = 0" "qa_next_msg_id new_queue = 0" "qa_next_sub_id new_queue = 0"
  by (simp_all add: new_queue_def core_inv_def ring_inv_def idle_def bodies_def held_by_def)

subsection \<open>Bounds\<close>

definition depth :: "queue_actor \<Rightarrow> nat" where
  "depth s = length (qa_ready s) + length (qa_unacked s) + qa_reserved s"

lemma depth_held: "depth s = size (held s) + qa_reserved s"
  by (simp add: depth_def msgs_def)

lemma depth_new [simp]: "depth new_queue = 0"
  by (simp add: depth_def new_queue_def)

text \<open>A reserved publish comes with a slot that an earlier reservation holds.\<close>

definition slot_ok :: "effective_policy \<Rightarrow> queue_msg \<Rightarrow> queue_actor \<Rightarrow> bool" where
  "slot_ok p msg s \<longleftrightarrow> (case msg of PublishReserved _ _ \<Rightarrow> \<not> ep_drop_head p \<and> 0 < qa_reserved s | _ \<Rightarrow> True)"

fun reserved_publish :: "queue_msg \<Rightarrow> bool" where
  "reserved_publish (PublishReserved _ _) = True"
| "reserved_publish _ = False"

lemma publish_bounds:
  assumes "core_inv s" "publish p now fr body ack s = (s', effs, go)"
  shows "depth s \<le> ep_max_len p \<Longrightarrow> fr \<longrightarrow> \<not> ep_drop_head p \<and> 0 < qa_reserved s \<Longrightarrow> depth s' \<le> ep_max_len p"
    and "qa_bytes s \<le> ep_max_bytes p \<Longrightarrow> \<not> fr \<Longrightarrow> qa_bytes s' \<le> ep_max_bytes p"
proof -
  let ?s = "if fr then s\<lparr>qa_reserved := qa_reserved s - 1\<rparr> else s"
  obtain nr t es where m: "make_room p (length body) ?s = (nr, t, es)" by (rule prod_cases3)
  have b: "qa_bytes ?s = body_bytes (held ?s)" using assms(1) by (auto simp: core_inv_def)
  from make_room_spec [OF m b] obtain k where
    t: "t = ?s\<lparr>qa_ready := drop k (qa_ready ?s), qa_bytes := body_bytes (msgs (drop k (qa_ready ?s)) (qa_unacked ?s))\<rparr>"
    and room: "\<not> nr \<longrightarrow> \<not> over p (length body) (qa_reserved ?s) (length (qa_unacked ?s)) (length (qa_ready t)) (qa_bytes t)"
    and k: "\<not> ep_drop_head p \<longrightarrow> k = 0" by blast
  have le: "qa_bytes t \<le> qa_bytes s"
    using assms(1) msgs_take_drop [of k "qa_ready s" "qa_unacked s", symmetric] by (cases fr) (auto simp: t core_inv_def)
  show "depth s \<le> ep_max_len p \<Longrightarrow> fr \<longrightarrow> \<not> ep_drop_head p \<and> 0 < qa_reserved s \<Longrightarrow> depth s' \<le> ep_max_len p"
    using assms(2) m room k by (cases fr; cases nr) (auto simp: publish_def depth_def t over_def Let_def)
  show "qa_bytes s \<le> ep_max_bytes p \<Longrightarrow> \<not> fr \<Longrightarrow> qa_bytes s' \<le> ep_max_bytes p"
    using assms(2) m room le by (cases nr) (auto simp: publish_def over_def t Let_def)
qed

lemma handle_bounds:
  assumes "core_inv s" "handle_queue_msg p now msg s = (s', effs, go)"
  shows "depth s \<le> ep_max_len p \<Longrightarrow> slot_ok p msg s \<Longrightarrow> depth s' \<le> ep_max_len p"
    and "qa_bytes s \<le> ep_max_bytes p \<Longrightarrow> \<not> reserved_publish msg \<Longrightarrow> qa_bytes s' \<le> ep_max_bytes p"
proof (atomize (full), goal_cases)
  case 1
  show ?case
  proof (cases msg)
    case (Publish body ack)
    then show ?thesis using publish_bounds [OF assms(1), of p now False body ack s' effs go] assms(2) by simp
  next
    case (PublishReserved body ack)
    then show ?thesis using publish_bounds [OF assms(1), of p now True body ack s' effs go] assms(2) by (simp add: slot_ok_def)
  next
    case (SettleMsg sub m outcome)
    then show ?thesis using settle_spec [OF assms(1), of p sub m outcome s' effs go 0] assms(2) by (auto simp: depth_held)
  next
    case (Unsubscribe sub)
    then show ?thesis using unsubscribe_spec [OF assms(1) refl, of sub 0] assms(2) by (auto simp: depth_held)
  qed (use assms in \<open>auto simp: reserve_def subscribe_def depth_def Let_def split: if_splits\<close>)
qed

lemma step_bounds:
  assumes "core_inv s" "counters_fit s" "qa_bytes s + publish_len msg \<le> USIZE_MAX" "queue_step p env msg s = (s', effs)"
  shows "depth s \<le> ep_max_len p \<Longrightarrow> slot_ok p msg s \<Longrightarrow> depth s' \<le> ep_max_len p"
    and "qa_bytes s \<le> ep_max_bytes p \<Longrightarrow> \<not> reserved_publish msg \<Longrightarrow> qa_bytes s' \<le> ep_max_bytes p"
proof -
  obtain t es go where h: "handle_queue_msg p (se_enqueue_ms env) msg s = (t, es, go)" by (rule prod_cases3)
  have inv: "core_inv t" using handle_spec [OF assms(1,2,3) h] by blast
  have le: "depth s' \<le> depth t" "qa_bytes s' \<le> qa_bytes t"
  proof (atomize (full), cases go)
    case True
    then obtain es' where d: "dispatch p (se_now_ms env) (se_sends env) t = (s', es')"
      using assms(4) h by (auto simp: queue_step_def split: prod.splits)
    from dispatch_spec [OF inv d, of 0] show "depth s' \<le> depth t \<and> qa_bytes s' \<le> qa_bytes t" by (auto simp: depth_held)
  qed (use assms(4) h in \<open>auto simp: queue_step_def\<close>)
  show "depth s \<le> ep_max_len p \<Longrightarrow> slot_ok p msg s \<Longrightarrow> depth s' \<le> ep_max_len p"
    "qa_bytes s \<le> ep_max_bytes p \<Longrightarrow> \<not> reserved_publish msg \<Longrightarrow> qa_bytes s' \<le> ep_max_bytes p"
    using handle_bounds [OF assms(1) h] le by (auto intro: le_trans)
qed

text \<open>Every reserved publish of a run finds its slot.\<close>

fun slots_ok :: "effective_policy \<Rightarrow> (step_env \<times> queue_msg) list \<Rightarrow> queue_actor \<Rightarrow> bool" where
  "slots_ok p [] s = True"
| "slots_ok p ((env, msg) # run) s \<longleftrightarrow> slot_ok p msg s \<and> slots_ok p run (fst (queue_step p env msg s))"

lemma run_bounds:
  assumes "core_inv s" "idle s" "run_fits run s" "queue_run p run s = (s', effs)"
  shows "depth s \<le> ep_max_len p \<longrightarrow> slots_ok p run s \<longrightarrow> depth s' \<le> ep_max_len p"
    and "qa_bytes s \<le> ep_max_bytes p \<longrightarrow> (\<forall>(env, msg) \<in> set run. \<not> reserved_publish msg) \<longrightarrow> qa_bytes s' \<le> ep_max_bytes p"
  using assms
proof (atomize (full), induction p run s arbitrary: effs rule: queue_run.induct)
  case (2 p env msg run s)
  obtain t es where st: "queue_step p env msg s = (t, es)" by fastforce
  obtain es' where rest: "queue_run p run t = (s', es')" using "2.prems"(4) st by (auto split: prod.splits)
  have fit: "counters_fit s" "qa_bytes s + publish_len msg \<le> USIZE_MAX"
    using "2.prems"(3) by (auto simp: run_fits_def counters_fit_def)
  note sp = step_spec [OF "2.prems"(1,2) fit st, of 0] and sb = step_bounds [OF "2.prems"(1) fit st]
  have "run_fits run t" using "2.prems"(3) sp by (auto simp: run_fits_def)
  with "2.IH" [OF st [symmetric] refl _ _ this rest] sp sb show ?case by (auto simp: st)
qed simp

subsection \<open>Order, fairness and draining\<close>

fun delivered :: "broker_effect list \<Rightarrow> (u64 \<times> bytes) list" where
  "delivered [] = []"
| "delivered (ToConn c (Deliver ch h g i b) # es) = (i, b) # delivered es"
| "delivered (e # es) = delivered es"

lemma next_send_ok: "\<forall>ok \<in> set sends. ok \<Longrightarrow> next_send sends = (ok, sends') \<Longrightarrow> ok \<and> (\<forall>ok \<in> set sends'. ok)"
  by (cases sends) auto

text \<open>One delivery that succeeds.\<close>

lemma dispatch_loop_ok:
  assumes "pick_ready subs rr = Some idx" "\<forall>ok \<in> set sends. ok"
    and "dispatch_loop sends (m # ready) un subs rr = (ready', un', subs', rr', effs)" "sub = subs ! idx"
  obtains sends' es where "\<forall>ok \<in> set sends'. ok"
    "dispatch_loop sends' ready (unacked_insert (st_id m) (m, sub_id sub) un)
      (subs[idx := sub\<lparr>sub_demand := sub_demand sub - 1\<rparr>]) ((idx + 1) mod length subs) = (ready', un', subs', rr', es)"
    "effs = ToConn (sub_conn sub) (Deliver (sub_channel sub) (sub_handle sub) (sub_binding_gen sub) (st_id m) (st_body m)) # es"
proof -
  obtain ok sends' where n: "next_send sends = (ok, sends')" by fastforce
  with next_send_ok [OF assms(2)] have ok: "ok" "\<forall>ok \<in> set sends'. ok" by auto
  obtain es where "dispatch_loop sends' ready (unacked_insert (st_id m) (m, sub_id sub) un)
      (subs[idx := sub\<lparr>sub_demand := sub_demand sub - 1\<rparr>]) ((idx + 1) mod length subs) = (ready', un', subs', rr', es)"
    "effs = ToConn (sub_conn sub) (Deliver (sub_channel sub) (sub_handle sub) (sub_binding_gen sub) (st_id m) (st_body m)) # es"
    using assms(1,3,4) n ok(1) by (auto simp: Let_def split: prod.splits)
  with ok(2) show ?thesis by (rule that)
qed

lemma dispatch_loop_fifo:
  assumes "\<forall>ok \<in> set sends. ok" "dispatch_loop sends ready un subs rr = (ready', un', subs', rr', effs)"
  shows "\<exists>k. ready' = drop k ready \<and> delivered effs = map (\<lambda>m. (st_id m, st_body m)) (take k ready)"
  using assms
proof (induction ready arbitrary: sends un subs rr effs)
  case (Cons m ready)
  show ?case
  proof (cases "pick_ready subs rr")
    case None
    then show ?thesis using Cons.prems(2) by (intro exI [of _ 0]) auto
  next
    case (Some idx)
    let ?s = "subs ! idx"
    obtain sends' es where ok: "\<forall>ok \<in> set sends'. ok" and l: "dispatch_loop sends' ready (unacked_insert (st_id m) (m, sub_id ?s) un)
        (subs[idx := ?s\<lparr>sub_demand := sub_demand ?s - 1\<rparr>]) ((idx + 1) mod length subs) = (ready', un', subs', rr', es)"
      and effs: "effs = ToConn (sub_conn ?s) (Deliver (sub_channel ?s) (sub_handle ?s) (sub_binding_gen ?s) (st_id m) (st_body m)) # es"
      by (rule dispatch_loop_ok [OF Some Cons.prems refl])
    from Cons.IH [OF ok l] obtain k where "ready' = drop k ready" "delivered es = map (\<lambda>m. (st_id m, st_body m)) (take k ready)" by blast
    then show ?thesis by (intro exI [of _ "Suc k"]) (simp add: effs)
  qed
qed simp

lemma dispatch_deliver:
  assumes "pick_ready subs rr = Some idx" "ring_inv (m # ready) un subs" "sub = subs ! idx" "subs1 = subs[idx := sub\<lparr>sub_demand := d\<rparr>]"
  shows "unacked_insert (st_id m) (m, sub_id sub) un = (st_id m, m, sub_id sub) # un" "ring_inv ready ((st_id m, m, sub_id sub) # un) subs1"
proof -
  have inv: "ring_inv (m # ready) un subs1" unfolding assms(3,4) by (rule ring_inv_subs [OF assms(2) sub_ids_deliver])
  have mem: "sub_id sub \<in> sub_id ` set subs1"
    unfolding assms(3,4) using pick_ready_bound [OF assms(1)] by (metis image_set nth_mem sub_ids_deliver image_eqI)
  from deliver_insert [OF inv mem]
  show "unacked_insert (st_id m) (m, sub_id sub) un = (st_id m, m, sub_id sub) # un" "ring_inv ready ((st_id m, m, sub_id sub) # un) subs1"
    by auto
qed

lemma dispatch_loop_holds:
  assumes "ring_inv ready un subs" "\<forall>ok \<in> set sends. ok" "dispatch_loop sends ready un subs rr = (ready', un', subs', rr', effs)"
  shows "held_by i un \<le> held_by i un'"
  using assms
proof (induction ready arbitrary: sends un subs rr effs)
  case (Cons m ready)
  show ?case
  proof (cases "pick_ready subs rr")
    case (Some idx)
    note di = dispatch_deliver [OF Some Cons.prems(1) refl refl]
    obtain sends' es where ok: "\<forall>ok \<in> set sends'. ok" and l: "dispatch_loop sends' ready ((st_id m, m, sub_id (subs ! idx)) # un)
        (subs[idx := (subs ! idx)\<lparr>sub_demand := sub_demand (subs ! idx) - 1\<rparr>]) ((idx + 1) mod length subs) = (ready', un', subs', rr', es)"
      by (rule dispatch_loop_ok [OF Some Cons.prems(2,3) refl, unfolded di(1)])
    have "held_by i ((st_id m, m, sub_id (subs ! idx)) # un) \<le> held_by i un'" by (rule Cons.IH [OF di(2) ok l])
    then show ?thesis by (simp add: held_by_def split: if_splits)
  qed (use Cons.prems in auto)
qed auto

text \<open>
  A subscriber with demand, \<open>d\<close> places behind the ring's position, gets one of the next \<open>d + 1\<close> messages.
\<close>

lemma dispatch_loop_serves:
  assumes "ring_inv ready un subs" "\<forall>ok \<in> set sends. ok" "dispatch_loop sends ready un subs rr = (ready', un', subs', rr', effs)"
    and "j < length subs" "0 < sub_demand (subs ! j)" "d < length subs" "j = (rr + d) mod length subs" "d < length ready"
  shows "held_by (sub_id (subs ! j)) un < held_by (sub_id (subs ! j)) un'"
  using assms
proof (induction d arbitrary: sends ready un subs rr effs rule: less_induct)
  case (less d)
  obtain m rest where ready: "ready = m # rest" using less.prems(8) by (cases ready) auto
  note prems = less.prems [unfolded ready]
  let ?n = "length subs" let ?i = "sub_id (subs ! j)"
  obtain idx where pick: "pick_ready subs rr = Some idx"
    using prems(4,5) pick_ready_None [of subs rr] by (cases "pick_ready subs rr") auto
  then obtain k where k: "k < ?n" "idx = (rr + k) mod ?n" "\<forall>q < k. sub_demand (subs ! ((rr + q) mod ?n)) = 0"
    by (auto simp: pick_ready_Some)
  have kd: "k \<le> d" using k(3) prems(5,7) by (metis not_le less_irrefl)
  let ?s = "subs ! idx" let ?subs = "subs[idx := ?s\<lparr>sub_demand := sub_demand ?s - 1\<rparr>]"
  note di = dispatch_deliver [OF pick prems(1) refl refl]
  obtain sends' es where s': "\<forall>ok \<in> set sends'. ok"
    and l: "dispatch_loop sends' rest ((st_id m, m, sub_id ?s) # un) ?subs ((idx + 1) mod ?n) = (ready', un', subs', rr', es)"
    by (rule dispatch_loop_ok [OF pick prems(2,3) refl, unfolded di(1)])
  show ?case
  proof (cases "idx = j")
    case True
    then show ?thesis using dispatch_loop_holds [OF di(2) s' l, of ?i] by (simp add: held_by_def)
  next
    case False
    then have "k \<noteq> d" using k(2) prems(7) by auto
    then have lt: "k < d" using kd by simp
    have "((idx + 1) mod ?n + (d - k - 1)) mod ?n = j"
    proof -
      have "((idx + 1) mod ?n + (d - k - 1)) mod ?n = (rr + k + 1 + (d - k - 1)) mod ?n" unfolding k(2) by (simp add: mod_simps)
      also have "rr + k + 1 + (d - k - 1) = rr + d" using lt by simp
      finally show ?thesis using prems(7) by simp
    qed
    then have "held_by (sub_id (?subs ! j)) ((st_id m, m, sub_id ?s) # un) < held_by (sub_id (?subs ! j)) un'"
      using False lt prems(4-8) by (intro less.IH [OF _ di(2) s' l, of "d - k - 1"]) auto
    then show ?thesis using False by (simp add: held_by_def split: if_splits)
  qed
qed

lemma update_subscriber_drains:
  "distinct (map sub_id subs) \<Longrightarrow> \<forall>x \<in> set (update_subscriber i (grant credit True) subs). sub_id x = i \<longrightarrow> sub_drain_pending x"
proof (induction subs)
  case (Cons x subs)
  then show ?case by (cases "sub_id x = i") (auto simp: grant_def, metis imageI)
qed simp

lemma dispatch_subs:
  assumes "dispatch p now sends s = (s', effs)"
  shows "\<exists>ready ready' un' rr' es. dispatch_loop sends ready (qa_unacked s) (qa_subs s) (qa_rr s) = (ready', un', qa_subs s', rr', es)"
proof -
  obtain ready b ex where e: "(if ep_ttl_ms p \<noteq> None then expire_heads p now (qa_ready s) (qa_bytes s)
      else (qa_ready s, qa_bytes s, [])) = (ready, b, ex)" by (rule prod_cases3)
  obtain ready' un' subs' rr' es where l: "dispatch_loop sends ready (qa_unacked s) (qa_subs s) (qa_rr s) = (ready', un', subs', rr', es)"
    by (metis prod_cases5)
  have "qa_subs s' = subs'" using assms unfolding dispatch_def e Let_def prod.case l by auto
  with l show ?thesis by blast
qed

lemma dispatch_loop_drains:
  assumes "\<forall>x \<in> set subs. sub_id x = i \<longrightarrow> sub_drain_pending x" "dispatch_loop sends ready un subs rr = (ready', un', subs', rr', effs)"
  shows "\<forall>x \<in> set subs'. sub_id x = i \<longrightarrow> sub_demand x = 0"
  using assms
proof (induction sends ready un subs rr arbitrary: effs rule: dispatch_loop.induct)
  case (1 sends un subs rr)
  then show ?case by (auto simp: complete_drains_def)
next
  case (2 sends m ready un subs rr)
  show ?case
  proof (cases "pick_ready subs rr")
    case None
    then show ?thesis using "2.prems" pick_ready_None [of subs rr] by auto
  next
    case (Some idx)
    let ?s = "subs ! idx" let ?subs = "subs[idx := ?s\<lparr>sub_demand := sub_demand ?s - 1\<rparr>]"
    obtain ok sends' where n: "next_send sends = (ok, sends')" by fastforce
    have p: "\<forall>x \<in> set ?subs. sub_id x = i \<longrightarrow> sub_drain_pending x"
      using "2.prems"(1) pick_ready_bound [OF Some] by (auto dest!: set_update_subset_insert [THEN subsetD])
    show ?thesis
    proof (cases ok)
      case True
      then show ?thesis using "2.IH"(1) [OF Some refl refl refl refl n [symmetric] refl True p] "2.prems"(2) Some n
        by (auto simp: Let_def split: prod.splits)
    next
      case False
      obtain un1 ready1 where rq: "requeue (orphaned (sub_id ?s) un) un (m # ready) = (un1, ready1)" by fastforce
      show ?thesis
        using "2.IH"(2) [OF Some refl refl refl refl n [symmetric] refl False rq [symmetric] refl] p "2.prems"(2) Some n False rq
        by (auto simp: Let_def set_retain_others)
    qed
  qed
qed

subsection \<open>Properties\<close>

lemma fresh_run_fits:
  "length run < 2 ^ 64 \<Longrightarrow> sum_list (map (publish_len \<circ> snd) run) \<le> USIZE_MAX \<Longrightarrow> run_fits run new_queue"
  by (simp add: run_fits_def)

text \<open>
  C17: whatever messages arrive, however sends fail and clocks run, the queue stays consistent. No
  message is in two places, every message in flight is under its own identifier and is held by a
  subscriber that is still there, the byte count is exactly that of the bodies held, and work is
  never left over: nothing is ready or no subscriber has demand.
\<close>

theorem queue_consistent:
  assumes "queue_run p run new_queue = (s, effs)" "length run < 2 ^ 64" "sum_list (map (publish_len \<circ> snd) run) \<le> USIZE_MAX"
  shows "distinct (map st_id (qa_ready s) @ map fst (qa_unacked s)) \<and>
    (\<forall>(i, m, owner) \<in> set (qa_unacked s). st_id m = i \<and> owner \<in> sub_id ` set (qa_subs s)) \<and>
    qa_bytes s = sum_list (map (length \<circ> st_body) (qa_ready s)) + sum_list (map (length \<circ> st_body \<circ> fst \<circ> snd) (qa_unacked s)) \<and>
    (qa_ready s = [] \<or> (\<forall>x \<in> set (qa_subs s). sub_demand x = 0))"
proof -
  from run_spec [OF _ _ fresh_run_fits [OF assms(2,3)] assms(1)] have "core_inv s" "idle s" by simp_all
  moreover have "body_bytes (held s) = sum_list (map (length \<circ> st_body) (qa_ready s)) +
      sum_list (map (length \<circ> st_body \<circ> fst \<circ> snd) (qa_unacked s))"
    by (simp add: body_bytes_def msgs_def comp_def multiset.map_comp flip: sum_mset_sum_list)
  ultimately show ?thesis by (simp add: core_inv_def ring_inv_def idle_def)
qed

definition calm :: step_env where
  "calm = \<lparr>se_enqueue_ms = 0, se_now_ms = 0, se_sends = []\<rparr>"

text \<open>A subscriber with demand for one message, two publishes, a release of the first and the loss of the connection.\<close>

definition sample_run :: "(step_env \<times> queue_msg) list" where
  "sample_run = [(calm, Subscribe 4 1 2 3 0), (calm, Demand 1 1 False), (calm, Publish [7] None), (calm, Publish [8, 9] None),
    (calm, SettleMsg 1 1 Requeue), (calm\<lparr>se_sends := [False]\<rparr>, Demand 1 5 True), (calm, PublishReserved [5] None)]"

lemma sample_run_fits: "length sample_run < 2 ^ 64" "sum_list (map (publish_len \<circ> snd) sample_run) \<le> USIZE_MAX"
  by (simp_all add: sample_run_def publish_len_def USIZE_MAX_def)

theorem queue_consistent_witness:
  "\<exists>s effs. queue_run (depth_only 10) sample_run new_queue = (s, effs) \<and> distinct (map st_id (qa_ready s) @ map fst (qa_unacked s))"
  using queue_consistent [OF _ sample_run_fits, of "depth_only 10"] by (metis surj_pair)

text \<open>
  C7: no accepted message is lost. In every run, the bodies the queue has taken in are, counted with
  multiplicity, the bodies it still holds, those its consumers have accepted or rejected, and those
  it handed to the dead-letter router.
\<close>

theorem no_message_lost:
  assumes "queue_run p run new_queue = (s, effs)" "length run < 2 ^ 64" "sum_list (map (publish_len \<circ> snd) run) \<le> USIZE_MAX"
    and "ep_dead_letter p = Some target" "ep_dlx p"
  shows "run_sum p (admitted p) run new_queue = bodies s + run_sum p settled run new_queue + dead_bodies effs"
proof -
  have "dlx_on p" using assms(4,5) by (simp add: dlx_on_def)
  with run_spec [OF _ _ fresh_run_fits [OF assms(2,3)] assms(1)] show ?thesis by (simp add: ac_simps)
qed

theorem no_message_lost_witness:
  "let p = (depth_only 10)\<lparr>ep_dead_letter := Some [47], ep_dlx := True\<rparr>; (s, effs) = queue_run p sample_run new_queue
   in run_sum p (admitted p) sample_run new_queue = bodies s + run_sum p settled sample_run new_queue + dead_bodies effs"
proof -
  let ?p = "(depth_only 10)\<lparr>ep_dead_letter := Some [47], ep_dlx := True\<rparr>"
  obtain s effs where r: "queue_run ?p sample_run new_queue = (s, effs)" by fastforce
  from no_message_lost [OF this sample_run_fits, of "[47]"] show ?thesis by (simp add: Let_def r)
qed

text \<open>
  C18: no consumer gets more than it asked for. In every run, the messages a subscriber holds
  together with the demand it has left never exceed the demand it was granted.
\<close>

theorem demand_never_exceeded:
  assumes "queue_run p run new_queue = (s, effs)" "length run < 2 ^ 64" "sum_list (map (publish_len \<circ> snd) run) \<le> USIZE_MAX"
  shows "length (filter (\<lambda>(_, _, owner). owner = i) (qa_unacked s)) + demand_of i (qa_subs s) \<le> sum_list (map (granted i \<circ> snd) run)"
proof -
  have "length (filter (\<lambda>(_, _, owner). owner = i) (qa_unacked s)) = held_by i (qa_unacked s)"
    by (simp add: held_by_def case_prod_beta')
  then show ?thesis using run_spec [OF _ _ fresh_run_fits [OF assms(2,3)] assms(1), of i] by simp
qed

theorem demand_never_exceeded_witness:
  "let (s, effs) = queue_run (depth_only 10) sample_run new_queue
   in length (filter (\<lambda>(_, _, owner). owner = 1) (qa_unacked s)) + demand_of 1 (qa_subs s) \<le> 6"
proof -
  obtain s effs where r: "queue_run (depth_only 10) sample_run new_queue = (s, effs)" by fastforce
  have "sum_list (map (granted 1 \<circ> snd) sample_run) = 6" by (simp add: sample_run_def granted_def)
  with demand_never_exceeded [OF r sample_run_fits, of 1] show ?thesis by (simp add: r)
qed

text \<open>
  C19: the bounds of the policy hold. The messages ready and in flight and the reserved slots
  together stay within the depth bound when every reserved publish has a slot that a reservation
  holds; and the bodies held stay within the byte bound when there are no reserved publishes.
\<close>

theorem queue_bounds:
  assumes "queue_run p run new_queue = (s, effs)" "length run < 2 ^ 64" "sum_list (map (publish_len \<circ> snd) run) \<le> USIZE_MAX"
  shows "(slots_ok p run new_queue \<longrightarrow> length (qa_ready s) + length (qa_unacked s) + qa_reserved s \<le> ep_max_len p) \<and>
    ((\<forall>(env, msg) \<in> set run. \<not> reserved_publish msg) \<longrightarrow> qa_bytes s \<le> ep_max_bytes p)"
  using run_bounds [OF _ _ fresh_run_fits [OF assms(2,3)] assms(1)] by (simp add: depth_def [of s])

theorem queue_bounds_witness:
  "let (s, effs) = queue_run (depth_only 1) (take 6 sample_run) new_queue in length (qa_ready s) + length (qa_unacked s) \<le> 1"
proof -
  obtain s effs where r: "queue_run (depth_only 1) (take 6 sample_run) new_queue = (s, effs)" by fastforce
  have fits: "length (take 6 sample_run) < 2 ^ 64" "sum_list (map (publish_len \<circ> snd) (take 6 sample_run)) \<le> USIZE_MAX"
    by (simp_all add: sample_run_def publish_len_def USIZE_MAX_def)
  have "slots_ok (depth_only 1) (take 6 sample_run) new_queue" by (simp add: sample_run_def slot_ok_def)
  moreover have "ep_max_len (depth_only 1) = 1" by (simp add: depth_only_def)
  ultimately show ?thesis using queue_bounds [OF r fits] unfolding r by simp
qed



text \<open>
  a drain leaves no demand behind. After a demand message with the drain flag, whatever it
  delivered and whichever connections it lost, the subscriber has no demand left that a later
  message could use.
\<close>

theorem drain_clears_demand:
  assumes "distinct (map sub_id (qa_subs s))" "queue_step p env (Demand i credit True) s = (s', effs)"
  shows "demand_of i (qa_subs s') = 0"
proof -
  let ?subs = "update_subscriber i (grant credit True) (qa_subs s)"
  have pending: "\<forall>x \<in> set ?subs. sub_id x = i \<longrightarrow> sub_drain_pending x"
    by (rule update_subscriber_drains [OF assms(1)])
  obtain es where "dispatch p (se_now_ms env) (se_sends env) (s\<lparr>qa_subs := ?subs\<rparr>) = (s', es)"
    using assms(2) by (auto simp: queue_step_def split: prod.splits)
  from dispatch_subs [OF this] obtain ready ready' un' rr' es
    where "dispatch_loop (se_sends env) ready (qa_unacked s) ?subs (qa_rr s) = (ready', un', qa_subs s', rr', es)" by auto
  from dispatch_loop_drains [OF pending this] show ?thesis by (auto simp: demand_of_def)
qed

theorem drain_clears_demand_witness:
  "let s = new_queue\<lparr>qa_subs := [new_subscriber 1 4 1 2 3]\<rparr>
   in demand_of 1 (qa_subs (fst (queue_step (depth_only 1) calm (Demand 1 5 True) s))) = 0"
proof -
  let ?s = "new_queue\<lparr>qa_subs := [new_subscriber 1 4 1 2 3]\<rparr>"
  obtain s' effs where "queue_step (depth_only 1) calm (Demand 1 5 True) ?s = (s', effs)" by fastforce
  with drain_clears_demand [of ?s "depth_only 1" calm 1 5 s' effs] show ?thesis by (simp add: Let_def)
qed

text \<open>
  the depth bound does not hold for reserved publishes on a queue that drops from the head. Such
  a queue grants every reservation without holding slots, so when all the room is taken by messages
  in flight a reserved publish is stored beyond the bound.
\<close>

theorem drop_head_exceeds_depth:
  "let p = (depth_only 1)\<lparr>ep_drop_head := True\<rparr>;
       s = fst (queue_run p [(calm, Subscribe 4 1 2 3 0), (calm, Demand 1 1 False), (calm, Publish [7] None),
         (calm, Reserve 1 9), (calm, PublishReserved [8] None)] new_queue)
   in length (qa_ready s) + length (qa_unacked s) = 2 \<and> ep_max_len p = 1"
  by (simp add: Let_def depth_only_def queue_step_def dispatch_def subscribe_def new_subscriber_def new_queue_def calm_def grant_def
      saturating_add_def publish_def make_room_def over_def usize_add_def USIZE_MAX_def refuse_publish_def confirm_publish_def
      settle_publish_def pick_ready_def complete_drains_def unacked_insert_def unacked_remove_def reserve_def upt_conv_Cons dead_letter_def)

end
