(* ===== verification/Types_Txn.thy ===== *)
theory Types_Txn
  imports Types_Sasl Types_Message Ordered_Map
begin

text \<open>
  Carrying transactions (\<open>txn/mod.rs\<close> of the core, \<open>decode_control\<close> of the broker's
  \<open>txn.rs\<close>). A delivery state carries the transaction types as a plain described value, so the
  helpers encode the typed form, decode it as a value and back. \<open>outcome_value\<close> and
  \<open>transactional_value\<close> say which value that is.
\<close>

subsection \<open>The helpers\<close>

definition from_slice :: "'a decoder \<Rightarrow> bytes \<Rightarrow> decode_error + 'a" where
  "from_slice dec bytes = rbind (dec bytes) (\<lambda>(x, _). Inr x)"

definition control_message :: "('a \<Rightarrow> bytes \<Rightarrow> bytes) \<Rightarrow> 'a \<Rightarrow> bytes" where
  "control_message enc content =
    (let buf = put_u8 DESCRIBED [];
         buf = encode_descriptor AMQP_VALUE buf
     in enc content buf)"

text \<open>The \<open>expect\<close> on the decoded value is a panic.\<close>

definition described_state :: "bytes \<Rightarrow> rust_panic + delivery_state" where
  "described_state bytes =
    (case from_slice (decode_value 0) bytes of Inr v \<Rightarrow> Inr (SOther v) | Inl _ \<Rightarrow> Inl ExpectFailed)"

definition transactional_state_of :: "bytes \<Rightarrow> outcome option \<Rightarrow> rust_panic + delivery_state" where
  "transactional_state_of txn_id outcome =
    (let ts = \<lparr>ts_txn_id = txn_id, ts_outcome = outcome\<rparr>
     in described_state (encode_transactional_state ts []))"

definition declared_state :: "bytes \<Rightarrow> rust_panic + delivery_state" where
  "declared_state txn_id = described_state (encode_declared \<lparr>dd_txn_id = txn_id\<rparr> [])"

definition txn_state :: "delivery_state \<Rightarrow> transactional_state option" where
  "txn_state state =
    (case state of
       SOther v \<Rightarrow> (case from_slice decode_transactional_state (encode_value v []) of Inr ts \<Rightarrow> Some ts | Inl _ \<Rightarrow> None)
     | _ \<Rightarrow> None)"

definition declared_txn_id :: "delivery_state \<Rightarrow> bytes option" where
  "declared_txn_id state =
    (case state of
       SOther v \<Rightarrow> (case from_slice decode_declared (encode_value v []) of Inr d \<Rightarrow> Some (dd_txn_id d) | Inl _ \<Rightarrow> None)
     | _ \<Rightarrow> None)"

text \<open>The broker reads a control message by trying both shapes.\<close>

datatype txn_control = Declare bool | Discharge bytes bool

definition decode_amqp_value_of :: "'a decoder \<Rightarrow> 'a decoder" where
  "decode_amqp_value_of dec buf = rbind (expect_descriptor AMQP_VALUE buf) dec"

definition decode_control :: "bytes \<Rightarrow> txn_control option" where
  "decode_control body =
    (case from_slice (decode_amqp_value_of decode_declare) body of
       Inr d \<Rightarrow> Some (Declare (dc_global_id d \<noteq> None))
     | Inl _ \<Rightarrow>
         (case from_slice (decode_amqp_value_of decode_discharge) body of
            Inr d \<Rightarrow> Some (Discharge (dg_txn_id d) (dg_fail d))
          | Inl _ \<Rightarrow> None))"

subsection \<open>The value a described list is\<close>

fun strip_vnulls :: "avalue list \<Rightarrow> avalue list" where
  "strip_vnulls [] = []"
| "strip_vnulls (v # vs) = (if v = VNull \<and> strip_vnulls vs = [] then [] else v # strip_vnulls vs)"

definition described_value :: "u64 \<Rightarrow> avalue list \<Rightarrow> avalue" where
  "described_value d vs = VDescribed (VUlong d) (VList (strip_vnulls vs))"

definition opt_value :: "('a \<Rightarrow> avalue) \<Rightarrow> 'a option \<Rightarrow> avalue" where
  "opt_value f x = (case x of None \<Rightarrow> VNull | Some a \<Rightarrow> f a)"

definition fields_value :: "fields \<Rightarrow> avalue" where
  "fields_value m = VMap (map (\<lambda>(k, v). (VSymbol k, v)) m)"

definition err_value :: "err \<Rightarrow> avalue" where
  "err_value e = described_value ERROR
    [VSymbol (condition_as_str (er_condition e)), opt_value VString (er_description e), opt_value fields_value (er_info e)]"

fun outcome_value :: "outcome \<Rightarrow> avalue" where
  "outcome_value (OAccepted v) = described_value ACCEPTED []"
| "outcome_value (ORejected v) = described_value REJECTED [opt_value err_value (rj_error v)]"
| "outcome_value (OReleased v) = described_value RELEASED []"
| "outcome_value (OModified v) = described_value MODIFIED
    [opt_value VBool (md_delivery_failed v), opt_value VBool (md_undeliverable_here v),
     opt_value fields_value (md_message_annotations v)]"

definition transactional_value :: "transactional_state \<Rightarrow> avalue" where
  "transactional_value ts = described_value TRANSACTIONAL_STATE [VBinary (ts_txn_id ts), opt_value outcome_value (ts_outcome ts)]"

subsection \<open>It encodes to the same bytes\<close>

text \<open>The values that stand for fields: only null encodes to the null constructor.\<close>

definition field_value :: "avalue \<Rightarrow> bool" where
  "field_value v \<longleftrightarrow> (encode_value v [] = [NULL] \<longrightarrow> v = VNull)"

lemma field_value_simps [simp]:
  "field_value VNull" "field_value (VBool b)" "field_value (VBinary bs)" "field_value (VString s)" "field_value (VSymbol s)"
  "field_value (VMap m)" "field_value (VDescribed d v)"
  by (simp_all add: field_value_def encode_value_VMap encode_value_VDescribed compound_layout_def encode_bool_def put_defs
      encode_binary_def encode_str_def encode_symbol_def encode_var_eq del: encode_value.simps(22-25))

lemma field_value_opt: "(\<And>a. x = Some a \<Longrightarrow> field_value (f a)) \<Longrightarrow> field_value (opt_value f x)"
  by (cases x) (simp_all add: opt_value_def)

lemma strip_nulls_values:
  "\<forall>v \<in> set vs. field_value v \<Longrightarrow>
    strip_nulls (map (\<lambda>v. encode_value v []) vs) = map (\<lambda>v. encode_value v []) (strip_vnulls vs)"
  by (induction vs) (auto simp: field_value_def encode_null_def put_u8_def)

lemma encode_descriptor_ulong: "0 < d \<Longrightarrow> d \<le> 255 \<Longrightarrow> encode_value (VUlong d) [] = encode_descriptor d []"
  by (auto simp: encode_descriptor_def encode_u64_def)

lemma described_layout_value:
  assumes "\<forall>v \<in> set vs. field_value v" "fs = map (\<lambda>v. encode_value v []) vs" "0 < d" "d \<le> 255"
  shows "described_layout d fs = encode_value (described_value d vs) []"
  using assms
  by (simp add: described_layout_def described_value_def encode_value_VDescribed encode_value_VList strip_nulls_values
      encode_descriptor_ulong del: encode_value.simps)

lemma encode_opt_value:
  "(\<And>a. x = Some a \<Longrightarrow> enc a [] = encode_value (f a) []) \<Longrightarrow> encode_option enc x [] = encode_value (opt_value f x) []"
  by (cases x) (simp_all add: encode_option_def opt_value_def)

lemma encode_fields_value: "encode_fields m [] = encode_value (fields_value m) []"
  by (simp add: fields_value_def encode_value_VMap encode_map_entries_layout symbol_enc.encoder_axioms value_enc.encoder_axioms
      case_prod_unfold comp_def del: encode_value.simps(23))

lemma encode_err_value: "encode_err e [] = encode_value (err_value e) []"
  unfolding err_codec.encode_layout err_value_def append_Nil
  by (rule described_layout_value)
    (auto simp: err_flds_def encode_error_condition_def encode_fields_value fields_value_def
      intro!: encode_opt_value field_value_opt)

lemma encode_outcome_value: "encode_outcome x [] = encode_value (outcome_value x) []"
proof (cases x)
  case (ORejected v)
  have "encode_rejected v [] = encode_value (outcome_value x) []"
    unfolding ORejected outcome_value.simps rejected_codec.encode_layout append_Nil
    by (rule described_layout_value)
      (auto simp: rejected_flds_def encode_err_value err_value_def described_value_def intro!: encode_opt_value field_value_opt)
  then show ?thesis using ORejected by simp
next
  case (OModified v)
  have "encode_modified v [] = encode_value (outcome_value x) []"
    unfolding OModified outcome_value.simps modified_codec.encode_layout append_Nil
    by (rule described_layout_value)
      (auto simp: modified_flds_def encode_fields_value fields_value_def intro!: encode_opt_value field_value_opt)
  then show ?thesis using OModified by simp
qed (simp_all add: accepted_codec.encode_layout released_codec.encode_layout accepted_flds_def released_flds_def
    described_layout_value del: encode_value.simps)

lemma outcome_field_value: "field_value (outcome_value x)"
  by (cases x) (simp_all add: described_value_def)

lemma encode_transactional_value: "encode_transactional_state ts [] = encode_value (transactional_value ts) []"
  unfolding transactional_state_codec.encode_layout transactional_value_def append_Nil
  by (rule described_layout_value)
    (auto simp: transactional_state_flds_def encode_outcome_value outcome_field_value intro!: encode_opt_value field_value_opt)

lemma encode_declared_value: "encode_declared d [] = encode_value (described_value DECLARED [VBinary (dd_txn_id d)]) []"
  unfolding declared_codec.encode_layout append_Nil by (rule described_layout_value) (simp_all add: declared_flds_def)

subsection \<open>It is representable\<close>

lemma set_strip_vnulls: "set (strip_vnulls vs) \<subseteq> set vs"
  by (induction vs) auto

lemma encodable_described:
  assumes "\<forall>v \<in> set vs. encodable v" "length (encode_value (described_value d vs) []) < 2 ^ 32"
  shows "encodable (described_value d vs)"
proof -
  have "length (encode_value (VList (strip_vnulls vs)) []) < 2 ^ 32"
    using assms(2) by (simp add: described_value_def encode_value_VDescribed del: encode_value.simps)
  then show ?thesis using assms(1) set_strip_vnulls [of vs]
    by (auto simp: described_value_def fits_def simp del: encode_value.simps)
qed

lemma encodable_opt:
  "pred_option P x \<Longrightarrow> (\<And>a. P a \<Longrightarrow> encodable (f a)) \<Longrightarrow> encodable (opt_value f x)"
  by (cases x) (simp_all add: opt_value_def)

lemma encodable_fields: "fields_ok m \<Longrightarrow> encodable (fields_value m)"
  unfolding encode_fields_value by (auto simp: fields_value_def value_ok_def fits_def simp del: encode_value.simps)

lemma encodable_err:
  assumes "rep_err e"
  shows "encodable (err_value e)"
proof -
  have "encodable (opt_value VString (er_description e))" "encodable (opt_value fields_value (er_info e))"
    using assms by (auto simp: err_ok_def intro: encodable_opt [of text_ok] encodable_opt [OF _ encodable_fields])
  then show ?thesis using assms unfolding encode_err_value unfolding err_value_def
    by (intro encodable_described) (simp_all add: err_ok_def condition_ok_def del: encode_value.simps)
qed

lemma encodable_outcome:
  assumes "outcome_ok x"
  shows "encodable (outcome_value x)"
proof -
  have len: "length (encode_value (outcome_value x) []) < 2 ^ 32"
    using assms unfolding encode_outcome_value [symmetric] by (cases x) simp_all
  have "encodable (opt_value VBool y)" for y by (cases y) (simp_all add: opt_value_def)
  then show ?thesis using assms len
    by (cases x) (auto simp: rejected_ok_def modified_ok_def simp del: encode_value.simps
        intro!: encodable_described encodable_opt [OF _ encodable_err] encodable_opt [OF _ encodable_fields])
qed

lemma encodable_transactional:
  assumes "rep_transactional_state ts"
  shows "encodable (transactional_value ts)"
proof -
  have "encodable (opt_value outcome_value (ts_outcome ts))"
    using assms by (auto simp: transactional_state_ok_def intro: encodable_opt [OF _ encodable_outcome])
  then show ?thesis using assms unfolding encode_transactional_value unfolding transactional_value_def
    by (intro encodable_described) (simp_all add: transactional_state_ok_def del: encode_value.simps)
qed

subsection \<open>Carried and read back\<close>

lemma described_state_encode: "value_ok v \<Longrightarrow> described_state (encode_value v []) = Inr (SOther v)"
  using value_codec.decode_encode [of v "[]"] by (simp add: described_state_def from_slice_def)

lemma described_list_other: "d \<noteq> d' \<Longrightarrow> decode_described_list d (described_layout d' fs) = Inl (UnexpectedDescriptor d (Code d'))"
  by (simp add: decode_described_list_def described_layout_def decode_descriptor_encode)

lemmas read_back =
  txn_state_def declared_txn_id_def from_slice_def encode_transactional_value [symmetric] encode_declared_value [symmetric]

lemma transactional_other_state: "other_state (transactional_value ts)"
  by (simp add: transactional_value_def described_value_def)

lemma txn_state_transactional:
  assumes "rep_transactional_state ts"
  shows "txn_state (SOther (transactional_value ts)) = Some ts \<and> declared_txn_id (SOther (transactional_value ts)) = None"
  using transactional_state_codec.comp.decode_encode [of ts "[]"] assms
  by (simp add: read_back) (simp add: transactional_state_codec.encode_layout decode_composite_def described_list_other)

lemma declared_value_reads:
  assumes "rep_declared d"
  defines "v \<equiv> described_value DECLARED [VBinary (dd_txn_id d)]"
  shows "value_ok v" "other_state v" "declared_txn_id (SOther v) = Some (dd_txn_id d)" "txn_state (SOther v) = None"
proof -
  have "encodable v" unfolding v_def
    by (rule encodable_described) (use assms(1) in \<open>simp_all add: declared_ok_def encode_declared_value [symmetric]\<close>)
  then show "value_ok v" by (simp add: value_ok_def v_def described_value_def MAX_DEPTH_def)
  show "other_state v" by (simp add: v_def described_value_def)
  show "declared_txn_id (SOther v) = Some (dd_txn_id d)"
    using declared_codec.comp.decode_encode [of d "[]"] assms(1) by (simp add: read_back v_def)
  show "txn_state (SOther v) = None"
    by (simp add: read_back v_def declared_codec.encode_layout decode_composite_def described_list_other)
qed

lemma control_message_eq:
  assumes "encoder enc"
  shows "control_message enc x = DESCRIBED # encode_descriptor AMQP_VALUE [] @ enc x []"
proof -
  have "encode_descriptor AMQP_VALUE [DESCRIBED] = DESCRIBED # encode_descriptor AMQP_VALUE []"
    by (simp add: encode_descriptor_def put_defs)
  then show ?thesis
    using encoder.appends [OF assms, of x "DESCRIBED # encode_descriptor AMQP_VALUE []"]
    by (simp add: control_message_def put_u8_def)
qed

lemma decode_control_declare:
  "rep_declare d \<Longrightarrow> decode_control (control_message encode_declare d) = Some (Declare (dc_global_id d \<noteq> None))"
  using declare_codec.comp.decode_encode [of d "[]"]
  by (simp add: decode_control_def from_slice_def decode_amqp_value_of_def control_message_eq
      declare_codec.comp.encoder_axioms expect_descriptor_encode)

lemma decode_control_discharge:
  assumes "rep_discharge d"
  shows "decode_control (control_message encode_discharge d) = Some (Discharge (dg_txn_id d) (dg_fail d))"
proof -
  have "decode_declare (encode_discharge d []) = Inl (UnexpectedDescriptor DECLARE (Code DISCHARGE))"
    by (simp add: discharge_codec.encode_layout decode_composite_def described_list_other)
  then show ?thesis using discharge_codec.comp.decode_encode [of d "[]"] assms
    by (simp add: decode_control_def from_slice_def decode_amqp_value_of_def control_message_eq
        discharge_codec.comp.encoder_axioms expect_descriptor_encode)
qed

text \<open>
  a transactional state built for a transfer or disposition survives the wire and is read back
  with its transaction id and outcome, whatever the outcome; it is not mistaken for a declared
  outcome. The same holds of a declared outcome. Building either never panics. The only condition
  besides representability is that annotations or error info in the outcome are not nested to the
  decoder's depth limit.
\<close>

theorem txn_state_roundtrip:
  assumes "rep_transactional_state ts" "nesting (transactional_value ts) \<le> MAX_DEPTH" "rep_declared d"
  shows "(\<exists>s. transactional_state_of (ts_txn_id ts) (ts_outcome ts) = Inr s \<and>
      decode_delivery_state (encode_delivery_state s [] @ rest) = Inr (s, rest) \<and>
      txn_state s = Some ts \<and> declared_txn_id s = None) \<and>
    (\<exists>s. declared_state (dd_txn_id d) = Inr s \<and>
      decode_delivery_state (encode_delivery_state s [] @ rest) = Inr (s, rest) \<and>
      declared_txn_id s = Some (dd_txn_id d) \<and> txn_state s = None)"
proof -
  have ts: "\<lparr>ts_txn_id = ts_txn_id ts, ts_outcome = ts_outcome ts\<rparr> = ts" by simp
  have "value_ok (transactional_value ts)" using assms(1,2) encodable_transactional by (simp add: value_ok_def)
  then have "\<exists>s. transactional_state_of (ts_txn_id ts) (ts_outcome ts) = Inr s \<and>
      decode_delivery_state (encode_delivery_state s [] @ rest) = Inr (s, rest) \<and> txn_state s = Some ts \<and> declared_txn_id s = None"
    using txn_state_transactional [OF assms(1)] transactional_other_state [of ts]
      delivery_state_codec.decode_encode [of "SOther (transactional_value ts)" rest]
    by (simp add: transactional_state_of_def encode_transactional_value described_state_encode ts)
  moreover note r = declared_value_reads [OF assms(3)]
  then have "\<exists>s. declared_state (dd_txn_id d) = Inr s \<and>
      decode_delivery_state (encode_delivery_state s [] @ rest) = Inr (s, rest) \<and>
      declared_txn_id s = Some (dd_txn_id d) \<and> txn_state s = None"
    using delivery_state_codec.decode_encode [of "SOther (described_value DECLARED [VBinary (dd_txn_id d)])" rest]
    by (simp add: declared_state_def encode_declared_value described_state_encode)
  ultimately show ?thesis by blast
qed

definition sample_txn :: transactional_state where
  "sample_txn = \<lparr>ts_txn_id = ascii ''txn-1'',
    ts_outcome = Some (OModified
      \<lparr>md_delivery_failed = Some True, md_undeliverable_here = None, md_message_annotations = Some [([107], VNull)]\<rparr>)\<rparr>"

lemma encode_var_length: "length bs \<le> 255 \<Longrightarrow> length (encode_var c8 c32 bs []) = 2 + length bs"
  by (simp add: encode_var_eq)

lemmas sample_lays =
  var_ok_def text_ok_def ascii_def put_defs encode_bool_def encode_option_def encode_binary_def encode_symbol_def
  encode_var_length described_layout_def compound_layout_def encode_descriptor_def encode_null_def

theorem txn_state_roundtrip_witness:
  "\<exists>s. transactional_state_of (ts_txn_id sample_txn) (ts_outcome sample_txn) = Inr s \<and> txn_state s = Some sample_txn"
proof -
  have "rep_transactional_state sample_txn"
    by (simp add: sample_txn_def transactional_state_ok_def modified_ok_def modified_codec.encode_layout modified_flds_def
        transactional_state_codec.encode_layout transactional_state_flds_def fields_value_def encode_fields_value value_ok_def
        encode_value_VMap sample_lays del: encode_value.simps(23))
  moreover have "nesting (transactional_value sample_txn) \<le> MAX_DEPTH"
    by (simp add: sample_txn_def transactional_value_def described_value_def opt_value_def fields_value_def MAX_DEPTH_def)
  moreover have "rep_declared \<lparr>dd_txn_id = ascii ''txn-1''\<rparr>"
    by (simp add: declared_ok_def declared_codec.encode_layout declared_flds_def sample_lays)
  ultimately show ?thesis using txn_state_roundtrip [of sample_txn "\<lparr>dd_txn_id = ascii ''txn-1''\<rparr>" "[]"] by blast
qed

text \<open>
  the broker reads every control message a client builds as what it is: a declare with or
  without a global id, or a discharge with its transaction id and fail flag.
\<close>

theorem control_message_roundtrip:
  "(rep_declare d \<longrightarrow> decode_control (control_message encode_declare d) = Some (Declare (dc_global_id d \<noteq> None))) \<and>
   (rep_discharge e \<longrightarrow> decode_control (control_message encode_discharge e) = Some (Discharge (dg_txn_id e) (dg_fail e)))"
  using decode_control_declare decode_control_discharge by blast

theorem control_message_roundtrip_witness:
  "decode_control (control_message encode_discharge \<lparr>dg_txn_id = [1, 2], dg_fail = True\<rparr>) = Some (Discharge [1, 2] True)"
proof -
  have "rep_discharge \<lparr>dg_txn_id = [1, 2], dg_fail = True\<rparr>"
    by (simp add: discharge_ok_def discharge_codec.encode_layout discharge_flds_def sample_lays)
  then show ?thesis using control_message_roundtrip [of undefined "\<lparr>dg_txn_id = [1, 2], dg_fail = True\<rparr>"] by simp
qed

end
