(* ===== verification/Broker_Txn.thy ===== *)
theory Broker_Txn
  imports Broker_Queue_Laws Types_Txn
begin

section \<open>The transaction coordinator (\<open>ramqp-broker/src/txn.rs\<close>)\<close>

text \<open>
  A connection's transaction table stages publishes and settlements until a discharge commits or
  rolls back. The commit talks to the queues through their mailboxes; it is a function of
  \<open>ask\<close>, which puts a message into a mailbox and awaits the answer: for a reservation whether it
  was granted, for a publish whether it was confirmed, both false when the mailbox is closed. What
  \<open>ask\<close> does to the rest of the broker in the meantime is up to its state. \<open>logged\<close> records the
  requests of a commit, so that the theorems speak of every behaviour of the queues.
\<close>

type_synonym mailbox = nat
type_synonym 'w ask = "mailbox \<Rightarrow> queue_msg \<Rightarrow> 'w \<Rightarrow> bool \<times> 'w"

definition MAX_TXNS :: nat where "MAX_TXNS = 64"
definition MAX_STAGED :: nat where "MAX_STAGED = 10000"
definition MAX_STAGED_BYTES :: nat where "MAX_STAGED_BYTES = 64 * 1024 * 1024"

subsection \<open>The transaction table\<close>

record staged_publish =
  sp_queue :: mailbox
  sp_queue_name :: utf8
  sp_body :: bytes

record staged_settle =
  sl_queue :: mailbox
  sl_sub :: sub_id
  sl_msg_id :: u64
  sl_outcome :: settle_outcome

record txn =
  tx_publishes :: "staged_publish list"
  tx_settles :: "staged_settle list"
  tx_rollback_only :: bool

definition default_txn :: txn where
  "default_txn = \<lparr>tx_publishes = [], tx_settles = [], tx_rollback_only = False\<rparr>"

definition staged :: "txn \<Rightarrow> nat" where
  "staged t = length (tx_publishes t) + length (tx_settles t)"

text \<open>The table of open transactions is an association list, newest first; the source's hash map has no order.\<close>

record txn_manager =
  tm_next_id :: u64
  tm_txns :: "(bytes \<times> txn) list"
  tm_staged_bytes :: nat

definition new_manager :: txn_manager where
  "new_manager = \<lparr>tm_next_id = 0, tm_txns = [], tm_staged_bytes = 0\<rparr>"

fun decimal :: "nat \<Rightarrow> bytes" where
  "decimal n = (if n < 10 then [of_nat (48 + n)] else decimal (n div 10) @ [of_nat (48 + n mod 10)])"

declare decimal.simps [simp del]

definition without :: "bytes \<Rightarrow> (bytes \<times> txn) list \<Rightarrow> (bytes \<times> txn) list" where
  "without i ts = filter (\<lambda>e. fst e \<noteq> i) ts"

definition replace_txn :: "bytes \<Rightarrow> txn \<Rightarrow> (bytes \<times> txn) list \<Rightarrow> (bytes \<times> txn) list" where
  "replace_txn i t ts = map (\<lambda>(j, u). if j = i then (j, t) else (j, u)) ts"

definition declare_new :: "txn_manager \<Rightarrow> bytes option \<times> txn_manager" where
  "declare_new m =
    (if length (tm_txns m) \<ge> MAX_TXNS then (None, m)
     else let n = tm_next_id m + 1;
              i = ascii ''txn-'' @ decimal (unat n)
          in (Some i, m\<lparr>tm_next_id := n, tm_txns := (i, default_txn) # without i (tm_txns m)\<rparr>))"

datatype publish_stage = PublishStaged | UnknownTxn | Capped

definition stage_publish :: "bytes \<Rightarrow> staged_publish \<Rightarrow> txn_manager \<Rightarrow> publish_stage \<times> txn_manager" where
  "stage_publish i p m =
    (let over_bytes = tm_staged_bytes m + length (sp_body p) > MAX_STAGED_BYTES
     in case map_of (tm_txns m) i of
          Some t \<Rightarrow>
            if \<not> over_bytes \<and> staged t < MAX_STAGED
            then (PublishStaged, m\<lparr>tm_txns := replace_txn i (t\<lparr>tx_publishes := tx_publishes t @ [p]\<rparr>) (tm_txns m),
                    tm_staged_bytes := tm_staged_bytes m + length (sp_body p)\<rparr>)
            else (Capped, m\<lparr>tm_txns := replace_txn i (t\<lparr>tx_rollback_only := True\<rparr>) (tm_txns m)\<rparr>)
        | None \<Rightarrow> (UnknownTxn, m))"

datatype settle_stage = SettleStaged | Refused staged_settle bool

definition stage_settle :: "bytes \<Rightarrow> staged_settle \<Rightarrow> txn_manager \<Rightarrow> settle_stage \<times> txn_manager" where
  "stage_settle i s m =
    (case map_of (tm_txns m) i of
       Some t \<Rightarrow>
         if staged t < MAX_STAGED
         then (SettleStaged, m\<lparr>tm_txns := replace_txn i (t\<lparr>tx_settles := tx_settles t @ [s]\<rparr>) (tm_txns m)\<rparr>)
         else (Refused s True, m\<lparr>tm_txns := replace_txn i (t\<lparr>tx_rollback_only := True\<rparr>) (tm_txns m)\<rparr>)
     | None \<Rightarrow> (Refused s False, m))"

definition body_sum :: "txn \<Rightarrow> nat" where
  "body_sum t = sum_list (map (length \<circ> sp_body) (tx_publishes t))"

definition take_txn :: "bytes \<Rightarrow> txn_manager \<Rightarrow> txn option \<times> txn_manager" where
  "take_txn i m =
    (case map_of (tm_txns m) i of
       None \<Rightarrow> (None, m)
     | Some t \<Rightarrow> (Some t, m\<lparr>tm_txns := without i (tm_txns m), tm_staged_bytes := tm_staged_bytes m - body_sum t\<rparr>))"

definition take_all :: "txn_manager \<Rightarrow> txn list \<times> txn_manager" where
  "take_all m = (map snd (tm_txns m), m\<lparr>tm_txns := [], tm_staged_bytes := 0\<rparr>)"

subsection \<open>Commit and rollback\<close>

datatype discharge_outcome = Complete | RolledBack | Partial nat nat | Unknown

type_synonym group = "mailbox \<times> utf8 \<times> u32"

text \<open>The channels of the commit's own requests.\<close>

definition txn_reply :: reply_to where "txn_reply = 0"

definition txn_ack :: publish_ack where
  "txn_ack = \<lparr>pa_conn = 0, pa_channel = 0, pa_handle = 0, pa_binding_gen = 0, pa_delivery_id = 0\<rparr>"

fun add_to_group :: "staged_publish \<Rightarrow> group list \<Rightarrow> group list" where
  "add_to_group p [] = [(sp_queue p, sp_queue_name p, 1)]"
| "add_to_group p ((q, name, n) # gs) =
    (if name = sp_queue_name p then (q, name, n + 1) # gs else (q, name, n) # add_to_group p gs)"

definition group_publishes :: "staged_publish list \<Rightarrow> group list" where
  "group_publishes ps = foldl (\<lambda>gs p. add_to_group p gs) [] ps"

fun release_held :: "'w ask \<Rightarrow> group list \<Rightarrow> 'w \<Rightarrow> 'w" where
  "release_held ask [] w = w"
| "release_held ask ((q, _, n) # gs) w = release_held ask gs (snd (ask q (Unreserve n) w))"

fun reserve_groups :: "'w ask \<Rightarrow> group list \<Rightarrow> group list \<Rightarrow> 'w \<Rightarrow> bool \<times> 'w" where
  "reserve_groups ask kept [] w = (True, w)"
| "reserve_groups ask kept ((q, name, n) # gs) w =
    (let (ok, w) = ask q (Reserve n txn_reply) w
     in if ok then reserve_groups ask (kept @ [(q, name, n)]) gs w else (False, release_held ask kept w))"

fun position :: "utf8 \<Rightarrow> group list \<Rightarrow> nat option" where
  "position name [] = None"
| "position name ((_, m, _) # gs) = (if m = name then Some 0 else map_option Suc (position name gs))"

fun release_rest :: "'w ask \<Rightarrow> group list \<Rightarrow> u32 list \<Rightarrow> 'w \<Rightarrow> 'w" where
  "release_rest ask ((q, _, _) # gs) (n # ns) w =
    release_rest ask gs ns (if n > 0 then snd (ask q (Unreserve n) w) else w)"
| "release_rest ask _ _ w = w"

text \<open>Publishing into the reserved slots: the number applied before a refusal, if there was one.\<close>

fun publish_reserved :: "'w ask \<Rightarrow> group list \<Rightarrow> u32 list \<Rightarrow> nat \<Rightarrow> staged_publish list \<Rightarrow> 'w \<Rightarrow> (rust_panic + nat option) \<times> 'w" where
  "publish_reserved ask gs remaining applied [] w = (Inr None, w)"
| "publish_reserved ask gs remaining applied (p # ps) w =
    (case position (sp_queue_name p) gs of
       None \<Rightarrow> (Inl ExpectFailed, w)
     | Some gi \<Rightarrow>
         let (accepted, w) = ask (sp_queue p) (PublishReserved (sp_body p) (Some txn_ack)) w;
             remaining = remaining[gi := remaining ! gi - 1]
         in if accepted then publish_reserved ask gs remaining (applied + 1) ps w
            else (Inr (Some applied), release_rest ask gs remaining w))"

fun settle_all :: "'w ask \<Rightarrow> (staged_settle \<Rightarrow> settle_outcome) \<Rightarrow> staged_settle list \<Rightarrow> 'w \<Rightarrow> 'w" where
  "settle_all ask f [] w = w"
| "settle_all ask f (s # ss) w =
    settle_all ask f ss (snd (ask (sl_queue s) (SettleMsg (sl_sub s) (sl_msg_id s) (f s)) w))"

definition requeue_settles :: "'w ask \<Rightarrow> staged_settle list \<Rightarrow> 'w \<Rightarrow> 'w" where
  "requeue_settles ask ss w = settle_all ask (\<lambda>_. Requeue) ss w"

definition execute_commit :: "'w ask \<Rightarrow> txn \<Rightarrow> 'w \<Rightarrow> (rust_panic + discharge_outcome) \<times> 'w" where
  "execute_commit ask t w =
    (let gs = group_publishes (tx_publishes t);
         (ok, w) = reserve_groups ask [] gs w
     in if \<not> ok then (Inr RolledBack, requeue_settles ask (tx_settles t) w)
        else let total = length (tx_publishes t);
                 (r, w) = publish_reserved ask gs (map (\<lambda>(_, _, n). n) gs) 0 (tx_publishes t) w
             in case r of
                  Inl e \<Rightarrow> (Inl e, w)
                | Inr (Some applied) \<Rightarrow>
                    (Inr (if applied = 0 then RolledBack else Partial applied total), requeue_settles ask (tx_settles t) w)
                | Inr None \<Rightarrow> (Inr Complete, settle_all ask sl_outcome (tx_settles t) w))"

definition execute_rollback :: "'w ask \<Rightarrow> txn \<Rightarrow> 'w \<Rightarrow> 'w" where
  "execute_rollback ask t w = requeue_settles ask (tx_settles t) w"

text \<open>The detached task of a discharge (\<open>connection.rs\<close>); a task that dies is reported as unknown.\<close>

definition run_discharge :: "'w ask \<Rightarrow> bool \<Rightarrow> txn \<Rightarrow> 'w \<Rightarrow> discharge_outcome \<times> 'w" where
  "run_discharge ask fail t w =
    (if fail then (Complete, execute_rollback ask t w)
     else if tx_rollback_only t then (RolledBack, execute_rollback ask t w)
     else let (r, w) = execute_commit ask t w in (case r of Inr out \<Rightarrow> out | Inl _ \<Rightarrow> Unknown, w))"

subsection \<open>Transaction ids\<close>

fun undecimal :: "bytes \<Rightarrow> nat" where
  "undecimal bs = foldl (\<lambda>n b. 10 * n + (unat b - 48)) 0 bs"

lemma unat_digit: "n < 10 \<Longrightarrow> unat (of_nat (48 + n) :: u8) = 48 + n"
  by (simp only: unat_of_nat) simp

lemma undecimal_decimal: "undecimal (decimal n) = n"
proof (induction n rule: decimal.induct)
  case (1 n)
  then show ?case using unat_digit [of n] unat_digit [of "n mod 10"]
    by (cases "n < 10") (simp_all add: decimal.simps [of n] del: of_nat_add)
qed

lemma decimal_inject: "decimal m = decimal n \<longleftrightarrow> m = n"
  by (metis undecimal_decimal)

subsection \<open>The table stays consistent\<close>

datatype txn_op = ODeclare | OStagePublish bytes staged_publish | OStageSettle bytes staged_settle | OTake bytes | OTakeAll

fun txn_step :: "txn_op \<Rightarrow> txn_manager \<Rightarrow> txn_manager" where
  "txn_step ODeclare m = snd (declare_new m)"
| "txn_step (OStagePublish i p) m = snd (stage_publish i p m)"
| "txn_step (OStageSettle i s) m = snd (stage_settle i s m)"
| "txn_step (OTake i) m = snd (take_txn i m)"
| "txn_step OTakeAll m = snd (take_all m)"

definition txn_name :: "nat \<Rightarrow> bytes" where
  "txn_name n = ascii ''txn-'' @ decimal n"

definition staged_total :: "(bytes \<times> txn) list \<Rightarrow> nat" where
  "staged_total ts = sum_list (map (body_sum \<circ> snd) ts)"

definition manager_inv :: "txn_manager \<Rightarrow> bool" where
  "manager_inv m \<longleftrightarrow> distinct (map fst (tm_txns m)) \<and> length (tm_txns m) \<le> MAX_TXNS \<and>
    (\<forall>(i, t) \<in> set (tm_txns m). staged t \<le> MAX_STAGED \<and> (\<exists>n \<le> unat (tm_next_id m). i = txn_name n)) \<and>
    tm_staged_bytes m = staged_total (tm_txns m) \<and> tm_staged_bytes m \<le> MAX_STAGED_BYTES"

lemma replace_txn_keys [simp]: "map fst (replace_txn i t ts) = map fst ts" "length (replace_txn i t ts) = length ts"
  by (auto simp: replace_txn_def comp_def case_prod_unfold)

lemma staged_total_simps [simp]:
  "staged_total [] = 0" "staged_total ((i, t) # ts) = body_sum t + staged_total ts"
  by (simp_all add: staged_total_def)

lemma split_entry:
  assumes "map_of ts i = Some t" "distinct (map fst ts)"
  obtains a b where "ts = a @ (i, t) # b" "\<forall>e \<in> set a \<union> set b. fst e \<noteq> i"
proof -
  obtain a b where "ts = a @ (i, t) # b" using split_list [OF map_of_SomeD [OF assms(1)]] by blast
  moreover have "\<forall>e \<in> set a \<union> set b. fst e \<noteq> i" using assms(2) unfolding calculation by auto
  ultimately show ?thesis using that by blast
qed

lemma staged_total_append [simp]: "staged_total (a @ b) = staged_total a + staged_total b"
  by (simp add: staged_total_def)

lemma replace_entry:
  assumes "map_of ts i = Some t" "distinct (map fst ts)"
  shows "staged_total (replace_txn i u ts) + body_sum t = staged_total ts + body_sum u"
    and "set (replace_txn i u ts) \<subseteq> insert (i, u) (set ts)"
proof -
  obtain a b where ts: "ts = a @ (i, t) # b" "\<forall>e \<in> set a \<union> set b. fst e \<noteq> i" by (rule split_entry [OF assms])
  then have "replace_txn i u a = a" "replace_txn i u b = b" unfolding replace_txn_def by (intro map_idI; force)+
  then show "staged_total (replace_txn i u ts) + body_sum t = staged_total ts + body_sum u"
    "set (replace_txn i u ts) \<subseteq> insert (i, u) (set ts)"
    by (auto simp: ts(1) replace_txn_def)
qed

lemma remove_entry:
  assumes "map_of ts i = Some t" "distinct (map fst ts)"
  shows "staged_total (without i ts) + body_sum t = staged_total ts"
proof -
  obtain a b where ts: "ts = a @ (i, t) # b" "\<forall>e \<in> set a \<union> set b. fst e \<noteq> i" by (rule split_entry [OF assms])
  then have "filter (\<lambda>e. fst e \<noteq> i) a = a" "filter (\<lambda>e. fst e \<noteq> i) b = b" by (auto intro: filter_True)
  then show ?thesis by (simp add: ts(1) without_def)
qed

lemma manager_inv_replace:
  assumes "manager_inv m" "map_of (tm_txns m) i = Some t" "staged u \<le> MAX_STAGED"
    and "k + body_sum t = tm_staged_bytes m + body_sum u" "k \<le> MAX_STAGED_BYTES"
  shows "manager_inv (m\<lparr>tm_txns := replace_txn i u (tm_txns m), tm_staged_bytes := k\<rparr>)"
proof -
  have d: "distinct (map fst (tm_txns m))" using assms(1) by (simp add: manager_inv_def)
  note r = replace_entry [OF assms(2) d, of u]
  have "(i, t) \<in> set (tm_txns m)" using assms(2) by (rule map_of_SomeD)
  then have "\<exists>n \<le> unat (tm_next_id m). i = txn_name n" using assms(1) by (auto simp: manager_inv_def)
  then have "\<forall>(i, t) \<in> set (replace_txn i u (tm_txns m)). staged t \<le> MAX_STAGED \<and> (\<exists>n \<le> unat (tm_next_id m). i = txn_name n)"
    using assms(1,3) r(2) by (auto simp: manager_inv_def)
  moreover have "k = staged_total (replace_txn i u (tm_txns m))" using assms(1,4) r(1) by (simp add: manager_inv_def)
  ultimately show ?thesis using assms(1,5) by (simp add: manager_inv_def)
qed

lemma txn_name_inject [simp]: "txn_name m = txn_name n \<longleftrightarrow> m = n"
  by (simp add: txn_name_def decimal_inject)

text \<open>The next id is not that of an open transaction.\<close>

lemma declare_fresh:
  assumes "manager_inv m" "Suc (unat (tm_next_id m)) < 2 ^ 64"
  shows "unat (tm_next_id m + 1) = Suc (unat (tm_next_id m))" "map_of (tm_txns m) (txn_name (unat (tm_next_id m + 1))) = None"
    and "without (txn_name (unat (tm_next_id m + 1))) (tm_txns m) = tm_txns m"
proof -
  show u: "unat (tm_next_id m + 1) = Suc (unat (tm_next_id m))" using assms(2) by (simp add: unat_plus_one)
  have "txn_name (Suc (unat (tm_next_id m))) \<notin> fst ` set (tm_txns m)"
    using assms(1) by (force simp: manager_inv_def)
  then show "map_of (tm_txns m) (txn_name (unat (tm_next_id m + 1))) = None"
    "without (txn_name (unat (tm_next_id m + 1))) (tm_txns m) = tm_txns m"
    unfolding u by (auto simp: map_of_eq_None_iff without_def intro!: filter_True) (force)
qed

lemma manager_inv_declare:
  assumes "manager_inv m" "Suc (unat (tm_next_id m)) < 2 ^ 64"
  shows "manager_inv (snd (declare_new m))"
proof (cases "length (tm_txns m) \<ge> MAX_TXNS")
  case False
  note f = declare_fresh [OF assms]
  have "txn_name (Suc (unat (tm_next_id m))) \<notin> fst ` set (tm_txns m)" using f(1,2) by (simp add: map_of_eq_None_iff)
  moreover have "\<exists>k \<le> Suc n. i = txn_name k" if "\<exists>k \<le> n. i = txn_name k" for i n using that le_SucI by blast
  ultimately show ?thesis using assms(1) False f(1,3)
    by (auto simp: declare_new_def manager_inv_def Let_def txn_name_def [symmetric] default_txn_def staged_def body_sum_def)
qed (use assms in \<open>simp add: declare_new_def\<close>)

lemma manager_inv_stage:
  assumes "manager_inv m"
  shows "manager_inv (snd (stage_publish i p m))" "manager_inv (snd (stage_settle i s m))"
proof -
  have entry: "staged t \<le> MAX_STAGED" if "map_of (tm_txns m) i = Some t" for t
    using assms map_of_SomeD [OF that] by (auto simp: manager_inv_def)
  have cap: "tm_staged_bytes m \<le> MAX_STAGED_BYTES" using assms by (simp add: manager_inv_def)
  have same: "m\<lparr>tm_txns := ts, tm_staged_bytes := tm_staged_bytes m\<rparr> = m\<lparr>tm_txns := ts\<rparr>" for ts by simp
  have poison: "manager_inv (m\<lparr>tm_txns := replace_txn i (t\<lparr>tx_rollback_only := True\<rparr>) (tm_txns m)\<rparr>)"
    if "map_of (tm_txns m) i = Some t" for t
    using manager_inv_replace [OF assms that, of "t\<lparr>tx_rollback_only := True\<rparr>" "tm_staged_bytes m"] entry [OF that] cap
    by (simp add: same staged_def body_sum_def)
  have publish: "manager_inv (m\<lparr>tm_txns := replace_txn i (t\<lparr>tx_publishes := tx_publishes t @ [p]\<rparr>) (tm_txns m),
      tm_staged_bytes := tm_staged_bytes m + length (sp_body p)\<rparr>)"
    if "map_of (tm_txns m) i = Some t" "staged t < MAX_STAGED" "tm_staged_bytes m + length (sp_body p) \<le> MAX_STAGED_BYTES" for t
    using manager_inv_replace [OF assms that(1), of "t\<lparr>tx_publishes := tx_publishes t @ [p]\<rparr>" "tm_staged_bytes m + length (sp_body p)"]
      that(2,3) by (simp add: staged_def body_sum_def)
  show "manager_inv (snd (stage_publish i p m))"
    using assms poison publish by (auto simp: stage_publish_def Let_def split: option.splits)
  have settle: "manager_inv (m\<lparr>tm_txns := replace_txn i (t\<lparr>tx_settles := tx_settles t @ [s]\<rparr>) (tm_txns m)\<rparr>)"
    if "map_of (tm_txns m) i = Some t" "staged t < MAX_STAGED" for t
    using manager_inv_replace [OF assms that(1), of "t\<lparr>tx_settles := tx_settles t @ [s]\<rparr>" "tm_staged_bytes m"] that(2) cap
    by (simp add: staged_def body_sum_def same)
  show "manager_inv (snd (stage_settle i s m))"
    using assms poison settle by (auto simp: stage_settle_def split: option.splits)
qed

lemma manager_inv_take: "manager_inv m \<Longrightarrow> manager_inv (snd (take_txn i m))"
proof (cases "map_of (tm_txns m) i")
  case (Some t)
  assume inv: "manager_inv m"
  then have "staged_total (without i (tm_txns m)) + body_sum t = tm_staged_bytes m"
    using remove_entry [OF Some] by (simp add: manager_inv_def)
  then have "tm_staged_bytes m - body_sum t = staged_total (without i (tm_txns m))"
    "staged_total (without i (tm_txns m)) \<le> tm_staged_bytes m" by simp_all
  moreover have "length (without i (tm_txns m)) \<le> length (tm_txns m)" by (simp add: without_def)
  moreover have "distinct (map fst (without i (tm_txns m)))"
    using inv by (auto simp: manager_inv_def without_def distinct_map intro: inj_on_subset)
  moreover have "\<forall>(i, t) \<in> set (without i (tm_txns m)). staged t \<le> MAX_STAGED \<and> (\<exists>n \<le> unat (tm_next_id m). i = txn_name n)"
    using inv by (auto simp: manager_inv_def without_def)
  ultimately show ?thesis using inv by (simp add: take_txn_def Some manager_inv_def)
qed (simp add: take_txn_def)

lemma manager_inv_take_all: "manager_inv m \<Longrightarrow> manager_inv (snd (take_all m))"
  by (simp add: take_all_def manager_inv_def)

lemma txn_step_next_id: "unat (tm_next_id (txn_step op m)) \<le> Suc (unat (tm_next_id m))"
proof (cases op)
  case ODeclare
  have "unat (tm_next_id m + 1) \<le> Suc (unat (tm_next_id m))" by (simp add: unat_word_ariths mod_less_eq_dividend [THEN order_trans])
  then show ?thesis by (simp add: ODeclare declare_new_def Let_def)
qed (auto simp: stage_publish_def stage_settle_def take_txn_def take_all_def Let_def split: option.splits)

lemma manager_inv_step:
  "manager_inv m \<Longrightarrow> Suc (unat (tm_next_id m)) < 2 ^ 64 \<Longrightarrow> manager_inv (txn_step op m)"
  by (cases op) (simp_all add: manager_inv_declare manager_inv_stage manager_inv_take manager_inv_take_all)

lemma manager_inv_run:
  "unat (tm_next_id m) + length ops < 2 ^ 64 \<Longrightarrow> manager_inv m \<Longrightarrow>
    manager_inv (fold txn_step ops m) \<and> unat (tm_next_id (fold txn_step ops m)) \<le> unat (tm_next_id m) + length ops"
proof (induction ops arbitrary: m)
  case (Cons op ops)
  have "unat (tm_next_id (txn_step op m)) + length ops < 2 ^ 64" using Cons.prems(1) txn_step_next_id [of op m] by simp
  moreover have "manager_inv (txn_step op m)" using Cons.prems by (intro manager_inv_step) simp_all
  ultimately show ?case using Cons.IH txn_step_next_id [of op m] by fastforce
qed simp

lemma manager_inv_new: "manager_inv new_manager"
  by (simp add: manager_inv_def new_manager_def)

subsection \<open>What a commit asked for\<close>

type_synonym request = "mailbox \<times> queue_msg \<times> bool"

definition logged :: "'v ask \<Rightarrow> ('v \<times> request list) ask" where
  "logged ask q msg w = (let (ok, v) = ask q msg (fst w) in (ok, (v, snd w @ [(q, msg, ok)])))"

text \<open>The publishes that were confirmed, and the settlements that were sent.\<close>

fun landed :: "request list \<Rightarrow> (mailbox \<times> bytes) list" where
  "landed [] = []"
| "landed ((q, PublishReserved b _, True) # log) = (q, b) # landed log"
| "landed (_ # log) = landed log"

fun settled_by :: "request list \<Rightarrow> (mailbox \<times> sub_id \<times> u64 \<times> settle_outcome) list" where
  "settled_by [] = []"
| "settled_by ((q, SettleMsg s i out, _) # log) = (q, s, i, out) # settled_by log"
| "settled_by (_ # log) = settled_by log"

lemma landed_append [simp]: "landed (a @ b) = landed a @ landed b"
  by (induction a rule: landed.induct) simp_all

lemma settled_by_append [simp]: "settled_by (a @ b) = settled_by a @ settled_by b"
  by (induction a rule: settled_by.induct) simp_all

definition asks :: "request list \<Rightarrow> (mailbox \<times> queue_msg) list" where
  "asks log = map (\<lambda>(q, msg, ok). (q, msg)) log"

lemma asks_simps [simp]: "asks [] = []" "asks ((q, msg, ok) # log) = (q, msg) # asks log" "asks (a @ b) = asks a @ asks b"
  by (simp_all add: asks_def)

abbreviation reserved_by :: "group \<Rightarrow> request" where
  "reserved_by g \<equiv> (case g of (q, name, n) \<Rightarrow> (q, Reserve n txn_reply, True))"

definition refusal :: "group \<Rightarrow> request" where
  "refusal g = (case g of (q, name, n) \<Rightarrow> (q, Reserve n txn_reply, False))"

abbreviation released_by :: "group \<Rightarrow> mailbox \<times> queue_msg" where
  "released_by g \<equiv> (case g of (q, name, n) \<Rightarrow> (q, Unreserve n))"

lemma logged_ask: "ask q msg v = (ok, v') \<Longrightarrow> logged ask q msg (v, log) = (ok, (v', log @ [(q, msg, ok)]))"
  by (simp add: logged_def)

lemma release_held_log:
  "\<exists>v' new. release_held (logged ask) gs (v, log) = (v', log @ new) \<and> asks new = map released_by gs"
proof (induction gs arbitrary: v log)
  case (Cons g gs)
  obtain q name n where g: "g = (q, name, n)" by (cases g) blast
  obtain ok v1 where a: "ask q (Unreserve n) v = (ok, v1)" by fastforce
  obtain v' new where "release_held (logged ask) gs (v1, log @ [(q, Unreserve n, ok)]) = (v', (log @ [(q, Unreserve n, ok)]) @ new)"
    "asks new = map released_by gs" using Cons.IH by blast
  then show ?case by (intro exI [of _ v'] exI [of _ "(q, Unreserve n, ok) # new"]) (simp add: g logged_ask a)
qed simp

lemma settle_all_log:
  "\<exists>v' new. settle_all (logged ask) f ss (v, log) = (v', log @ new) \<and>
    asks new = map (\<lambda>s. (sl_queue s, SettleMsg (sl_sub s) (sl_msg_id s) (f s))) ss"
proof (induction ss arbitrary: v log)
  case (Cons s ss)
  let ?m = "SettleMsg (sl_sub s) (sl_msg_id s) (f s)"
  obtain ok v1 where a: "ask (sl_queue s) ?m v = (ok, v1)" by fastforce
  obtain v' new where "settle_all (logged ask) f ss (v1, log @ [(sl_queue s, ?m, ok)]) = (v', (log @ [(sl_queue s, ?m, ok)]) @ new)"
    "asks new = map (\<lambda>s. (sl_queue s, SettleMsg (sl_sub s) (sl_msg_id s) (f s))) ss" using Cons.IH by blast
  then show ?case by (intro exI [of _ v'] exI [of _ "(sl_queue s, ?m, ok) # new"]) (simp add: logged_ask a)
qed simp

lemma release_rest_log:
  "\<exists>v' new. release_rest (logged ask) gs ns (v, log) = (v', log @ new) \<and>
    asks new = map (\<lambda>((q, _, _), n). (q, Unreserve n)) (filter (\<lambda>(_, n). 0 < n) (zip gs ns))"
proof (induction gs ns arbitrary: v log rule: list_induct2')
  case (4 g gs n ns)
  obtain q name m where g: "g = (q, name, m)" by (cases g) blast
  obtain ok v1 where a: "ask q (Unreserve n) v = (ok, v1)" by fastforce
  let ?r = "if 0 < n then [(q, Unreserve n, ok)] else []"
  obtain v' new where "release_rest (logged ask) gs ns (if 0 < n then v1 else v, log @ ?r) = (v', (log @ ?r) @ new)"
    "asks new = map (\<lambda>((q, _, _), n). (q, Unreserve n)) (filter (\<lambda>(_, n). 0 < n) (zip gs ns))" using 4 by blast
  then show ?case by (intro exI [of _ v'] exI [of _ "?r @ new"]) (auto simp: g logged_ask a split: if_splits)
qed simp_all

lemma reserve_groups_log:
  "\<exists>ok v' new. reserve_groups (logged ask) kept gs (v, log) = (ok, (v', log @ new)) \<and>
    (ok \<longrightarrow> new = map reserved_by gs) \<and>
    (\<not> ok \<longrightarrow> (\<exists>k < length gs. \<exists>rel. new = map reserved_by (take k gs) @ refusal (gs ! k) # rel \<and>
      asks rel = map released_by (kept @ take k gs)))"
proof (induction gs arbitrary: kept v log)
  case (Cons g gs)
  obtain q name n where g: "g = (q, name, n)" by (cases g) blast
  obtain ok v1 where a: "ask q (Reserve n txn_reply) v = (ok, v1)" by fastforce
  let ?r = "(q, Reserve n txn_reply, ok)"
  show ?case
  proof (cases ok)
    case True
    obtain ok' v' new where IH: "reserve_groups (logged ask) (kept @ [g]) gs (v1, log @ [?r]) = (ok', (v', (log @ [?r]) @ new))"
      "ok' \<longrightarrow> new = map reserved_by gs"
      "\<not> ok' \<longrightarrow> (\<exists>k < length gs. \<exists>rel. new = map reserved_by (take k gs) @ refusal (gs ! k) # rel \<and>
        asks rel = map released_by ((kept @ [g]) @ take k gs))"
      using Cons.IH by blast
    have "\<exists>k < length (g # gs). \<exists>rel. ?r # new = map reserved_by (take k (g # gs)) @
        refusal ((g # gs) ! k) # rel \<and> asks rel = map released_by (kept @ take k (g # gs))"
      if nok: "\<not> ok'"
    proof -
      obtain k rel where "k < length gs" "new = map reserved_by (take k gs) @ refusal (gs ! k) # rel"
        "asks rel = map released_by ((kept @ [g]) @ take k gs)" using IH(3) nok by blast
      then show ?thesis by (intro exI [of _ "Suc k"] conjI exI [of _ rel]) (simp_all add: g True)
    qed
    then show ?thesis using IH(1,2) by (intro exI [of _ ok'] exI [of _ v'] exI [of _ "?r # new"]) (simp add: g logged_ask a True)
  next
    case False
    obtain v' rel where "release_held (logged ask) kept (v1, log @ [?r]) = (v', (log @ [?r]) @ rel)" "asks rel = map released_by kept"
      using release_held_log [of ask kept v1 "log @ [?r]"] by blast
    then show ?thesis using False
      by (intro exI [of _ False] exI [of _ v'] exI [of _ "?r # rel"]) (auto simp: g logged_ask a refusal_def intro!: exI [of _ 0])
  qed
qed auto

text \<open>The reservations that are left after some publishes.\<close>

fun remaining_after :: "group list \<Rightarrow> u32 list \<Rightarrow> staged_publish list \<Rightarrow> u32 list" where
  "remaining_after gs ns [] = ns"
| "remaining_after gs ns (p # ps) =
    remaining_after gs (case position (sp_queue_name p) gs of Some gi \<Rightarrow> ns[gi := ns ! gi - 1] | None \<Rightarrow> ns) ps"

abbreviation publish_request :: "staged_publish \<Rightarrow> bool \<Rightarrow> request" where
  "publish_request p ok \<equiv> (sp_queue p, PublishReserved (sp_body p) (Some txn_ack), ok)"

definition rest_released :: "group list \<Rightarrow> u32 list \<Rightarrow> (mailbox \<times> queue_msg) list" where
  "rest_released gs ns = map (\<lambda>((q, _, _), n). (q, Unreserve n)) (filter (\<lambda>(_, n). 0 < n) (zip gs ns))"

lemma publish_reserved_log:
  assumes "\<forall>p \<in> set ps. position (sp_queue_name p) gs \<noteq> None"
  shows "\<exists>r v' new. publish_reserved (logged ask) gs ns k ps (v, log) = (Inr r, (v', log @ new)) \<and>
    (case r of
       None \<Rightarrow> new = map (\<lambda>p. publish_request p True) ps
     | Some j \<Rightarrow> \<exists>n < length ps. \<exists>rel. j = k + n \<and>
         new = map (\<lambda>p. publish_request p True) (take n ps) @ publish_request (ps ! n) False # rel \<and>
         asks rel = rest_released gs (remaining_after gs ns (take (Suc n) ps)))"
  using assms
proof (induction ps arbitrary: ns k v log)
  case (Cons p ps)
  obtain gi where gi: "position (sp_queue_name p) gs = Some gi" using Cons.prems by auto
  let ?m = "PublishReserved (sp_body p) (Some txn_ack)" and ?ns = "ns[gi := ns ! gi - 1]"
  obtain ok v1 where a: "ask (sp_queue p) ?m v = (ok, v1)" by fastforce
  show ?case
  proof (cases ok)
    case True
    obtain r v' new where IH: "publish_reserved (logged ask) gs ?ns (k + 1) ps (v1, log @ [publish_request p True])
        = (Inr r, (v', (log @ [publish_request p True]) @ new))"
      and r: "case r of
       None \<Rightarrow> new = map (\<lambda>p. publish_request p True) ps
     | Some j \<Rightarrow> \<exists>n < length ps. \<exists>rel. j = k + 1 + n \<and>
         new = map (\<lambda>p. publish_request p True) (take n ps) @ publish_request (ps ! n) False # rel \<and>
         asks rel = rest_released gs (remaining_after gs ?ns (take (Suc n) ps))"
      using Cons.IH [of ?ns "k + 1" v1 "log @ [publish_request p True]"] Cons.prems by auto
    have "\<exists>n < length (p # ps). \<exists>rel. j = k + n \<and>
         publish_request p True # new = map (\<lambda>p. publish_request p True) (take n (p # ps)) @ publish_request ((p # ps) ! n) False # rel \<and>
         asks rel = rest_released gs (remaining_after gs ns (take (Suc n) (p # ps)))" if j: "r = Some j" for j
    proof -
      obtain n rel where "n < length ps" "j = k + 1 + n"
        "new = map (\<lambda>p. publish_request p True) (take n ps) @ publish_request (ps ! n) False # rel"
        "asks rel = rest_released gs (remaining_after gs ?ns (take (Suc n) ps))" using r j by auto
      then show ?thesis by (intro exI [of _ "Suc n"] conjI exI [of _ rel]) (simp_all add: gi)
    qed
    then show ?thesis using IH r
      by (intro exI [of _ r] exI [of _ v'] exI [of _ "publish_request p True # new"])
        (auto simp: gi logged_ask a True split: option.splits)
  next
    case False
    obtain v' rel where "release_rest (logged ask) gs ?ns (v1, log @ [publish_request p False]) = (v', (log @ [publish_request p False]) @ rel)"
      "asks rel = rest_released gs ?ns"
      using release_rest_log [of ask gs ?ns v1 "log @ [publish_request p False]"] unfolding rest_released_def by blast
    then show ?thesis using False
      by (intro exI [of _ "Some k"] exI [of _ v'] exI [of _ "publish_request p False # rel"])
        (auto simp: gi logged_ask a intro!: exI [of _ 0])
  qed
qed simp

text \<open>The three ways a commit can go.\<close>

abbreviation settle_request :: "(staged_settle \<Rightarrow> settle_outcome) \<Rightarrow> staged_settle \<Rightarrow> mailbox \<times> queue_msg" where
  "settle_request f s \<equiv> (sl_queue s, SettleMsg (sl_sub s) (sl_msg_id s) (f s))"

definition refused_at_reserve :: "txn \<Rightarrow> discharge_outcome \<Rightarrow> request list \<Rightarrow> bool" where
  "refused_at_reserve t r log \<longleftrightarrow> r = RolledBack \<and>
    (let gs = group_publishes (tx_publishes t) in
      \<exists>k < length gs. \<exists>rel ss. log = map reserved_by (take k gs) @ refusal (gs ! k) # rel @ ss \<and>
        asks rel = map released_by (take k gs) \<and> asks ss = map (settle_request (\<lambda>_. Requeue)) (tx_settles t))"

definition refused_at_publish :: "txn \<Rightarrow> discharge_outcome \<Rightarrow> request list \<Rightarrow> bool" where
  "refused_at_publish t r log \<longleftrightarrow>
    (let ps = tx_publishes t; gs = group_publishes ps in
      \<exists>n < length ps. r = (if n = 0 then RolledBack else Partial n (length ps)) \<and>
        (\<exists>rel ss. log = map reserved_by gs @ map (\<lambda>p. publish_request p True) (take n ps) @ publish_request (ps ! n) False # rel @ ss \<and>
          asks rel = rest_released gs (remaining_after gs (map (\<lambda>(_, _, n). n) gs) (take (Suc n) ps)) \<and>
          asks ss = map (settle_request (\<lambda>_. Requeue)) (tx_settles t)))"

definition all_applied :: "txn \<Rightarrow> discharge_outcome \<Rightarrow> request list \<Rightarrow> bool" where
  "all_applied t r log \<longleftrightarrow> r = Complete \<and>
    (\<exists>ss. log = map reserved_by (group_publishes (tx_publishes t)) @ map (\<lambda>p. publish_request p True) (tx_publishes t) @ ss \<and>
      asks ss = map (settle_request sl_outcome) (tx_settles t))"

lemma position_add: "position name gs \<noteq> None \<Longrightarrow> position name (add_to_group p gs) \<noteq> None" "position (sp_queue_name p) (add_to_group p gs) \<noteq> None"
  by (induction p gs rule: add_to_group.induct) (auto split: if_splits)

lemma position_group: "p \<in> set ps \<Longrightarrow> position (sp_queue_name p) (group_publishes ps) \<noteq> None"
proof (induction ps rule: rev_induct)
  case (snoc x ps)
  then show ?case using position_add(1) [of "sp_queue_name p" "group_publishes ps" x] position_add(2) [of x "group_publishes ps"]
    by (auto simp: group_publishes_def)
qed simp

lemma execute_commit_log:
  "\<exists>r v' log. execute_commit (logged ask) t (v, []) = (Inr r, (v', log)) \<and>
    (refused_at_reserve t r log \<or> refused_at_publish t r log \<or> all_applied t r log)"
proof -
  let ?ps = "tx_publishes t" let ?gs = "group_publishes ?ps" let ?ns = "map (\<lambda>(_, _, n). n) ?gs"
  obtain ok v1 new where res: "reserve_groups (logged ask) [] ?gs (v, []) = (ok, (v1, [] @ new))"
    and ok: "ok \<longrightarrow> new = map reserved_by ?gs"
    and nok: "\<not> ok \<longrightarrow> (\<exists>k < length ?gs. \<exists>rel. new = map reserved_by (take k ?gs) @
      refusal (?gs ! k) # rel \<and> asks rel = map released_by ([] @ take k ?gs))"
    using reserve_groups_log [of ask "[]" ?gs v "[]"] by blast
  show ?thesis
  proof (cases ok)
    case False
    obtain v' ss where "settle_all (logged ask) (\<lambda>_. Requeue) (tx_settles t) (v1, new) = (v', new @ ss)"
      "asks ss = map (settle_request (\<lambda>_. Requeue)) (tx_settles t)" using settle_all_log [of ask "\<lambda>_. Requeue" "tx_settles t" v1 new] by blast
    then show ?thesis using res False nok
      by (intro exI [of _ RolledBack] exI [of _ v'] exI [of _ "new @ ss"])
        (auto simp: execute_commit_def requeue_settles_def refused_at_reserve_def Let_def)
  next
    case True
    obtain r v2 pub where pub: "publish_reserved (logged ask) ?gs ?ns 0 ?ps (v1, new) = (Inr r, (v2, new @ pub))"
      and r: "case r of
       None \<Rightarrow> pub = map (\<lambda>p. publish_request p True) ?ps
     | Some j \<Rightarrow> \<exists>n < length ?ps. \<exists>rel. j = 0 + n \<and>
         pub = map (\<lambda>p. publish_request p True) (take n ?ps) @ publish_request (?ps ! n) False # rel \<and>
         asks rel = rest_released ?gs (remaining_after ?gs ?ns (take (Suc n) ?ps))"
      using publish_reserved_log [of ?ps ?gs ask ?ns 0 v1 new] position_group [of _ ?ps] by blast
    show ?thesis
    proof (cases r)
      case None
      obtain v' ss where "settle_all (logged ask) sl_outcome (tx_settles t) (v2, new @ pub) = (v', (new @ pub) @ ss)"
        "asks ss = map (settle_request sl_outcome) (tx_settles t)" using settle_all_log [of ask sl_outcome "tx_settles t" v2 "new @ pub"] by blast
      then have "execute_commit (logged ask) t (v, []) = (Inr Complete, (v', (new @ pub) @ ss))" "all_applied t Complete ((new @ pub) @ ss)"
        using res True ok pub r None by (simp_all add: execute_commit_def all_applied_def)
      then show ?thesis by blast
    next
      case (Some j)
      let ?r = "if j = 0 then RolledBack else Partial j (length ?ps)"
      obtain v' ss where ss: "settle_all (logged ask) (\<lambda>_. Requeue) (tx_settles t) (v2, new @ pub) = (v', (new @ pub) @ ss)"
        "asks ss = map (settle_request (\<lambda>_. Requeue)) (tx_settles t)"
        using settle_all_log [of ask "\<lambda>_. Requeue" "tx_settles t" v2 "new @ pub"] by blast
      have "execute_commit (logged ask) t (v, []) = (Inr ?r, (v', (new @ pub) @ ss))"
        using res True pub Some ss by (simp add: execute_commit_def requeue_settles_def)
      moreover obtain n rel where n: "n < length ?ps" "j = n"
        "pub = map (\<lambda>p. publish_request p True) (take n ?ps) @ publish_request (?ps ! n) False # rel"
        "asks rel = rest_released ?gs (remaining_after ?gs ?ns (take (Suc n) ?ps))" using r by (auto simp: Some)
      have "refused_at_publish t ?r ((new @ pub) @ ss)"
        unfolding refused_at_publish_def Let_def using n(1,4) ss(2) ok True
        by (intro exI [of _ n] conjI exI [of _ rel] exI [of _ ss]) (simp_all add: n(2,3))
      ultimately show ?thesis by blast
    qed
  qed
qed

subsection \<open>The slots a commit holds\<close>

text \<open>What a request does to the slots a transaction holds at a mailbox.\<close>

fun slot_change :: "mailbox \<Rightarrow> request \<Rightarrow> int" where
  "slot_change mb (q, Reserve n _, ok) = (if q = mb \<and> ok then int (unat n) else 0)"
| "slot_change mb (q, PublishReserved _ _, ok) = (if q = mb then - 1 else 0)"
| "slot_change mb (q, Unreserve n, ok) = (if q = mb then - int (unat n) else 0)"
| "slot_change mb _ = 0"

definition balance :: "mailbox \<Rightarrow> request list \<Rightarrow> int" where
  "balance mb log = sum_list (map (slot_change mb) log)"

lemma balance_simps [simp]:
  "balance mb [] = 0" "balance mb (r # log) = slot_change mb r + balance mb log" "balance mb (a @ b) = balance mb a + balance mb b"
  by (simp_all add: balance_def)

text \<open>Slots that are first taken and then given back, all of them, are never overdrawn.\<close>

lemma balance_monotone:
  "\<forall>r \<in> set log. 0 \<le> slot_change mb r \<Longrightarrow> 0 \<le> balance mb log"
  "\<forall>r \<in> set log. slot_change mb r \<le> 0 \<Longrightarrow> balance mb log \<le> 0"
  by (induction log) auto

lemma up_down:
  assumes "\<forall>r \<in> set up. 0 \<le> slot_change mb r" "\<forall>r \<in> set down. slot_change mb r \<le> 0" "0 \<le> balance mb (up @ down)"
  shows "0 \<le> balance mb (take n (up @ down))"
proof (cases "n \<le> length up")
  case True
  then show ?thesis using assms(1) balance_monotone(1) [of "take n up" mb] by (auto dest: in_set_takeD)
next
  case False
  have "balance mb (take (n - length up) down) + balance mb (drop (n - length up) down) = balance mb down"
    by (metis append_take_drop_id balance_simps(3))
  moreover have "balance mb (drop (n - length up) down) \<le> 0" using assms(2) by (intro balance_monotone(2)) (auto dest: in_set_dropD)
  ultimately show ?thesis using assms(3) False by simp
qed

text \<open>Slots of a list of groups, by name and by mailbox.\<close>

fun slots_of :: "utf8 \<Rightarrow> group list \<Rightarrow> nat" where
  "slots_of name [] = 0"
| "slots_of name ((q, m, n) # gs) = (if m = name then unat n else slots_of name gs)"

fun slots_at :: "mailbox \<Rightarrow> group list \<Rightarrow> int" where
  "slots_at mb [] = 0"
| "slots_at mb ((q, m, n) # gs) = (if q = mb then int (unat n) else 0) + slots_at mb gs"

abbreviation staged_as :: "utf8 \<Rightarrow> staged_publish list \<Rightarrow> nat" where
  "staged_as name ps \<equiv> length (filter (\<lambda>p. sp_queue_name p = name) ps)"

abbreviation staged_at :: "mailbox \<Rightarrow> staged_publish list \<Rightarrow> nat" where
  "staged_at mb ps \<equiv> length (filter (\<lambda>p. sp_queue p = mb) ps)"

text \<open>The name of a target determines its mailbox.\<close>

definition names_agree :: "staged_publish list \<Rightarrow> group list \<Rightarrow> bool" where
  "names_agree ps gs \<longleftrightarrow> (\<forall>p \<in> set ps. \<forall>(q, name, n) \<in> set gs. name = sp_queue_name p \<longrightarrow> q = sp_queue p)"

lemma slots_of_add:
  "Suc (slots_of (sp_queue_name p) gs) < 2 ^ 32 \<Longrightarrow>
    slots_of name (add_to_group p gs) = slots_of name gs + (if sp_queue_name p = name then 1 else 0)"
  by (induction p gs rule: add_to_group.induct) (auto simp: unat_plus_one)

lemma slots_of_group: "length ps < 2 ^ 32 \<Longrightarrow> slots_of name (group_publishes ps) = staged_as name ps"
proof (induction ps arbitrary: name rule: rev_induct)
  case (snoc p ps)
  have "Suc (staged_as (sp_queue_name p) ps) < 2 ^ 32"
    using snoc.prems le_less_trans [OF length_filter_le] by (auto simp: less_diff_conv)
  then show ?case using snoc by (simp add: group_publishes_def slots_of_add)
qed (simp add: group_publishes_def)

lemma uint_plus_one: "Suc (unat (n :: u32)) < 2 ^ 32 \<Longrightarrow> uint (n + 1) = uint n + 1"
  using arg_cong [OF unat_plus_one, of n int] by simp

lemma slots_at_add:
  "Suc (slots_of (sp_queue_name p) gs) < 2 ^ 32 \<Longrightarrow> names_agree [p] gs \<Longrightarrow>
    slots_at mb (add_to_group p gs) = slots_at mb gs + (if sp_queue p = mb then 1 else 0)"
  by (induction p gs rule: add_to_group.induct) (auto simp: uint_plus_one names_agree_def)

lemma set_add_to_group:
  "(q, name, n) \<in> set (add_to_group p gs) \<Longrightarrow> (q, name) = (sp_queue p, sp_queue_name p) \<or> (\<exists>m. (q, name, m) \<in> set gs)"
  by (induction p gs rule: add_to_group.induct) (auto split: if_splits)

lemma set_group_publishes:
  "(q, name, n) \<in> set (group_publishes ps) \<Longrightarrow> \<exists>p \<in> set ps. q = sp_queue p \<and> name = sp_queue_name p"
proof (induction ps arbitrary: n rule: rev_induct)
  case (snoc p ps)
  then show ?case using set_add_to_group [of q name n p "group_publishes ps"] by (auto simp: group_publishes_def)
qed (simp add: group_publishes_def)

definition mailbox_by_name :: "staged_publish list \<Rightarrow> bool" where
  "mailbox_by_name ps \<longleftrightarrow> (\<forall>p \<in> set ps. \<forall>p' \<in> set ps. sp_queue_name p = sp_queue_name p' \<longrightarrow> sp_queue p = sp_queue p')"

lemma mailbox_by_name_mono: "mailbox_by_name ps \<Longrightarrow> set qs \<subseteq> set ps \<Longrightarrow> mailbox_by_name qs"
  unfolding mailbox_by_name_def by blast

lemma names_agree_group:
  assumes "mailbox_by_name ps" "set qs \<subseteq> set ps" "set rs \<subseteq> set ps"
  shows "names_agree qs (group_publishes rs)"
proof -
  have "q = sp_queue p" if p: "p \<in> set qs" and g: "(q, sp_queue_name p, n) \<in> set (group_publishes rs)" for p q n
  proof -
    obtain p' where p': "p' \<in> set rs" "q = sp_queue p'" "sp_queue_name p = sp_queue_name p'"
      using set_group_publishes [OF g] by blast
    have "p \<in> set ps" "p' \<in> set ps" using p p'(1) assms(2,3) by auto
    then have "sp_queue p = sp_queue p'" using assms(1) p'(3) unfolding mailbox_by_name_def by blast
    then show ?thesis by (simp add: p'(2))
  qed
  then show ?thesis unfolding names_agree_def by blast
qed

lemma slots_at_group:
  assumes "mailbox_by_name ps" "length ps < 2 ^ 32"
  shows "slots_at mb (group_publishes ps) = int (staged_at mb ps)"
  using assms
proof (induction ps rule: rev_induct)
  case (snoc p ps)
  have IH: "slots_at mb (group_publishes ps) = int (staged_at mb ps)"
    using snoc.IH snoc.prems(2) mailbox_by_name_mono [OF snoc.prems(1), of ps] by auto
  have "names_agree [p] (group_publishes ps)" by (rule names_agree_group [OF snoc.prems(1)]) auto
  moreover have "Suc (slots_of (sp_queue_name p) (group_publishes ps)) < 2 ^ 32"
    using snoc.prems(2) le_less_trans [OF length_filter_le] by (auto simp: slots_of_group less_diff_conv)
  ultimately show ?case using IH slots_at_add [of p "group_publishes ps" mb] by (simp add: group_publishes_def)
qed (simp add: group_publishes_def)

text \<open>The groups with the counts of the reservations that remain.\<close>

fun with_counts :: "group list \<Rightarrow> u32 list \<Rightarrow> group list" where
  "with_counts ((q, name, _) # gs) (n # ns) = (q, name, n) # with_counts gs ns"
| "with_counts _ _ = []"

lemma with_counts_same: "with_counts gs (map (\<lambda>(_, _, n). n) gs) = gs"
  by (induction gs) auto

lemma asks_Cons: "asks log = (q, msg) # xs \<longleftrightarrow> (\<exists>ok log'. log = (q, msg, ok) # log' \<and> asks log' = xs)"
  by (cases log) auto

lemma balance_rest: "asks rel = rest_released gs ns \<Longrightarrow> balance mb rel = - slots_at mb (with_counts gs ns)"
proof (induction gs ns arbitrary: rel rule: with_counts.induct)
  case (1 q name m gs n ns)
  show ?case
  proof (cases "0 < n")
    case True
    then have "asks rel = (q, Unreserve n) # rest_released gs ns" using 1(2) by (simp add: rest_released_def)
    then obtain ok rel' where "rel = (q, Unreserve n, ok) # rel'" "asks rel' = rest_released gs ns" by (auto simp: asks_Cons)
    then show ?thesis using 1(1) [of rel'] by simp
  next
    case False
    then have "n = 0" by (simp add: word_gt_0)
    then show ?thesis using 1(1) [of rel] 1(2) by (simp add: rest_released_def)
  qed
qed (simp_all add: rest_released_def asks_def)

lemma with_counts_dec:
  assumes "position (sp_queue_name p) gs = Some gi" "length ns = length gs" "names_agree [p] gs"
    and "0 < slots_of (sp_queue_name p) (with_counts gs ns)"
  shows "slots_at mb (with_counts gs (ns[gi := ns ! gi - 1])) = slots_at mb (with_counts gs ns) - (if sp_queue p = mb then 1 else 0) \<and>
    slots_of name (with_counts gs (ns[gi := ns ! gi - 1])) =
      slots_of name (with_counts gs ns) - (if sp_queue_name p = name then 1 else 0)"
  using assms
proof (induction gs ns arbitrary: gi rule: with_counts.induct)
  case (1 q m c gs n ns)
  show ?case
  proof (cases "m = sp_queue_name p")
    case True
    then have "0 < n" "gi = 0" "q = sp_queue p" using 1(2,4,5) by (auto simp: names_agree_def unat_gt_0 word_gt_0)
    moreover have "unat (n - 1) = unat n - 1" using \<open>0 < n\<close> by (simp add: unat_minus_one word_gt_0)
    moreover have "int (unat n - Suc 0) = uint n - 1"
      using \<open>0 < n\<close> by (simp add: word_gt_0 unat_gt_0 Suc_leI of_nat_diff)
    ultimately show ?thesis using True by simp
  next
    case False
    then obtain gj where "gi = Suc gj" "position (sp_queue_name p) gs = Some gj" using 1(2) by auto
    then show ?thesis using 1(1) [of gj] 1(3,4,5) False by (auto simp: names_agree_def)
  qed
qed simp_all

lemma remaining_after_slots:
  assumes "\<forall>p \<in> set ps. position (sp_queue_name p) gs \<noteq> None" "length ns = length gs" "names_agree ps gs"
    and "\<forall>name. staged_as name ps \<le> slots_of name (with_counts gs ns)"
  shows "slots_at mb (with_counts gs (remaining_after gs ns ps)) = slots_at mb (with_counts gs ns) - int (staged_at mb ps)"
  using assms
proof (induction ps arbitrary: ns)
  case (Cons p ps)
  obtain gi where gi: "position (sp_queue_name p) gs = Some gi" using Cons.prems(1) by auto
  let ?ns = "ns[gi := ns ! gi - 1]"
  have agree: "names_agree [p] gs" "names_agree ps gs" using Cons.prems(3) by (simp_all add: names_agree_def)
  have "0 < slots_of (sp_queue_name p) (with_counts gs ns)" using Cons.prems(4) [rule_format, of "sp_queue_name p"] by simp
  note dec = with_counts_dec [OF gi Cons.prems(2) agree(1) this]
  have "staged_as name ps \<le> slots_of name (with_counts gs ?ns)" for name
    using dec [of mb name] Cons.prems(4) [rule_format, of name] by (cases "sp_queue_name p = name") simp_all
  then show ?case using Cons.IH [of ?ns] Cons.prems(1,2) agree(2) dec by (simp add: gi)
qed simp

lemma balance_reserved: "balance mb (map reserved_by gs) = slots_at mb gs"
  by (induction gs) auto

lemma balance_released: "asks rel = map released_by gs \<Longrightarrow> balance mb rel = - slots_at mb gs"
  by (induction gs arbitrary: rel) (auto simp: asks_Cons asks_def)

lemma balance_published: "balance mb (map (\<lambda>p. publish_request p True) ps) = - int (staged_at mb ps)"
  by (induction ps) auto

lemma balance_settled: "asks ss = map (settle_request f) xs \<Longrightarrow> balance mb ss = 0"
  by (induction xs arbitrary: ss) (auto simp: asks_Cons asks_def)

lemma refusal_slots: "slot_change mb (refusal g) = 0"
  by (simp add: refusal_def split: prod.splits)

lemma commit_balance:
  assumes "mailbox_by_name (tx_publishes t)" "length (tx_publishes t) < 2 ^ 32"
    and "refused_at_reserve t r log \<or> refused_at_publish t r log \<or> all_applied t r log"
  shows "balance mb log = 0"
proof -
  let ?ps = "tx_publishes t" let ?gs = "group_publishes ?ps" let ?ns = "map (\<lambda>(_, _, n). n) ?gs"
  have total: "slots_at mb ?gs = int (staged_at mb ?ps)" by (rule slots_at_group [OF assms(1,2)])
  consider (reserve) "refused_at_reserve t r log" | (publish) "refused_at_publish t r log" | (all) "all_applied t r log"
    using assms(3) by blast
  then show ?thesis
  proof cases
    case reserve
    then show ?thesis unfolding refused_at_reserve_def Let_def
      by (auto simp: balance_reserved balance_released balance_settled refusal_slots)
  next
    case all
    then show ?thesis unfolding all_applied_def
      by (auto simp: balance_reserved balance_published balance_settled total)
  next
    case publish
    then obtain n rel ss where n: "n < length ?ps"
      "log = map reserved_by ?gs @ map (\<lambda>p. publish_request p True) (take n ?ps) @ publish_request (?ps ! n) False # rel @ ss"
      "asks rel = rest_released ?gs (remaining_after ?gs ?ns (take (Suc n) ?ps))" "asks ss = map (settle_request (\<lambda>_. Requeue)) (tx_settles t)"
      unfolding refused_at_publish_def Let_def by blast
    let ?sent = "take (Suc n) ?ps"
    have "staged_as name ?sent \<le> slots_of name (with_counts ?gs ?ns)" for name
      unfolding with_counts_same slots_of_group [OF assms(2)]
      by (metis append_take_drop_id filter_append le_add1 length_append)
    moreover have "names_agree ?sent ?gs" by (rule names_agree_group [OF assms(1)]) (auto dest: in_set_takeD)
    moreover have "\<forall>p \<in> set ?sent. position (sp_queue_name p) ?gs \<noteq> None" using position_group by (auto dest: in_set_takeD)
    ultimately have rest: "balance mb rel = int (staged_at mb ?sent) - slots_at mb ?gs"
      unfolding balance_rest [OF n(3)] by (subst remaining_after_slots) (simp_all add: with_counts_same)
    have "staged_at mb ?sent = staged_at mb (take n ?ps) + (if sp_queue (?ps ! n) = mb then 1 else 0)"
      using n(1) by (simp add: take_Suc_conv_app_nth)
    then show ?thesis using rest balance_settled [OF n(4)] by (simp add: n(2) balance_reserved balance_published)
  qed
qed

subsection \<open>What the log says\<close>

fun is_reserve :: "queue_msg \<Rightarrow> bool" where
  "is_reserve (Reserve _ _) = True"
| "is_reserve _ = False"

lemma slot_change_le: "\<not> is_reserve msg \<Longrightarrow> slot_change mb (q, msg, ok) \<le> 0"
  by (cases msg) simp_all

lemma asks_le: "(\<And>q msg. (q, msg) \<in> set (asks log) \<Longrightarrow> \<not> is_reserve msg) \<Longrightarrow> r \<in> set log \<Longrightarrow> slot_change mb r \<le> 0"
  by (cases r) (force simp: asks_def intro!: slot_change_le)

lemma slot_change_reserved: "0 \<le> slot_change mb (reserved_by g)"
  by (auto split: prod.splits)

lemmas sent_back = refused_at_reserve_def refused_at_publish_def all_applied_def Let_def

text \<open>Reservations come first; everything after them only gives slots back.\<close>

lemma commit_up_down:
  assumes "refused_at_reserve t r log \<or> refused_at_publish t r log \<or> all_applied t r log"
  obtains up down where "log = up @ down" "\<forall>x \<in> set up. \<forall>mb. 0 \<le> slot_change mb x" "\<forall>x \<in> set down. \<forall>mb. slot_change mb x \<le> 0"
proof -
  let ?gs = "group_publishes (tx_publishes t)"
  have up: "\<forall>x \<in> set (map reserved_by gs). \<forall>mb. 0 \<le> slot_change mb x" for gs using slot_change_reserved by fastforce
  have back1: "\<forall>x \<in> set rel. \<forall>mb. slot_change mb x \<le> 0" if "asks rel = map released_by gs" for rel gs
    by (intro ballI allI asks_le [of rel]) (auto simp: that)
  have back2: "\<forall>x \<in> set rel. \<forall>mb. slot_change mb x \<le> 0" if "asks rel = rest_released gs ns" for rel gs ns
    by (intro ballI allI asks_le [of rel]) (auto simp: that rest_released_def)
  have back3: "\<forall>x \<in> set ss. \<forall>mb. slot_change mb x \<le> 0" if "asks ss = map (settle_request f) xs" for ss f xs
    by (intro ballI allI asks_le [of ss]) (auto simp: that)
  consider (reserve) "refused_at_reserve t r log" | (publish) "refused_at_publish t r log" | (all) "all_applied t r log"
    using assms by blast
  then show ?thesis
  proof cases
    case reserve
    then obtain k rel ss where "log = map reserved_by (take k ?gs) @ (refusal (?gs ! k) # rel @ ss)"
      "asks rel = map released_by (take k ?gs)" "asks ss = map (settle_request (\<lambda>_. Requeue)) (tx_settles t)" unfolding sent_back by blast
    then show ?thesis by (intro that [OF _ up]) (auto simp: refusal_slots dest!: back1 back3)
  next
    case publish
    then obtain n rel ss ns where "log = map reserved_by ?gs @ (map (\<lambda>p. publish_request p True) (take n (tx_publishes t)) @
        publish_request (tx_publishes t ! n) False # rel @ ss)"
      "asks rel = rest_released ?gs ns" "asks ss = map (settle_request (\<lambda>_. Requeue)) (tx_settles t)" unfolding sent_back by blast
    then show ?thesis by (intro that [OF _ up]) (auto dest!: back2 back3)
  next
    case all
    then obtain ss where "log = map reserved_by ?gs @ (map (\<lambda>p. publish_request p True) (tx_publishes t) @ ss)"
      "asks ss = map (settle_request sl_outcome) (tx_settles t)" unfolding sent_back by blast
    then show ?thesis by (intro that [OF _ up]) (auto dest!: back3)
  qed
qed

lemma landed_Cons: "\<not> reserved_publish msg \<Longrightarrow> landed ((q, msg, ok) # log) = landed log"
  by (cases msg) simp_all

lemma landed_none: "\<forall>(q, msg) \<in> set (asks log). \<not> reserved_publish msg \<Longrightarrow> landed log = []"
  by (induction log) (auto simp: landed_Cons)

fun is_settle :: "queue_msg \<Rightarrow> bool" where
  "is_settle (SettleMsg _ _ _) = True"
| "is_settle _ = False"

lemma settled_by_Cons: "\<not> is_settle msg \<Longrightarrow> settled_by ((q, msg, ok) # log) = settled_by log"
  by (cases msg) simp_all

lemma settled_none: "\<forall>(q, msg) \<in> set (asks log). \<not> is_settle msg \<Longrightarrow> settled_by log = []"
  by (induction log) (auto simp: settled_by_Cons)

lemma log_settles:
  "asks ss = map (settle_request f) xs \<Longrightarrow> settled_by ss = map (\<lambda>s. (sl_queue s, sl_sub s, sl_msg_id s, f s)) xs \<and> landed ss = []"
  by (induction xs arbitrary: ss) (auto simp: asks_Cons asks_def)

lemma log_releases:
  "asks rel = map released_by gs \<Longrightarrow> landed rel = [] \<and> settled_by rel = []"
  "asks rel = rest_released gs ns \<Longrightarrow> landed rel = [] \<and> settled_by rel = []"
  by (auto simp: rest_released_def intro!: landed_none settled_none)

lemma log_reserves: "landed (map reserved_by gs) = [] \<and> settled_by (map reserved_by gs) = []"
  by (induction gs) auto

lemma log_publishes:
  "landed (map (\<lambda>p. publish_request p True) ps) = map (\<lambda>p. (sp_queue p, sp_body p)) ps \<and>
    settled_by (map (\<lambda>p. publish_request p True) ps) = []"
  by (induction ps) auto

lemma log_refusal: "landed (refusal g # log) = landed log \<and> settled_by (refusal g # log) = settled_by log"
  by (cases g) (simp add: refusal_def)

lemmas log_facts = log_settles log_releases log_reserves log_publishes log_refusal

subsection \<open>The queues behind the mailboxes\<close>

text \<open>
  What a commit relies on: a queue that stays up confirms every reserved publish
  (\<open>queue_service\<close>), and it keeps exact books of its reserved slots (\<open>slot_service\<close>).
\<close>

locale queue_service =
  fixes ask :: "'w ask" and up :: "'w \<Rightarrow> mailbox \<Rightarrow> bool"
  assumes stays_up: "up w q' \<Longrightarrow> up (snd (ask q msg w)) q'"
    and confirms: "up w q \<Longrightarrow> fst (ask q (PublishReserved body (Some txn_ack)) w)"
begin

lemma never_refused:
  assumes "\<forall>p \<in> set ps. up w (sp_queue p)" "\<forall>p \<in> set ps. position (sp_queue_name p) gs \<noteq> None"
  shows "\<exists>w'. publish_reserved ask gs ns k ps w = (Inr None, w')"
  using assms
proof (induction ps arbitrary: ns k w)
  case (Cons p ps)
  let ?a = "ask (sp_queue p) (PublishReserved (sp_body p) (Some txn_ack)) w"
  obtain gi where "position (sp_queue_name p) gs = Some gi" using Cons.prems(2) by auto
  moreover have "fst ?a" using Cons.prems(1) by (simp add: confirms)
  moreover have "\<exists>w'. publish_reserved ask gs (ns[gi := ns ! gi - 1]) (k + 1) ps (snd ?a) = (Inr None, w')" for gi
    using Cons.prems by (intro Cons.IH) (auto intro: stays_up)
  ultimately show ?case by (cases ?a) auto
qed simp

lemma release_stays_up: "up w q \<Longrightarrow> up (release_held ask gs w) q"
  by (induction gs arbitrary: w) (auto simp: stays_up)

lemma reserve_stays_up: "up w q \<Longrightarrow> up (snd (reserve_groups ask kept gs w)) q"
proof (induction gs arbitrary: kept w)
  case (Cons g gs)
  obtain q' name n where g: "g = (q', name, n)" by (cases g) blast
  have "up (snd (ask q' (Reserve n txn_reply) w)) q" using Cons.prems by (rule stays_up)
  then show ?case using Cons.IH release_stays_up by (auto simp: g split: prod.splits)
qed simp

lemma never_partial:
  assumes "\<forall>p \<in> set (tx_publishes t). up w (sp_queue p)"
  shows "fst (execute_commit ask t w) = Inr Complete \<or> fst (execute_commit ask t w) = Inr RolledBack"
proof -
  let ?gs = "group_publishes (tx_publishes t)"
  obtain ok w1 where r: "reserve_groups ask [] ?gs w = (ok, w1)" by fastforce
  have "\<forall>p \<in> set (tx_publishes t). up w1 (sp_queue p)" using assms reserve_stays_up [of w _ "[]" ?gs] by (simp add: r)
  then obtain w2 where "publish_reserved ask ?gs (map (\<lambda>(_, _, n). n) ?gs) 0 (tx_publishes t) w1 = (Inr None, w2)"
    using never_refused position_group by blast
  then show ?thesis by (simp add: execute_commit_def Let_def r)
qed

end

text \<open>Whatever every request of a commit keeps, the commit keeps.\<close>

fun commit_msg :: "queue_msg \<Rightarrow> bool" where
  "commit_msg (Reserve _ r) = (r = txn_reply)"
| "commit_msg (PublishReserved _ a) = (a = Some txn_ack)"
| "commit_msg (Unreserve _) = True"
| "commit_msg (SettleMsg _ _ _) = True"
| "commit_msg _ = False"

lemma commit_keeps:
  assumes step: "\<And>q msg w. commit_msg msg \<Longrightarrow> P w \<Longrightarrow> P (snd (ask q msg w))" and "P w"
  shows "P (snd (execute_commit ask t w))"
proof -
  have held: "P (release_held ask gs w)" if "P w" for gs w
    using that by (induction gs arbitrary: w) (auto simp: step)
  have res: "P (snd (reserve_groups ask kept gs w))" if "P w" for kept gs w
    using that
  proof (induction gs arbitrary: kept w)
    case (Cons g gs)
    obtain q' name n where g: "g = (q', name, n)" by (cases g) blast
    have "P (snd (ask q' (Reserve n txn_reply) w))" using Cons.prems by (intro step) simp_all
    then show ?case using Cons.IH held by (auto simp: g split: prod.splits)
  qed simp
  have rest: "P (release_rest ask gs ns w)" if "P w" for gs ns w
    using that by (induction gs ns arbitrary: w rule: list_induct2') (auto simp: step)
  have pub: "P (snd (publish_reserved ask gs ns k ps w))" if "P w" for gs ns k ps w
    using that
  proof (induction ps arbitrary: ns k w)
    case (Cons p ps)
    have "P (snd (ask (sp_queue p) (PublishReserved (sp_body p) (Some txn_ack)) w))" using Cons.prems by (intro step) simp_all
    then show ?case using Cons rest by (auto simp: Let_def split: option.splits prod.splits)
  qed simp
  have sets: "P (settle_all ask f ss w)" if "P w" for f ss w
    using that by (induction ss arbitrary: w) (auto simp: step)
  show ?thesis using assms(2) res pub sets
    by (auto simp: execute_commit_def requeue_settles_def Let_def split: prod.splits sum.splits option.splits) (metis snd_conv)+
qed

locale slot_service = queue_service ask up
  for ask :: "'w ask" and up :: "'w \<Rightarrow> mailbox \<Rightarrow> bool" +
  fixes reserved :: "'w \<Rightarrow> mailbox \<Rightarrow> nat"
  assumes books: "commit_msg msg \<Longrightarrow> up w mb \<Longrightarrow> ask q msg w = (ok, w') \<Longrightarrow>
    0 \<le> int (reserved w mb) + slot_change mb (q, msg, ok) \<Longrightarrow>
    int (reserved w' mb) = int (reserved w mb) + slot_change mb (q, msg, ok)"
begin

lemma books_logged:
  assumes "up w mb" "execute_commit (logged ask) t (w, []) = (r, (w', log))" "\<forall>n. 0 \<le> balance mb (take n log)"
  shows "int (reserved w' mb) = int (reserved w mb) + balance mb log"
proof -
  let ?P = "\<lambda>s. up (fst s) mb \<and> ((\<forall>n. 0 \<le> balance mb (take n (snd s))) \<longrightarrow>
    int (reserved (fst s) mb) = int (reserved w mb) + balance mb (snd s))"
  have "?P (snd (logged ask q msg s))" if "commit_msg msg" "?P s" for q msg s
  proof -
    obtain v log where s: "s = (v, log)" by fastforce
    obtain ok v' where a: "ask q msg v = (ok, v')" by fastforce
    have "up v' mb" using that(2) stays_up [of v mb q msg] by (simp add: s a)
    moreover have "int (reserved v' mb) = int (reserved w mb) + balance mb (log @ [(q, msg, ok)])"
      if pre: "\<forall>n. 0 \<le> balance mb (take n (log @ [(q, msg, ok)]))"
    proof -
      have "0 \<le> balance mb (take n log)" for n using pre [rule_format, of "min n (length log)"] by (simp add: min_def split: if_splits)
      then have "int (reserved v mb) = int (reserved w mb) + balance mb log" using \<open>?P s\<close> by (simp add: s)
      moreover have "0 \<le> balance mb (log @ [(q, msg, ok)])" using pre [rule_format, of "Suc (length log)"] by simp
      ultimately show ?thesis using books [OF \<open>commit_msg msg\<close> _ a, of mb] \<open>?P s\<close> by (simp add: s)
    qed
    ultimately show ?thesis by (simp add: s logged_ask [of ask q msg v ok v', OF a])
  qed
  then have "?P (snd (execute_commit (logged ask) t (w, [])))" by (rule commit_keeps) (use assms(1) in auto)
  then show ?thesis using assms(2,3) by simp
qed

end

end
