(* ===== verification/Broker_Commit.thy ===== *)
theory Broker_Commit
  imports Broker_Txn
begin

section \<open>Commits on live queues\<close>

text \<open>
  The mailboxes of the commit in \<open>Broker_Txn\<close> opened: a broker of transient queue actors
  (\<open>Broker_Queue\<close>), each behind its mailbox, with other clients' messages and the deaths of actors
  arriving between the requests of the commit. \<open>live\<close> and \<open>steady\<close> interpret the contracts the
  commit relies on; the theorems say what a client can conclude from the outcome of a discharge.
\<close>

subsection \<open>A broker of queue actors\<close>

datatype broker_event = Traffic mailbox step_env queue_msg | Dies mailbox

record broker =
  bk_policy :: "mailbox \<Rightarrow> effective_policy"
  bk_queue :: "mailbox \<Rightarrow> queue_actor option"
  bk_coming :: "(broker_event list \<times> step_env) list"

fun occurs :: "broker_event \<Rightarrow> broker \<Rightarrow> broker" where
  "occurs (Traffic mb env msg) b =
    (case bk_queue b mb of
       None \<Rightarrow> b
     | Some s \<Rightarrow> b\<lparr>bk_queue := (bk_queue b)(mb \<mapsto> fst (queue_step (bk_policy b mb) env msg s))\<rparr>)"
| "occurs (Dies mb) b = b\<lparr>bk_queue := (bk_queue b)(mb := None)\<rparr>"

text \<open>What the caller reads from its own reply channel.\<close>

fun publish_answer :: "broker_effect list \<Rightarrow> bool" where
  "publish_answer [] = False"
| "publish_answer (ToConn _ (SettleIncoming _ _ _ _ ok) # _) = ok"
| "publish_answer (_ # es) = publish_answer es"

fun reserve_answer :: "broker_effect list \<Rightarrow> bool" where
  "reserve_answer (ReplyReserved _ ok # _) = ok"
| "reserve_answer _ = False"

fun answer :: "queue_msg \<Rightarrow> broker_effect list \<Rightarrow> bool" where
  "answer (PublishReserved _ _) es = publish_answer es"
| "answer (Reserve _ _) es = reserve_answer es"
| "answer _ es = True"

definition no_env :: step_env where
  "no_env = \<lparr>se_enqueue_ms = 0, se_now_ms = 0, se_sends = []\<rparr>"

definition next_batch :: "broker \<Rightarrow> broker_event list \<times> step_env \<times> (broker_event list \<times> step_env) list" where
  "next_batch b = (case bk_coming b of [] \<Rightarrow> ([], no_env, []) | (events, env) # rest \<Rightarrow> (events, env, rest))"

definition ask_queues :: "broker ask" where
  "ask_queues q msg b =
    (let (events, env, rest) = next_batch b;
         b = (fold occurs events b)\<lparr>bk_coming := rest\<rparr>
     in case bk_queue b q of
          None \<Rightarrow> (False, b)
        | Some s \<Rightarrow>
            let (s', es) = queue_step (bk_policy b q) env msg s
            in (answer msg es, b\<lparr>bk_queue := (bk_queue b)(q \<mapsto> s')\<rparr>))"

definition events_of :: "broker \<Rightarrow> broker_event list" where
  "events_of b = concat (map fst (bk_coming b))"

subsection \<open>Queues that stay up\<close>

definition live :: "broker \<Rightarrow> mailbox \<Rightarrow> bool" where
  "live b q \<longleftrightarrow> bk_queue b q \<noteq> None \<and> Dies q \<notin> set (events_of b)"

lemma occurs_live: "bk_queue b q \<noteq> None \<Longrightarrow> Dies q \<noteq> e \<Longrightarrow> bk_queue (occurs e b) q \<noteq> None"
  by (cases e) (auto split: option.splits)

lemma occurs_frame [simp]: "bk_policy (occurs e b) = bk_policy b" "bk_coming (occurs e b) = bk_coming b"
  by (cases e; simp split: option.splits)+

lemma events_frame [simp]: "bk_policy (fold occurs es b) = bk_policy b" "bk_coming (fold occurs es b) = bk_coming b"
  by (induction es arbitrary: b) simp_all

lemma events_live: "bk_queue b q \<noteq> None \<Longrightarrow> Dies q \<notin> set es \<Longrightarrow> bk_queue (fold occurs es b) q \<noteq> None"
  by (induction es arbitrary: b) (simp_all add: occurs_live del: not_None_eq)

lemma next_batch_events:
  assumes "next_batch b = (es, env, rest)"
  shows "events_of b = es @ concat (map fst rest)"
  using assms by (auto simp: next_batch_def events_of_def split: list.splits)

lemma live_stays: "live b q' \<Longrightarrow> live (snd (ask_queues q msg b)) q'"
proof -
  assume l: "live b q'"
  obtain es env rest where n: "next_batch b = (es, env, rest)" by (metis prod_cases3)
  have "bk_queue (fold occurs es b) q' \<noteq> None" "Dies q' \<notin> set (concat (map fst rest))"
    using l events_live [of b q' es] by (auto simp: live_def next_batch_events [OF n])
  then show ?thesis by (auto simp: ask_queues_def n live_def events_of_def Let_def split: option.splits prod.splits)
qed

lemma publish_answer_append:
  "(\<And>e. e \<in> set a \<Longrightarrow> \<exists>x y. e = DeadLetter x y) \<Longrightarrow> publish_answer (a @ b) = publish_answer b"
  by (induction a) force+

lemma dead_letter_only: "e \<in> set (dead_letter p body) \<Longrightarrow> \<exists>x y. e = DeadLetter x y"
  by (auto simp: dead_letter_def split: option.splits if_splits)

lemma drop_heads_only: "e \<in> set (snd (snd (snd (drop_heads p n r u ready b)))) \<Longrightarrow> \<exists>x y. e = DeadLetter x y"
  by (induction p n r u ready b rule: drop_heads.induct) (auto simp: Let_def split: prod.splits if_splits dest: dead_letter_only)

lemma make_room_only: "make_room p n s = (nr, s', es) \<Longrightarrow> e \<in> set es \<Longrightarrow> \<exists>x y. e = DeadLetter x y"
  using drop_heads_only [of e p n "qa_reserved s" "length (qa_unacked s)" "qa_ready s" "qa_bytes s"]
  by (auto simp: make_room_def Let_def split: prod.splits if_splits)

text \<open>A queue actor confirms every reserved publish.\<close>

lemma reserved_confirmed:
  assumes "queue_step p env (PublishReserved body (Some txn_ack)) s = (s', es)"
  shows "publish_answer es"
proof -
  let ?s = "s\<lparr>qa_reserved := qa_reserved s - 1\<rparr>"
  obtain nr t dropped where m: "make_room p (length body) ?s = (nr, t, dropped)" by (metis prod_cases3)
  then obtain es' where "es = dropped @ confirm_publish (Some txn_ack) @ es'"
    using assms by (auto simp: queue_step_def publish_def Let_def split: prod.splits if_splits)
  moreover have "publish_answer (confirm_publish (Some txn_ack) @ es')" by (simp add: confirm_publish_def settle_publish_def)
  ultimately show ?thesis using publish_answer_append [of dropped] make_room_only [OF m] by simp
qed

lemma live_confirms: "live b q \<Longrightarrow> fst (ask_queues q (PublishReserved body (Some txn_ack)) b)"
proof -
  assume l: "live b q"
  obtain es env rest where n: "next_batch b = (es, env, rest)" by (metis prod_cases3)
  have "bk_queue (fold occurs es b) q \<noteq> None" using l events_live [of b q es] by (auto simp: live_def next_batch_events [OF n])
  then show ?thesis by (auto simp: ask_queues_def n Let_def split: option.splits prod.splits dest: reserved_confirmed)
qed

interpretation live_queues: queue_service ask_queues live
  by unfold_locales (fact live_stays, fact live_confirms)

subsection \<open>Queues that keep their slots\<close>

text \<open>
  A steady queue stays up, does not drop from the head, and gets no reservations from elsewhere
  while the commit runs.
\<close>

fun touches_slots :: "queue_msg \<Rightarrow> bool" where
  "touches_slots (Reserve _ _) = True"
| "touches_slots (Unreserve _) = True"
| "touches_slots (PublishReserved _ _) = True"
| "touches_slots _ = False"

definition disturbs :: "mailbox \<Rightarrow> broker_event \<Rightarrow> bool" where
  "disturbs q e \<longleftrightarrow> (case e of Dies q' \<Rightarrow> q' = q | Traffic q' _ msg \<Rightarrow> q' = q \<and> touches_slots msg)"

definition steady :: "broker \<Rightarrow> mailbox \<Rightarrow> bool" where
  "steady b q \<longleftrightarrow> bk_queue b q \<noteq> None \<and> \<not> ep_drop_head (bk_policy b q) \<and> (\<forall>e \<in> set (events_of b). \<not> disturbs q e)"

definition slots_reserved :: "broker \<Rightarrow> mailbox \<Rightarrow> nat" where
  "slots_reserved b q = (case bk_queue b q of None \<Rightarrow> 0 | Some s \<Rightarrow> qa_reserved s)"

lemma dispatch_reserved: "qa_reserved (fst (dispatch p now sends s)) = qa_reserved s"
  by (auto simp: dispatch_def Let_def split: prod.splits)

lemma make_room_reserved: "make_room p n s = (nr, s', es) \<Longrightarrow> qa_reserved s' = qa_reserved s"
  by (auto simp: make_room_def Let_def split: prod.splits if_splits)

text \<open>What a message does to the slots of a queue.\<close>

lemma queue_step_reserved:
  assumes "queue_step p env msg s = (s', es)"
  shows "qa_reserved s' =
    (case msg of
       Reserve n _ \<Rightarrow> if reserve_answer es \<and> \<not> ep_drop_head p then qa_reserved s + unat n else qa_reserved s
     | Unreserve n \<Rightarrow> qa_reserved s - unat n
     | PublishReserved _ _ \<Rightarrow> qa_reserved s - 1
     | _ \<Rightarrow> qa_reserved s)"
proof -
  obtain t e1 go where h: "handle_queue_msg p (se_enqueue_ms env) msg s = (t, e1, go)" by (metis prod_cases3)
  have "qa_reserved s' = qa_reserved t" and "\<exists>e2. es = e1 @ e2"
    using assms h dispatch_reserved [of p "se_now_ms env" "se_sends env" t]
    by (auto simp: queue_step_def split: prod.splits if_splits)
  moreover have "qa_reserved t = (case msg of
       Reserve n _ \<Rightarrow> if reserve_answer e1 \<and> \<not> ep_drop_head p then qa_reserved s + unat n else qa_reserved s
     | Unreserve n \<Rightarrow> qa_reserved s - unat n
     | PublishReserved _ _ \<Rightarrow> qa_reserved s - 1
     | _ \<Rightarrow> qa_reserved s)"
    using h by (cases msg) (auto simp: publish_def reserve_def subscribe_def settle_stored_def unsubscribe_def Let_def
        split: prod.splits if_splits option.splits settle_outcome.splits dest!: make_room_reserved)
  moreover have "reserve_answer (e1 @ e2) = reserve_answer e1" if "msg = Reserve n r" for n r e2
    using h that by (auto simp: reserve_def Let_def split: if_splits)
  ultimately show ?thesis by (cases msg) auto
qed

lemma occurs_steady:
  assumes "bk_queue b q \<noteq> None" "\<not> disturbs q e"
  shows "bk_queue (occurs e b) q \<noteq> None \<and> slots_reserved (occurs e b) q = slots_reserved b q"
proof (cases e)
  case (Traffic q' env msg)
  have "qa_reserved (fst (queue_step p env msg s)) = qa_reserved s" if "\<not> touches_slots msg" for p s
    using that queue_step_reserved [of p env msg s] by (cases "queue_step p env msg s"; cases msg) auto
  then show ?thesis using assms by (auto simp: Traffic disturbs_def slots_reserved_def split: option.splits)
next
  case (Dies q')
  then show ?thesis using assms by (auto simp: disturbs_def slots_reserved_def)
qed

lemma events_steady:
  "bk_queue b q \<noteq> None \<Longrightarrow> \<forall>e \<in> set es. \<not> disturbs q e \<Longrightarrow>
    bk_queue (fold occurs es b) q \<noteq> None \<and> slots_reserved (fold occurs es b) q = slots_reserved b q"
proof (induction es arbitrary: b)
  case (Cons e es)
  then show ?case using occurs_steady [of b q e] by simp
qed simp

lemma ask_queues_steady:
  assumes "steady b mb" "ask_queues q msg b = (ok, b')"
  shows "steady b' mb" and "q \<noteq> mb \<Longrightarrow> slots_reserved b' mb = slots_reserved b mb"
    and "q = mb \<Longrightarrow> \<exists>env s s' es. qa_reserved s = slots_reserved b mb \<and> queue_step (bk_policy b mb) env msg s = (s', es) \<and>
      ok = answer msg es \<and> slots_reserved b' mb = qa_reserved s'"
proof -
  obtain es env rest where n: "next_batch b = (es, env, rest)" by (metis prod_cases3)
  let ?b = "(fold occurs es b)\<lparr>bk_coming := rest\<rparr>"
  have quiet: "\<forall>e \<in> set es. \<not> disturbs mb e" "\<forall>e \<in> set (concat (map fst rest)). \<not> disturbs mb e"
    using assms(1) by (auto simp: steady_def next_batch_events [OF n])
  then have "bk_queue ?b mb \<noteq> None" and r: "slots_reserved ?b mb = slots_reserved b mb"
    using assms(1) events_steady [of b mb es] by (simp_all add: steady_def slots_reserved_def)
  then obtain s where s: "bk_queue ?b mb = Some s" "qa_reserved s = slots_reserved b mb" by (auto simp: slots_reserved_def)
  show "steady b' mb" "q \<noteq> mb \<Longrightarrow> slots_reserved b' mb = slots_reserved b mb"
    using assms quiet(2) s r by (auto simp: ask_queues_def n Let_def steady_def events_of_def slots_reserved_def split: option.splits prod.splits)
  show "\<exists>env s s' es. qa_reserved s = slots_reserved b mb \<and> queue_step (bk_policy b mb) env msg s = (s', es) \<and>
      ok = answer msg es \<and> slots_reserved b' mb = qa_reserved s'" if "q = mb"
  proof -
    obtain s' out where q: "queue_step (bk_policy b mb) env msg s = (s', out)" by fastforce
    then have "ok = answer msg out \<and> slots_reserved b' mb = qa_reserved s'"
      using assms(2) s(1) that by (simp add: ask_queues_def n Let_def slots_reserved_def) auto
    then show ?thesis using q s(2) by (intro exI [of _ env] exI [of _ s] exI [of _ s'] exI [of _ out]) simp
  qed
qed

lemma steady_live: "steady b q \<Longrightarrow> live b q"
  by (auto simp: steady_def live_def disturbs_def split: broker_event.splits)

lemma int_sub_unat:
  assumes "uint (n :: u32) \<le> int k"
  shows "int (k - unat n) = int k - uint n"
proof -
  have "int (unat n) \<le> int k" using assms by simp
  then have "unat n \<le> k" by (simp only: of_nat_le_iff)
  then show ?thesis by (simp add: of_nat_diff)
qed

lemma steady_books:
  assumes "commit_msg msg" "steady b mb" "ask_queues q msg b = (ok, b')" "0 \<le> int (slots_reserved b mb) + slot_change mb (q, msg, ok)"
  shows "int (slots_reserved b' mb) = int (slots_reserved b mb) + slot_change mb (q, msg, ok)"
proof (cases "q = mb")
  case True
  obtain env s s' es where s: "qa_reserved s = slots_reserved b mb" "queue_step (bk_policy b mb) env msg s = (s', es)"
    "ok = answer msg es" "slots_reserved b' mb = qa_reserved s'" using ask_queues_steady(3) [OF assms(2,3) True] by blast
  then show ?thesis using queue_step_reserved [OF s(2)] assms(1,2,4) True by (cases msg) (auto simp: steady_def of_nat_diff int_sub_unat)
next
  case False
  then have "slot_change mb (q, msg, ok) = 0" by (cases msg) auto
  then show ?thesis using ask_queues_steady(2) [OF assms(2,3) False] by simp
qed

interpretation steady_queues: slot_service ask_queues steady slots_reserved
proof unfold_locales
  show "steady (snd (ask_queues q msg b)) q'" if "steady b q'" for b q q' msg
    using ask_queues_steady(1) [OF that, of q msg] by (cases "ask_queues q msg b") simp
qed (auto intro: live_confirms steady_live steady_books)

text \<open>The log does not change what the queues do.\<close>

interpretation live_logged: queue_service "logged ask_queues" "\<lambda>w. live (fst w)"
proof unfold_locales
  show "live (fst (snd (logged ask_queues q msg w))) q'" if "live (fst w) q'" for w q q' msg
    using live_stays [OF that, of q msg] by (cases "ask_queues q msg (fst w)") (simp add: logged_def)
  show "fst (logged ask_queues q (PublishReserved body (Some txn_ack)) w)" if "live (fst w) q" for w q body
    using live_confirms [OF that, of body] by (cases "ask_queues q (PublishReserved body (Some txn_ack)) (fst w)") (simp add: logged_def)
qed

subsection \<open>What a discharge means\<close>

definition staged_bodies :: "txn \<Rightarrow> (mailbox \<times> bytes) list" where
  "staged_bodies t = map (\<lambda>p. (sp_queue p, sp_body p)) (tx_publishes t)"

definition settled_as :: "(staged_settle \<Rightarrow> settle_outcome) \<Rightarrow> txn \<Rightarrow> (mailbox \<times> sub_id \<times> u64 \<times> settle_outcome) list" where
  "settled_as f t = map (\<lambda>s. (sl_queue s, sl_sub s, sl_msg_id s, f s)) (tx_settles t)"

text \<open>The outcome a commit may report for what it did.\<close>

fun truthful :: "txn \<Rightarrow> discharge_outcome \<Rightarrow> request list \<Rightarrow> bool" where
  "truthful t Complete log \<longleftrightarrow> landed log = staged_bodies t \<and> settled_by log = settled_as sl_outcome t"
| "truthful t RolledBack log \<longleftrightarrow> landed log = [] \<and> settled_by log = settled_as (\<lambda>_. Requeue) t"
| "truthful t (Partial k n) log \<longleftrightarrow> 0 < k \<and> k < n \<and> n = length (staged_bodies t) \<and>
    landed log = take k (staged_bodies t) \<and> settled_by log = settled_as (\<lambda>_. Requeue) t"
| "truthful t Unknown log \<longleftrightarrow> False"

lemma truthful_commit:
  assumes "refused_at_reserve t r log \<or> refused_at_publish t r log \<or> all_applied t r log"
  shows "truthful t r log"
proof -
  consider (reserve) "refused_at_reserve t r log" | (publish) "refused_at_publish t r log" | (all) "all_applied t r log"
    using assms by blast
  then show ?thesis
  proof cases
    case reserve
    then show ?thesis unfolding sent_back by (auto simp: log_facts settled_as_def)
  next
    case publish
    then show ?thesis unfolding sent_back by (auto simp: log_facts settled_as_def staged_bodies_def take_map)
  next
    case all
    then show ?thesis unfolding sent_back by (auto simp: log_facts settled_as_def staged_bodies_def)
  qed
qed

text \<open>
  C22: a discharge reports the truth, whatever the queues do. A commit terminates without panic; when
  it reports completion every staged message was confirmed by its queue, in order, and every staged
  settlement was sent; when it reports a rollback no message landed; when it reports a partial
  commit exactly the first messages landed, as many as it says; in both failures every staged
  settlement is undone.
\<close>

theorem commit_outcome_truthful:
  "\<exists>r v' log. execute_commit (logged ask) t (v, []) = (Inr r, (v', log)) \<and> truthful t r log"
  using execute_commit_log [of ask t v] truthful_commit by blast

lemma commit_balance_of:
  assumes "mailbox_by_name (tx_publishes t)" "length (tx_publishes t) < 2 ^ 32" "execute_commit (logged ask) t (v, []) = (r, (v', log))"
  shows "balance mb log = 0 \<and> (\<forall>n. 0 \<le> balance mb (take n log))"
proof -
  obtain r' where shape: "refused_at_reserve t r' log \<or> refused_at_publish t r' log \<or> all_applied t r' log"
    using execute_commit_log [of ask t v] assms(3) by auto
  have b: "balance mb log = 0" by (rule commit_balance [OF assms(1,2) shape])
  obtain up down where "log = up @ down" "\<forall>x \<in> set up. \<forall>mb. 0 \<le> slot_change mb x" "\<forall>x \<in> set down. \<forall>mb. slot_change mb x \<le> 0"
    by (rule commit_up_down [OF shape])
  then show ?thesis using b up_down [of up mb down] by auto
qed

text \<open>
  a commit gives back every slot it took. When the name of a target determines its mailbox, then
  at every mailbox and at every moment the transaction has not used or released more slots than it
  was granted, and at the end, whatever the outcome, it holds none.
\<close>

theorem commit_slots_balanced:
  assumes "mailbox_by_name (tx_publishes t)" "length (tx_publishes t) < 2 ^ 32" "execute_commit (logged ask) t (v, []) = (r, (v', log))"
  shows "balance mb log = 0 \<and> (\<forall>n. 0 \<le> balance mb (take n log))"
  by (rule commit_balance_of [OF assms])

definition sample_commit :: txn where
  "sample_commit = \<lparr>tx_publishes = [\<lparr>sp_queue = 0, sp_queue_name = [97], sp_body = [1]\<rparr>, \<lparr>sp_queue = 1, sp_queue_name = [98], sp_body = [2]\<rparr>,
    \<lparr>sp_queue = 0, sp_queue_name = [97], sp_body = [3]\<rparr>], tx_settles = [], tx_rollback_only = False\<rparr>"

theorem commit_slots_balanced_witness:
  "balance 0 (snd (snd (execute_commit (logged (\<lambda>q msg u. (True, u))) sample_commit ((), [])))) = 0"
proof -
  obtain r v' log where e: "execute_commit (logged (\<lambda>q msg u. (True, u))) sample_commit ((), []) = (r, (v', log))" by (metis prod_cases3)
  have "mailbox_by_name (tx_publishes sample_commit)" by (simp add: sample_commit_def mailbox_by_name_def)
  moreover have "length (tx_publishes sample_commit) < 2 ^ 32" by (simp add: sample_commit_def)
  ultimately show ?thesis using commit_slots_balanced [OF _ _ e, of 0] by (simp add: e)
qed


text \<open>Two queues of depth two; another client publishes to one of them while the commit runs.\<close>

definition sample_broker :: broker where
  "sample_broker = \<lparr>bk_policy = (\<lambda>_. depth_only 2), bk_queue = (\<lambda>_. Some new_queue),
    bk_coming = [([Traffic 1 no_env (Publish [9] None)], no_env)]\<rparr>"



text \<open>
  C23: the table of open transactions is consistent and bounded, whatever a client declares, stages
  and discharges. No two open transactions share an id and a new one gets an id that is not in use;
  at most 64 are open, each with at most 10000 staged operations; and the staged bytes are exactly
  those of the staged bodies, at most 64 MiB over all of them.
\<close>

theorem txn_table_consistent:
  assumes "length ops < 2 ^ 64 - 1"
  defines "m \<equiv> fold txn_step ops new_manager"
  shows "distinct (map fst (tm_txns m)) \<and> length (tm_txns m) \<le> 64 \<and> (\<forall>(i, t) \<in> set (tm_txns m). staged t \<le> 10000) \<and>
    tm_staged_bytes m = sum_list (map (\<lambda>(i, t). \<Sum>p \<leftarrow> tx_publishes t. length (sp_body p)) (tm_txns m)) \<and>
    tm_staged_bytes m \<le> 67108864 \<and> (\<forall>i. fst (declare_new m) = Some i \<longrightarrow> map_of (tm_txns m) i = None)"
proof -
  have zero: "unat (tm_next_id new_manager) = 0" by (simp add: new_manager_def)
  have "manager_inv m" and n: "unat (tm_next_id m) \<le> length ops"
    using manager_inv_run [of new_manager ops] manager_inv_new assms(1) unfolding m_def by (simp_all add: zero)
  moreover have "map_of (tm_txns m) i = None" if "fst (declare_new m) = Some i" for i
    using declare_fresh(2) [OF \<open>manager_inv m\<close>] that n assms(1)
    by (auto simp: declare_new_def txn_name_def Let_def split: if_splits)
  ultimately show ?thesis
    by (auto simp: manager_inv_def MAX_TXNS_def MAX_STAGED_def MAX_STAGED_BYTES_def staged_total_def body_sum_def comp_def case_prod_unfold)
qed

definition sample_ops :: "txn_op list" where
  "sample_ops = [ODeclare, OStagePublish (txn_name 1) \<lparr>sp_queue = 0, sp_queue_name = [], sp_body = [1, 2]\<rparr>]"

theorem txn_table_consistent_witness:
  "tm_staged_bytes (fold txn_step sample_ops new_manager) = 2 \<and> length (tm_txns (fold txn_step sample_ops new_manager)) \<le> 64"
proof -
  have "length sample_ops < 2 ^ 64 - 1" by (simp add: sample_ops_def)
  moreover have "tm_staged_bytes (fold txn_step sample_ops new_manager) = 2"
    by (simp add: sample_ops_def declare_new_def new_manager_def stage_publish_def without_def txn_name_def default_txn_def staged_def
        MAX_TXNS_def MAX_STAGED_def MAX_STAGED_BYTES_def Let_def)
  ultimately show ?thesis using txn_table_consistent [of sample_ops] by blast
qed

end
