(* ===== verification/Broker_Durable.thy ===== *)
theory Broker_Durable
  imports Broker_Queue Ordered_Map "HOL-Library.Product_Lexorder"
begin

section \<open>Durable queues (\<open>ramqp-broker/src/durable.rs\<close>, \<open>store.rs\<close>)\<close>

text \<open>
  The durable queue actor and the message store behind it. The database is a parameter: the record
  \<open>table_ops\<close> of the operations the store uses on the table of messages, whose documented
  behaviour is the contract \<open>sorted_map\<close> of \<open>Ordered_Map\<close>. One system state holds the actor, the
  committed table, the writer's channel, the publishes that wait for their commit and the removals
  that wait for the dead-letter router; its events are the messages of the mailbox, commits of the
  writer (which may fail, and may carry other queues' operations), completions in any order, and
  the writer's death. A crash keeps the committed table and nothing else.
\<close>

subsection \<open>The store\<close>

type_synonym row = "u32 \<times> u64 \<times> bytes"
type_synonym key = "u64 \<times> u64"

record 't table_ops =
  tb_empty :: 't
  tb_get :: "'t \<Rightarrow> key \<Rightarrow> row option"
  tb_insert :: "key \<Rightarrow> row \<Rightarrow> 't \<Rightarrow> 't"
  tb_remove :: "key \<Rightarrow> 't \<Rightarrow> 't"
  tb_entries :: "'t \<Rightarrow> (key \<times> row) list"
  tb_ok :: "'t \<Rightarrow> bool"

definition redb_table :: "'t table_ops \<Rightarrow> bool" where
  "redb_table T \<longleftrightarrow> sorted_map (tb_empty T) (tb_get T) (tb_insert T) (tb_remove T) (tb_entries T) (tb_ok T)"

text \<open>The operations on messages; the ones of the Raft log write to other tables.\<close>

datatype store_op =
    StoreInsert u64 u64 u64 bytes
  | StoreRemove u64 u64
  | StoreFail u64 u64
  | StoreRaft

definition COMMIT_BATCH_MAX :: nat where "COMMIT_BATCH_MAX = 1024"

fun apply_op :: "'t table_ops \<Rightarrow> store_op \<Rightarrow> 't \<Rightarrow> 't" where
  "apply_op T (StoreInsert queue msg_id enqueued_ms body) t = tb_insert T (queue, msg_id) (0, enqueued_ms, body) t"
| "apply_op T (StoreRemove queue msg_id) t = tb_remove T (queue, msg_id) t"
| "apply_op T (StoreFail queue msg_id) t =
    (case tb_get T t (queue, msg_id) of
       Some (failures, enqueued_ms, body) \<Rightarrow> tb_insert T (queue, msg_id) (failures + 1, enqueued_ms, body) t
     | None \<Rightarrow> t)"
| "apply_op T StoreRaft t = t"

definition apply_batch :: "'t table_ops \<Rightarrow> store_op list \<Rightarrow> 't \<Rightarrow> 't" where
  "apply_batch T batch t = fold (apply_op T) batch t"

text \<open>The range of a queue's keys, in order: message id, failures, enqueue time and body length.\<close>

definition scan :: "'t table_ops \<Rightarrow> 't \<Rightarrow> u64 \<Rightarrow> (u64 \<times> u32 \<times> u64 \<times> nat) list" where
  "scan T t queue =
    map (\<lambda>((_, msg_id), (failures, enqueued_ms, body)). (msg_id, failures, enqueued_ms, length body))
      (filter (\<lambda>(k, _). (queue, 0) \<le> k \<and> k \<le> (queue, - 1)) (tb_entries T t))"

text \<open>A read of a body; the oracle says whether the read transaction succeeds.\<close>

definition store_body :: "'t table_ops \<Rightarrow> 't \<Rightarrow> bool list \<Rightarrow> u64 \<Rightarrow> u64 \<Rightarrow> bytes option \<times> bool list" where
  "store_body T t reads queue msg_id =
    (let (ok, reads) = next_send reads
     in (if ok then map_option (snd \<circ> snd) (tb_get T t (queue, msg_id)) else None, reads))"

subsection \<open>The actor\<close>

type_synonym inflight = "(u64 \<times> sub_id \<times> u64 \<times> nat) list"

record durable_actor =
  da_subs :: "subscriber list"
  da_inflight :: inflight
  da_ready :: "(u64, u64 \<times> nat) btree"
  da_failures :: "u64 \<rightharpoonup> u32"
  da_next_msg_id :: u64
  da_bytes :: nat
  da_publishes_pending :: nat
  da_reserved :: nat
  da_next_sub_id :: sub_id
  da_rr :: nat

definition recover_actor :: "(u64 \<times> u32 \<times> u64 \<times> nat) list \<Rightarrow> durable_actor" where
  "recover_actor recovered =
    \<lparr>da_subs = [], da_inflight = [],
     da_ready = fold (\<lambda>(i, _, ms, len) m. bt_insert i (ms, len) m) recovered [],
     da_failures = map_of (map (\<lambda>(i, f, _, _). (i, f)) (filter (\<lambda>(_, f, _, _). 0 < f) recovered)),
     da_next_msg_id = fold (\<lambda>(i, _, _, _) n. max n i) recovered 0,
     da_bytes = sum_list (map (\<lambda>(_, _, _, len). len) recovered),
     da_publishes_pending = 0, da_reserved = 0, da_next_sub_id = 0, da_rr = 0\<rparr>"

text \<open>What the actor asks of the store, in order; a deferred removal waits for the dead-letter router.\<close>

datatype store_act = Submit store_op | Defer u64

definition dead_letter_then_remove ::
    "'t table_ops \<Rightarrow> effective_policy \<Rightarrow> 't \<Rightarrow> bool list \<Rightarrow> u64 \<Rightarrow> u64 \<Rightarrow> broker_effect list \<times> store_act list \<times> bool list" where
  "dead_letter_then_remove T policy t reads queue msg_id =
    (let (body, reads) = store_body T t reads queue msg_id;
         copies = (case body of Some b \<Rightarrow> dead_letter policy b | None \<Rightarrow> [])
     in (copies, if copies \<noteq> [] then [Defer msg_id] else [Submit (StoreRemove queue msg_id)], reads))"

record durable_env =
  de_enqueue_ms :: u64
  de_now_ms :: u64
  de_sends :: "bool list"
  de_reads :: "bool list"

fun durable_drop_heads ::
    "'t table_ops \<Rightarrow> effective_policy \<Rightarrow> 't \<Rightarrow> u64 \<Rightarrow> nat \<Rightarrow> nat \<Rightarrow> nat \<Rightarrow> bool list \<Rightarrow> (u64, u64 \<times> nat) btree \<Rightarrow> (u64 \<rightharpoonup> u32) \<Rightarrow> nat \<Rightarrow>
     bool \<times> (u64, u64 \<times> nat) btree \<times> (u64 \<rightharpoonup> u32) \<times> nat \<times> broker_effect list \<times> store_act list \<times> bool list" where
  "durable_drop_heads T policy t queue body_len reserved others reads [] failures bytes = (True, [], failures, bytes, [], [], reads)"
| "durable_drop_heads T policy t queue body_len reserved others reads ((old_id, (_, old_len)) # ready) failures bytes =
    (let bytes = bytes - old_len;
         failures = failures(old_id := None);
         (effects, acts, reads) = dead_letter_then_remove T policy t reads queue old_id
     in if over policy body_len reserved others (length ready) bytes
        then let (needs_room, ready, failures, bytes, effects', acts', reads) =
               durable_drop_heads T policy t queue body_len reserved others reads ready failures bytes
             in (needs_room, ready, failures, bytes, effects @ effects', acts @ acts', reads)
        else (False, ready, failures, bytes, effects, acts, reads))"

definition durable_make_room ::
    "'t table_ops \<Rightarrow> effective_policy \<Rightarrow> 't \<Rightarrow> u64 \<Rightarrow> nat \<Rightarrow> bool list \<Rightarrow> durable_actor \<Rightarrow>
     bool \<times> durable_actor \<times> broker_effect list \<times> store_act list \<times> bool list" where
  "durable_make_room T policy t queue body_len reads s =
    (let others = length (da_inflight s) + da_publishes_pending s;
         needs_room = over policy body_len (da_reserved s) others (length (da_ready s)) (da_bytes s)
     in if needs_room \<and> ep_drop_head policy
        then let (needs_room, ready, failures, bytes, effects, acts, reads) =
               durable_drop_heads T policy t queue body_len (da_reserved s) others reads (da_ready s) (da_failures s) (da_bytes s)
             in (needs_room, s\<lparr>da_ready := ready, da_failures := failures, da_bytes := bytes\<rparr>, effects, acts, reads)
        else (needs_room, s, [], [], reads))"

text \<open>A publish whose commit is awaited.\<close>

record commit_wait =
  cw_ack :: "publish_ack option"
  cw_msg_id :: u64
  cw_enqueued_ms :: u64
  cw_len :: nat

text \<open>What handling a message does besides changing the actor.\<close>

record outcome_of_msg =
  om_effects :: "broker_effect list"
  om_acts :: "store_act list"
  om_waits :: "commit_wait list"
  om_reads :: "bool list"
  om_go :: bool

definition durable_publish ::
    "'t table_ops \<Rightarrow> effective_policy \<Rightarrow> 't \<Rightarrow> u64 \<Rightarrow> durable_env \<Rightarrow> bool \<Rightarrow> bytes \<Rightarrow> publish_ack option \<Rightarrow> durable_actor \<Rightarrow>
     durable_actor \<times> outcome_of_msg" where
  "durable_publish T policy t queue env from_reserved body ack s =
    (let s = (if from_reserved then s\<lparr>da_reserved := da_reserved s - 1\<rparr> else s);
         (needs_room, s, effects, acts, reads) = durable_make_room T policy t queue (length body) (de_reads env) s
     in if needs_room \<and> \<not> from_reserved
        then (s, \<lparr>om_effects = effects @ refuse_publish ack, om_acts = acts, om_waits = [], om_reads = reads, om_go = False\<rparr>)
        else let msg_id = da_next_msg_id s + 1
             in (s\<lparr>da_next_msg_id := msg_id, da_publishes_pending := da_publishes_pending s + 1,
                   da_bytes := usize_add (da_bytes s) (length body)\<rparr>,
                 \<lparr>om_effects = effects, om_acts = acts @ [Submit (StoreInsert queue msg_id (de_enqueue_ms env) body)],
                  om_waits = [\<lparr>cw_ack = ack, cw_msg_id = msg_id, cw_enqueued_ms = de_enqueue_ms env, cw_len = length body\<rparr>],
                  om_reads = reads, om_go = True\<rparr>))"

definition quiet :: "broker_effect list \<Rightarrow> store_act list \<Rightarrow> bool list \<Rightarrow> bool \<Rightarrow> outcome_of_msg" where
  "quiet effects acts reads go = \<lparr>om_effects = effects, om_acts = acts, om_waits = [], om_reads = reads, om_go = go\<rparr>"

definition durable_reserve :: "effective_policy \<Rightarrow> u32 \<Rightarrow> reply_to \<Rightarrow> durable_actor \<Rightarrow> durable_actor \<times> broker_effect list" where
  "durable_reserve policy slots reply s =
    (let ok = (ep_drop_head policy \<or> length (da_ready s) + length (da_inflight s) + da_publishes_pending s + da_reserved s + unat slots
           \<le> ep_max_len policy);
         s = (if ok \<and> \<not> ep_drop_head policy then s\<lparr>da_reserved := da_reserved s + unat slots\<rparr> else s)
     in (s, [ReplyReserved reply ok]))"

definition drop_inflight :: "u64 \<Rightarrow> inflight \<Rightarrow> inflight" where
  "drop_inflight i infl = filter (\<lambda>e. fst e \<noteq> i) infl"

definition durable_settle ::
    "'t table_ops \<Rightarrow> effective_policy \<Rightarrow> 't \<Rightarrow> u64 \<Rightarrow> bool list \<Rightarrow> sub_id \<Rightarrow> u64 \<Rightarrow> settle_outcome \<Rightarrow> durable_actor \<Rightarrow>
     durable_actor \<times> outcome_of_msg" where
  "durable_settle T policy t queue reads sub msg_id outcome s =
    (case map_of (da_inflight s) msg_id of
       None \<Rightarrow> (s, quiet [] [] reads False)
     | Some (owner, ms, len) \<Rightarrow>
         if owner \<noteq> sub then (s, quiet [] [] reads False)
         else let s = s\<lparr>da_inflight := drop_inflight msg_id (da_inflight s)\<rparr>
              in (case outcome of
                    Requeue \<Rightarrow> (s\<lparr>da_ready := bt_insert msg_id (ms, len) (da_ready s)\<rparr>, quiet [] [] reads True)
                  | RequeueFailed \<Rightarrow>
                      let n = (case da_failures s msg_id of None \<Rightarrow> 0 | Some n \<Rightarrow> n) + 1
                      in if attempts_exhausted policy n
                         then let (effects, acts, reads) = dead_letter_then_remove T policy t reads queue msg_id
                              in (s\<lparr>da_failures := (da_failures s)(msg_id := None), da_bytes := da_bytes s - len\<rparr>, quiet effects acts reads True)
                         else (s\<lparr>da_failures := (da_failures s)(msg_id \<mapsto> n), da_ready := bt_insert msg_id (ms, len) (da_ready s)\<rparr>,
                               quiet [] [Submit (StoreFail queue msg_id)] reads True)
                  | _ \<Rightarrow> (s\<lparr>da_failures := (da_failures s)(msg_id := None), da_bytes := da_bytes s - len\<rparr>,
                         quiet [] [Submit (StoreRemove queue msg_id)] reads True)))"

text \<open>Everything a subscriber holds becomes ready again.\<close>

definition release_held_by :: "sub_id \<Rightarrow> inflight \<Rightarrow> (u64, u64 \<times> nat) btree \<Rightarrow> inflight \<times> (u64, u64 \<times> nat) btree" where
  "release_held_by sub infl ready =
    (filter (\<lambda>(_, owner, _). owner \<noteq> sub) infl,
     fold (\<lambda>(i, _, ms, len) m. bt_insert i (ms, len) m) (filter (\<lambda>(_, owner, _). owner = sub) infl) ready)"

fun durable_handle ::
    "'t table_ops \<Rightarrow> effective_policy \<Rightarrow> 't \<Rightarrow> u64 \<Rightarrow> durable_env \<Rightarrow> queue_msg \<Rightarrow> durable_actor \<Rightarrow> durable_actor \<times> outcome_of_msg" where
  "durable_handle T policy t queue env (Publish body ack) s = durable_publish T policy t queue env False body ack s"
| "durable_handle T policy t queue env (PublishReserved body ack) s = durable_publish T policy t queue env True body ack s"
| "durable_handle T policy t queue env (Reserve slots reply) s =
    (let (s, effects) = durable_reserve policy slots reply s in (s, quiet effects [] (de_reads env) True))"
| "durable_handle T policy t queue env (Unreserve slots) s = (s\<lparr>da_reserved := da_reserved s - unat slots\<rparr>, quiet [] [] (de_reads env) True)"
| "durable_handle T policy t queue env (Subscribe conn channel handle binding_gen reply) s =
    (let i = da_next_sub_id s + 1
     in (s\<lparr>da_next_sub_id := i, da_subs := da_subs s @ [new_subscriber i conn channel handle binding_gen]\<rparr>,
         quiet [ReplySubscribed reply i] [] (de_reads env) True))"
| "durable_handle T policy t queue env (Demand sub credit drain) s =
    (s\<lparr>da_subs := update_subscriber sub (grant credit drain) (da_subs s)\<rparr>, quiet [] [] (de_reads env) True)"
| "durable_handle T policy t queue env (SettleMsg sub msg_id outcome) s = durable_settle T policy t queue (de_reads env) sub msg_id outcome s"
| "durable_handle T policy t queue env (Stats reply) s =
    (s, quiet [ReplyStats reply \<lparr>qs_ready = length (da_ready s), qs_unacked = length (da_inflight s), qs_consumers = length (da_subs s)\<rparr>]
       [] (de_reads env) True)"
| "durable_handle T policy t queue env (Unsubscribe sub) s =
    (let (infl, ready) = release_held_by sub (da_inflight s) (da_ready s)
     in (s\<lparr>da_subs := retain_others sub (da_subs s), da_inflight := infl, da_ready := ready\<rparr>, quiet [] [] (de_reads env) True))"

subsection \<open>Dispatch\<close>

fun durable_expire ::
    "'t table_ops \<Rightarrow> effective_policy \<Rightarrow> 't \<Rightarrow> u64 \<Rightarrow> u64 \<Rightarrow> bool list \<Rightarrow> (u64, u64 \<times> nat) btree \<Rightarrow> (u64 \<rightharpoonup> u32) \<Rightarrow> nat \<Rightarrow>
     (u64, u64 \<times> nat) btree \<times> (u64 \<rightharpoonup> u32) \<times> nat \<times> broker_effect list \<times> store_act list \<times> bool list" where
  "durable_expire T policy t queue now reads [] failures bytes = ([], failures, bytes, [], [], reads)"
| "durable_expire T policy t queue now reads ((i, (ms, len)) # ready) failures bytes =
    (if expired policy ms now
     then let (effects, acts, reads) = dead_letter_then_remove T policy t reads queue i;
              (ready, failures, bytes, effects', acts', reads) =
                durable_expire T policy t queue now reads ready (failures(i := None)) (bytes - len)
          in (ready, failures, bytes, effects @ effects', acts @ acts', reads)
     else ((i, (ms, len)) # ready, failures, bytes, [], [], reads))"

function durable_dispatch_loop ::
    "'t table_ops \<Rightarrow> 't \<Rightarrow> u64 \<Rightarrow> bool list \<Rightarrow> bool list \<Rightarrow> (u64, u64 \<times> nat) btree \<Rightarrow> inflight \<Rightarrow> subscriber list \<Rightarrow> nat \<Rightarrow>
     (u64, u64 \<times> nat) btree \<times> inflight \<times> subscriber list \<times> nat \<times> broker_effect list" where
  "durable_dispatch_loop T t queue sends reads [] infl subs rr = ([], infl, complete_drains subs, rr, [])"
| "durable_dispatch_loop T t queue sends reads ((msg_id, (ms, len)) # ready) infl subs rr =
    (case pick_ready subs rr of
       None \<Rightarrow> ((msg_id, (ms, len)) # ready, infl, subs, rr, [])
     | Some idx \<Rightarrow>
         let (body, reads) = store_body T t reads queue msg_id
         in case body of
              None \<Rightarrow> durable_dispatch_loop T t queue sends reads ready infl subs rr
            | Some b \<Rightarrow>
                let rr = (idx + 1) mod length subs;
                    sub = subs ! idx;
                    subs = subs[idx := sub\<lparr>sub_demand := sub_demand sub - 1\<rparr>];
                    cmd = Deliver (sub_channel sub) (sub_handle sub) (sub_binding_gen sub) msg_id b;
                    (ok, sends) = next_send sends
                in if ok
                   then let (ready, infl, subs, rr, effects) =
                          durable_dispatch_loop T t queue sends reads ready ((msg_id, (sub_id sub, ms, len)) # drop_inflight msg_id infl) subs rr
                        in (ready, infl, subs, rr, ToConn (sub_conn sub) cmd # effects)
                   else let (infl, ready) = release_held_by (sub_id sub) infl (bt_insert msg_id (ms, len) ready)
                        in durable_dispatch_loop T t queue sends reads ready infl (retain_others (sub_id sub) subs) rr)"
  by pat_completeness auto

termination
  by (relation "measures [\<lambda>(_, _, _, _, _, _, _, subs, _). length subs, \<lambda>(_, _, _, _, _, ready, _). length ready]")
    (auto intro!: retain_others_less dest: pick_ready_bound)

definition durable_dispatch ::
    "'t table_ops \<Rightarrow> effective_policy \<Rightarrow> 't \<Rightarrow> u64 \<Rightarrow> u64 \<Rightarrow> bool list \<Rightarrow> bool list \<Rightarrow> durable_actor \<Rightarrow>
     durable_actor \<times> broker_effect list \<times> store_act list" where
  "durable_dispatch T policy t queue now sends reads s =
    (let (ready, failures, bytes, expired, acts, reads) =
           (if ep_ttl_ms policy \<noteq> None
            then durable_expire T policy t queue now reads (da_ready s) (da_failures s) (da_bytes s)
            else (da_ready s, da_failures s, da_bytes s, [], [], reads));
         (ready, infl, subs, rr, effects) = durable_dispatch_loop T t queue sends reads ready (da_inflight s) (da_subs s) (da_rr s)
     in (s\<lparr>da_ready := ready, da_failures := failures, da_bytes := bytes, da_inflight := infl, da_subs := subs, da_rr := rr\<rparr>,
         expired @ effects, acts))"

subsection \<open>The actor, the writer and the router\<close>

record 't durable_system =
  ds_actor :: durable_actor
  ds_table :: 't
  ds_channel :: "store_op list"
  ds_writer_up :: bool
  ds_waiting :: "commit_wait list"
  ds_done :: "(commit_wait \<times> bool) list"
  ds_deferred :: "u64 list"

text \<open>Submitting to a writer that is gone fails; a publish that could not be submitted counts as not committed.\<close>

fun submit :: "u64 \<Rightarrow> store_act \<Rightarrow> 't durable_system \<Rightarrow> 't durable_system" where
  "submit queue (Submit op) s = (if ds_writer_up s then s\<lparr>ds_channel := ds_channel s @ [op]\<rparr> else s)"
| "submit queue (Defer i) s = s\<lparr>ds_deferred := ds_deferred s @ [i]\<rparr>"

definition await_commit :: "commit_wait list \<Rightarrow> 't durable_system \<Rightarrow> 't durable_system" where
  "await_commit ws s =
    (if ds_writer_up s then s\<lparr>ds_waiting := ds_waiting s @ ws\<rparr>
     else s\<lparr>ds_done := ds_done s @ map (\<lambda>w. (w, False)) ws\<rparr>)"

datatype durable_event =
    Mailbox durable_env queue_msg
  | Completion nat durable_env
  | Commit nat bool
  | RouterResolved nat
  | OtherSubmit store_op
  | WriterDies

fun inserts :: "u64 \<Rightarrow> store_op \<Rightarrow> u64 option" where
  "inserts queue (StoreInsert q i _ _) = (if q = queue then Some i else None)"
| "inserts queue _ = None"

definition remove_nth :: "nat \<Rightarrow> 'a list \<Rightarrow> 'a list" where
  "remove_nth n xs = take n xs @ drop (Suc n) xs"

definition complete_commit :: "commit_wait \<times> bool \<Rightarrow> durable_actor \<Rightarrow> durable_actor \<times> broker_effect list" where
  "complete_commit d a =
    (let w = fst d; a = a\<lparr>da_publishes_pending := da_publishes_pending a - 1\<rparr>
     in if snd d
        then (a\<lparr>da_ready := bt_insert (cw_msg_id w) (cw_enqueued_ms w, cw_len w) (da_ready a)\<rparr>, confirm_publish (cw_ack w))
        else (a\<lparr>da_bytes := da_bytes a - cw_len w\<rparr>, refuse_publish (cw_ack w)))"

definition then_dispatch ::
    "'t table_ops \<Rightarrow> effective_policy \<Rightarrow> u64 \<Rightarrow> u64 \<Rightarrow> bool list \<Rightarrow> bool list \<Rightarrow> 't durable_system \<Rightarrow> 't durable_system \<times> broker_effect list" where
  "then_dispatch T policy queue now sends reads s =
    (let (a, effects, acts) = durable_dispatch T policy (ds_table s) queue now sends reads (ds_actor s)
     in (fold (submit queue) acts (s\<lparr>ds_actor := a\<rparr>), effects))"

fun durable_step ::
    "'t table_ops \<Rightarrow> effective_policy \<Rightarrow> u64 \<Rightarrow> durable_event \<Rightarrow> 't durable_system \<Rightarrow> 't durable_system \<times> broker_effect list" where
  "durable_step T policy queue (Mailbox env msg) s =
    (let (a, om) = durable_handle T policy (ds_table s) queue env msg (ds_actor s);
         s = await_commit (om_waits om) (fold (submit queue) (om_acts om) (s\<lparr>ds_actor := a\<rparr>))
     in if om_go om
        then let (s, effects) = then_dispatch T policy queue (de_now_ms env) (de_sends env) (om_reads om) s in (s, om_effects om @ effects)
        else (s, om_effects om))"
| "durable_step T policy queue (Completion n env) s =
    (if n < length (ds_done s)
     then let (a, effects) = complete_commit (ds_done s ! n) (ds_actor s);
              s = s\<lparr>ds_actor := a, ds_done := remove_nth n (ds_done s)\<rparr>;
              (s, effects') = then_dispatch T policy queue (de_now_ms env) (de_sends env) (de_reads env) s
          in (s, effects @ effects')
     else (s, []))"
| "durable_step T policy queue (Commit n ok) s =
    (if n \<le> COMMIT_BATCH_MAX \<and> ds_writer_up s
     then let batch = take n (ds_channel s);
              ids = List.map_filter (inserts queue) batch;
              finished = filter (\<lambda>w. cw_msg_id w \<in> set ids) (ds_waiting s)
          in (s\<lparr>ds_table := if ok then apply_batch T batch (ds_table s) else ds_table s,
                ds_channel := drop n (ds_channel s),
                ds_waiting := filter (\<lambda>w. cw_msg_id w \<notin> set ids) (ds_waiting s),
                ds_done := ds_done s @ map (\<lambda>w. (w, ok)) finished\<rparr>, [])
     else (s, []))"
| "durable_step T policy queue (RouterResolved n) s =
    (if n < length (ds_deferred s)
     then (submit queue (Submit (StoreRemove queue (ds_deferred s ! n))) (s\<lparr>ds_deferred := remove_nth n (ds_deferred s)\<rparr>), [])
     else (s, []))"
| "durable_step T policy queue (OtherSubmit op) s = (submit queue (Submit op) s, [])"
| "durable_step T policy queue WriterDies s =
    (s\<lparr>ds_writer_up := False, ds_channel := [], ds_waiting := [], ds_done := ds_done s @ map (\<lambda>w. (w, False)) (ds_waiting s)\<rparr>, [])"

fun durable_run ::
    "'t table_ops \<Rightarrow> effective_policy \<Rightarrow> u64 \<Rightarrow> durable_event list \<Rightarrow> 't durable_system \<Rightarrow> 't durable_system \<times> broker_effect list" where
  "durable_run T policy queue [] s = (s, [])"
| "durable_run T policy queue (e # es) s =
    (let (s, effects) = durable_step T policy queue e s;
         (s, effects') = durable_run T policy queue es s
     in (s, effects @ effects'))"

text \<open>Starting on a store, after a crash or the first time.\<close>

definition recover :: "'t table_ops \<Rightarrow> u64 \<Rightarrow> 't \<Rightarrow> 't durable_system" where
  "recover T queue t = \<lparr>ds_actor = recover_actor (scan T t queue), ds_table = t, ds_channel = [], ds_writer_up = True,
    ds_waiting = [], ds_done = [], ds_deferred = []\<rparr>"

end
