(* ===== verification/Broker_Durable_Laws.thy ===== *)
theory Broker_Durable_Laws
  imports Broker_Durable
begin

section \<open>What a durable queue guarantees\<close>

text \<open>
  The actor's ready and in-flight messages are always on disk and never scheduled for removal, in
  every interleaving with the writer and the dead-letter router (\<open>durable_inv\<close>). It follows that a
  confirmed publish survives a crash at any moment, with its body, until a consumer settles it or
  policy hands a copy to the dead-letter router.
\<close>

subsection \<open>Entries of the actor\<close>

definition entries_ok :: "(u64, u64 \<times> nat) btree \<Rightarrow> inflight \<Rightarrow> bool" where
  "entries_ok ready infl \<longleftrightarrow> bt_ok ready \<and> distinct (map fst infl) \<and> fst ` set ready \<inter> fst ` set infl = {}"

definition live_ids :: "(u64, u64 \<times> nat) btree \<Rightarrow> inflight \<Rightarrow> u64 set" where
  "live_ids ready infl = fst ` set ready \<union> fst ` set infl"

lemma keys_bt_insert: "bt_ok m \<Longrightarrow> fst ` set (bt_insert k v m) = insert k (fst ` set m)"
  by (auto simp: set_bt_insert image_iff)

lemma fold_bt_insert:
  fixes f :: "'a \<Rightarrow> 'k::linorder \<times> 'v"
  assumes "bt_ok m"
  shows "bt_ok (fold (\<lambda>x m. bt_insert (fst (f x)) (snd (f x)) m) xs m) \<and>
    fst ` set (fold (\<lambda>x m. bt_insert (fst (f x)) (snd (f x)) m) xs m) = fst ` f ` set xs \<union> fst ` set m"
  using assms by (induction xs arbitrary: m) (auto simp: keys_bt_insert)

lemma release_held_by_spec:
  assumes "entries_ok ready infl" "release_held_by sub infl ready = (infl', ready')"
  shows "entries_ok ready' infl' \<and> live_ids ready' infl' = live_ids ready infl"
proof -
  let ?f = "\<lambda>(i, owner, ms, len). (i, ms, len) :: u64 \<times> u64 \<times> nat"
  let ?mine = "filter (\<lambda>(_, owner, _). owner = sub) infl"
  have eq: "(\<lambda>(i, owner, ms, len) m. bt_insert i (ms, len) m) = (\<lambda>x m. bt_insert (fst (?f x)) (snd (?f x)) m)"
    by (auto simp: fun_eq_iff)
  have r: "ready' = fold (\<lambda>x m. bt_insert (fst (?f x)) (snd (?f x)) m) ?mine ready"
    and i: "infl' = filter (\<lambda>(_, owner, _). owner \<noteq> sub) infl"
    using assms(2) unfolding release_held_by_def eq by simp_all
  have ok: "bt_ok ready" "distinct (map fst infl)" "fst ` set ready \<inter> fst ` set infl = {}"
    using assms(1) by (simp_all add: entries_ok_def)
  have keys: "bt_ok ready'" "fst ` set ready' = fst ` set ?mine \<union> fst ` set ready"
    using fold_bt_insert [OF ok(1), of ?f ?mine] by (auto simp: r image_image case_prod_unfold)
  have "inj_on fst (set infl)" using ok(2) by (simp add: distinct_map)
  then have "fst ` set ?mine \<inter> fst ` set infl' = fst ` (set ?mine \<inter> set infl')"
    unfolding i by (subst inj_on_image_Int) auto
  then have "fst ` set ?mine \<inter> fst ` set infl' = {}" unfolding i by auto
  moreover have all: "fst ` set infl = fst ` set ?mine \<union> fst ` set infl'" unfolding i by force
  moreover have "fst ` set ready \<inter> fst ` set infl' = {}" using ok(3) unfolding all Int_Un_distrib by simp
  moreover have "distinct (map fst infl')" unfolding i using ok(2) by (auto simp: distinct_map intro: inj_on_subset)
  ultimately show ?thesis unfolding entries_ok_def live_ids_def keys(2) all Int_Un_distrib2 by (simp add: keys(1) Un_ac)
qed

lemma drop_inflight_spec:
  assumes "distinct (map fst infl)"
  shows "distinct (map fst (drop_inflight i infl))" "fst ` set (drop_inflight i infl) = fst ` set infl - {i}"
  using assms by (auto simp: drop_inflight_def distinct_map intro: inj_on_subset)

subsection \<open>Reading bodies\<close>

definition durable_body :: "'t table_ops \<Rightarrow> 't \<Rightarrow> u64 \<Rightarrow> u64 \<Rightarrow> bytes option" where
  "durable_body T t queue i = map_option (snd \<circ> snd) (tb_get T t (queue, i))"

definition reads_ok :: "bool list \<Rightarrow> bool" where
  "reads_ok reads \<longleftrightarrow> (\<forall>r \<in> set reads. r)"

lemma store_body_ok:
  assumes "reads_ok reads"
  shows "fst (store_body T t reads queue i) = durable_body T t queue i" "reads_ok (snd (store_body T t reads queue i))"
  using assms by (cases reads; simp add: store_body_def durable_body_def reads_ok_def)+

subsection \<open>The dispatch loop\<close>

lemma dispatch_loop_entries:
  assumes "durable_dispatch_loop T t queue sends reads ready infl subs rr = (ready', infl', subs', rr', effs)" "entries_ok ready infl"
  shows "entries_ok ready' infl' \<and> live_ids ready' infl' \<subseteq> live_ids ready infl \<and>
    (reads_ok reads \<longrightarrow> (\<forall>i \<in> live_ids ready infl. durable_body T t queue i \<noteq> None) \<longrightarrow> live_ids ready' infl' = live_ids ready infl)"
  using assms
proof (induction T t queue sends reads ready infl subs rr arbitrary: ready' infl' subs' rr' effs rule: durable_dispatch_loop.induct)
  case (2 T t queue sends reads msg_id ms len ready infl subs rr)
  let ?i = msg_id
  have ok: "bt_ok ready" "distinct (map fst infl)" "?i \<notin> fst ` set ready" "?i \<notin> fst ` set infl" "fst ` set ready \<inter> fst ` set infl = {}"
    using "2.prems"(2) by (auto simp: entries_ok_def bt_ok_Cons)
  show ?case
  proof (cases "pick_ready subs rr")
    case None
    then show ?thesis using "2.prems" by auto
  next
    case pick: (Some idx)
    obtain body reads1 where sb: "store_body T t reads queue ?i = (body, reads1)" by fastforce
    have reads1: "reads_ok reads \<longrightarrow> reads_ok reads1 \<and> body = durable_body T t queue ?i"
      using store_body_ok [of reads T t queue ?i] unfolding sb fst_conv snd_conv by blast
    show ?thesis
    proof (cases body)
      case None
      have "entries_ok ready infl" "live_ids ((?i, ms, len) # ready) infl = insert ?i (live_ids ready infl)"
        using ok by (auto simp: entries_ok_def live_ids_def)
      moreover have "durable_dispatch_loop T t queue sends reads1 ready infl subs rr = (ready', infl', subs', rr', effs)"
        using "2.prems"(1) None pick sb by simp
      ultimately show ?thesis using "2.IH"(1) [OF pick refl sb [symmetric] None] reads1 None by auto
    next
      case (Some b)
      let ?rr = "(idx + 1) mod length subs" and ?sub = "subs ! idx"
      let ?subs = "subs[idx := ?sub\<lparr>sub_demand := sub_demand ?sub - 1\<rparr>]"
      obtain ok1 sends1 where ns: "next_send sends = (ok1, sends1)" by fastforce
      show ?thesis
      proof (cases ok1)
        case True
        let ?infl = "(?i, sub_id ?sub, ms, len) # drop_inflight ?i infl"
        have "drop_inflight ?i infl = infl" unfolding drop_inflight_def using ok(4) by (intro filter_True) force
        then have live: "entries_ok ready ?infl" "live_ids ready ?infl = live_ids ((?i, ms, len) # ready) infl"
          using ok by (auto simp: entries_ok_def live_ids_def)
        obtain r i s k e where rec: "durable_dispatch_loop T t queue sends1 reads1 ready ?infl ?subs ?rr = (r, i, s, k, e)"
          by (metis prod_cases5)
        then have "ready' = r" "infl' = i" using "2.prems"(1) True ns sb Some pick by (simp_all add: Let_def)
        then show ?thesis using "2.IH"(2) [OF pick refl sb [symmetric] Some refl refl refl refl refl ns [symmetric] True rec live(1)]
          live(2) reads1 by auto
      next
        case False
        obtain infl1 ready1 where rel: "release_held_by (sub_id ?sub) infl (bt_insert ?i (ms, len) ready) = (infl1, ready1)" by fastforce
        have "entries_ok (bt_insert ?i (ms, len) ready) infl"
          "live_ids (bt_insert ?i (ms, len) ready) infl = live_ids ((?i, ms, len) # ready) infl"
          using ok by (auto simp: entries_ok_def live_ids_def keys_bt_insert)
        then have live: "entries_ok ready1 infl1" "live_ids ready1 infl1 = live_ids ((?i, ms, len) # ready) infl"
          using release_held_by_spec [OF _ rel] by auto
        have "durable_dispatch_loop T t queue sends1 reads1 ready1 infl1 (retain_others (sub_id ?sub) ?subs) ?rr = (ready', infl', subs', rr', effs)"
          using "2.prems"(1) False ns sb Some pick rel by (simp add: Let_def)
        then show ?thesis using "2.IH"(3) [OF pick refl sb [symmetric] Some refl refl refl refl refl ns [symmetric] False refl rel [symmetric] _ live(1)]
          live(2) reads1 by auto
      qed
    qed
  qed
qed simp

subsection \<open>Giving up messages\<close>

fun removes :: "u64 \<Rightarrow> store_act \<Rightarrow> u64 option" where
  "removes queue (Submit (StoreRemove q i)) = (if q = queue then Some i else None)"
| "removes queue (Defer i) = Some i"
| "removes queue _ = None"

lemma dead_letter_then_remove_spec:
  assumes "dead_letter_then_remove T p t reads queue i = (effs, acts, reads')"
  shows "\<forall>act \<in> set acts. removes queue act = Some i"
    and "reads_ok reads \<Longrightarrow> reads_ok reads' \<and> (\<forall>b. durable_body T t queue i = Some b \<longrightarrow> effs = dead_letter p b)"
proof -
  obtain body where sb: "store_body T t reads queue i = (body, reads')"
    using assms by (auto simp: dead_letter_then_remove_def Let_def split: prod.splits)
  then have e: "effs = (case body of Some b \<Rightarrow> dead_letter p b | None \<Rightarrow> [])"
    "acts = (if effs \<noteq> [] then [Defer i] else [Submit (StoreRemove queue i)])"
    using assms by (auto simp: dead_letter_then_remove_def Let_def)
  show "\<forall>act \<in> set acts. removes queue act = Some i" by (simp add: e(2))
  show "reads_ok reads' \<and> (\<forall>b. durable_body T t queue i = Some b \<longrightarrow> effs = dead_letter p b)" if "reads_ok reads"
    using store_body_ok [OF that, of T t queue i] by (auto simp: sb e(1))
qed

text \<open>The first messages of the ready ones leave, each with its removal and, where it can be read, its copies.\<close>

definition gives_up ::
    "'t table_ops \<Rightarrow> effective_policy \<Rightarrow> 't \<Rightarrow> u64 \<Rightarrow> bool list \<Rightarrow> (u64, u64 \<times> nat) btree \<Rightarrow> (u64, u64 \<times> nat) btree \<Rightarrow>
     broker_effect list \<Rightarrow> store_act list \<Rightarrow> bool list \<Rightarrow> bool" where
  "gives_up T p t queue reads ready ready' effs acts reads' \<longleftrightarrow>
    (\<exists>gone. ready = gone @ ready' \<and> (\<forall>act \<in> set acts. \<exists>i \<in> fst ` set gone. removes queue act = Some i) \<and>
      (reads_ok reads \<longrightarrow> reads_ok reads' \<and>
        (\<forall>i \<in> fst ` set gone. \<forall>b. durable_body T t queue i = Some b \<longrightarrow> set (dead_letter p b) \<subseteq> set effs)))"

lemma gives_up_Nil: "gives_up T p t queue reads ready ready [] [] reads"
  by (simp add: gives_up_def)

lemma gives_up_Cons:
  assumes "dead_letter_then_remove T p t reads queue i = (effs, acts, reads1)" "gives_up T p t queue reads1 ready ready' effs' acts' reads2"
  shows "gives_up T p t queue reads ((i, v) # ready) ready' (effs @ effs') (acts @ acts') reads2"
proof -
  obtain gone where g: "ready = gone @ ready'" "\<forall>act \<in> set acts'. \<exists>i \<in> fst ` set gone. removes queue act = Some i"
    "reads_ok reads1 \<longrightarrow> reads_ok reads2 \<and>
        (\<forall>i \<in> fst ` set gone. \<forall>b. durable_body T t queue i = Some b \<longrightarrow> set (dead_letter p b) \<subseteq> set effs')"
    using assms(2) by (auto simp: gives_up_def)
  note d = dead_letter_then_remove_spec [OF assms(1)]
  have "\<exists>j \<in> fst ` set ((i, v) # gone). removes queue act = Some j" if "act \<in> set (acts @ acts')" for act
    using that d(1) g(2) by fastforce
  moreover have "reads_ok reads2 \<and> (\<forall>j \<in> fst ` set ((i, v) # gone). \<forall>b. durable_body T t queue j = Some b \<longrightarrow>
      set (dead_letter p b) \<subseteq> set (effs @ effs'))" if "reads_ok reads"
  proof -
    have here: "reads_ok reads1" "\<forall>b. durable_body T t queue i = Some b \<longrightarrow> effs = dead_letter p b" using d(2) [OF that] by blast+
    have there: "reads_ok reads2"
      "\<forall>j \<in> fst ` set gone. \<forall>b. durable_body T t queue j = Some b \<longrightarrow> set (dead_letter p b) \<subseteq> set effs'" using g(3) here(1) by simp_all
    have "set (dead_letter p b) \<subseteq> set (effs @ effs')" if "j = i \<or> j \<in> fst ` set gone" "durable_body T t queue j = Some b" for j b
    proof (cases "j = i")
      case True
      then show ?thesis using that(2) here(2) by simp
    next
      case False
      then have "set (dead_letter p b) \<subseteq> set effs'" using that there(2) by blast
      then show ?thesis by (simp add: le_supI2)
    qed
    then show ?thesis using there(1) by simp
  qed
  ultimately show ?thesis unfolding gives_up_def using g(1) by (intro exI [of _ "(i, v) # gone"]) simp
qed

lemma drop_heads_gives_up:
  "durable_drop_heads T p t queue n r others reads ready failures bytes = (nr, ready', failures', bytes', effs, acts, reads') \<Longrightarrow>
    gives_up T p t queue reads ready ready' effs acts reads'"
proof (induction ready arbitrary: reads failures bytes nr ready' failures' bytes' effs acts reads')
  case (Cons x ready)
  obtain i ms len where x: "x = (i, ms, len)" by (metis prod_cases3)
  obtain e1 a1 r1 where d: "dead_letter_then_remove T p t reads queue i = (e1, a1, r1)" by (metis prod_cases3)
  show ?case
  proof (cases "over p n r others (length ready) (bytes - len)")
    case True
    obtain nr2 ready2 f2 b2 e2 a2 r2 where rec: "durable_drop_heads T p t queue n r others r1 ready (failures(i := None)) (bytes - len)
        = (nr2, ready2, f2, b2, e2, a2, r2)" by (metis prod_cases7)
    then have "ready' = ready2" "effs = e1 @ e2" "acts = a1 @ a2" "reads' = r2" using Cons.prems True d by (simp_all add: x Let_def)
    then show ?thesis using gives_up_Cons [OF d Cons.IH [OF rec]] by (simp add: x)
  next
    case False
    then have "ready' = ready" "effs = e1" "acts = a1" "reads' = r1" using Cons.prems d by (simp_all add: x Let_def)
    then show ?thesis using gives_up_Cons [OF d gives_up_Nil, of "(ms, len)" ready] by (simp add: x)
  qed
qed (simp add: gives_up_Nil)

lemma expire_gives_up:
  "durable_expire T p t queue now reads ready failures bytes = (ready', failures', bytes', effs, acts, reads') \<Longrightarrow>
    gives_up T p t queue reads ready ready' effs acts reads'"
proof (induction ready arbitrary: reads failures bytes ready' failures' bytes' effs acts reads')
  case (Cons x ready)
  obtain i ms len where x: "x = (i, ms, len)" by (metis prod_cases3)
  obtain e1 a1 r1 where d: "dead_letter_then_remove T p t reads queue i = (e1, a1, r1)" by (metis prod_cases3)
  show ?case
  proof (cases "expired p ms now")
    case True
    obtain ready2 f2 b2 e2 a2 r2 where rec: "durable_expire T p t queue now r1 ready (failures(i := None)) (bytes - len)
        = (ready2, f2, b2, e2, a2, r2)" by (metis prod_cases6)
    then have "ready' = ready2" "effs = e1 @ e2" "acts = a1 @ a2" "reads' = r2" using Cons.prems True d by (simp_all add: x)
    then show ?thesis using gives_up_Cons [OF d Cons.IH [OF rec]] by (simp add: x)
  next
    case False
    then show ?thesis using Cons.prems by (simp add: x gives_up_Nil)
  qed
qed (simp add: gives_up_Nil)

subsection \<open>What an operation may do to the entries\<close>

abbreviation actor_ok :: "durable_actor \<Rightarrow> bool" where
  "actor_ok a \<equiv> entries_ok (da_ready a) (da_inflight a)"

abbreviation live :: "durable_actor \<Rightarrow> u64 set" where
  "live a \<equiv> live_ids (da_ready a) (da_inflight a)"

text \<open>
  Entries only leave; a removal is asked for only of an entry that has left; and when reads succeed
  an entry that left was settled or copied to the dead-letter router.
\<close>

definition explained ::
    "'t table_ops \<Rightarrow> effective_policy \<Rightarrow> 't \<Rightarrow> u64 \<Rightarrow> u64 set \<Rightarrow> durable_actor \<Rightarrow> durable_actor \<Rightarrow> broker_effect list \<Rightarrow> bool" where
  "explained T p t queue acked a a' effs \<longleftrightarrow> (\<forall>i \<in> live a. durable_body T t queue i \<noteq> None) \<longrightarrow>
    (\<forall>i \<in> live a - live a'. i \<in> acked \<or> (\<forall>b. durable_body T t queue i = Some b \<longrightarrow> set (dead_letter p b) \<subseteq> set effs))"

definition act_ok :: "u64 \<Rightarrow> durable_actor \<Rightarrow> durable_actor \<Rightarrow> store_act \<Rightarrow> bool" where
  "act_ok queue a a' act \<longleftrightarrow> (\<exists>i. act = Submit (StoreFail queue i)) \<or> (\<exists>i. removes queue act = Some i \<and> i \<in> live a \<and> i \<notin> live a')"

definition moves ::
    "'t table_ops \<Rightarrow> effective_policy \<Rightarrow> 't \<Rightarrow> u64 \<Rightarrow> u64 set \<Rightarrow> bool \<Rightarrow> durable_actor \<Rightarrow> durable_actor \<Rightarrow> broker_effect list \<Rightarrow> store_act list \<Rightarrow> bool" where
  "moves T p t queue acked good a a' effs acts \<longleftrightarrow> actor_ok a' \<and> live a' \<subseteq> live a \<and> da_next_msg_id a' = da_next_msg_id a \<and>
    (\<forall>act \<in> set acts. act_ok queue a a' act) \<and> (good \<longrightarrow> explained T p t queue acked a a' effs)"

lemma moves_trans:
  assumes "moves T p t queue acked good a a1 e1 acts1" "moves T p t queue acked good a1 a2 e2 acts2"
  shows "moves T p t queue acked good a a2 (e1 @ e2) (acts1 @ acts2)"
proof -
  have live: "live a1 \<subseteq> live a" "live a2 \<subseteq> live a1" using assms by (simp_all add: moves_def)
  have "act_ok queue a a2 act" if "act \<in> set (acts1 @ acts2)" for act
  proof -
    have "act_ok queue a a1 act \<or> act_ok queue a1 a2 act" using assms that by (auto simp: moves_def)
    then show ?thesis using live unfolding act_ok_def by blast
  qed
  moreover have "explained T p t queue acked a a2 (e1 @ e2)" if good
  proof -
    have "explained T p t queue acked a a1 e1" "explained T p t queue acked a1 a2 e2" using assms that by (simp_all add: moves_def)
    then show ?thesis using live unfolding explained_def set_append by (meson DiffD1 DiffD2 DiffI le_supI1 le_supI2 subsetD)
  qed
  ultimately show ?thesis using assms live by (simp add: moves_def)
qed

lemma moves_same:
  "actor_ok a' \<Longrightarrow> live a' = live a \<Longrightarrow> da_next_msg_id a' = da_next_msg_id a \<Longrightarrow> \<forall>act \<in> set acts. \<exists>i. act = Submit (StoreFail queue i) \<Longrightarrow>
    moves T p t queue acked good a a' effs acts"
  by (simp add: moves_def explained_def act_ok_def)

lemma gives_up_moves:
  assumes "gives_up T p t queue reads (da_ready a) ready' effs acts reads'" "actor_ok a"
    and "da_ready a' = ready'" "da_inflight a' = da_inflight a" "da_next_msg_id a' = da_next_msg_id a"
  shows "moves T p t queue {} (reads_ok reads) a a' effs acts"
proof -
  obtain gone where g: "da_ready a = gone @ ready'" "\<forall>act \<in> set acts. \<exists>i \<in> fst ` set gone. removes queue act = Some i"
    "reads_ok reads \<longrightarrow> (\<forall>i \<in> fst ` set gone. \<forall>b. durable_body T t queue i = Some b \<longrightarrow> set (dead_letter p b) \<subseteq> set effs)"
    using assms(1) unfolding gives_up_def by blast
  have ok: "bt_ok (gone @ ready')" "distinct (map fst (da_inflight a))" "(fst ` set gone \<union> fst ` set ready') \<inter> fst ` set (da_inflight a) = {}"
    using assms(2) g(1) by (simp_all add: entries_ok_def image_Un)
  have "distinct (map fst (gone @ ready'))" using ok(1) by (rule bt_ok_distinct)
  then have disj: "fst ` set gone \<inter> fst ` set ready' = {}" by auto
  have live': "live a' = live a - fst ` set gone" "fst ` set gone \<subseteq> live a"
    using disj ok(3) by (auto simp: live_ids_def assms(3,4) g(1) image_Un)
  have "bt_ok ready'" using ok(1) by (simp add: bt_ok_def sorted_wrt_append)
  then have "actor_ok a'" using ok by (auto simp: entries_ok_def assms(3,4))
  moreover have "\<forall>act \<in> set acts. act_ok queue a a' act" unfolding act_ok_def live' using g(2) live'(2) by blast
  moreover have "explained T p t queue {} a a' effs" if "reads_ok reads" unfolding explained_def live' using g(3) that by blast
  ultimately show ?thesis using live'(1) assms(5) by (auto simp: moves_def)
qed

subsection \<open>The operations\<close>

lemma make_room_moves:
  assumes "durable_make_room T p t queue n reads a = (nr, a', effs, acts, reads')" "actor_ok a"
  shows "moves T p t queue {} (reads_ok reads) a a' effs acts" "reads_ok reads \<longrightarrow> reads_ok reads'"
proof -
  have "gives_up T p t queue reads (da_ready a) (da_ready a') effs acts reads' \<and> da_inflight a' = da_inflight a \<and> da_next_msg_id a' = da_next_msg_id a"
    using assms(1) by (auto simp: durable_make_room_def Let_def gives_up_Nil split: if_splits prod.splits dest: drop_heads_gives_up)
  then have g: "gives_up T p t queue reads (da_ready a) (da_ready a') effs acts reads'"
    and same: "da_inflight a' = da_inflight a" "da_next_msg_id a' = da_next_msg_id a" by simp_all
  show "moves T p t queue {} (reads_ok reads) a a' effs acts" by (rule gives_up_moves [OF g assms(2) refl same])
  show "reads_ok reads \<longrightarrow> reads_ok reads'" using g by (auto simp: gives_up_def)
qed

lemma dispatch_moves:
  assumes "durable_dispatch T p t queue now sends reads a = (a', effs, acts)" "actor_ok a"
  shows "moves T p t queue {} (reads_ok reads) a a' effs acts"
proof -
  obtain ready f b e1 acts1 reads1 where x: "(if ep_ttl_ms p \<noteq> None
      then durable_expire T p t queue now reads (da_ready a) (da_failures a) (da_bytes a)
      else (da_ready a, da_failures a, da_bytes a, [], [], reads)) = (ready, f, b, e1, acts1, reads1)" by (metis prod_cases6)
  obtain ready2 infl2 subs2 rr2 e2 where l: "durable_dispatch_loop T t queue sends reads1 ready (da_inflight a) (da_subs a) (da_rr a)
      = (ready2, infl2, subs2, rr2, e2)" by (metis prod_cases5)
  have a': "da_ready a' = ready2" "da_inflight a' = infl2" "da_next_msg_id a' = da_next_msg_id a" "effs = e1 @ e2" "acts = acts1 @ []"
    using assms(1) x l by (auto simp: durable_dispatch_def)
  have g: "gives_up T p t queue reads (da_ready a) ready e1 acts1 reads1"
    using x by (auto simp: gives_up_Nil split: if_splits dest: expire_gives_up)
  let ?mid = "a\<lparr>da_ready := ready\<rparr>"
  have m1: "moves T p t queue {} (reads_ok reads) a ?mid e1 acts1" using gives_up_moves [OF g assms(2)] by simp
  then have ok: "entries_ok ready (da_inflight a)" by (simp add: moves_def)
  have "reads_ok reads \<longrightarrow> reads_ok reads1" using g by (auto simp: gives_up_def)
  then have "moves T p t queue {} (reads_ok reads) ?mid a' e2 []"
    using dispatch_loop_entries [OF l ok] by (auto simp: moves_def explained_def a')
  then show ?thesis unfolding a'(4,5) by (rule moves_trans [OF m1])
qed

lemma inflight_dropped:
  assumes "actor_ok a" "i \<in> fst ` set (da_inflight a)"
    and "da_ready a' = da_ready a" "da_inflight a' = drop_inflight i (da_inflight a)" "da_next_msg_id a' = da_next_msg_id a"
    and "\<forall>act \<in> set acts. removes queue act = Some i"
    and "good \<longrightarrow> i \<in> acked \<or> (\<forall>b. durable_body T t queue i = Some b \<longrightarrow> set (dead_letter p b) \<subseteq> set effs)"
  shows "moves T p t queue acked good a a' effs acts"
proof -
  have ok: "bt_ok (da_ready a)" "distinct (map fst (da_inflight a))" "fst ` set (da_ready a) \<inter> fst ` set (da_inflight a) = {}"
    using assms(1) by (simp_all add: entries_ok_def)
  note d = drop_inflight_spec [OF ok(2), of i]
  have live': "live a' = live a - {i}" "i \<in> live a" using ok(3) assms(2) by (auto simp: live_ids_def assms(3,4) d(2))
  have "actor_ok a'" using ok d by (auto simp: entries_ok_def assms(3,4))
  then show ?thesis using assms(5-7) live' by (auto simp: moves_def act_ok_def explained_def)
qed

lemma inflight_requeued:
  assumes "actor_ok a" "i \<in> fst ` set (da_inflight a)"
    and "da_ready a' = bt_insert i v (da_ready a)" "da_inflight a' = drop_inflight i (da_inflight a)" "da_next_msg_id a' = da_next_msg_id a"
    and "\<forall>act \<in> set acts. act = Submit (StoreFail queue i)"
  shows "moves T p t queue acked good a a' effs acts"
proof -
  have ok: "bt_ok (da_ready a)" "distinct (map fst (da_inflight a))" "fst ` set (da_ready a) \<inter> fst ` set (da_inflight a) = {}"
    using assms(1) by (simp_all add: entries_ok_def)
  note d = drop_inflight_spec [OF ok(2), of i]
  have "live a' = live a" using assms(2) by (auto simp: live_ids_def assms(3,4) d(2) keys_bt_insert [OF ok(1)])
  moreover have "actor_ok a'" using ok d by (auto simp: entries_ok_def assms(3,4) keys_bt_insert)
  ultimately show ?thesis using assms(5,6) by (auto intro: moves_same)
qed

text \<open>The messages a command settles for good, and the body it publishes.\<close>

fun acked_by :: "durable_actor \<Rightarrow> queue_msg \<Rightarrow> u64 set" where
  "acked_by a (SettleMsg sub i oc) =
    (if oc \<in> {Ack, Drop} \<and> map_option fst (map_of (da_inflight a) i) = Some sub then {i} else {})"
| "acked_by a _ = {}"

fun published_body :: "queue_msg \<Rightarrow> bytes" where
  "published_body (Publish body _) = body"
| "published_body (PublishReserved body _) = body"
| "published_body _ = []"

lemma settle_moves:
  assumes "durable_settle T p t queue reads sub i oc a = (a', om)" "actor_ok a"
  shows "moves T p t queue (acked_by a (SettleMsg sub i oc)) (reads_ok reads) a a' (om_effects om) (om_acts om) \<and>
    om_waits om = [] \<and> (reads_ok reads \<longrightarrow> reads_ok (om_reads om))"
proof (cases "\<exists>ms len. map_of (da_inflight a) i = Some (sub, ms, len)")
  case False
  then have "a' = a" "om = quiet [] [] reads False" using assms(1)
    by (auto simp: durable_settle_def split: option.splits prod.splits if_splits)
  then show ?thesis using assms(2) by (auto simp: quiet_def intro: moves_same)
next
  case True
  then obtain ms len where e: "map_of (da_inflight a) i = Some (sub, ms, len)" by blast
  then have i: "i \<in> fst ` set (da_inflight a)" by (metis domI dom_map_of_conv_image_fst)
  obtain de da dr where d: "dead_letter_then_remove T p t reads queue i = (de, da, dr)" by (metis prod_cases3)
  note dl = dead_letter_then_remove_spec [OF d]
  show ?thesis
  proof (cases oc)
    case Requeue
    then show ?thesis using assms(1) e by (auto simp: durable_settle_def quiet_def intro!: inflight_requeued [OF assms(2) i, where v = "(ms, len)"])
  next
    case RequeueFailed
    show ?thesis
    proof (cases "attempts_exhausted p ((case da_failures a i of None \<Rightarrow> 0 | Some n \<Rightarrow> n) + 1)")
      case True
      then have "a' = a\<lparr>da_inflight := drop_inflight i (da_inflight a), da_failures := (da_failures a)(i := None), da_bytes := da_bytes a - len\<rparr>"
        "om = quiet de da dr True" using assms(1) e d RequeueFailed by (simp_all add: durable_settle_def Let_def)
      then show ?thesis using dl RequeueFailed by (auto simp: quiet_def intro!: inflight_dropped [OF assms(2) i])
    next
      case False
      then show ?thesis using assms(1) e RequeueFailed
        by (auto simp: durable_settle_def quiet_def Let_def intro!: inflight_requeued [OF assms(2) i, where v = "(ms, len)"])
    qed
  qed (use assms(1) e in \<open>auto simp: durable_settle_def quiet_def intro!: inflight_dropped [OF assms(2) i]\<close>)
qed

lemma moves_fields:
  "moves T p t queue acked good a a' effs acts \<Longrightarrow> da_ready b = da_ready a \<Longrightarrow> da_inflight b = da_inflight a \<Longrightarrow>
    da_next_msg_id b = da_next_msg_id a \<Longrightarrow> moves T p t queue acked good b a' effs acts"
  by (simp add: moves_def act_ok_def explained_def)

lemma moves_to_fields:
  "moves T p t queue acked good a a' effs acts \<Longrightarrow> da_ready b = da_ready a' \<Longrightarrow> da_inflight b = da_inflight a' \<Longrightarrow>
    da_next_msg_id b = da_next_msg_id a \<Longrightarrow> moves T p t queue acked good a b effs acts"
  by (simp add: moves_def act_ok_def explained_def)

lemma explained_more: "explained T p t queue {} a a' effs \<Longrightarrow> explained T p t queue acked a a' (effs @ effs')"
  unfolding explained_def set_append by (meson empty_iff le_supI1)

lemma moves_more_effects:
  "moves T p t queue {} good a a' effs acts \<Longrightarrow> moves T p t queue acked good a a' (effs @ effs') acts"
  by (simp add: moves_def explained_more)

text \<open>A publish is accepted with the next id, or moves nothing but what making room for it gave up.\<close>

definition accepts_publish ::
    "'t table_ops \<Rightarrow> effective_policy \<Rightarrow> 't \<Rightarrow> u64 \<Rightarrow> u64 set \<Rightarrow> bool \<Rightarrow> u64 \<Rightarrow> bytes \<Rightarrow> durable_actor \<Rightarrow> durable_actor \<Rightarrow> outcome_of_msg \<Rightarrow> bool" where
  "accepts_publish T p t queue acked good ms body a a' om \<longleftrightarrow>
    (\<exists>acts w. om_acts om = acts @ [Submit (StoreInsert queue (da_next_msg_id a + 1) ms body)] \<and> om_waits om = [w] \<and>
      cw_msg_id w = da_next_msg_id a + 1 \<and> da_next_msg_id a' = da_next_msg_id a + 1 \<and>
      moves T p t queue acked good a (a'\<lparr>da_next_msg_id := da_next_msg_id a\<rparr>) (om_effects om) acts)"

lemma publish_moves:
  assumes "durable_publish T p t queue env from_reserved body ack a = (a', om)" "actor_ok a"
  shows "(reads_ok (de_reads env) \<longrightarrow> reads_ok (om_reads om)) \<and>
    (om_waits om = [] \<and> moves T p t queue {} (reads_ok (de_reads env)) a a' (om_effects om) (om_acts om) \<or>
     accepts_publish T p t queue {} (reads_ok (de_reads env)) (de_enqueue_ms env) body a a' om)"
proof -
  define a0 where "a0 = (if from_reserved then a\<lparr>da_reserved := da_reserved a - 1\<rparr> else a)"
  have same: "da_ready a = da_ready a0" "da_inflight a = da_inflight a0" "da_next_msg_id a = da_next_msg_id a0" by (simp_all add: a0_def)
  obtain nr a1 effs acts reads' where mr: "durable_make_room T p t queue (length body) (de_reads env) a0 = (nr, a1, effs, acts, reads')"
    by (metis prod_cases5)
  have ok: "actor_ok a0" using assms(2) by (simp add: same)
  have m: "moves T p t queue {} (reads_ok (de_reads env)) a a1 effs acts" "reads_ok (de_reads env) \<longrightarrow> reads_ok reads'"
    using moves_fields [OF make_room_moves(1) [OF mr ok] same] make_room_moves(2) [OF mr ok] by blast+
  show ?thesis
  proof (cases "nr \<and> \<not> from_reserved")
    case True
    then have "a' = a1" "om_effects om = effs @ refuse_publish ack" "om_acts om = acts" "om_waits om = []" "om_reads om = reads'"
      using assms(1) mr by (auto simp: durable_publish_def a0_def)
    then show ?thesis using m(2) moves_more_effects [OF m(1), of "{}" "refuse_publish ack"] by simp
  next
    case False
    have next': "da_next_msg_id a1 = da_next_msg_id a" using m(1) by (simp add: moves_def)
    have "moves T p t queue {} (reads_ok (de_reads env)) a (a1\<lparr>da_publishes_pending := k, da_bytes := b,
        da_next_msg_id := da_next_msg_id a\<rparr>) effs acts" for k b by (rule moves_to_fields [OF m(1)]) simp_all
    then have "accepts_publish T p t queue {} (reads_ok (de_reads env)) (de_enqueue_ms env) body a a' om" "om_reads om = reads'"
      using assms(1) mr False next' by (auto simp: durable_publish_def a0_def accepts_publish_def Let_def)
    then show ?thesis using m(2) by simp
  qed
qed

lemma handle_moves:
  assumes "durable_handle T p t queue env msg a = (a', om)" "actor_ok a"
  shows "(reads_ok (de_reads env) \<longrightarrow> reads_ok (om_reads om)) \<and>
    (om_waits om = [] \<and> moves T p t queue (acked_by a msg) (reads_ok (de_reads env)) a a' (om_effects om) (om_acts om) \<or>
     accepts_publish T p t queue (acked_by a msg) (reads_ok (de_reads env)) (de_enqueue_ms env) (published_body msg) a a' om)"
proof (cases msg)
  case (Unsubscribe sub)
  then show ?thesis using assms release_held_by_spec [OF assms(2)]
    by (auto simp: quiet_def split: prod.splits intro!: moves_same)
next
  case (SettleMsg sub i oc)
  then show ?thesis using settle_moves [of T p t queue "de_reads env" sub i oc a a' om] assms by simp
next
  case (Publish body ack)
  then show ?thesis using publish_moves [of T p t queue env False body ack a a' om] assms by simp
next
  case (PublishReserved body ack)
  then show ?thesis using publish_moves [of T p t queue env True body ack a a' om] assms by simp
next
  case (Reserve slots reply)
  then have "da_ready a' = da_ready a \<and> da_inflight a' = da_inflight a \<and> da_next_msg_id a' = da_next_msg_id a"
    and "om_waits om = [] \<and> om_acts om = [] \<and> om_reads om = de_reads env"
    using assms(1) by (auto simp: quiet_def durable_reserve_def Let_def)
  then show ?thesis using assms(2) by (simp add: moves_same)
qed (use assms in \<open>auto simp: quiet_def Let_def intro!: moves_same\<close>)

subsection \<open>The committed table, seen through one message's body\<close>

fun body_op :: "u64 \<Rightarrow> u64 \<Rightarrow> store_op \<Rightarrow> bytes option \<Rightarrow> bytes option" where
  "body_op queue i (StoreInsert q j _ b) v = (if q = queue \<and> j = i then Some b else v)"
| "body_op queue i (StoreRemove q j) v = (if q = queue \<and> j = i then None else v)"
| "body_op queue i _ v = v"

lemma redb_laws:
  assumes "redb_table T" "tb_ok T t"
  shows "tb_get T (tb_insert T k v t) = (tb_get T t)(k \<mapsto> v)" "tb_get T (tb_remove T k t) = (tb_get T t)(k := None)"
    "tb_ok T (tb_insert T k v t)" "tb_ok T (tb_remove T k t)" "(k, v) \<in> set (tb_entries T t) \<longleftrightarrow> tb_get T t k = Some v"
  using assms unfolding redb_table_def
  by (simp_all add: sorted_map.get_insert sorted_map.get_remove sorted_map.invar_insert sorted_map.invar_remove sorted_map.entries_get fun_upd_def)

lemma apply_op_body:
  assumes "redb_table T" "tb_ok T t"
  shows "tb_ok T (apply_op T op t) \<and> durable_body T (apply_op T op t) queue i = body_op queue i op (durable_body T t queue i)"
  by (cases op) (auto simp: redb_laws [OF assms] assms(2) durable_body_def split: option.splits)

lemma apply_batch_body:
  assumes "redb_table T"
  shows "tb_ok T t \<Longrightarrow> tb_ok T (apply_batch T ops t) \<and>
    durable_body T (apply_batch T ops t) queue i = fold (body_op queue i) ops (durable_body T t queue i)"
  unfolding apply_batch_def
proof (induction ops arbitrary: t)
  case (Cons op ops)
  note h = apply_op_body [OF assms Cons.prems, of op queue i]
  then show ?case using Cons.IH [of "apply_op T op t"] by simp
qed simp

text \<open>What a batch leaves of a message: its body when it was there or is inserted, and is not removed.\<close>

lemma batch_keeps:
  "StoreRemove queue i \<notin> set ops \<Longrightarrow> v \<noteq> None \<or> i \<in> set (List.map_filter (inserts queue) ops) \<Longrightarrow> fold (body_op queue i) ops v \<noteq> None"
proof (induction ops arbitrary: v)
  case (Cons op ops)
  then show ?case by (cases op) (auto split: if_splits)
qed simp

lemma batch_origin:
  "fold (body_op queue i) ops v = Some b \<Longrightarrow> v = Some b \<or> (\<exists>ms. StoreInsert queue i ms b \<in> set ops)"
proof (induction ops arbitrary: v)
  case (Cons op ops)
  then have "body_op queue i op v = Some b \<or> (\<exists>ms. StoreInsert queue i ms b \<in> set ops)" by simp
  then show ?case by (cases op) (auto split: if_splits)
qed simp

lemma inserts_set: "i \<in> set (List.map_filter (inserts queue) ops) \<longleftrightarrow> (\<exists>ms b. StoreInsert queue i ms b \<in> set ops)"
proof (induction ops)
  case (Cons op ops)
  then show ?case by (cases op) (auto)
qed simp

subsection \<open>Submitting\<close>

fun submitted :: "store_act \<Rightarrow> store_op option" where
  "submitted (Submit op) = Some op"
| "submitted (Defer _) = None"

fun deferral :: "store_act \<Rightarrow> u64 option" where
  "deferral (Submit _) = None"
| "deferral (Defer i) = Some i"

lemma fold_submit:
  "fold (submit queue) acts s = s\<lparr>ds_channel := ds_channel s @ (if ds_writer_up s then List.map_filter submitted acts else []),
    ds_deferred := ds_deferred s @ List.map_filter deferral acts\<rparr>"
proof (induction acts arbitrary: s)
  case (Cons act acts)
  then show ?case by (cases act) simp_all
qed simp

lemma submitted_set: "op \<in> set (List.map_filter submitted acts) \<longleftrightarrow> Submit op \<in> set acts"
proof (induction acts)
  case (Cons act acts)
  then show ?case by (cases act) (auto)
qed simp

lemma deferral_set: "i \<in> set (List.map_filter deferral acts) \<longleftrightarrow> Defer i \<in> set acts"
proof (induction acts)
  case (Cons act acts)
  then show ?case by (cases act) (auto)
qed simp

end
