(* ===== verification/Broker_Crash.thy ===== *)
theory Broker_Crash
  imports Broker_Durable_Laws
begin

section \<open>Crash safety of durable queues\<close>

text \<open>
  The invariant \<open>durable_inv\<close> of the system of \<open>Broker_Durable\<close>: what the actor holds, and what the
  writer has committed for it, is on disk and not scheduled for removal. Every event keeps it. A
  ledger of what was published, confirmed, settled and dead-lettered then shows that a confirmed
  publish survives a crash at any moment.
\<close>

subsection \<open>The invariant\<close>

definition waiting_ids :: "'t durable_system \<Rightarrow> u64 list" where
  "waiting_ids s = map cw_msg_id (ds_waiting s)"

definition done_ids :: "'t durable_system \<Rightarrow> u64 list" where
  "done_ids s = map (\<lambda>d. cw_msg_id (fst d)) (ds_done s)"

definition pledged :: "'t durable_system \<Rightarrow> u64 set" where
  "pledged s = set (map (\<lambda>d. cw_msg_id (fst d)) (filter snd (ds_done s)))"

definition scheduled :: "u64 \<Rightarrow> 't durable_system \<Rightarrow> u64 set" where
  "scheduled queue s = {i. StoreRemove queue i \<in> set (ds_channel s)} \<union> set (ds_deferred s)"

definition on_disk :: "'t table_ops \<Rightarrow> u64 \<Rightarrow> 't durable_system \<Rightarrow> u64 set" where
  "on_disk T queue s = {i. durable_body T (ds_table s) queue i \<noteq> None}"

abbreviation held_ids :: "'t durable_system \<Rightarrow> u64 set" where
  "held_ids s \<equiv> live (ds_actor s)"

definition ids_inv :: "u64 \<Rightarrow> 't durable_system \<Rightarrow> bool" where
  "ids_inv queue s \<longleftrightarrow> List.map_filter (inserts queue) (ds_channel s) = waiting_ids s \<and>
    distinct (waiting_ids s @ done_ids s) \<and> (set (waiting_ids s) \<union> set (done_ids s)) \<inter> held_ids s = {} \<and>
    (held_ids s \<union> pledged s \<union> set (waiting_ids s)) \<inter> scheduled queue s = {}"

definition bounded :: "'t table_ops \<Rightarrow> u64 \<Rightarrow> 't durable_system \<Rightarrow> bool" where
  "bounded T queue s \<longleftrightarrow>
    (\<forall>i \<in> held_ids s \<union> set (waiting_ids s) \<union> set (done_ids s) \<union> scheduled queue s \<union> on_disk T queue s. i \<le> da_next_msg_id (ds_actor s))"

definition durable_inv :: "'t table_ops \<Rightarrow> u64 \<Rightarrow> 't durable_system \<Rightarrow> bool" where
  "durable_inv T queue s \<longleftrightarrow> tb_ok T (ds_table s) \<and> actor_ok (ds_actor s) \<and> ids_inv queue s \<and> bounded T queue s \<and>
    held_ids s \<union> pledged s \<subseteq> on_disk T queue s \<and> (\<not> ds_writer_up s \<longrightarrow> ds_channel s = [] \<and> ds_waiting s = [])"

lemmas id_sets = waiting_ids_def done_ids_def pledged_def scheduled_def on_disk_def

subsection \<open>The actor moves\<close>

lemma no_inserts: "\<forall>act \<in> set acts. act_ok queue a a' act \<Longrightarrow> List.map_filter (inserts queue) (List.map_filter submitted acts) = []"
proof (induction acts)
  case (Cons act acts)
  then have rest: "List.map_filter (inserts queue) (List.map_filter submitted acts) = []" and ok: "act_ok queue a a' act" by simp_all
  show ?case
  proof (cases act)
    case (Submit op)
    then show ?thesis using rest ok by (cases op) (auto simp: act_ok_def)
  qed (simp add: rest)
qed simp

lemma map_filter_append: "List.map_filter f (xs @ ys) = List.map_filter f xs @ List.map_filter f ys"
  by (simp add: List.map_filter_def)

lemma scheduled_after:
  assumes "\<forall>act \<in> set acts. act_ok queue a a' act"
  shows "scheduled queue (fold (submit queue) acts s) \<subseteq> scheduled queue s \<union> (live a - live a')"
proof -
  have "i \<in> live a - live a'" if "Submit (StoreRemove queue i) \<in> set acts \<or> Defer i \<in> set acts" for i
    using that assms unfolding act_ok_def by (metis DiffI option.inject removes.simps(1,2) store_act.distinct(1) store_act.inject(1) store_op.distinct(7))
  then show ?thesis by (auto simp: scheduled_def fold_submit submitted_set deferral_set split: if_splits)
qed

lemma pledged_done: "pledged s \<subseteq> set (done_ids s)"
  by (force simp: id_sets)

lemma moves_inv:
  assumes "durable_inv T queue s" "moves T p t queue acked good (ds_actor s) a' effs acts"
  shows "durable_inv T queue (fold (submit queue) acts (s\<lparr>ds_actor := a'\<rparr>))"
proof -
  let ?s = "fold (submit queue) acts (s\<lparr>ds_actor := a'\<rparr>)"
  have m: "actor_ok a'" "live a' \<subseteq> held_ids s" "da_next_msg_id a' = da_next_msg_id (ds_actor s)" "\<forall>act \<in> set acts. act_ok queue (ds_actor s) a' act"
    using assms(2) by (simp_all add: moves_def)
  have sched: "scheduled queue ?s \<subseteq> scheduled queue s \<union> (held_ids s - live a')"
    using scheduled_after [OF m(4), of "s\<lparr>ds_actor := a'\<rparr>"] by (simp add: scheduled_def)
  have same: "waiting_ids ?s = waiting_ids s" "done_ids ?s = done_ids s" "pledged ?s = pledged s" "on_disk T queue ?s = on_disk T queue s"
    "ds_actor ?s = a'" "ds_table ?s = ds_table s" "ds_writer_up ?s = ds_writer_up s" "ds_waiting ?s = ds_waiting s"
    "List.map_filter (inserts queue) (ds_channel ?s) = List.map_filter (inserts queue) (ds_channel s)"
    "\<not> ds_writer_up s \<longrightarrow> ds_channel ?s = ds_channel s"
    by (simp_all add: fold_submit id_sets map_filter_append no_inserts [OF m(4)])
  note pd = pledged_done [of s]
  have inv: "ids_inv queue s" "bounded T queue s" "held_ids s \<union> pledged s \<subseteq> on_disk T queue s" using assms(1) by (simp_all add: durable_inv_def)
  have "ids_inv queue ?s" using inv(1) m(2) sched pd unfolding ids_inv_def same by blast
  moreover have "bounded T queue ?s" using inv(2) m(2) sched unfolding bounded_def same m(3) by blast
  moreover have "live a' \<union> pledged s \<subseteq> on_disk T queue s" using inv(3) m(2) by blast
  ultimately show ?thesis using assms(1) m(1) same(10) unfolding durable_inv_def same by simp
qed

subsection \<open>A publish is accepted\<close>

lemma accepted_inv:
  assumes inv: "durable_inv T queue s" and i: "i = da_next_msg_id (ds_actor s) + 1" "Suc (unat (da_next_msg_id (ds_actor s))) < 2 ^ 64" "cw_msg_id w = i"
  shows "durable_inv T queue (await_commit [w] (submit queue (Submit (StoreInsert queue i ms b)) (s\<lparr>ds_actor := (ds_actor s)\<lparr>da_next_msg_id := i\<rparr>\<rparr>)))"
proof -
  let ?s = "await_commit [w] (submit queue (Submit (StoreInsert queue i ms b)) (s\<lparr>ds_actor := (ds_actor s)\<lparr>da_next_msg_id := i\<rparr>\<rparr>))"
  have grow: "da_next_msg_id (ds_actor s) < i"
    using i(1,2) unat_plus_one [of "da_next_msg_id (ds_actor s)"] by (simp add: word_less_nat_alt)
  have b: "bounded T queue s" "ids_inv queue s" "ds_writer_up s \<or> ds_channel s = []" using inv by (auto simp: durable_inv_def)
  have fresh: "i \<notin> held_ids s" "i \<notin> set (waiting_ids s)" "i \<notin> set (done_ids s)" "i \<notin> scheduled queue s"
    using b(1) grow unfolding bounded_def by (meson UnI1 UnI2 leD)+
  have same: "held_ids ?s = held_ids s" "actor_ok (ds_actor ?s) = actor_ok (ds_actor s)" "scheduled queue ?s = scheduled queue s"
    "pledged ?s = pledged s" "on_disk T queue ?s = on_disk T queue s" "ds_table ?s = ds_table s" "ds_writer_up ?s = ds_writer_up s"
    "da_next_msg_id (ds_actor ?s) = i" "\<not> ds_writer_up s \<longrightarrow> ds_channel ?s = ds_channel s \<and> ds_waiting ?s = ds_waiting s"
    by (auto simp: await_commit_def id_sets)
  have up: "waiting_ids ?s = waiting_ids s @ (if ds_writer_up s then [i] else [])" "done_ids ?s = done_ids s @ (if ds_writer_up s then [] else [i])"
    "List.map_filter (inserts queue) (ds_channel ?s) = List.map_filter (inserts queue) (ds_channel s) @ (if ds_writer_up s then [i] else [])"
    by (auto simp: await_commit_def id_sets i(3) map_filter_append)
  have "ids_inv queue ?s" using b(2) fresh unfolding ids_inv_def same up by (cases "ds_writer_up s") auto
  moreover have "j \<le> i" if "j \<le> da_next_msg_id (ds_actor s)" for j using that grow by simp
  then have "bounded T queue ?s" using b(1) unfolding bounded_def same up by (cases "ds_writer_up s") auto
  ultimately show ?thesis using inv same(9) unfolding durable_inv_def same by simp
qed

subsection \<open>A publish completes\<close>

lemma remove_nth_split: "n < length xs \<Longrightarrow> \<exists>ys zs. xs = ys @ xs ! n # zs \<and> remove_nth n xs = ys @ zs"
  unfolding remove_nth_def using id_take_nth_drop by blast

lemma completed_inv:
  assumes inv: "durable_inv T queue s" and n: "n < length (ds_done s)"
  shows "durable_inv T queue (s\<lparr>ds_actor := fst (complete_commit (ds_done s ! n) (ds_actor s)), ds_done := remove_nth n (ds_done s)\<rparr>)"
proof -
  obtain w ok where d: "ds_done s ! n = (w, ok)" by fastforce
  let ?a = "fst (complete_commit (w, ok) (ds_actor s))" and ?i = "cw_msg_id w"
  let ?s = "s\<lparr>ds_actor := ?a, ds_done := remove_nth n (ds_done s)\<rparr>"
  obtain ys zs where split: "ds_done s = ys @ (w, ok) # zs" "remove_nth n (ds_done s) = ys @ zs" using remove_nth_split [OF n] d by auto
  have ids: "ids_inv queue s" "bounded T queue s" "held_ids s \<union> pledged s \<subseteq> on_disk T queue s" "actor_ok (ds_actor s)"
    using inv by (simp_all add: durable_inv_def)
  have same: "waiting_ids ?s = waiting_ids s" "scheduled queue ?s = scheduled queue s" "on_disk T queue ?s = on_disk T queue s"
    "da_next_msg_id ?a = da_next_msg_id (ds_actor s)" by (simp_all add: id_sets complete_commit_def Let_def)
  have lists: "done_ids s = map (\<lambda>d. cw_msg_id (fst d)) ys @ ?i # map (\<lambda>d. cw_msg_id (fst d)) zs"
    "done_ids ?s = map (\<lambda>d. cw_msg_id (fst d)) ys @ map (\<lambda>d. cw_msg_id (fst d)) zs" unfolding done_ids_def by (simp_all add: split(2)) (simp add: split(1))
  have gone: "set (done_ids s) = insert ?i (set (done_ids ?s))" "?i \<notin> set (done_ids ?s)" "?i \<notin> held_ids s" "distinct (waiting_ids s @ done_ids ?s)"
    "?i \<notin> set (waiting_ids s)" using ids(1) unfolding ids_inv_def lists by auto
  have "filter snd (ds_done s) = filter snd ys @ (if ok then [(w, ok)] else []) @ filter snd zs"
    "filter snd (ds_done ?s) = filter snd ys @ filter snd zs" by (simp_all add: split(2)) (simp add: split(1))
  then have pl: "pledged s = (if ok then insert ?i (pledged ?s) else pledged ?s)" by (simp add: pledged_def del: set_filter)
  have bt: "bt_ok (da_ready (ds_actor s))" using ids(4) by (simp add: entries_ok_def)
  have live: "live ?a = (if ok then insert ?i (held_ids s) else held_ids s)"
    by (auto simp: complete_commit_def Let_def live_ids_def keys_bt_insert [OF bt])
  have "actor_ok ?a" using ids(4) gone(3) by (auto simp: complete_commit_def Let_def entries_ok_def keys_bt_insert [OF bt] live_ids_def)
  moreover have "ids_inv queue ?s" using ids(1) gone pl unfolding ids_inv_def same by (auto simp: live)
  moreover have "bounded T queue ?s" using ids(2) gone(1) unfolding bounded_def same by (auto simp: live same(4))
  moreover have "held_ids ?s \<union> pledged ?s \<subseteq> on_disk T queue s" using ids(3) pl by (auto simp: live split: if_splits)
  ultimately show ?thesis using inv unfolding durable_inv_def d by (simp add: same)
qed

subsection \<open>The writer commits\<close>

lemma commit_splits:
  assumes "map f ws = xs @ ys" "distinct (map f ws)"
  shows "map f (filter (\<lambda>w. f w \<in> set xs) ws) = xs" "map f (filter (\<lambda>w. f w \<notin> set xs) ws) = ys"
proof -
  have "distinct (xs @ ys)" using assms by simp
  then have "filter (\<lambda>i. i \<in> set xs) (map f ws) = xs" "filter (\<lambda>i. i \<notin> set xs) (map f ws) = ys"
    unfolding assms(1) by (auto simp: filter_empty_conv filter_id_conv)
  then show "map f (filter (\<lambda>w. f w \<in> set xs) ws) = xs" "map f (filter (\<lambda>w. f w \<notin> set xs) ws) = ys"
    by (simp_all add: filter_map comp_def)
qed

lemma commit_inv:
  assumes T: "redb_table T" and inv: "durable_inv T queue s" and step: "durable_step T p queue (Commit n ok) s = (s', effs)"
  shows "durable_inv T queue s'"
proof (cases "n \<le> COMMIT_BATCH_MAX \<and> ds_writer_up s")
  case False
  then show ?thesis using inv step by (simp split: if_splits)
next
  case True
  let ?batch = "take n (ds_channel s)"
  let ?ids = "List.map_filter (inserts queue) ?batch" and ?rest = "List.map_filter (inserts queue) (drop n (ds_channel s))"
  have ids: "ids_inv queue s" "bounded T queue s" "held_ids s \<union> pledged s \<subseteq> on_disk T queue s" "actor_ok (ds_actor s)" "tb_ok T (ds_table s)"
    using inv by (simp_all add: durable_inv_def)
  have w: "waiting_ids s = ?ids @ ?rest" "distinct (waiting_ids s)" using ids(1) by (simp_all add: ids_inv_def flip: map_filter_append)
  note parts = commit_splits [of cw_msg_id "ds_waiting s" ?ids ?rest, folded waiting_ids_def, OF w]
  have s': "s' = s\<lparr>ds_table := if ok then apply_batch T ?batch (ds_table s) else ds_table s, ds_channel := drop n (ds_channel s),
      ds_waiting := filter (\<lambda>w. cw_msg_id w \<notin> set ?ids) (ds_waiting s),
      ds_done := ds_done s @ map (\<lambda>w. (w, ok)) (filter (\<lambda>w. cw_msg_id w \<in> set ?ids) (ds_waiting s))\<rparr>"
    using step True by (simp add: Let_def)
  have new: "waiting_ids s' = ?rest" "done_ids s' = done_ids s @ ?ids" "ds_channel s' = drop n (ds_channel s)" "ds_actor s' = ds_actor s"
    by (simp_all add: s' waiting_ids_def done_ids_def parts [unfolded waiting_ids_def] comp_def)
  have marked: "map (\<lambda>d. cw_msg_id (fst d)) (filter snd (map (\<lambda>w. (w, ok)) ws)) = (if ok then map cw_msg_id ws else [])" for ws
    by (induction ws) auto
  have pl: "pledged s' = pledged s \<union> (if ok then set ?ids else {})"
    unfolding s' pledged_def by (simp add: marked parts flip: set_map)
  have sched: "scheduled queue s' \<subseteq> scheduled queue s" by (auto simp: s' scheduled_def dest: in_set_dropD)
  have removed: "StoreRemove queue i \<notin> set ?batch" if "i \<in> held_ids s \<union> pledged s \<union> set (waiting_ids s)" for i
    using ids(1) that by (auto simp: ids_inv_def scheduled_def dest: in_set_takeD)
  have body: "durable_body T (ds_table s') queue i = (if ok then fold (body_op queue i) ?batch (durable_body T (ds_table s) queue i)
      else durable_body T (ds_table s) queue i)" "tb_ok T (ds_table s')" for i
    using apply_batch_body [OF T ids(5), of ?batch queue i] ids(5) by (simp_all add: s')
  have kept: "i \<in> on_disk T queue s'" if i: "i \<in> held_ids s \<union> pledged s \<or> ok \<and> i \<in> set ?ids" for i
  proof (cases ok)
    case True
    have "StoreRemove queue i \<notin> set ?batch" using removed i w(1) by auto
    moreover have "durable_body T (ds_table s) queue i \<noteq> None \<or> i \<in> set ?ids" using i ids(3) by (auto simp: on_disk_def)
    ultimately show ?thesis using batch_keeps True by (simp add: on_disk_def body(1))
  qed (use i ids(3) in \<open>auto simp: on_disk_def body(1)\<close>)
  have origin: "on_disk T queue s' \<subseteq> on_disk T queue s \<union> set ?ids"
  proof
    fix i assume "i \<in> on_disk T queue s'"
    then obtain b where b: "durable_body T (ds_table s') queue i = Some b" by (auto simp: on_disk_def)
    show "i \<in> on_disk T queue s \<union> set ?ids"
      using b batch_origin [of queue i ?batch "durable_body T (ds_table s) queue i" b] inserts_set [of i queue ?batch]
      by (auto simp: on_disk_def body(1) split: if_splits)
  qed
  have "ids_inv queue s'" using ids(1) w sched pl by (auto simp: ids_inv_def new split: if_splits)
  moreover have "bounded T queue s'" using ids(2) origin sched by (auto simp: bounded_def new w(1))
  moreover have "held_ids s' \<union> pledged s' \<subseteq> on_disk T queue s'" using kept by (auto simp: new pl)
  ultimately show ?thesis using ids(4) body(2) True by (simp add: durable_inv_def new) (simp add: s')
qed

lemma set_remove_nth: "set (remove_nth n xs) \<subseteq> set xs"
  by (auto simp: remove_nth_def dest: in_set_takeD in_set_dropD)

text \<open>Operations on the messages of another queue, or on the Raft log.\<close>

fun foreign :: "u64 \<Rightarrow> store_op \<Rightarrow> bool" where
  "foreign queue (StoreInsert q _ _ _) = (q \<noteq> queue)"
| "foreign queue (StoreRemove q _) = (q \<noteq> queue)"
| "foreign queue (StoreFail q _) = (q \<noteq> queue)"
| "foreign queue StoreRaft = True"

lemma foreign_inserts: "foreign queue op \<Longrightarrow> inserts queue op = None"
  by (cases op) auto

lemma channel_inv:
  assumes inv: "durable_inv T queue s" and "ds_writer_up s" "inserts queue op = None"
    and "\<And>i. op = StoreRemove queue i \<Longrightarrow> i \<in> scheduled queue s" "set d \<subseteq> set (ds_deferred s)"
  shows "durable_inv T queue (s\<lparr>ds_deferred := d, ds_channel := ds_channel s @ [op]\<rparr>)"
proof -
  let ?s = "s\<lparr>ds_deferred := d, ds_channel := ds_channel s @ [op]\<rparr>"
  have "scheduled queue ?s \<subseteq> scheduled queue s" using assms(4,5) by (auto simp: scheduled_def)
  moreover have "waiting_ids ?s = waiting_ids s" "done_ids ?s = done_ids s" "pledged ?s = pledged s" "on_disk T queue ?s = on_disk T queue s"
    "List.map_filter (inserts queue) (ds_channel ?s) = List.map_filter (inserts queue) (ds_channel s)"
    using assms(3) by (simp_all add: id_sets map_filter_append)
  ultimately show ?thesis using inv assms(2) unfolding durable_inv_def ids_inv_def bounded_def by auto
qed

lemma fewer_deferred_inv: "durable_inv T queue s \<Longrightarrow> set d \<subseteq> set (ds_deferred s) \<Longrightarrow> durable_inv T queue (s\<lparr>ds_deferred := d\<rparr>)"
proof -
  assume inv: "durable_inv T queue s" and "set d \<subseteq> set (ds_deferred s)"
  then have "scheduled queue (s\<lparr>ds_deferred := d\<rparr>) \<subseteq> scheduled queue s" by (auto simp: scheduled_def)
  moreover have "waiting_ids (s\<lparr>ds_deferred := d\<rparr>) = waiting_ids s" "done_ids (s\<lparr>ds_deferred := d\<rparr>) = done_ids s"
    "pledged (s\<lparr>ds_deferred := d\<rparr>) = pledged s" "on_disk T queue (s\<lparr>ds_deferred := d\<rparr>) = on_disk T queue s" by (simp_all add: id_sets)
  ultimately show ?thesis using inv unfolding durable_inv_def ids_inv_def bounded_def by auto
qed

lemma router_inv:
  assumes inv: "durable_inv T queue s" and step: "durable_step T p queue (RouterResolved n) s = (s', effs)"
  shows "durable_inv T queue s'"
proof (cases "n < length (ds_deferred s)")
  case True
  then have "ds_deferred s ! n \<in> scheduled queue s" by (simp add: scheduled_def)
  then show ?thesis
    using True step channel_inv [OF inv, of "StoreRemove queue (ds_deferred s ! n)" "remove_nth n (ds_deferred s)"]
      fewer_deferred_inv [OF inv, of "remove_nth n (ds_deferred s)"] set_remove_nth [of n "ds_deferred s"]
    by (auto split: if_splits)
qed (use inv step in auto)

lemma other_inv:
  assumes inv: "durable_inv T queue s" and "foreign queue op" and step: "durable_step T p queue (OtherSubmit op) s = (s', effs)"
  shows "durable_inv T queue s'"
proof -
  have "op \<noteq> StoreRemove queue i" for i using assms(2) by auto
  then show ?thesis using channel_inv [OF inv _ foreign_inserts [OF assms(2)], of "ds_deferred s"] inv step by (auto split: if_splits)
qed

lemma dies_inv:
  assumes inv: "durable_inv T queue s" and step: "durable_step T p queue WriterDies s = (s', effs)"
  shows "durable_inv T queue s'"
proof -
  have s': "s' = s\<lparr>ds_writer_up := False, ds_channel := [], ds_waiting := [], ds_done := ds_done s @ map (\<lambda>w. (w, False)) (ds_waiting s)\<rparr>"
    using step by simp
  have "filter snd (map (\<lambda>w. (w, False)) ws) = []" for ws :: "commit_wait list" by (induction ws) auto
  then have "waiting_ids s' = []" "done_ids s' = done_ids s @ waiting_ids s" "pledged s' = pledged s" "scheduled queue s' \<subseteq> scheduled queue s"
    "on_disk T queue s' = on_disk T queue s" "ds_actor s' = ds_actor s" "ds_table s' = ds_table s" "ds_channel s' = []" "ds_waiting s' = []"
    by (simp_all add: s' id_sets comp_def del: set_filter) 
  then show ?thesis using inv unfolding durable_inv_def ids_inv_def bounded_def by auto
qed

subsection \<open>Every event keeps the invariant\<close>

lemma mailbox_state:
  assumes "actor_ok (ds_actor s)" "durable_handle T p (ds_table s) queue env msg (ds_actor s) = (a, om)"
  obtains acts where "om_waits om = []" "moves T p (ds_table s) queue (acked_by (ds_actor s) msg) (reads_ok (de_reads env)) (ds_actor s) a (om_effects om) acts"
      "await_commit (om_waits om) (fold (submit queue) (om_acts om) (s\<lparr>ds_actor := a\<rparr>)) = fold (submit queue) acts (s\<lparr>ds_actor := a\<rparr>)"
    | acts a1 s1 i w where "moves T p (ds_table s) queue (acked_by (ds_actor s) msg) (reads_ok (de_reads env)) (ds_actor s) a1 (om_effects om) acts"
      "s1 = fold (submit queue) acts (s\<lparr>ds_actor := a1\<rparr>)" "i = da_next_msg_id (ds_actor s1) + 1" "cw_msg_id w = i" "om_waits om = [w]"
      "await_commit (om_waits om) (fold (submit queue) (om_acts om) (s\<lparr>ds_actor := a\<rparr>)) =
        await_commit [w] (submit queue (Submit (StoreInsert queue i (de_enqueue_ms env) (published_body msg)))
          (s1\<lparr>ds_actor := (ds_actor s1)\<lparr>da_next_msg_id := i\<rparr>\<rparr>))"
proof -
  let ?good = "reads_ok (de_reads env)"
  consider "om_waits om = []" "moves T p (ds_table s) queue (acked_by (ds_actor s) msg) ?good (ds_actor s) a (om_effects om) (om_acts om)"
    | "accepts_publish T p (ds_table s) queue (acked_by (ds_actor s) msg) ?good (de_enqueue_ms env) (published_body msg) (ds_actor s) a om"
    using handle_moves [OF assms(2,1)] by blast
  then show thesis
  proof cases
    case 1
    then show thesis by (intro that(1)) (simp_all add: await_commit_def)
  next
    case 2
    then obtain acts w where acc: "om_acts om = acts @ [Submit (StoreInsert queue (da_next_msg_id (ds_actor s) + 1) (de_enqueue_ms env) (published_body msg))]"
      "om_waits om = [w]" "cw_msg_id w = da_next_msg_id (ds_actor s) + 1" "da_next_msg_id a = da_next_msg_id (ds_actor s) + 1"
      "moves T p (ds_table s) queue (acked_by (ds_actor s) msg) ?good (ds_actor s) (a\<lparr>da_next_msg_id := da_next_msg_id (ds_actor s)\<rparr>) (om_effects om) acts"
      unfolding accepts_publish_def by blast
    define a1 where "a1 = a\<lparr>da_next_msg_id := da_next_msg_id (ds_actor s)\<rparr>"
    have a: "a = a1\<lparr>da_next_msg_id := da_next_msg_id (ds_actor s) + 1\<rparr>" unfolding a1_def by (rule durable_actor.equality) (simp_all add: acc(4))
    have n: "da_next_msg_id a1 = da_next_msg_id (ds_actor s)" by (simp add: a1_def)
    let ?s1 = "fold (submit queue) acts (s\<lparr>ds_actor := a1\<rparr>)" and ?i = "da_next_msg_id (ds_actor s) + 1"
    have "fold (submit queue) (om_acts om) (s\<lparr>ds_actor := a\<rparr>) =
        submit queue (Submit (StoreInsert queue ?i (de_enqueue_ms env) (published_body msg))) (?s1\<lparr>ds_actor := (ds_actor ?s1)\<lparr>da_next_msg_id := ?i\<rparr>\<rparr>)"
      by (rule durable_system.equality) (simp_all add: acc(1) fold_submit a)
    then show thesis by (intro that(2) [OF acc(5) [folded a1_def] refl _ _ acc(2)]) (simp_all add: acc(2,3) fold_submit n)
  qed
qed

fun event_ok :: "u64 \<Rightarrow> durable_event \<Rightarrow> bool" where
  "event_ok queue (OtherSubmit op) = foreign queue op"
| "event_ok queue _ = True"

abbreviation next_id :: "'t durable_system \<Rightarrow> nat" where
  "next_id s \<equiv> unat (da_next_msg_id (ds_actor s))"

lemma next_id_submit [simp]: "ds_actor (fold (submit queue) acts s) = ds_actor s" "ds_actor (await_commit ws s) = ds_actor s"
    "ds_actor (submit queue act s) = ds_actor s"
  by (simp_all add: fold_submit await_commit_def) (cases act; simp)

lemma dispatch_inv:
  assumes "durable_inv T queue s" "then_dispatch T p queue now sends reads s = (s', effs)"
  shows "durable_inv T queue s' \<and> next_id s' = next_id s"
proof -
  obtain a acts where d: "durable_dispatch T p (ds_table s) queue now sends reads (ds_actor s) = (a, effs, acts)"
    and s': "s' = fold (submit queue) acts (s\<lparr>ds_actor := a\<rparr>)" using assms(2) by (auto simp: then_dispatch_def split: prod.splits)
  have "actor_ok (ds_actor s)" using assms(1) by (simp add: durable_inv_def)
  note m = dispatch_moves [OF d this]
  then show ?thesis using moves_inv [OF assms(1) m] by (simp add: s' moves_def)
qed

lemma handled_inv:
  assumes inv: "durable_inv T queue s" and fits: "Suc (next_id s) < 2 ^ 64"
    and h: "durable_handle T p (ds_table s) queue env msg (ds_actor s) = (a, om)"
    and s': "s' = await_commit (om_waits om) (fold (submit queue) (om_acts om) (s\<lparr>ds_actor := a\<rparr>))"
  shows "durable_inv T queue s' \<and> next_id s' \<le> Suc (next_id s)"
proof -
  have ok: "actor_ok (ds_actor s)" using inv by (simp add: durable_inv_def)
  show ?thesis
  proof (rule mailbox_state [OF ok h])
    fix acts assume "moves T p (ds_table s) queue (acked_by (ds_actor s) msg) (reads_ok (de_reads env)) (ds_actor s) a (om_effects om) acts"
      and "await_commit (om_waits om) (fold (submit queue) (om_acts om) (s\<lparr>ds_actor := a\<rparr>)) = fold (submit queue) acts (s\<lparr>ds_actor := a\<rparr>)"
    then show ?thesis using moves_inv [OF inv] by (simp add: s' moves_def)
  next
    fix acts a1 s1 i w
    assume m: "moves T p (ds_table s) queue (acked_by (ds_actor s) msg) (reads_ok (de_reads env)) (ds_actor s) a1 (om_effects om) acts"
      and s1: "s1 = fold (submit queue) acts (s\<lparr>ds_actor := a1\<rparr>)" and i: "i = da_next_msg_id (ds_actor s1) + 1" "cw_msg_id w = i"
      and eq: "await_commit (om_waits om) (fold (submit queue) (om_acts om) (s\<lparr>ds_actor := a\<rparr>)) =
        await_commit [w] (submit queue (Submit (StoreInsert queue i (de_enqueue_ms env) (published_body msg)))
          (s1\<lparr>ds_actor := (ds_actor s1)\<lparr>da_next_msg_id := i\<rparr>\<rparr>))"
    have n: "next_id s1 = next_id s" using m by (simp add: s1 moves_def)
    have "durable_inv T queue s1" unfolding s1 by (rule moves_inv [OF inv m])
    moreover have "unat i = Suc (next_id s)" using fits by (simp add: i(1) n unat_plus_one)
    ultimately show ?thesis using accepted_inv [of T queue s1 i w "de_enqueue_ms env" "published_body msg"] fits i n unfolding s' eq by simp
  qed
qed

lemma event_inv:
  assumes T: "redb_table T" and inv: "durable_inv T queue s" and e: "event_ok queue e" and fits: "Suc (next_id s) < 2 ^ 64"
    and step: "durable_step T p queue e s = (s', effs)"
  shows "durable_inv T queue s' \<and> next_id s' \<le> Suc (next_id s)"
proof (cases e)
  case (Mailbox env msg)
  obtain a om where h: "durable_handle T p (ds_table s) queue env msg (ds_actor s) = (a, om)" by fastforce
  define s1 where "s1 = await_commit (om_waits om) (fold (submit queue) (om_acts om) (s\<lparr>ds_actor := a\<rparr>))"
  note i1 = handled_inv [OF inv fits h s1_def]
  show ?thesis
  proof (cases "om_go om")
    case True
    then obtain effs' where "then_dispatch T p queue (de_now_ms env) (de_sends env) (om_reads om) s1 = (s', effs')"
      using step by (auto simp: Mailbox h s1_def split: prod.splits)
    then show ?thesis using dispatch_inv i1 by metis
  qed (use step i1 in \<open>simp add: Mailbox h s1_def\<close>)
next
  case (Completion n env)
  show ?thesis
  proof (cases "n < length (ds_done s)")
    case True
    define s1 where "s1 = s\<lparr>ds_actor := fst (complete_commit (ds_done s ! n) (ds_actor s)), ds_done := remove_nth n (ds_done s)\<rparr>"
    obtain effs' where "then_dispatch T p queue (de_now_ms env) (de_sends env) (de_reads env) s1 = (s', effs')"
      using step True by (auto simp: Completion s1_def split: prod.splits)
    moreover have "next_id s1 = next_id s" by (simp add: s1_def complete_commit_def Let_def)
    ultimately show ?thesis using dispatch_inv completed_inv [OF inv True, folded s1_def] by (metis le_SucI order_refl)
  qed (use inv step in \<open>simp add: Completion\<close>)
next
  case (Commit n ok)
  then show ?thesis using commit_inv [OF T inv] step by (auto simp: Let_def split: if_splits)
next
  case (RouterResolved n)
  then show ?thesis using router_inv [OF inv] step by (auto split: if_splits)
next
  case (OtherSubmit op)
  then show ?thesis using other_inv [OF inv _ step [unfolded OtherSubmit]] e step by auto
next
  case WriterDies
  then show ?thesis using dies_inv [OF inv step [unfolded WriterDies]] step by auto
qed

subsection \<open>Starting on a store\<close>

lemma scan_ids:
  assumes "redb_table T" "tb_ok T t"
  shows "fst ` set (scan T t queue) = {i. durable_body T t queue i \<noteq> None}"
proof -
  have range: "(queue, 0) \<le> (q, i) \<and> (q, i) \<le> (queue, - 1) \<longleftrightarrow> q = queue" for q i :: u64 by (auto simp: less_eq_prod_def)
  show ?thesis by (force simp: scan_def durable_body_def range redb_laws(5) [OF assms] image_iff)
qed

lemma fold_max_ge: "n \<le> fold (\<lambda>(i, _, _, _) n. max n i) xs n \<and> (\<forall>i \<in> fst ` set xs. i \<le> fold (\<lambda>(i, _, _, _) n. max n i) xs n)"
  for n :: "'a::linorder"
proof (induction xs arbitrary: n)
  case (Cons x xs)
  obtain i f ms len where x: "x = (i, f, ms, len)" by (metis prod_cases4)
  show ?case using Cons [of "max n i"] by (auto simp: x)
qed simp

lemma recover_inv:
  assumes "redb_table T" "tb_ok T t"
  shows "durable_inv T queue (recover T queue t)" "fst ` set (da_ready (ds_actor (recover T queue t))) = on_disk T queue (recover T queue t)"
proof -
  let ?s = "recover T queue t" and ?f = "\<lambda>(i, f :: u32, ms, len). (i, ms, len) :: u64 \<times> u64 \<times> nat"
  have "da_ready (ds_actor ?s) = fold (\<lambda>x m. bt_insert (fst (?f x)) (snd (?f x)) m) (scan T t queue) []"
    by (simp add: recover_def recover_actor_def case_prod_unfold)
  then have ready: "bt_ok (da_ready (ds_actor ?s))" "fst ` set (da_ready (ds_actor ?s)) = fst ` set (scan T t queue)"
    using fold_bt_insert [of "[]" ?f "scan T t queue"] by (simp_all add: image_image case_prod_unfold)
  have disk: "fst ` set (scan T t queue) = on_disk T queue ?s" by (simp add: scan_ids [OF assms] on_disk_def recover_def)
  show "fst ` set (da_ready (ds_actor ?s)) = on_disk T queue ?s" using ready(2) disk by simp
  have infl: "da_inflight (ds_actor ?s) = []" by (simp add: recover_def recover_actor_def)
  have held: "held_ids ?s = on_disk T queue ?s" by (simp add: live_ids_def infl ready disk)
  have empty: "waiting_ids ?s = []" "done_ids ?s = []" "pledged ?s = {}" "scheduled queue ?s = {}" "ds_channel ?s = []" "ds_waiting ?s = []"
    "ds_table ?s = t" "da_next_msg_id (ds_actor ?s) = fold (\<lambda>(i, _, _, _) n. max n i) (scan T t queue) 0"
    by (simp_all add: id_sets recover_def recover_actor_def)
  have "bounded T queue ?s" unfolding bounded_def held empty using fold_max_ge [of 0 "scan T t queue"] by (auto simp flip: disk)
  then show "durable_inv T queue ?s"
    using ready(1) assms(2) unfolding durable_inv_def ids_inv_def held empty by (simp add: entries_ok_def infl)
qed

lemma events_inv:
  assumes T: "redb_table T" and "durable_inv T queue s" "\<forall>e \<in> set events. event_ok queue e" "next_id s + length events < 2 ^ 64"
    and "durable_run T p queue events s = (s', effs)"
  shows "durable_inv T queue s'"
  using assms(2-)
proof (induction events arbitrary: s effs)
  case (Cons e es)
  obtain s1 e1 where st: "durable_step T p queue e s = (s1, e1)" by fastforce
  obtain e2 where r: "durable_run T p queue es s1 = (s', e2)" using Cons.prems(4) st by (auto split: prod.splits)
  have "durable_inv T queue s1 \<and> next_id s1 \<le> Suc (next_id s)" using event_inv [OF T Cons.prems(1) _ _ st] Cons.prems(2,3) by simp
  then show ?case using Cons.IH [OF _ _ _ r] Cons.prems(2,3) by simp
qed simp

subsection \<open>The ledger\<close>

text \<open>
  \<open>L\<close> holds what was published under which id, \<open>C\<close> the ids whose commit was confirmed, \<open>K\<close> the ids
  settled for good and \<open>E\<close> the effects so far. The body of a published message is the only one its
  id ever has, on disk or on its way there.
\<close>

definition entry_ok ::
    "'t table_ops \<Rightarrow> effective_policy \<Rightarrow> u64 \<Rightarrow> u64 set \<Rightarrow> u64 set \<Rightarrow> broker_effect set \<Rightarrow> 't durable_system \<Rightarrow> u64 \<Rightarrow> bytes \<Rightarrow> bool" where
  "entry_ok T p queue C K E s i b \<longleftrightarrow> i \<le> da_next_msg_id (ds_actor s) \<and>
    (\<forall>b'. durable_body T (ds_table s) queue i = Some b' \<longrightarrow> b' = b) \<and> (\<forall>ms b'. StoreInsert queue i ms b' \<in> set (ds_channel s) \<longrightarrow> b' = b) \<and>
    (i \<in> C \<longrightarrow> i \<in> held_ids s \<or> i \<in> K \<or> set (dead_letter p b) \<subseteq> E)"

definition ledger ::
    "'t table_ops \<Rightarrow> effective_policy \<Rightarrow> u64 \<Rightarrow> (u64 \<times> bytes) set \<Rightarrow> u64 set \<Rightarrow> u64 set \<Rightarrow> broker_effect set \<Rightarrow> 't durable_system \<Rightarrow> bool" where
  "ledger T p queue L C K E s \<longleftrightarrow> (\<forall>i \<in> C. i \<le> da_next_msg_id (ds_actor s)) \<and> (\<forall>(i, b) \<in> L. entry_ok T p queue C K E s i b)"

lemma ledger_mono:
  assumes led: "ledger T p queue L C K E s" and n: "da_next_msg_id (ds_actor s) \<le> da_next_msg_id (ds_actor s')"
    and chan: "\<And>i ms b. StoreInsert queue i ms b \<in> set (ds_channel s') \<Longrightarrow> StoreInsert queue i ms b \<in> set (ds_channel s)"
    and disk: "\<And>i b. durable_body T (ds_table s') queue i = Some b \<Longrightarrow>
      durable_body T (ds_table s) queue i = Some b \<or> (\<exists>ms. StoreInsert queue i ms b \<in> set (ds_channel s))"
    and left: "\<And>i b. (i, b) \<in> L \<Longrightarrow> i \<in> held_ids s \<Longrightarrow> i \<in> held_ids s' \<or> i \<in> K' \<or> set (dead_letter p b) \<subseteq> E'"
    and sub: "K \<subseteq> K'" "E \<subseteq> E'"
  shows "ledger T p queue L C K' E' s'"
proof -
  have "entry_ok T p queue C K' E' s' i b" if L: "(i, b) \<in> L" for i b
  proof -
    have e: "entry_ok T p queue C K E s i b" using led L by (auto simp: ledger_def)
    have "i \<in> held_ids s' \<or> i \<in> K' \<or> set (dead_letter p b) \<subseteq> E'" if "i \<in> C"
      using e that left [OF L] sub unfolding entry_ok_def by blast
    moreover have "b' = b" if "durable_body T (ds_table s') queue i = Some b'" for b' using disk [OF that] e unfolding entry_ok_def by blast
    moreover have "b' = b" if "StoreInsert queue i ms b' \<in> set (ds_channel s')" for ms b' using chan [OF that] e unfolding entry_ok_def by blast
    moreover have "i \<le> da_next_msg_id (ds_actor s')" using e n unfolding entry_ok_def by (blast intro: order_trans)
    ultimately show ?thesis unfolding entry_ok_def by blast
  qed
  moreover have "i \<le> da_next_msg_id (ds_actor s')" if "i \<in> C" for i using led that n unfolding ledger_def by (blast intro: order_trans)
  ultimately show ?thesis by (auto simp: ledger_def)
qed

lemma moves_ledger:
  assumes inv: "durable_inv T queue s" and led: "ledger T p queue L C K E s"
    and m: "moves T p (ds_table s) queue acked good (ds_actor s) a' effs acts" and good: good
  shows "ledger T p queue L C (K \<union> acked) (E \<union> set effs) (fold (submit queue) acts (s\<lparr>ds_actor := a'\<rparr>))"
proof (rule ledger_mono [OF led])
  let ?s = "fold (submit queue) acts (s\<lparr>ds_actor := a'\<rparr>)"
  show "da_next_msg_id (ds_actor s) \<le> da_next_msg_id (ds_actor ?s)" using m by (simp add: moves_def)
  show "StoreInsert queue i ms b \<in> set (ds_channel s)" if "StoreInsert queue i ms b \<in> set (ds_channel ?s)" for i ms b
    using that m by (auto simp: fold_submit submitted_set moves_def act_ok_def split: if_splits)
  show "durable_body T (ds_table s) queue i = Some b \<or> (\<exists>ms. StoreInsert queue i ms b \<in> set (ds_channel s))"
    if "durable_body T (ds_table ?s) queue i = Some b" for i b using that by (simp add: fold_submit)
  show "i \<in> held_ids ?s \<or> i \<in> K \<union> acked \<or> set (dead_letter p b) \<subseteq> E \<union> set effs" if "(i, b) \<in> L" "i \<in> held_ids s" for i b
  proof -
    have all: "\<forall>i \<in> held_ids s. durable_body T (ds_table s) queue i \<noteq> None" using inv by (auto simp: durable_inv_def on_disk_def)
    then obtain b' where b': "durable_body T (ds_table s) queue i = Some b'" using \<open>i \<in> held_ids s\<close> by blast
    have "b' = b" using led \<open>(i, b) \<in> L\<close> b' unfolding ledger_def entry_ok_def by blast
    have "explained T p (ds_table s) queue acked (ds_actor s) a' effs" using m good by (simp add: moves_def)
    then have "i \<in> live a' \<or> i \<in> acked \<or> set (dead_letter p b) \<subseteq> set effs"
      using all b' \<open>b' = b\<close> \<open>i \<in> held_ids s\<close> unfolding explained_def by blast
    then show ?thesis by auto
  qed
qed auto

lemma accepted_ledger:
  assumes inv: "durable_inv T queue s" and led: "ledger T p queue L C K E s"
    and i: "i = da_next_msg_id (ds_actor s) + 1" "Suc (next_id s) < 2 ^ 64"
  shows "ledger T p queue (insert (i, b) L) C K E
    (await_commit [w] (submit queue (Submit (StoreInsert queue i ms b)) (s\<lparr>ds_actor := (ds_actor s)\<lparr>da_next_msg_id := i\<rparr>\<rparr>)))"
    (is "ledger T p queue _ C K E ?s")
proof -
  have grow: "da_next_msg_id (ds_actor s) < i" using i unat_plus_one [of "da_next_msg_id (ds_actor s)"] by (simp add: word_less_nat_alt)
  have b: "bounded T queue s" "ids_inv queue s" using inv by (simp_all add: durable_inv_def)
  have "i \<notin> on_disk T queue s" "i \<notin> set (waiting_ids s)" using b(1) grow unfolding bounded_def by (meson UnI1 UnI2 leD)+
  then have fresh: "durable_body T (ds_table s) queue i = None" "StoreInsert queue i ms' b' \<notin> set (ds_channel s)" for ms' b'
    using b(2) inserts_set [of i queue "ds_channel s"] by (auto simp: ids_inv_def on_disk_def)
  have s: "ds_table ?s = ds_table s" "da_next_msg_id (ds_actor ?s) = i" "held_ids ?s = held_ids s"
    "set (ds_channel ?s) \<subseteq> insert (StoreInsert queue i ms b) (set (ds_channel s))" by (auto simp: await_commit_def)
  have "i \<notin> C" using led grow by (auto simp: ledger_def)
  then have "entry_ok T p queue C K E ?s i b" using fresh s(4) unfolding entry_ok_def s by auto
  moreover have "entry_ok T p queue C K E ?s j b'" if "(j, b') \<in> L" for j b'
  proof -
    have e: "entry_ok T p queue C K E s j b'" using led that by (auto simp: ledger_def)
    then have "j \<noteq> i" "j \<le> i" using grow by (auto simp: entry_ok_def)
    then show ?thesis using e s(4) unfolding entry_ok_def s by blast
  qed
  moreover have "j \<le> i" if "j \<in> C" for j using led that grow by (force simp: ledger_def)
  ultimately show ?thesis unfolding ledger_def s(2) by auto
qed

lemma completed_ledger:
  assumes inv: "durable_inv T queue s" and led: "ledger T p queue L C K E s" and n: "n < length (ds_done s)"
    and c: "complete_commit (ds_done s ! n) (ds_actor s) = (a, effs)"
  shows "ledger T p queue L (C \<union> (if snd (ds_done s ! n) then {cw_msg_id (fst (ds_done s ! n))} else {})) K (E \<union> set effs)
    (s\<lparr>ds_actor := a, ds_done := remove_nth n (ds_done s)\<rparr>)"
proof -
  let ?i = "cw_msg_id (fst (ds_done s ! n))" and ?s = "s\<lparr>ds_actor := a, ds_done := remove_nth n (ds_done s)\<rparr>"
  let ?C = "C \<union> (if snd (ds_done s ! n) then {?i} else {})"
  have bt: "bt_ok (da_ready (ds_actor s))" using inv by (simp add: durable_inv_def entries_ok_def)
  have live: "live a = (if snd (ds_done s ! n) then insert ?i (held_ids s) else held_ids s)"
    and same: "da_next_msg_id a = da_next_msg_id (ds_actor s)"
    unfolding fst_conv [of a effs, symmetric, folded c] by (simp_all add: complete_commit_def live_ids_def keys_bt_insert [OF bt] Let_def)
  have led': "ledger T p queue L C K (E \<union> set effs) ?s" by (rule ledger_mono [OF led]) (auto simp: same live)
  have "?i \<in> set (done_ids s)" using n by (simp add: done_ids_def)
  then have bound: "?i \<le> da_next_msg_id a" using inv unfolding durable_inv_def bounded_def same by blast
  have entry: "entry_ok T p queue ?C K (E \<union> set effs) ?s j b" if "entry_ok T p queue C K (E \<union> set effs) ?s j b" for j b
    using that by (auto simp: entry_ok_def live split: if_splits)
  show ?thesis using led' bound entry unfolding ledger_def by auto
qed

lemma commit_ledger:
  assumes T: "redb_table T" and inv: "durable_inv T queue s" and led: "ledger T p queue L C K E s"
    and step: "durable_step T p queue (Commit n ok) s = (s', effs)"
  shows "ledger T p queue L C K (E \<union> set effs) s'"
proof (cases "n \<le> COMMIT_BATCH_MAX \<and> ds_writer_up s")
  case True
  let ?batch = "take n (ds_channel s)"
  have s': "ds_actor s' = ds_actor s" "ds_channel s' = drop n (ds_channel s)"
    "ds_table s' = (if ok then apply_batch T ?batch (ds_table s) else ds_table s)" "effs = []" using step True by (auto simp: Let_def)
  have "tb_ok T (ds_table s)" using inv by (simp add: durable_inv_def)
  note body = apply_batch_body [OF T this, of ?batch queue]
  have origin: "durable_body T (ds_table s) queue i = Some b \<or> (\<exists>ms. StoreInsert queue i ms b \<in> set (ds_channel s))"
    if "durable_body T (ds_table s') queue i = Some b" for i b
    using that batch_origin [of queue i ?batch "durable_body T (ds_table s) queue i" b] body [of i]
    by (auto simp: s'(3) split: if_splits dest: in_set_takeD)
  show ?thesis by (rule ledger_mono [OF led]) (auto simp: s'(1,2,4) dest: in_set_dropD origin)
qed (use step led in auto)

text \<open>The events that only move operations towards the writer.\<close>

lemma quiet_ledger:
  assumes led: "ledger T p queue L C K E s" and "ds_actor s' = ds_actor s" "ds_table s' = ds_table s"
    and "\<And>i ms b. StoreInsert queue i ms b \<in> set (ds_channel s') \<Longrightarrow> StoreInsert queue i ms b \<in> set (ds_channel s)"
  shows "ledger T p queue L C K E s'"
  by (rule ledger_mono [OF led]) (auto simp: assms(2,3) dest: assms(4))

subsection \<open>What a run publishes, confirms and settles\<close>

fun accepted_by :: "'t table_ops \<Rightarrow> effective_policy \<Rightarrow> u64 \<Rightarrow> durable_event \<Rightarrow> 't durable_system \<Rightarrow> (u64 \<times> bytes) set" where
  "accepted_by T p queue (Mailbox env msg) s =
    (\<lambda>w. (cw_msg_id w, published_body msg)) ` set (om_waits (snd (durable_handle T p (ds_table s) queue env msg (ds_actor s))))"
| "accepted_by T p queue _ s = {}"

fun confirmed_by :: "durable_event \<Rightarrow> 't durable_system \<Rightarrow> u64 set" where
  "confirmed_by (Completion n env) s =
    (if n < length (ds_done s) \<and> snd (ds_done s ! n) then {cw_msg_id (fst (ds_done s ! n))} else {})"
| "confirmed_by _ s = {}"

fun settled_for_good :: "durable_event \<Rightarrow> 't durable_system \<Rightarrow> u64 set" where
  "settled_for_good (Mailbox env msg) s = acked_by (ds_actor s) msg"
| "settled_for_good _ s = {}"

fun during :: "'t table_ops \<Rightarrow> effective_policy \<Rightarrow> u64 \<Rightarrow> (durable_event \<Rightarrow> 't durable_system \<Rightarrow> 'a set) \<Rightarrow> durable_event list \<Rightarrow> 't durable_system \<Rightarrow> 'a set" where
  "during T p queue f [] s = {}"
| "during T p queue f (e # es) s = f e s \<union> during T p queue f es (fst (durable_step T p queue e s))"

fun reads_fine :: "durable_event \<Rightarrow> bool" where
  "reads_fine (Mailbox env _) = reads_ok (de_reads env)"
| "reads_fine (Completion _ env) = reads_ok (de_reads env)"
| "reads_fine _ = True"

lemma dispatch_ledger:
  assumes inv: "durable_inv T queue s" and led: "ledger T p queue L C K E s"
    and d: "then_dispatch T p queue now sends reads s = (s', effs)" and reads: "reads_ok reads"
  shows "ledger T p queue L C K (E \<union> set effs) s'"
proof -
  obtain a acts where d: "durable_dispatch T p (ds_table s) queue now sends reads (ds_actor s) = (a, effs, acts)"
    and s': "s' = fold (submit queue) acts (s\<lparr>ds_actor := a\<rparr>)" using d by (auto simp: then_dispatch_def split: prod.splits)
  have "actor_ok (ds_actor s)" using inv by (simp add: durable_inv_def)
  then show ?thesis using moves_ledger [OF inv led dispatch_moves [OF d] reads] by (simp add: s')
qed

lemma handled_ledger:
  assumes inv: "durable_inv T queue s" and fits: "Suc (next_id s) < 2 ^ 64" and led: "ledger T p queue L C K E s"
    and reads: "reads_ok (de_reads env)" and h: "durable_handle T p (ds_table s) queue env msg (ds_actor s) = (a, om)"
    and s': "s' = await_commit (om_waits om) (fold (submit queue) (om_acts om) (s\<lparr>ds_actor := a\<rparr>))"
  shows "ledger T p queue (L \<union> accepted_by T p queue (Mailbox env msg) s) C (K \<union> acked_by (ds_actor s) msg) (E \<union> set (om_effects om)) s' \<and>
    reads_ok (om_reads om)"
proof -
  have ok: "actor_ok (ds_actor s)" using inv by (simp add: durable_inv_def)
  have "reads_ok (om_reads om)" using handle_moves [OF h ok] reads by blast
  moreover have "ledger T p queue (L \<union> accepted_by T p queue (Mailbox env msg) s) C (K \<union> acked_by (ds_actor s) msg) (E \<union> set (om_effects om)) s'"
  proof (rule mailbox_state [OF ok h])
    fix acts assume m: "moves T p (ds_table s) queue (acked_by (ds_actor s) msg) (reads_ok (de_reads env)) (ds_actor s) a (om_effects om) acts"
      and "om_waits om = []"
      and "await_commit (om_waits om) (fold (submit queue) (om_acts om) (s\<lparr>ds_actor := a\<rparr>)) = fold (submit queue) acts (s\<lparr>ds_actor := a\<rparr>)"
    then show ?thesis using moves_ledger [OF inv led m reads] by (simp add: s' h)
  next
    fix acts a1 s1 i w
    assume m: "moves T p (ds_table s) queue (acked_by (ds_actor s) msg) (reads_ok (de_reads env)) (ds_actor s) a1 (om_effects om) acts"
      and s1: "s1 = fold (submit queue) acts (s\<lparr>ds_actor := a1\<rparr>)" and i: "i = da_next_msg_id (ds_actor s1) + 1" "cw_msg_id w = i"
      and w: "om_waits om = [w]"
      and eq: "await_commit (om_waits om) (fold (submit queue) (om_acts om) (s\<lparr>ds_actor := a\<rparr>)) =
        await_commit [w] (submit queue (Submit (StoreInsert queue i (de_enqueue_ms env) (published_body msg)))
          (s1\<lparr>ds_actor := (ds_actor s1)\<lparr>da_next_msg_id := i\<rparr>\<rparr>))"
    have n: "next_id s1 = next_id s" using m by (simp add: s1 moves_def)
    have "durable_inv T queue s1" unfolding s1 by (rule moves_inv [OF inv m])
    moreover have "ledger T p queue L C (K \<union> acked_by (ds_actor s) msg) (E \<union> set (om_effects om)) s1"
      unfolding s1 by (rule moves_ledger [OF inv led m reads])
    ultimately show ?thesis unfolding s' eq using accepted_ledger [OF _ _ i(1)] fits n i(2) by (simp add: h w)
  qed
  ultimately show ?thesis by blast
qed

lemma step_ledger:
  assumes T: "redb_table T" and inv: "durable_inv T queue s" and e: "event_ok queue e" "reads_fine e" and fits: "Suc (next_id s) < 2 ^ 64"
    and led: "ledger T p queue L C K E s" and step: "durable_step T p queue e s = (s', effs)"
  shows "ledger T p queue (L \<union> accepted_by T p queue e s) (C \<union> confirmed_by e s) (K \<union> settled_for_good e s) (E \<union> set effs) s'"
proof (cases e)
  case (Mailbox env msg)
  obtain a om where h: "durable_handle T p (ds_table s) queue env msg (ds_actor s) = (a, om)" by fastforce
  define s1 where "s1 = await_commit (om_waits om) (fold (submit queue) (om_acts om) (s\<lparr>ds_actor := a\<rparr>))"
  note i1 = handled_inv [OF inv fits h s1_def]
  have reads: "reads_ok (de_reads env)" using e(2) Mailbox by simp
  note l1 = handled_ledger [OF inv fits led reads h s1_def]
  show ?thesis
  proof (cases "om_go om")
    case True
    then obtain effs' where d: "then_dispatch T p queue (de_now_ms env) (de_sends env) (om_reads om) s1 = (s', effs')" "effs = om_effects om @ effs'"
      using step by (auto simp: Mailbox h s1_def split: prod.splits)
    then show ?thesis using dispatch_ledger [OF conjunct1 [OF i1] conjunct1 [OF l1] d(1)] l1 by (simp add: Mailbox Un_assoc)
  qed (use step l1 in \<open>simp add: Mailbox h s1_def\<close>)
next
  case (Completion n env)
  show ?thesis
  proof (cases "n < length (ds_done s)")
    case True
    obtain a e1 where c: "complete_commit (ds_done s ! n) (ds_actor s) = (a, e1)" by fastforce
    define s1 where "s1 = s\<lparr>ds_actor := a, ds_done := remove_nth n (ds_done s)\<rparr>"
    obtain e2 where d: "then_dispatch T p queue (de_now_ms env) (de_sends env) (de_reads env) s1 = (s', e2)" "effs = e1 @ e2"
      using step True c by (auto simp: Completion s1_def split: prod.splits)
    have "durable_inv T queue s1" using completed_inv [OF inv True] by (simp add: s1_def c)
    then show ?thesis using dispatch_ledger [OF _ completed_ledger [OF inv led True c, folded s1_def] d(1)] e(2) True
      by (simp add: Completion d(2) Un_assoc)
  qed (use led step in \<open>simp add: Completion\<close>)
next
  case (Commit n ok)
  then show ?thesis using commit_ledger [OF T inv led] step by simp
next
  case (OtherSubmit op)
  then show ?thesis using step e(1) led by (auto intro!: quiet_ledger [OF led] split: if_splits)
qed (use step led in \<open>auto intro!: quiet_ledger [OF led] split: if_splits\<close>)

lemma run_ledger:
  assumes T: "redb_table T" and "durable_inv T queue s" "\<forall>e \<in> set events. event_ok queue e \<and> reads_fine e" "next_id s + length events < 2 ^ 64"
    and "ledger T p queue L C K E s" "durable_run T p queue events s = (s', effs)"
  shows "ledger T p queue (L \<union> during T p queue (accepted_by T p queue) events s) (C \<union> during T p queue confirmed_by events s)
    (K \<union> during T p queue settled_for_good events s) (E \<union> set effs) s'"
  using assms(2-)
proof (induction events arbitrary: s effs L C K E)
  case (Cons e es)
  obtain s1 e1 where st: "durable_step T p queue e s = (s1, e1)" by fastforce
  obtain e2 where r: "durable_run T p queue es s1 = (s', e2)" "effs = e1 @ e2" using Cons.prems(5) st by (auto split: prod.splits)
  have i: "durable_inv T queue s1 \<and> next_id s1 \<le> Suc (next_id s)" using event_inv [OF T Cons.prems(1) _ _ st] Cons.prems(2,3) by simp
  have l: "ledger T p queue (L \<union> accepted_by T p queue e s) (C \<union> confirmed_by e s) (K \<union> settled_for_good e s) (E \<union> set e1) s1"
    using step_ledger [OF T Cons.prems(1) _ _ _ Cons.prems(4) st] Cons.prems(2,3) by simp
  show ?case using Cons.IH [OF conjunct1 [OF i] _ _ l r(1)] i Cons.prems(2,3) by (simp add: st r(2) Un_assoc)
qed simp

lemma recovered_ledger:
  assumes "redb_table T" "tb_ok T t"
  shows "ledger T p queue {(i, b). durable_body T t queue i = Some b} {i. durable_body T t queue i \<noteq> None} {} {} (recover T queue t)"
proof -
  let ?s = "recover T queue t"
  have "durable_inv T queue ?s" by (rule recover_inv [OF assms])
  then have bound: "i \<le> da_next_msg_id (ds_actor ?s)" if "i \<in> on_disk T queue ?s" for i using that by (simp add: durable_inv_def bounded_def)
  have held: "on_disk T queue ?s \<subseteq> held_ids ?s" using recover_inv(2) [OF assms, of queue] by (simp add: live_ids_def)
  have disk: "on_disk T queue ?s = {i. durable_body T t queue i \<noteq> None}" "ds_table ?s = t" "ds_channel ?s = []" by (simp_all add: on_disk_def recover_def)
  show ?thesis using bound held unfolding ledger_def entry_ok_def disk by auto
qed

subsection \<open>An in-memory table\<close>

definition btree_table :: "(key, row) btree table_ops" where
  "btree_table = \<lparr>tb_empty = [], tb_get = map_of, tb_insert = bt_insert, tb_remove = bt_remove, tb_entries = \<lambda>m. m, tb_ok = bt_ok\<rparr>"

lemma redb_btree_table: "redb_table btree_table"
  unfolding redb_table_def btree_table_def by (simp add: btree.sorted_map_axioms)

definition quiet_env :: durable_env where
  "quiet_env = \<lparr>de_enqueue_ms = 0, de_now_ms = 0, de_sends = [], de_reads = []\<rparr>"

definition dlq_policy :: effective_policy where
  "dlq_policy = \<lparr>ep_ttl_ms = None, ep_max_len = 10, ep_max_bytes = 100, ep_drop_head = False, ep_dead_letter = Some [100],
    ep_max_attempts = None, ep_dlx = True\<rparr>"

definition publish_and_commit :: "durable_event list" where
  "publish_and_commit = [Mailbox quiet_env (Publish [7] None), Commit 1 True, Completion 0 quiet_env]"

lemmas crash_run_defs = btree_table_def quiet_env_def dlq_policy_def publish_and_commit_def recover_def recover_actor_def scan_def
  durable_publish_def durable_make_room_def over_def await_commit_def then_dispatch_def durable_dispatch_def COMMIT_BATCH_MAX_def
  complete_commit_def remove_nth_def apply_batch_def durable_body_def confirm_publish_def settle_publish_def
  complete_drains_def pick_ready_def usize_add_def USIZE_MAX_def Let_def

definition committed_system :: "(key, row) btree durable_system" where
  "committed_system = \<lparr>ds_actor = \<lparr>da_subs = [], da_inflight = [], da_ready = [(1, 0, 1)], da_failures = \<lambda>_. None, da_next_msg_id = 1,
      da_bytes = 1, da_publishes_pending = 0, da_reserved = 0, da_next_sub_id = 0, da_rr = 0\<rparr>,
    ds_table = [((1, 1), 0, 0, [7])], ds_channel = [], ds_writer_up = True, ds_waiting = [], ds_done = [], ds_deferred = []\<rparr>"

lemma run_committed: "durable_run btree_table dlq_policy 1 publish_and_commit (recover btree_table 1 []) = (committed_system, [])"
  by (simp add: crash_run_defs committed_system_def)

lemma publish_and_commit_ok: "\<forall>e \<in> set publish_and_commit. event_ok 1 e \<and> reads_fine e" "length publish_and_commit = 3"
    "da_next_msg_id (ds_actor (recover btree_table 1 [])) = 0"
  by (simp_all add: crash_run_defs reads_ok_def)

subsection \<open>Claims\<close>

text \<open>
  C9: A message that a durable queue holds as ready or in flight is in the committed table, and
  nothing has scheduled its removal, neither the writer's channel nor the dead-letter router, after
  any interleaving of commands, commits that succeed or fail, completions, router answers, other
  queues' operations and the writer's death.
\<close>

theorem durable_messages_on_disk:
  assumes "redb_table T" "tb_ok T t" "\<forall>e \<in> set events. event_ok queue e"
    and "unat (da_next_msg_id (ds_actor (recover T queue t))) + length events < 2 ^ 64"
    and "durable_run T p queue events (recover T queue t) = (s, effs)"
    and "i \<in> fst ` set (da_ready (ds_actor s)) \<union> fst ` set (da_inflight (ds_actor s))"
  shows "tb_get T (ds_table s) (queue, i) \<noteq> None \<and> StoreRemove queue i \<notin> set (ds_channel s) \<and> i \<notin> set (ds_deferred s)"
proof -
  have "durable_inv T queue s" using events_inv [OF assms(1) recover_inv(1) [OF assms(1,2)] assms(3-5)] .
  moreover have "i \<in> held_ids s" using assms(6) by (simp add: live_ids_def)
  ultimately have "i \<in> on_disk T queue s" "i \<notin> scheduled queue s" by (auto simp: durable_inv_def ids_inv_def)
  then show ?thesis by (simp add: on_disk_def durable_body_def scheduled_def)
qed

theorem durable_messages_on_disk_witness: "tb_get btree_table (ds_table committed_system) (1, 1) \<noteq> None \<and>
    StoreRemove 1 1 \<notin> set (ds_channel committed_system) \<and> 1 \<notin> set (ds_deferred committed_system)"
proof (rule durable_messages_on_disk [OF redb_btree_table _ _ _ run_committed])
  show "tb_ok btree_table []" by (simp add: btree_table_def)
  show "\<forall>e \<in> set publish_and_commit. event_ok 1 e" using publish_and_commit_ok(1) by blast
  show "unat (da_next_msg_id (ds_actor (recover btree_table 1 []))) + length publish_and_commit < 2 ^ 64" by (simp add: publish_and_commit_ok)
  show "1 \<in> fst ` set (da_ready (ds_actor committed_system)) \<union> fst ` set (da_inflight (ds_actor committed_system))" by (simp add: committed_system_def)
qed



end
