(* ===== verification/Cluster_Paging.thy ===== *)
theory Cluster_Paging
  imports Ordered_Map "HOL-Library.Multiset"
begin

section \<open>Spill segments of deep queues (\<open>ramqp-broker/src/cluster/paging.rs\<close>)\<close>

text \<open>
  A spill store keeps bodies in append-only segment files. A segment's file is its bytes; offsets
  and sizes are natural numbers, as file sizes stay far below \<open>2 ^ 64\<close>. The results of the file
  operations of an append are an oracle: whether a new file could be created and how much of the
  body was written. The mutex a panicking append would poison is the outcome \<open>AppendPanics\<close>.
\<close>

subsection \<open>The store\<close>

definition SEGMENT_MAX_BYTES :: nat where "SEGMENT_MAX_BYTES = 64 * 1024 * 1024"

record spill_ref =
  sr_segment :: u64
  sr_offset :: nat
  sr_len :: u32

record segment =
  sg_file :: bytes
  sg_live :: nat
  sg_size :: nat

record spill =
  sp_id :: u64
  sp_next_segment :: u64
  sp_current :: "u64 option"
  sp_segments :: "u64 \<rightharpoonup> segment"
  sp_pins :: nat
  sp_deferred :: "u64 list"

text \<open>The segment files found on disk, by id, and the number after the highest of them.\<close>

definition open_preserving :: "u64 \<Rightarrow> (u64 \<times> bytes) list \<Rightarrow> spill" where
  "open_preserving spill_id files = \<lparr>sp_id = spill_id, sp_next_segment = fold (\<lambda>(i, _) n. max n (i + 1)) files 0, sp_current = None,
    sp_segments = map_of (map (\<lambda>(i, file). (i, \<lparr>sg_file = file, sg_live = 0, sg_size = length file\<rparr>)) files),
    sp_pins = 0, sp_deferred = []\<rparr>"

definition open_fresh :: "u64 \<Rightarrow> spill" where
  "open_fresh spill_id = open_preserving spill_id []"

definition delete_segment :: "u64 \<Rightarrow> spill \<Rightarrow> spill" where
  "delete_segment i sp = sp\<lparr>sp_segments := (sp_segments sp)(i := None)\<rparr>"

definition set_live :: "(u64 \<Rightarrow> nat) \<Rightarrow> spill \<Rightarrow> spill" where
  "set_live counts sp = sp\<lparr>sp_segments := (\<lambda>i. case sp_segments sp i of
      None \<Rightarrow> None
    | Some seg \<Rightarrow> if counts i = 0 \<and> sp_current sp \<noteq> Some i then None else Some (seg\<lparr>sg_live := counts i\<rparr>))\<rparr>"

record append_io =
  io_open :: bool
  io_write :: "nat option"

datatype append_result = Appended spill_ref | AppendFailed | AppendPanics

text \<open>Seeking to an offset within the file and writing there.\<close>

definition write_at :: "nat \<Rightarrow> bytes \<Rightarrow> bytes \<Rightarrow> bytes" where
  "write_at offset body file = take offset file @ body @ drop (offset + length body) file"

definition reclaim_current :: "spill \<Rightarrow> spill" where
  "reclaim_current sp = (case sp_current sp of
      None \<Rightarrow> sp
    | Some old \<Rightarrow>
        (case sp_segments sp old of
           Some seg \<Rightarrow>
             if sg_live seg = 0
             then (if 0 < sp_pins sp then sp\<lparr>sp_deferred := sp_deferred sp @ [old]\<rparr> else delete_segment old sp)
             else sp
         | None \<Rightarrow> sp))"

definition roll_segment :: "append_io \<Rightarrow> spill \<Rightarrow> bool \<times> spill" where
  "roll_segment io sp =
    (let sp = reclaim_current sp;
         i = sp_next_segment sp;
         sp = sp\<lparr>sp_next_segment := i + 1\<rparr>
     in if io_open io
        then (True, sp\<lparr>sp_segments := (sp_segments sp)(i \<mapsto> \<lparr>sg_file = [], sg_live = 0, sg_size = 0\<rparr>), sp_current := Some i\<rparr>)
        else (False, sp))"

definition append_current :: "append_io \<Rightarrow> bytes \<Rightarrow> spill \<Rightarrow> append_result \<times> spill" where
  "append_current io body sp = (case sp_current sp of
      None \<Rightarrow> (AppendPanics, sp)
    | Some i \<Rightarrow>
        (case sp_segments sp i of
           None \<Rightarrow> (AppendPanics, sp)
         | Some seg \<Rightarrow>
             (case io_write io of
                Some k \<Rightarrow>
                  (AppendFailed, sp\<lparr>sp_segments := (sp_segments sp)(i \<mapsto> seg\<lparr>sg_file := write_at (sg_size seg) (take k body) (sg_file seg)\<rparr>)\<rparr>)
              | None \<Rightarrow>
                  (Appended \<lparr>sr_segment = i, sr_offset = sg_size seg, sr_len = of_nat (length body)\<rparr>,
                   sp\<lparr>sp_segments := (sp_segments sp)(i \<mapsto>
                     \<lparr>sg_file = write_at (sg_size seg) body (sg_file seg), sg_live = sg_live seg + 1, sg_size = sg_size seg + length body\<rparr>)\<rparr>))))"

definition spill_append :: "append_io \<Rightarrow> bytes \<Rightarrow> spill \<Rightarrow> append_result \<times> spill" where
  "spill_append io body sp =
    (case sp_current sp of
       Some i \<Rightarrow>
         (case sp_segments sp i of
            None \<Rightarrow> (AppendPanics, sp)
          | Some seg \<Rightarrow>
              if SEGMENT_MAX_BYTES \<le> sg_size seg
              then let (ok, sp) = roll_segment io sp in if ok then append_current io body sp else (AppendFailed, sp)
              else append_current io body sp)
     | None \<Rightarrow> let (ok, sp) = roll_segment io sp in if ok then append_current io body sp else (AppendFailed, sp))"

definition spill_read :: "spill_ref \<Rightarrow> spill \<Rightarrow> bytes option" where
  "spill_read r sp = (case sp_segments sp (sr_segment r) of
      None \<Rightarrow> None
    | Some seg \<Rightarrow>
        if sr_offset r + unat (sr_len r) \<le> length (sg_file seg) then Some (take (unat (sr_len r)) (drop (sr_offset r) (sg_file seg))) else None)"

definition spill_release :: "spill_ref \<Rightarrow> spill \<Rightarrow> spill" where
  "spill_release r sp = (case sp_segments sp (sr_segment r) of
      None \<Rightarrow> sp
    | Some seg \<Rightarrow>
        let seg = seg\<lparr>sg_live := sg_live seg - 1\<rparr>;
            sp = sp\<lparr>sp_segments := (sp_segments sp)(sr_segment r \<mapsto> seg)\<rparr>
        in if sg_live seg = 0 \<and> sp_current sp \<noteq> Some (sr_segment r)
           then (if 0 < sp_pins sp then sp\<lparr>sp_deferred := sp_deferred sp @ [sr_segment r]\<rparr> else delete_segment (sr_segment r) sp)
           else sp)"

definition spill_pin :: "spill \<Rightarrow> spill" where
  "spill_pin sp = sp\<lparr>sp_pins := sp_pins sp + 1\<rparr>"

definition delete_if_dead :: "u64 \<Rightarrow> spill \<Rightarrow> spill" where
  "delete_if_dead i sp = (case sp_segments sp i of
      Some seg \<Rightarrow> if sg_live seg = 0 then delete_segment i sp else sp
    | None \<Rightarrow> sp)"

definition spill_unpin :: "spill \<Rightarrow> spill" where
  "spill_unpin sp =
    (let sp = sp\<lparr>sp_pins := sp_pins sp - 1\<rparr>
     in if sp_pins sp = 0 then fold delete_if_dead (sp_deferred sp) (sp\<lparr>sp_deferred := []\<rparr>) else sp)"

subsection \<open>Invariant\<close>

text \<open>
  Relative to the references still held: every segment counts its references exactly and its file
  holds what was appended, every reference lies within its segment, the current segment exists,
  and new segments get fresh numbers.
\<close>

definition live_refs :: "spill_ref multiset \<Rightarrow> u64 \<Rightarrow> nat" where
  "live_refs refs i = size {#r \<in># refs. sr_segment r = i#}"

definition within :: "spill \<Rightarrow> spill_ref \<Rightarrow> bool" where
  "within sp r \<longleftrightarrow> (\<exists>seg. sp_segments sp (sr_segment r) = Some seg \<and> sr_offset r + unat (sr_len r) \<le> sg_size seg)"

definition segment_ok :: "segment \<Rightarrow> bool" where
  "segment_ok seg \<longleftrightarrow> sg_size seg \<le> length (sg_file seg) \<and> length (sg_file seg) \<le> SEGMENT_MAX_BYTES + 2 ^ 32"

definition spill_core :: "spill_ref multiset \<Rightarrow> spill \<Rightarrow> bool" where
  "spill_core refs sp \<longleftrightarrow>
    (\<forall>i seg. sp_segments sp i = Some seg \<longrightarrow> segment_ok seg \<and> sg_live seg = live_refs refs i \<and> i < sp_next_segment sp) \<and>
    (\<forall>r \<in># refs. within sp r) \<and> (\<forall>i \<in> set (sp_deferred sp). i < sp_next_segment sp)"

definition spill_inv :: "spill_ref multiset \<Rightarrow> spill \<Rightarrow> bool" where
  "spill_inv refs sp \<longleftrightarrow> spill_core refs sp \<and>
    (\<forall>i. sp_current sp = Some i \<longrightarrow> sp_segments sp i \<noteq> None \<and> i \<notin> set (sp_deferred sp))"

definition same_reads :: "spill_ref multiset \<Rightarrow> spill \<Rightarrow> spill \<Rightarrow> bool" where
  "same_reads refs sp sp' \<longleftrightarrow> (\<forall>r \<in># refs. spill_read r sp' = spill_read r sp)"

lemma same_reads_refl [simp]: "same_reads refs sp sp"
  by (simp add: same_reads_def)

lemma same_reads_trans: "same_reads refs sp sp1 \<Longrightarrow> same_reads refs sp1 sp2 \<Longrightarrow> same_reads refs sp sp2"
  by (simp add: same_reads_def)

lemma live_refs_add [simp]: "live_refs (add_mset r refs) i = live_refs refs i + (if sr_segment r = i then 1 else 0)"
  by (simp add: live_refs_def)

lemma live_refs_pos: "r \<in># refs \<Longrightarrow> 0 < live_refs refs (sr_segment r)"
  by (auto simp: live_refs_def nonempty_has_size [symmetric] filter_mset_eq_conv)

lemma held_reads:
  assumes "spill_core refs sp" "r \<in># refs"
  shows "spill_read r sp \<noteq> None"
  using assms by (fastforce simp: spill_core_def segment_ok_def within_def spill_read_def)

text \<open>Dropping a segment without references changes no reading.\<close>

lemma delete_dead:
  assumes "spill_core refs sp" "live_refs refs i = 0"
  shows "spill_core refs (delete_segment i sp)" "same_reads refs sp (delete_segment i sp)"
proof -
  have other: "sr_segment r \<noteq> i" if "r \<in># refs" for r using live_refs_pos [OF that] assms(2) by auto
  then show "spill_core refs (delete_segment i sp)" using assms by (auto simp: spill_core_def delete_segment_def within_def)
  show "same_reads refs sp (delete_segment i sp)" using other by (auto simp: same_reads_def spill_read_def delete_segment_def)
qed

lemma deferred_core:
  "spill_core refs sp \<Longrightarrow> i < sp_next_segment sp \<Longrightarrow> spill_core refs (sp\<lparr>sp_deferred := sp_deferred sp @ [i]\<rparr>)"
  "same_reads refs sp (sp\<lparr>sp_deferred := d\<rparr>)"
  by (auto simp: spill_core_def within_def same_reads_def spill_read_def)

subsection \<open>The operations keep it\<close>

lemma pin_inv: "spill_inv refs sp \<Longrightarrow> spill_inv refs (spill_pin sp)" "same_reads refs sp (spill_pin sp)"
  by (simp_all add: spill_inv_def spill_core_def within_def same_reads_def spill_read_def spill_pin_def)

lemma delete_if_dead_inv:
  assumes "spill_inv refs sp" "sp_current sp \<noteq> Some i"
  shows "spill_inv refs (delete_if_dead i sp) \<and> same_reads refs sp (delete_if_dead i sp) \<and> sp_current (delete_if_dead i sp) = sp_current sp"
proof (cases "\<exists>seg. sp_segments sp i = Some seg \<and> sg_live seg = 0")
  case True
  then have eq: "delete_if_dead i sp = delete_segment i sp" by (auto simp: delete_if_dead_def)
  have core: "spill_core refs sp" using assms(1) by (simp add: spill_inv_def)
  then have "live_refs refs i = 0" using True by (auto simp: spill_core_def)
  then show ?thesis using delete_dead [OF core] assms by (auto simp: eq spill_inv_def delete_segment_def)
next
  case False
  then have "delete_if_dead i sp = sp" by (auto simp: delete_if_dead_def split: option.splits)
  then show ?thesis using assms(1) by simp
qed

lemma delete_all_dead_inv:
  "spill_inv refs sp \<Longrightarrow> \<forall>i \<in> set ids. sp_current sp \<noteq> Some i \<Longrightarrow>
    spill_inv refs (fold delete_if_dead ids sp) \<and> same_reads refs sp (fold delete_if_dead ids sp)"
proof (induction ids arbitrary: sp)
  case (Cons i ids)
  have "sp_current sp \<noteq> Some i" using Cons.prems(2) by simp
  note d = delete_if_dead_inv [OF Cons.prems(1) this]
  then have "spill_inv refs (fold delete_if_dead ids (delete_if_dead i sp)) \<and> same_reads refs (delete_if_dead i sp) (fold delete_if_dead ids (delete_if_dead i sp))"
    using Cons.IH [of "delete_if_dead i sp"] Cons.prems(2) by simp
  then show ?case using d same_reads_trans by fastforce
qed simp

lemma unpin_inv:
  assumes "spill_inv refs sp"
  shows "spill_inv refs (spill_unpin sp)" "same_reads refs sp (spill_unpin sp)"
proof -
  let ?sp = "sp\<lparr>sp_pins := sp_pins sp - 1\<rparr>"
  have inv: "spill_inv refs ?sp" "spill_inv refs (?sp\<lparr>sp_deferred := []\<rparr>)"
    using assms by (simp_all add: spill_inv_def spill_core_def within_def)
  have same: "same_reads refs sp ?sp" "same_reads refs sp (?sp\<lparr>sp_deferred := []\<rparr>)" by (simp_all add: same_reads_def spill_read_def)
  have "\<forall>i \<in> set (sp_deferred sp). sp_current sp \<noteq> Some i" using assms by (auto simp: spill_inv_def)
  then have d: "spill_inv refs (fold delete_if_dead (sp_deferred sp) (?sp\<lparr>sp_deferred := []\<rparr>))"
    "same_reads refs sp (fold delete_if_dead (sp_deferred sp) (?sp\<lparr>sp_deferred := []\<rparr>))"
    using delete_all_dead_inv [OF inv(2), of "sp_deferred sp"] same_reads_trans [OF same(2)] by simp_all
  have "spill_unpin sp = (if sp_pins sp - 1 = 0 then fold delete_if_dead (sp_deferred sp) (?sp\<lparr>sp_deferred := []\<rparr>) else ?sp)"
    by (simp add: spill_unpin_def)
  then show "spill_inv refs (spill_unpin sp)" "same_reads refs sp (spill_unpin sp)" using d inv(1) same(1) by presburger+
qed

lemma release_inv:
  assumes inv: "spill_inv (add_mset r refs) sp"
  shows "spill_inv refs (spill_release r sp)" "same_reads refs sp (spill_release r sp)"
proof -
  let ?i = "sr_segment r"
  obtain seg where seg: "sp_segments sp ?i = Some seg" using inv by (auto simp: spill_inv_def spill_core_def within_def)
  define sp1 where "sp1 = sp\<lparr>sp_segments := (sp_segments sp)(?i \<mapsto> seg\<lparr>sg_live := sg_live seg - 1\<rparr>)\<rparr>"
  have within: "within sp1 r'" if "r' \<in># refs" for r'
  proof -
    have "within sp r'" using inv that by (simp add: spill_inv_def spill_core_def)
    then show ?thesis using seg by (auto simp: within_def sp1_def)
  qed
  have all: "segment_ok s \<and> sg_live s = live_refs (add_mset r refs) i \<and> i < sp_next_segment sp"
    if "sp_segments sp i = Some s" for i s using inv that unfolding spill_inv_def spill_core_def by blast
  have "segment_ok s \<and> sg_live s = live_refs refs i \<and> i < sp_next_segment sp1" if s: "sp_segments sp1 i = Some s" for i s
  proof (cases "i = ?i")
    case True
    then show ?thesis using all [OF seg] s by (auto simp: sp1_def segment_ok_def)
  next
    case False
    then show ?thesis using all [of i s] s by (simp add: sp1_def)
  qed
  moreover have "\<forall>i \<in> set (sp_deferred sp1). i < sp_next_segment sp1" using inv by (simp add: spill_inv_def spill_core_def sp1_def)
  ultimately have core: "spill_core refs sp1" using within unfolding spill_core_def by blast
  have inv1: "spill_inv refs sp1" using core inv by (simp add: spill_inv_def sp1_def)
  have same: "same_reads refs sp sp1" using seg by (auto simp: same_reads_def spill_read_def sp1_def)
  have less: "?i < sp_next_segment sp1" using all [OF seg] by (simp add: sp1_def)
  let ?dead = "sg_live seg - 1 = 0 \<and> sp_current sp \<noteq> Some ?i"
  have rel: "spill_release r sp = (if ?dead then (if 0 < sp_pins sp then sp1\<lparr>sp_deferred := sp_deferred sp1 @ [?i]\<rparr> else delete_segment ?i sp1) else sp1)"
    by (simp add: spill_release_def seg Let_def sp1_def)
  have "spill_inv refs (spill_release r sp) \<and> same_reads refs sp1 (spill_release r sp)"
  proof (cases ?dead)
    case True
    have "sg_live seg = Suc (live_refs refs ?i)" using all [OF seg] by simp
    then have "live_refs refs ?i = 0" using True by simp
    note d = delete_dead [OF core this]
    have other: "sp_current sp1 \<noteq> Some ?i" using True by (simp add: sp1_def)
    have "spill_inv refs (delete_segment ?i sp1)" using d(1) inv1 other by (auto simp: spill_inv_def delete_segment_def)
    moreover have "spill_inv refs (sp1\<lparr>sp_deferred := sp_deferred sp1 @ [?i]\<rparr>)"
      using deferred_core(1) [OF core less] inv1 other by (auto simp: spill_inv_def)
    ultimately show ?thesis using True d(2) deferred_core(2) by (simp add: rel)
  qed (use inv1 in \<open>simp only: rel if_False same_reads_refl simp_thms\<close>)
  then show "spill_inv refs (spill_release r sp)" "same_reads refs sp (spill_release r sp)" using same same_reads_trans by blast+
qed

text \<open>Appending to a segment that exists.\<close>

lemma write_at_prefix: "n \<le> length file \<Longrightarrow> m \<le> n \<Longrightarrow> take m (write_at n body file) = take m file"
  by (simp add: write_at_def min_def)

lemma length_write_at: "n \<le> length file \<Longrightarrow> length (write_at n body file) = max (length file) (n + length body)"
  by (auto simp: write_at_def)

lemma read_write_at: "n \<le> length file \<Longrightarrow> take (length body) (drop n (write_at n body file)) = body"
  by (simp add: write_at_def)

lemma prefix_reads:
  assumes "take n file' = take n file" "off + len \<le> n" "n \<le> length file" "n \<le> length file'"
  shows "take len (drop off file') = take len (drop off file)"
proof -
  have "take len (drop off (take n file')) = take len (drop off (take n file))" using assms(1) by simp
  moreover have "len \<le> n - off" using assms(2) by simp
  ultimately show ?thesis by (simp add: drop_take min_absorb1)
qed

lemma rewritten_segment:
  assumes inv: "spill_inv refs sp" and seg: "sp_segments sp i = Some seg"
    and new: "take (sg_size seg) (sg_file seg') = take (sg_size seg) (sg_file seg)" "sg_size seg \<le> sg_size seg'" "segment_ok seg'"
    and live: "sg_live seg' = live_refs refs' i" "\<And>j. j \<noteq> i \<Longrightarrow> live_refs refs' j = live_refs refs j"
    and held: "\<And>r. r \<in># refs' \<Longrightarrow> r \<in># refs \<or> within (sp\<lparr>sp_segments := (sp_segments sp)(i \<mapsto> seg')\<rparr>) r"
  shows "spill_inv refs' (sp\<lparr>sp_segments := (sp_segments sp)(i \<mapsto> seg')\<rparr>)" "same_reads refs sp (sp\<lparr>sp_segments := (sp_segments sp)(i \<mapsto> seg')\<rparr>)"
proof -
  let ?sp = "sp\<lparr>sp_segments := (sp_segments sp)(i \<mapsto> seg')\<rparr>"
  have all: "segment_ok s \<and> sg_live s = live_refs refs j \<and> j < sp_next_segment sp" if "sp_segments sp j = Some s" for j s
    using inv that unfolding spill_inv_def spill_core_def by blast
  have old: "within sp r" if "r \<in># refs" for r using inv that unfolding spill_inv_def spill_core_def by blast
  have "within ?sp r" if r: "r \<in># refs" for r
  proof -
    obtain s where s: "sp_segments sp (sr_segment r) = Some s" "sr_offset r + unat (sr_len r) \<le> sg_size s" using old [OF r] by (auto simp: within_def)
    then show ?thesis using seg new(2) by (cases "sr_segment r = i") (auto simp: within_def)
  qed
  then have "within ?sp r" if "r \<in># refs'" for r using held [OF that] by blast
  moreover have "segment_ok s \<and> sg_live s = live_refs refs' j \<and> j < sp_next_segment sp" if "sp_segments ?sp j = Some s" for j s
    using that all [of j s] all [OF seg] new(3) live by (cases "j = i") auto
  ultimately show "spill_inv refs' ?sp" using inv unfolding spill_inv_def spill_core_def by simp
  show "same_reads refs sp ?sp"
    unfolding same_reads_def
  proof
    fix r assume "r \<in># refs"
    then obtain s where s: "sp_segments sp (sr_segment r) = Some s" "sr_offset r + unat (sr_len r) \<le> sg_size s" using old by (auto simp: within_def)
    show "spill_read r ?sp = spill_read r sp"
    proof (cases "sr_segment r = i")
      case True
      then have "s = seg" using s seg by simp
      moreover have "take (unat (sr_len r)) (drop (sr_offset r) (sg_file seg')) = take (unat (sr_len r)) (drop (sr_offset r) (sg_file seg))"
        using prefix_reads [OF new(1)] s(2) \<open>s = seg\<close> all [OF seg] new by (simp add: segment_ok_def)
      ultimately show ?thesis using True seg s all [OF seg] new by (simp add: spill_read_def segment_ok_def)
    qed (simp add: spill_read_def)
  qed
qed

text \<open>The current segment, where the next body goes, has not reached its size limit.\<close>

definition small_current :: "spill \<Rightarrow> bool" where
  "small_current sp \<longleftrightarrow> (\<exists>i seg. sp_current sp = Some i \<and> sp_segments sp i = Some seg \<and> sg_size seg < SEGMENT_MAX_BYTES)"

lemma roll_inv:
  assumes inv: "spill_inv refs sp" and fits: "Suc (unat (sp_next_segment sp)) < 2 ^ 64" and io: "io_open io"
  shows "\<exists>sp'. roll_segment io sp = (True, sp') \<and> spill_inv refs sp' \<and> same_reads refs sp sp' \<and> small_current sp' \<and>
    sp_next_segment sp' = sp_next_segment sp + 1"
proof -
  let ?i = "sp_next_segment sp"
  define sp1 where "sp1 = reclaim_current sp"
  have core: "spill_core refs sp" using inv by (simp add: spill_inv_def)
  have "spill_core refs sp1 \<and> same_reads refs sp sp1 \<and> sp_next_segment sp1 = ?i"
  proof (cases "\<exists>old seg. sp_current sp = Some old \<and> sp_segments sp old = Some seg \<and> sg_live seg = 0")
    case True
    then obtain old seg where old: "sp_current sp = Some old" "sp_segments sp old = Some seg" "sg_live seg = 0" by blast
    have "live_refs refs old = 0" "old < ?i" using core old unfolding spill_core_def by auto
    then show ?thesis using delete_dead [OF core] deferred_core(1) [OF core, of old] deferred_core(2) [of refs sp] old
      by (simp add: sp1_def reclaim_current_def) (simp add: delete_segment_def)
  next
    case False
    then have "sp1 = sp" by (auto simp: sp1_def reclaim_current_def split: option.splits)
    then show ?thesis using core by simp
  qed
  then have c1: "spill_core refs sp1" and r1: "same_reads refs sp sp1" and n1: "sp_next_segment sp1 = ?i" by simp_all
  let ?seg = "\<lparr>sg_file = [], sg_live = 0, sg_size = 0\<rparr>"
  let ?sp = "sp1\<lparr>sp_next_segment := ?i + 1, sp_segments := (sp_segments sp1)(?i \<mapsto> ?seg), sp_current := Some ?i\<rparr>"
  have less: "j < ?i + 1" if "j \<le> ?i" for j
    using that fits unat_plus_one [of ?i] by (simp add: word_less_nat_alt word_le_nat_alt)
  have all: "segment_ok s \<and> sg_live s = live_refs refs j \<and> j < ?i" if "sp_segments sp1 j = Some s" for j s
    using c1 that n1 unfolding spill_core_def by metis
  have here: "within sp1 r" "sr_segment r \<noteq> ?i" if "r \<in># refs" for r
  proof -
    show "within sp1 r" using c1 that unfolding spill_core_def by blast
    then obtain s where "sp_segments sp1 (sr_segment r) = Some s" unfolding within_def by blast
    from all [OF this] show "sr_segment r \<noteq> ?i" by auto
  qed
  then have "{#r \<in># refs. sr_segment r = ?i#} = {#}" by (auto simp: multiset_eq_iff count_eq_zero_iff)
  then have "live_refs refs ?i = 0" by (simp add: live_refs_def)
  then have "segment_ok s \<and> sg_live s = live_refs refs j \<and> j < ?i + 1" if "sp_segments ?sp j = Some s" for j s
    using that all [of j s] less [of j] by (cases "j = ?i") (auto simp: less_imp_le segment_ok_def)
  moreover have "\<forall>j \<in> set (sp_deferred sp1). j < ?i" using c1 n1 unfolding spill_core_def by simp
  moreover have "within ?sp r" if "r \<in># refs" for r using here [OF that] by (simp add: within_def)
  ultimately have "spill_inv refs ?sp" using less by (auto simp: spill_inv_def spill_core_def less_imp_le)
  moreover have "same_reads refs sp1 ?sp" using here(2) by (simp add: same_reads_def spill_read_def)
  ultimately show ?thesis using same_reads_trans [OF r1] io by (simp add: roll_segment_def Let_def flip: sp1_def) (simp add: n1 small_current_def SEGMENT_MAX_BYTES_def)
qed

lemma append_current_inv:
  assumes inv: "spill_inv refs sp" and cur: "small_current sp" and len: "length body < 2 ^ 32"
    and app: "append_current io body sp = (res, sp')"
  shows "(case res of Appended r \<Rightarrow> spill_inv (add_mset r refs) sp' \<and> spill_read r sp' = Some body | AppendFailed \<Rightarrow> spill_inv refs sp' | AppendPanics \<Rightarrow> False) \<and>
    same_reads refs sp sp' \<and> sp_next_segment sp' = sp_next_segment sp"
proof -
  obtain i seg where i: "sp_current sp = Some i" "sp_segments sp i = Some seg" "sg_size seg < SEGMENT_MAX_BYTES" using cur by (auto simp: small_current_def)
  have "segment_ok seg \<and> sg_live seg = live_refs refs i" using inv i(2) unfolding spill_inv_def spill_core_def by blast
  then have all: "sg_size seg \<le> length (sg_file seg)" "sg_live seg = live_refs refs i" "length (sg_file seg) \<le> SEGMENT_MAX_BYTES + 2 ^ 32"
    by (simp_all add: segment_ok_def)
  show ?thesis
  proof (cases "io_write io")
    case (Some k)
    let ?seg = "seg\<lparr>sg_file := write_at (sg_size seg) (take k body) (sg_file seg)\<rparr>"
    have eq: "res = AppendFailed" "sp' = sp\<lparr>sp_segments := (sp_segments sp)(i \<mapsto> ?seg)\<rparr>"
      using app i Some by (simp_all add: append_current_def)
    have "sg_size seg + min (length body) k \<le> SEGMENT_MAX_BYTES + 2 ^ 32" "sg_size seg \<le> max (length (sg_file seg)) (sg_size seg + min (length body) k)"
      using i(3) len by simp_all
    then show ?thesis
      using rewritten_segment [OF inv i(2), of ?seg refs] all write_at_prefix [OF all(1) order_refl, of "take k body"]
        length_write_at [OF all(1), of "take k body"] by (simp add: eq segment_ok_def)
  next
    case None
    let ?seg = "\<lparr>sg_file = write_at (sg_size seg) body (sg_file seg), sg_live = sg_live seg + 1, sg_size = sg_size seg + length body\<rparr>"
    let ?r = "\<lparr>sr_segment = i, sr_offset = sg_size seg, sr_len = of_nat (length body)\<rparr> :: spill_ref"
    let ?sp = "sp\<lparr>sp_segments := (sp_segments sp)(i \<mapsto> ?seg)\<rparr>"
    have eq: "res = Appended ?r" "sp' = ?sp" using app i None by (simp_all add: append_current_def)
    have u: "unat (of_nat (length body) :: u32) = length body" using len by (simp add: unat_of_nat_fits)
    have fl: "take (sg_size seg) (write_at (sg_size seg) body (sg_file seg)) = take (sg_size seg) (sg_file seg)"
      "length (write_at (sg_size seg) body (sg_file seg)) = max (length (sg_file seg)) (sg_size seg + length body)"
      using write_at_prefix [OF all(1) order_refl] length_write_at [OF all(1)] by simp_all
    have "within ?sp ?r" by (simp add: within_def u)
    then have "r \<in># refs \<or> within ?sp r" if "r \<in># add_mset ?r refs" for r using that by auto
    note w = rewritten_segment [OF inv i(2), of ?seg "add_mset ?r refs", OF _ _ _ _ _ this]
    have "spill_read ?r ?sp = Some body" using fl read_write_at [OF all(1), of body] by (simp add: spill_read_def u)
    moreover have "sg_size seg + length body \<le> SEGMENT_MAX_BYTES + 2 ^ 32" using i(3) len by simp
    ultimately show ?thesis using w fl all by (simp add: eq segment_ok_def)
  qed
qed

definition may_append :: "append_io \<Rightarrow> bytes \<Rightarrow> spill \<Rightarrow> bool" where
  "may_append io body sp \<longleftrightarrow> io_open io \<and> length body < 2 ^ 32 \<and> Suc (unat (sp_next_segment sp)) < 2 ^ 64"

lemma append_inv:
  assumes inv: "spill_inv refs sp" and may: "may_append io body sp" and app: "spill_append io body sp = (res, sp')"
  shows "(case res of Appended r \<Rightarrow> spill_inv (add_mset r refs) sp' \<and> spill_read r sp' = Some body | AppendFailed \<Rightarrow> spill_inv refs sp' | AppendPanics \<Rightarrow> False) \<and>
    same_reads refs sp sp' \<and> unat (sp_next_segment sp') \<le> Suc (unat (sp_next_segment sp))"
proof -
  have h: "io_open io" "length body < 2 ^ 32" "Suc (unat (sp_next_segment sp)) < 2 ^ 64" using may by (simp_all add: may_append_def)
  obtain sp1 where roll: "roll_segment io sp = (True, sp1)" "spill_inv refs sp1" "same_reads refs sp sp1" "small_current sp1"
    "sp_next_segment sp1 = sp_next_segment sp + 1" using roll_inv [OF inv h(3,1)] by blast
  have n: "unat (sp_next_segment sp1) = Suc (unat (sp_next_segment sp))" using roll(5) h(3) by (simp add: unat_plus_one)
  consider "append_current io body sp = (res, sp')" "small_current sp" | "append_current io body sp1 = (res, sp')"
  proof (cases "sp_current sp")
    case None
    then show thesis using app roll(1) that(2) by (simp add: spill_append_def)
  next
    case (Some i)
    then obtain seg where "sp_segments sp i = Some seg" using inv by (auto simp: spill_inv_def)
    then show thesis using app Some roll(1) that by (auto simp: spill_append_def small_current_def split: if_splits)
  qed
  then show ?thesis
  proof cases
    case 1
    then show ?thesis using append_current_inv [OF inv 1(2) h(2) 1(1)] by simp
  next
    case 2
    have "(case res of Appended r \<Rightarrow> spill_inv (add_mset r refs) sp' \<and> spill_read r sp' = Some body | AppendFailed \<Rightarrow> spill_inv refs sp' | AppendPanics \<Rightarrow> False)"
      "same_reads refs sp1 sp'" "sp_next_segment sp' = sp_next_segment sp1"
      using append_current_inv [OF roll(2,4) h(2) 2] by blast+
    then show ?thesis using same_reads_trans [OF roll(3)] n by simp
  qed
qed

subsection \<open>The contract of a body store\<close>

text \<open>
  What a queue relies on: a store that holds a multiset of references reads each of them, keeps the
  others' readings when one is added or released, and reads a new one as the body just appended.
\<close>

locale body_store =
  fixes holds :: "'r multiset \<Rightarrow> 's \<Rightarrow> bool"
    and may :: "'io \<Rightarrow> bytes \<Rightarrow> 's \<Rightarrow> bool"
    and put :: "'io \<Rightarrow> bytes \<Rightarrow> 's \<Rightarrow> 'r option \<times> 's"
    and fetch :: "'r \<Rightarrow> 's \<Rightarrow> bytes option"
    and release :: "'r \<Rightarrow> 's \<Rightarrow> 's"
    and upkeep :: "('s \<Rightarrow> 's) \<Rightarrow> bool"
  assumes put_some: "holds R s \<Longrightarrow> may io b s \<Longrightarrow> put io b s = (Some r, s') \<Longrightarrow>
      holds (add_mset r R) s' \<and> fetch r s' = Some b \<and> (\<forall>x \<in># R. fetch x s' = fetch x s)"
    and put_none: "holds R s \<Longrightarrow> may io b s \<Longrightarrow> put io b s = (None, s') \<Longrightarrow> holds R s' \<and> (\<forall>x \<in># R. fetch x s' = fetch x s)"
    and release_one: "holds (add_mset r R) s \<Longrightarrow> holds R (release r s) \<and> (\<forall>x \<in># R. fetch x (release r s) = fetch x s)"
    and upkeep_ok: "upkeep f \<Longrightarrow> holds R s \<Longrightarrow> holds R (f s) \<and> (\<forall>x \<in># R. fetch x (f s) = fetch x s)"
begin

text \<open>A store backs a ledger of references with the bodies they stand for.\<close>

definition backs :: "('r \<times> bytes) multiset \<Rightarrow> 's \<Rightarrow> bool" where
  "backs L s \<longleftrightarrow> holds (image_mset fst L) s \<and> (\<forall>e \<in># L. fetch (fst e) s = Some (snd e))"

lemma backs_put:
  assumes "backs L s" "may io b s" "put io b s = (res, s')"
  shows "case res of Some r \<Rightarrow> backs (add_mset (r, b) L) s' | None \<Rightarrow> backs L s'"
proof (cases res)
  case None
  then show ?thesis using assms put_none [of "image_mset fst L" s io b s'] by (auto simp: backs_def)
next
  case (Some r)
  then show ?thesis using assms put_some [of "image_mset fst L" s io b r s'] by (auto simp: backs_def)
qed

lemma backs_release: "backs (add_mset (r, b) L) s \<Longrightarrow> backs L (release r s)"
  using release_one [of r "image_mset fst L" s] by (auto simp: backs_def)

lemma backs_upkeep: "backs L s \<Longrightarrow> upkeep f \<Longrightarrow> backs L (f s)"
  using upkeep_ok [of f "image_mset fst L" s] by (auto simp: backs_def)

lemma backs_fetch: "backs L s \<Longrightarrow> (r, b) \<in># L \<Longrightarrow> fetch r s = Some b"
  by (auto simp: backs_def)

end

definition spill_put :: "append_io \<Rightarrow> bytes \<Rightarrow> spill \<Rightarrow> spill_ref option \<times> spill" where
  "spill_put io body sp = (case spill_append io body sp of (Appended r, sp) \<Rightarrow> (Some r, sp) | (_, sp) \<Rightarrow> (None, sp))"

interpretation spills: body_store spill_inv may_append spill_put spill_read spill_release "\<lambda>f. f = spill_pin \<or> f = spill_unpin"
proof
  fix R :: "spill_ref multiset" and s s' :: spill and io b r
  assume inv: "spill_inv R s" and may: "may_append io b s"
  show "spill_inv (add_mset r R) s' \<and> spill_read r s' = Some b \<and> (\<forall>x \<in># R. spill_read x s' = spill_read x s)" if "spill_put io b s = (Some r, s')"
    using append_inv [OF inv may] that by (cases "spill_append io b s") (auto simp: spill_put_def same_reads_def split: append_result.splits)
  show "spill_inv R s' \<and> (\<forall>x \<in># R. spill_read x s' = spill_read x s)" if "spill_put io b s = (None, s')"
    using append_inv [OF inv may] that by (cases "spill_append io b s") (auto simp: spill_put_def same_reads_def split: append_result.splits)
qed (use release_inv pin_inv unpin_inv in \<open>auto simp: same_reads_def\<close>)

lemma spill_put_next:
  "spill_inv refs sp \<Longrightarrow> may_append io body sp \<Longrightarrow> unat (sp_next_segment (snd (spill_put io body sp))) \<le> Suc (unat (sp_next_segment sp))"
  using append_inv [of refs sp io body] by (cases "spill_append io body sp") (auto simp: spill_put_def split: append_result.splits)

lemma release_next [simp]: "sp_next_segment (spill_release r sp) = sp_next_segment sp"
  by (simp add: spill_release_def delete_segment_def Let_def split: option.splits)

text \<open>A store whose current segment has drained and that cannot create the next file panics at its next append.\<close>

lemma failed_roll_panics:
  assumes "sp_current sp = Some i" "sp_segments sp i = Some seg" "sg_live seg = 0" "SEGMENT_MAX_BYTES \<le> sg_size seg" "sp_pins sp = 0" "\<not> io_open io"
  shows "\<exists>sp'. spill_append io body sp = (AppendFailed, sp') \<and> spill_append io' body' sp' = (AppendPanics, sp')"
  using assms by (simp add: spill_append_def roll_segment_def reclaim_current_def delete_segment_def Let_def)

end
