(* ===== verification/Serde_Bin.thy ===== *)
theory Serde_Bin
  imports Codec_Primitives
begin

section \<open>The cluster's binary format (\<open>ramqp-broker/src/serde_bin.rs\<close>)\<close>

text \<open>
  The serializer and the deserializer over serde's data model. \<open>sval\<close> are the values a type's
  derived implementation hands to the serializer, \<open>stype\<close> the shapes it asks the deserializer for:
  the format carries no type tags, so reading is directed by the shape. Integers of either sign
  and floats are their bit patterns with a width in bytes; structs, tuples and the fields of
  variants are \<open>SFields\<close>. A sequence is always serialized with its length.
\<close>

subsection \<open>Little-endian numbers\<close>

primrec to_le :: "nat \<Rightarrow> nat \<Rightarrow> bytes" where
  "to_le 0 k = []"
| "to_le (Suc n) k = of_nat k # to_le n (k div 256)"

primrec from_le :: "bytes \<Rightarrow> nat" where
  "from_le [] = 0"
| "from_le (b # bs) = unat b + 256 * from_le bs"

lemma length_to_le [simp]: "length (to_le n k) = n"
  by (induction n arbitrary: k) auto

lemma from_to_le: "from_le (to_le n k) = k mod 256 ^ n"
  by (induction n arbitrary: k) (auto simp: unsigned_of_nat take_bit_eq_mod mod_mult2_eq)

lemma to_from_le: "to_le (length bs) (from_le bs) = bs"
proof (induction bs)
  case (Cons b bs)
  have "unat b < 256" using unat_less_2p [of b] by simp
  then have "(unat b + 256 * from_le bs) div 256 = from_le bs" by simp
  moreover have "(256 :: u8) = 0" by simp
  then have "(of_nat (unat b + 256 * from_le bs) :: u8) = b" by (simp only: of_nat_add of_nat_mult of_nat_numeral) simp
  ultimately show ?case using Cons by simp
qed simp

lemma from_le_bound: "from_le bs < 256 ^ length bs"
proof (induction bs)
  case (Cons b bs)
  have "unat b < 256" using unat_less_2p [of b] by simp
  then show ?case using Cons by simp
qed simp

subsection \<open>The data model\<close>

datatype sval =
    SBool bool
  | SNum nat nat
  | SChar nat
  | SStr bytes
  | SBytes bytes
  | SNone
  | SSome sval
  | SUnit
  | SSeq "sval list"
  | SFields "sval list"
  | SMap "(sval \<times> sval) list"
  | SVariant nat sval

datatype stype =
    TBool
  | TNum nat
  | TChar
  | TStr
  | TBytes
  | TOption stype
  | TUnit
  | TSeq stype
  | TFields "stype list"
  | TMap stype stype
  | TEnum "stype list"

datatype serde_error =
    Message
  | Eof
  | TrailingBytes nat
  | InvalidBool u8
  | InvalidChar nat
  | InvalidUtf8
  | InvalidOptionTag u8

subsection \<open>Serializer\<close>

definition write_len :: "nat \<Rightarrow> bytes" where "write_len n = to_le 8 n"

definition write_u32 :: "nat \<Rightarrow> bytes" where "write_u32 n = to_le 4 n"

fun ser :: "sval \<Rightarrow> bytes" where
  "ser (SBool b) = [if b then 1 else 0]"
| "ser (SNum w k) = to_le w k"
| "ser (SChar c) = write_u32 c"
| "ser (SStr s) = write_len (length s) @ s"
| "ser (SBytes s) = write_len (length s) @ s"
| "ser SNone = [0]"
| "ser (SSome v) = 1 # ser v"
| "ser SUnit = []"
| "ser (SSeq vs) = write_len (length vs) @ concat (map ser vs)"
| "ser (SFields vs) = concat (map ser vs)"
| "ser (SMap es) = write_len (length es) @ concat (map (\<lambda>(k, v). ser k @ ser v) es)"
| "ser (SVariant i v) = write_u32 i @ ser v"

definition to_vec :: "sval \<Rightarrow> bytes" where "to_vec v = ser v"

subsection \<open>Deserializer\<close>

definition take_bytes :: "nat \<Rightarrow> bytes \<Rightarrow> serde_error + bytes \<times> bytes" where
  "take_bytes n input = (if length input < n then Inl Eof else Inr (take n input, drop n input))"

definition read_len :: "bytes \<Rightarrow> serde_error + nat \<times> bytes" where
  "read_len input = rbind (take_bytes 8 input) (\<lambda>(bs, input). Inr (from_le bs, input))"

definition read_le_u32 :: "bytes \<Rightarrow> serde_error + nat \<times> bytes" where
  "read_le_u32 input = rbind (take_bytes 4 input) (\<lambda>(bs, input). Inr (from_le bs, input))"

definition scalar_value :: "nat \<Rightarrow> bool" where
  "scalar_value c \<longleftrightarrow> c < 0xD800 \<or> 0xE000 \<le> c \<and> c < 0x110000"

lemma size_nth_le: "i < length ts \<Longrightarrow> size (ts ! i) \<le> size_list size ts"
  by (induction ts arbitrary: i) (auto simp: nth_Cons split: nat.splits intro: le_SucI trans_le_add2)

text \<open>\<open>deser_n\<close> reads the elements of a sequence, \<open>deser_entries\<close> those of a map, \<open>deser_fields\<close> a field each.\<close>

function deser :: "stype \<Rightarrow> bytes \<Rightarrow> serde_error + sval \<times> bytes"
  and deser_n :: "nat \<Rightarrow> stype \<Rightarrow> bytes \<Rightarrow> serde_error + sval list \<times> bytes"
  and deser_entries :: "nat \<Rightarrow> stype \<Rightarrow> stype \<Rightarrow> bytes \<Rightarrow> serde_error + (sval \<times> sval) list \<times> bytes"
  and deser_fields :: "stype list \<Rightarrow> bytes \<Rightarrow> serde_error + sval list \<times> bytes" where
  "deser TBool input = rbind (take_bytes 1 input) (\<lambda>(bs, input).
    if hd bs = 0 then Inr (SBool False, input) else if hd bs = 1 then Inr (SBool True, input) else Inl (InvalidBool (hd bs)))"
| "deser (TNum w) input = rbind (take_bytes w input) (\<lambda>(bs, input). Inr (SNum w (from_le bs), input))"
| "deser TChar input = rbind (read_le_u32 input) (\<lambda>(c, input). if scalar_value c then Inr (SChar c, input) else Inl (InvalidChar c))"
| "deser TStr input = rbind (read_len input) (\<lambda>(n, input). rbind (take_bytes n input) (\<lambda>(s, input).
    if valid_utf8 s then Inr (SStr s, input) else Inl InvalidUtf8))"
| "deser TBytes input = rbind (read_len input) (\<lambda>(n, input). rbind (take_bytes n input) (\<lambda>(s, input). Inr (SBytes s, input)))"
| "deser (TOption t) input = rbind (take_bytes 1 input) (\<lambda>(bs, input).
    if hd bs = 0 then Inr (SNone, input)
    else if hd bs = 1 then rbind (deser t input) (\<lambda>(v, input). Inr (SSome v, input))
    else Inl (InvalidOptionTag (hd bs)))"
| "deser TUnit input = Inr (SUnit, input)"
| "deser (TSeq t) input = rbind (read_len input) (\<lambda>(n, input). rbind (deser_n n t input) (\<lambda>(vs, input). Inr (SSeq vs, input)))"
| "deser (TFields ts) input = rbind (deser_fields ts input) (\<lambda>(vs, input). Inr (SFields vs, input))"
| "deser (TMap k t) input = rbind (read_len input) (\<lambda>(n, input). rbind (deser_entries n k t input) (\<lambda>(es, input). Inr (SMap es, input)))"
| "deser (TEnum ts) input = rbind (read_le_u32 input) (\<lambda>(i, input).
    if i < length ts then rbind (deser (ts ! i) input) (\<lambda>(v, input). Inr (SVariant i v, input)) else Inl Message)"
| "deser_n 0 t input = Inr ([], input)"
| "deser_n (Suc n) t input = rbind (deser t input) (\<lambda>(v, input). rbind (deser_n n t input) (\<lambda>(vs, input). Inr (v # vs, input)))"
| "deser_entries 0 k t input = Inr ([], input)"
| "deser_entries (Suc n) k t input = rbind (deser k input) (\<lambda>(x, input). rbind (deser t input) (\<lambda>(v, input).
    rbind (deser_entries n k t input) (\<lambda>(es, input). Inr ((x, v) # es, input))))"
| "deser_fields [] input = Inr ([], input)"
| "deser_fields (t # ts) input = rbind (deser t input) (\<lambda>(v, input). rbind (deser_fields ts input) (\<lambda>(vs, input). Inr (v # vs, input)))"
  by pat_completeness auto

termination
proof (relation "measures [\<lambda>x. case x of Inl (Inl (t, _)) \<Rightarrow> 2 * size t | Inl (Inr (_, t, _)) \<Rightarrow> 2 * size t + 1
    | Inr (Inl (_, k, t, _)) \<Rightarrow> 2 * (size k + size t) + 1 | Inr (Inr (ts, _)) \<Rightarrow> 2 * size_list size ts + 1,
    \<lambda>x. case x of Inl (Inr (n, _)) \<Rightarrow> n | Inr (Inl (n, _)) \<Rightarrow> n | _ \<Rightarrow> 0]")
qed (auto simp: less_Suc_eq_le dest!: size_nth_le)

definition serde_from_slice :: "stype \<Rightarrow> bytes \<Rightarrow> serde_error + sval" where
  "serde_from_slice t bs = rbind (deser t bs) (\<lambda>(v, rest). if rest = [] then Inr v else Inl (TrailingBytes (length rest)))"

subsection \<open>Values of a shape\<close>

function typed :: "stype \<Rightarrow> sval \<Rightarrow> bool" where
  "typed TBool v = (case v of SBool _ \<Rightarrow> True | _ \<Rightarrow> False)"
| "typed (TNum w) v = (case v of SNum w' k \<Rightarrow> w' = w \<and> k < 256 ^ w | _ \<Rightarrow> False)"
| "typed TChar v = (case v of SChar c \<Rightarrow> scalar_value c | _ \<Rightarrow> False)"
| "typed TStr v = (case v of SStr s \<Rightarrow> length s < 2 ^ 64 \<and> valid_utf8 s | _ \<Rightarrow> False)"
| "typed TBytes v = (case v of SBytes s \<Rightarrow> length s < 2 ^ 64 | _ \<Rightarrow> False)"
| "typed (TOption t) v = (case v of SNone \<Rightarrow> True | SSome x \<Rightarrow> typed t x | _ \<Rightarrow> False)"
| "typed TUnit v = (v = SUnit)"
| "typed (TSeq t) v = (case v of SSeq vs \<Rightarrow> length vs < 2 ^ 64 \<and> list_all (typed t) vs | _ \<Rightarrow> False)"
| "typed (TFields ts) v = (case v of SFields vs \<Rightarrow> length vs = length ts \<and> (\<forall>i \<in> {..<length ts}. typed (ts ! i) (vs ! i)) | _ \<Rightarrow> False)"
| "typed (TMap k t) v = (case v of SMap es \<Rightarrow> length es < 2 ^ 64 \<and> list_all (\<lambda>(x, y). typed k x \<and> typed t y) es | _ \<Rightarrow> False)"
| "typed (TEnum ts) v = (case v of SVariant i x \<Rightarrow> if i < length ts then i < 2 ^ 32 \<and> typed (ts ! i) x else False | _ \<Rightarrow> False)"
  by pat_completeness auto

termination
  by (relation "measure (\<lambda>(t, _). size t)") (auto simp: less_Suc_eq_le size_nth_le)

subsection \<open>Laws\<close>

lemma take_bytes_append: "length bs = n \<Longrightarrow> take_bytes n (bs @ rest) = Inr (bs, rest)"
  by (auto simp: take_bytes_def)

lemma read_len_write [simp]: "n < 2 ^ 64 \<Longrightarrow> read_len (write_len n @ rest) = Inr (n, rest)"
  by (simp add: read_len_def write_len_def take_bytes_append from_to_le)

lemma read_u32_write [simp]: "n < 2 ^ 32 \<Longrightarrow> read_le_u32 (write_u32 n @ rest) = Inr (n, rest)"
  by (simp add: read_le_u32_def write_u32_def take_bytes_append from_to_le)

lemma take_bytes_InrD: "take_bytes n input = Inr (bs, rest) \<Longrightarrow> input = bs @ rest \<and> length bs = n"
  by (auto simp: take_bytes_def)

lemma take_one_InrD: "take_bytes (Suc 0) input = Inr (bs, rest) \<Longrightarrow> \<exists>b. bs = [b] \<and> input = b # rest"
  by (auto simp: length_Suc_conv dest!: take_bytes_InrD)

lemma read_len_InrD: "read_len input = Inr (n, rest) \<Longrightarrow> input = write_len n @ rest \<and> n < 2 ^ 64"
proof -
  assume "read_len input = Inr (n, rest)"
  then obtain bs where bs: "take_bytes 8 input = Inr (bs, rest)" "n = from_le bs" by (auto simp: read_len_def)
  note h = take_bytes_InrD [OF bs(1)]
  then show ?thesis using to_from_le [of bs] from_le_bound [of bs] by (simp add: write_len_def bs(2))
qed

lemma read_u32_InrD: "read_le_u32 input = Inr (n, rest) \<Longrightarrow> input = write_u32 n @ rest \<and> n < 2 ^ 32"
proof -
  assume "read_le_u32 input = Inr (n, rest)"
  then obtain bs where bs: "take_bytes 4 input = Inr (bs, rest)" "n = from_le bs" by (auto simp: read_le_u32_def)
  note h = take_bytes_InrD [OF bs(1)]
  then show ?thesis using to_from_le [of bs] from_le_bound [of bs] by (simp add: write_u32_def bs(2))
qed

definition reads :: "stype \<Rightarrow> bool" where
  "reads t \<longleftrightarrow> (\<forall>v rest. typed t v \<longrightarrow> deser t (ser v @ rest) = Inr (v, rest))"

lemma deser_n_reads: "reads t \<Longrightarrow> list_all (typed t) vs \<Longrightarrow> deser_n (length vs) t (concat (map ser vs) @ rest) = Inr (vs, rest)"
  by (induction vs) (auto simp: reads_def)

lemma deser_entries_reads:
  "reads k \<Longrightarrow> reads t \<Longrightarrow> list_all (\<lambda>(x, y). typed k x \<and> typed t y) es \<Longrightarrow>
    deser_entries (length es) k t (concat (map (\<lambda>(x, y). ser x @ ser y) es) @ rest) = Inr (es, rest)"
  by (induction es) (auto simp: reads_def)

lemma deser_fields_reads:
  "\<forall>t \<in> set ts. reads t \<Longrightarrow> list_all2 typed ts vs \<Longrightarrow> deser_fields ts (concat (map ser vs) @ rest) = Inr (vs, rest)"
proof (induction ts arbitrary: vs)
  case (Cons t ts)
  then show ?case by (auto simp: list_all2_Cons1 reads_def)
qed auto

lemma typed_fields: "typed (TFields ts) (SFields vs) \<longleftrightarrow> list_all2 typed ts vs"
  by (auto simp: list_all2_conv_all_nth)

lemma all_read: "reads t"
proof (induction t)
  case TBool
  then show ?case by (auto simp: reads_def take_bytes_def split: sval.splits)
next
  case (TNum w)
  then show ?case by (auto simp: reads_def take_bytes_append from_to_le split: sval.splits)
next
  case TChar
  then show ?case by (auto simp: reads_def scalar_value_def split: sval.splits)
next
  case TStr
  then show ?case by (auto simp: reads_def take_bytes_append split: sval.splits)
next
  case TBytes
  then show ?case by (auto simp: reads_def take_bytes_append split: sval.splits)
next
  case (TOption t)
  then show ?case by (auto simp: reads_def take_bytes_def split: sval.splits)
next
  case TUnit
  then show ?case by (auto simp: reads_def)
next
  case (TSeq t)
  then show ?case using deser_n_reads [OF TSeq] by (auto simp: reads_def split: sval.splits)
next
  case (TFields ts)
  have "deser (TFields ts) (ser v @ rest) = Inr (v, rest)" if "typed (TFields ts) v" for v rest
  proof -
    obtain vs where v: "v = SFields vs" using \<open>typed (TFields ts) v\<close> by (auto split: sval.splits)
    have "list_all2 typed ts vs" using \<open>typed (TFields ts) v\<close> unfolding v typed_fields .
    then show ?thesis using deser_fields_reads [of ts vs rest] TFields by (simp add: v)
  qed
  then show ?case by (simp add: reads_def)
next
  case (TMap k t)
  then show ?case using deser_entries_reads [OF TMap] by (auto simp: reads_def split: sval.splits)
next
  case (TEnum ts)
  have "reads (ts ! i)" if "i < length ts" for i using TEnum that by simp
  then show ?case by (auto simp: reads_def split: sval.splits)
qed

text \<open>What was read is a value of the shape, and the bytes read are the ones the serializer writes for it.\<close>

definition sound :: "stype \<Rightarrow> bool" where
  "sound t \<longleftrightarrow> (\<forall>input v rest. deser t input = Inr (v, rest) \<longrightarrow> typed t v \<and> input = ser v @ rest)"

lemma soundD: "sound t \<Longrightarrow> deser t input = Inr (v, rest) \<Longrightarrow> typed t v \<and> input = ser v @ rest"
  by (simp add: sound_def)

lemma deser_n_sound:
  "sound t \<Longrightarrow> deser_n n t input = Inr (vs, rest) \<Longrightarrow> length vs = n \<and> list_all (typed t) vs \<and> input = concat (map ser vs) @ rest"
proof (induction n arbitrary: input vs rest)
  case (Suc n)
  from Suc.prems(2) obtain v mid vs' where d: "deser t input = Inr (v, mid)" "deser_n n t mid = Inr (vs', rest)" "vs = v # vs'"
    by (auto simp: rbind_eq_Inr_iff)
  then show ?case using soundD [OF Suc.prems(1) d(1)] Suc.IH [OF Suc.prems(1) d(2)] by simp
qed simp

lemma deser_entries_sound:
  "sound k \<Longrightarrow> sound t \<Longrightarrow> deser_entries n k t input = Inr (es, rest) \<Longrightarrow>
    length es = n \<and> list_all (\<lambda>(x, y). typed k x \<and> typed t y) es \<and> input = concat (map (\<lambda>(x, y). ser x @ ser y) es) @ rest"
proof (induction n arbitrary: input es rest)
  case (Suc n)
  from Suc.prems(3) obtain x mid y mid' es' where d: "deser k input = Inr (x, mid)" "deser t mid = Inr (y, mid')"
    "deser_entries n k t mid' = Inr (es', rest)" "es = (x, y) # es'" by (auto simp: rbind_eq_Inr_iff)
  then show ?case using soundD [OF Suc.prems(1) d(1)] soundD [OF Suc.prems(2) d(2)] Suc.IH [OF Suc.prems(1,2) d(3)] by simp
qed simp

lemma deser_fields_sound:
  "\<forall>t \<in> set ts. sound t \<Longrightarrow> deser_fields ts input = Inr (vs, rest) \<Longrightarrow> list_all2 typed ts vs \<and> input = concat (map ser vs) @ rest"
proof (induction ts arbitrary: input vs rest)
  case (Cons t ts)
  from Cons.prems(2) obtain v mid vs' where d: "deser t input = Inr (v, mid)" "deser_fields ts mid = Inr (vs', rest)" "vs = v # vs'"
    by (auto simp: rbind_eq_Inr_iff)
  then show ?case using soundD [OF _ d(1)] Cons.IH [OF _ d(2)] Cons.prems(1) by simp
qed simp

lemma all_sound: "sound t"
proof (induction t)
  case TBool
  show ?case by (auto simp: sound_def rbind_eq_Inr_iff split: if_splits dest!: take_one_InrD)
next
  case (TNum w)
  then show ?case using to_from_le from_le_bound by (auto simp: sound_def rbind_eq_Inr_iff dest!: take_bytes_InrD)
next
  case TChar
  then show ?case by (auto simp: sound_def rbind_eq_Inr_iff split: if_splits dest!: read_u32_InrD)
next
  case TStr
  then show ?case by (auto simp: sound_def rbind_eq_Inr_iff split: if_splits dest!: read_len_InrD take_bytes_InrD)
next
  case TBytes
  then show ?case by (auto simp: sound_def rbind_eq_Inr_iff dest!: read_len_InrD take_bytes_InrD)
next
  case (TOption t)
  have "typed (TOption t) v \<and> input = ser v @ rest" if read: "deser (TOption t) input = Inr (v, rest)" for input v rest
  proof -
    obtain b mid where d: "input = b # mid"
      "b = 0 \<and> v = SNone \<and> rest = mid \<or> b = 1 \<and> (\<exists>x. deser t mid = Inr (x, rest) \<and> v = SSome x)"
      using read by (auto simp: rbind_eq_Inr_iff split: if_splits dest!: take_one_InrD)
    then show ?thesis using soundD [OF TOption] by fastforce
  qed
  then show ?case by (simp add: sound_def)
next
  case TUnit
  then show ?case by (simp add: sound_def)
next
  case (TSeq t)
  then show ?case by (auto simp: sound_def [of "TSeq t"] rbind_eq_Inr_iff dest!: read_len_InrD deser_n_sound [OF TSeq])
next
  case (TFields ts)
  then show ?case using typed_fields by (auto simp: sound_def [of "TFields ts"] rbind_eq_Inr_iff simp del: typed.simps dest!: deser_fields_sound [rotated])
next
  case (TMap k t)
  then show ?case by (auto simp: sound_def [of "TMap k t"] rbind_eq_Inr_iff dest!: read_len_InrD deser_entries_sound [OF TMap])
next
  case (TEnum ts)
  have "typed (TEnum ts) v \<and> input = ser v @ rest" if read: "deser (TEnum ts) input = Inr (v, rest)" for input v rest
  proof -
    obtain i mid x where d: "read_le_u32 input = Inr (i, mid)" "i < length ts" "deser (ts ! i) mid = Inr (x, rest)" "v = SVariant i x"
      using read by (auto simp: rbind_eq_Inr_iff split: if_splits)
    have "sound (ts ! i)" using TEnum d(2) by simp
    from soundD [OF this d(3)] show ?thesis using read_u32_InrD [OF d(1)] d(2,4) by simp
  qed
  then show ?case by (simp add: sound_def)
qed

text \<open>
  C32: The broker's binary format is exact: what was serialized reads back as the same value, input
  that reads as a value of the shape is the serialization of that value and of no other, and
  nothing may follow it.
\<close>

theorem serde_bin_exact:
  assumes "typed t v"
  shows "serde_from_slice t (to_vec v) = Inr v \<and> (\<forall>bs. serde_from_slice t bs = Inr v \<longleftrightarrow> bs = to_vec v) \<and>
    (\<forall>bs v'. serde_from_slice t bs = Inr v' \<longrightarrow> typed t v')"
proof -
  have "deser t (ser v @ []) = Inr (v, [])" using all_read [of t] assms unfolding reads_def by blast
  then have same: "serde_from_slice t (to_vec v) = Inr v" by (simp add: serde_from_slice_def to_vec_def)
  have only: "bs = to_vec v' \<and> typed t v'" if "serde_from_slice t bs = Inr v'" for bs v'
  proof -
    have "deser t bs = Inr (v', [])" using that by (auto simp: serde_from_slice_def split: if_splits)
    then show ?thesis using soundD [OF all_sound] by (auto simp: to_vec_def)
  qed
  show ?thesis using same only by blast
qed

theorem serde_bin_exact_witness:
  "serde_from_slice (TFields [TNum 4, TOption TStr]) (to_vec (SFields [SNum 4 300, SSome (SStr [104, 105])])) =
    Inr (SFields [SNum 4 300, SSome (SStr [104, 105])])"
proof -
  have "typed (TFields [TNum 4, TOption TStr]) (SFields [SNum 4 300, SSome (SStr [104, 105])])"
    by (simp add: typed_fields del: typed.simps(9))
  from serde_bin_exact [OF this] show ?thesis by blast
qed

end
