(* ===== verification/Cluster_Queue_Group.thy ===== *)
theory Cluster_Queue_Group
  imports Cluster_Paging Serde_Bin
begin

section \<open>The replicated queue (\<open>ramqp-broker/src/cluster/queue_group.rs\<close>)\<close>

text \<open>
  The state machine that every replica of a quorum queue applies the committed commands to, with
  bodies paged out to the replica's own spill store, and its snapshots. An application that panics
  is \<open>None\<close>. The file operations of appends are an oracle, one entry per command or restored body.
\<close>

subsection \<open>State\<close>

datatype queue_command =
    Enqueue bytes u64
  | Settle u64 bool

datatype queue_response = Enqueued u64 | Settled | NotFound | Void

datatype stored_body = Resident bytes | Spilled spill_ref

record replicated_message =
  rm_body :: stored_body
  rm_failures :: u32
  rm_enqueued_ms :: u64

record queue_paging =
  pg_spill :: spill
  pg_resident_max :: nat

record queue_state =
  qg_next_msg_id :: u64
  qg_messages :: "(u64, replicated_message) btree"
  qg_resident_bytes :: nat
  qg_paging :: "queue_paging option"

definition new_state :: "queue_paging option \<Rightarrow> queue_state" where
  "new_state paging = \<lparr>qg_next_msg_id = 0, qg_messages = [], qg_resident_bytes = 0, qg_paging = paging\<rparr>"

definition paged :: "spill \<Rightarrow> nat \<Rightarrow> queue_state" where
  "paged sp resident_max = new_state (Some \<lparr>pg_spill = sp, pg_resident_max = resident_max\<rparr>)"

subsection \<open>Reading\<close>

datatype body_fetch = Ready bytes | FetchSpilled spill spill_ref

definition body_of :: "queue_state \<Rightarrow> u64 \<Rightarrow> rust_panic + body_fetch option" where
  "body_of q msg_id = (case map_of (qg_messages q) msg_id of
      None \<Rightarrow> Inr None
    | Some m \<Rightarrow>
        (case rm_body m of
           Resident b \<Rightarrow> Inr (Some (Ready b))
         | Spilled r \<Rightarrow> (case qg_paging q of None \<Rightarrow> Inl ExpectFailed | Some pg \<Rightarrow> Inr (Some (FetchSpilled (pg_spill pg) r)))))"

definition meta_of :: "queue_state \<Rightarrow> u64 \<Rightarrow> (u64 \<times> u32) option" where
  "meta_of q msg_id = map_option (\<lambda>m. (rm_enqueued_ms m, rm_failures m)) (map_of (qg_messages q) msg_id)"

fun spilled_ref :: "stored_body \<Rightarrow> spill_ref option" where
  "spilled_ref (Resident _) = None"
| "spilled_ref (Spilled r) = Some r"

definition spill_refs :: "queue_state \<Rightarrow> spill_ref list" where
  "spill_refs q = List.map_filter (\<lambda>(_, m). spilled_ref (rm_body m)) (qg_messages q)"

definition spill_live_counts :: "queue_state \<Rightarrow> u64 \<Rightarrow> nat" where
  "spill_live_counts q i = length (filter (\<lambda>r. sr_segment r = i) (spill_refs q))"

subsection \<open>Storing and dropping bodies\<close>

definition keep_resident :: "bytes \<Rightarrow> queue_state \<Rightarrow> stored_body \<times> queue_state" where
  "keep_resident body q = (Resident body, q\<lparr>qg_resident_bytes := qg_resident_bytes q + length body\<rparr>)"

definition store_queue_body :: "append_io \<Rightarrow> bytes \<Rightarrow> queue_state \<Rightarrow> (stored_body \<times> queue_state) option" where
  "store_queue_body io body q = (case qg_paging q of
      Some pg \<Rightarrow>
        if qg_resident_bytes q + length body > pg_resident_max pg
        then (case spill_append io body (pg_spill pg) of
                (Appended r, sp) \<Rightarrow> Some (Spilled r, q\<lparr>qg_paging := Some (pg\<lparr>pg_spill := sp\<rparr>)\<rparr>)
              | (AppendFailed, sp) \<Rightarrow> Some (keep_resident body (q\<lparr>qg_paging := Some (pg\<lparr>pg_spill := sp\<rparr>)\<rparr>))
              | (AppendPanics, _) \<Rightarrow> None)
        else Some (keep_resident body q)
    | None \<Rightarrow> Some (keep_resident body q))"

definition drop_body :: "stored_body \<Rightarrow> queue_state \<Rightarrow> queue_state" where
  "drop_body body q = (case body of
      Resident b \<Rightarrow> q\<lparr>qg_resident_bytes := qg_resident_bytes q - length b\<rparr>
    | Spilled r \<Rightarrow> (case qg_paging q of Some pg \<Rightarrow> q\<lparr>qg_paging := Some (pg\<lparr>pg_spill := spill_release r (pg_spill pg)\<rparr>)\<rparr> | None \<Rightarrow> q))"

subsection \<open>Commands\<close>

fun apply_command :: "append_io \<Rightarrow> queue_command \<Rightarrow> queue_state \<Rightarrow> (queue_response \<times> queue_state) option" where
  "apply_command io (Enqueue body enqueued_ms) q =
    (let q = q\<lparr>qg_next_msg_id := qg_next_msg_id q + 1\<rparr>; msg_id = qg_next_msg_id q
     in case store_queue_body io body q of
          None \<Rightarrow> None
        | Some (stored, q) \<Rightarrow>
            Some (Enqueued msg_id,
              q\<lparr>qg_messages := bt_insert msg_id \<lparr>rm_body = stored, rm_failures = 0, rm_enqueued_ms = enqueued_ms\<rparr> (qg_messages q)\<rparr>))"
| "apply_command io (Settle msg_id requeue) q =
    (case map_of (qg_messages q) msg_id of
       None \<Rightarrow> Some (NotFound, q)
     | Some m \<Rightarrow>
         if requeue
         then Some (Settled, q\<lparr>qg_messages := bt_insert msg_id (m\<lparr>rm_failures := rm_failures m + 1\<rparr>) (qg_messages q)\<rparr>)
         else Some (Settled, drop_body (rm_body m) (q\<lparr>qg_messages := bt_remove msg_id (qg_messages q)\<rparr>)))"

fun apply_commands :: "(append_io \<times> queue_command) list \<Rightarrow> queue_state \<Rightarrow> (queue_response list \<times> queue_state) option" where
  "apply_commands [] q = Some ([], q)"
| "apply_commands ((io, c) # cs) q =
    (case apply_command io c q of
       None \<Rightarrow> None
     | Some (r, q) \<Rightarrow> (case apply_commands cs q of None \<Rightarrow> None | Some (rs, q) \<Rightarrow> Some (r # rs, q)))"

definition prepare_snapshot :: "queue_state \<Rightarrow> queue_state" where
  "prepare_snapshot q = q\<lparr>qg_paging := map_option (\<lambda>pg. pg\<lparr>pg_spill := spill_pin (pg_spill pg)\<rparr>) (qg_paging q)\<rparr>"

definition finish_snapshot :: "queue_state \<Rightarrow> queue_state" where
  "finish_snapshot q = q\<lparr>qg_paging := map_option (\<lambda>pg. pg\<lparr>pg_spill := spill_unpin (pg_spill pg)\<rparr>) (qg_paging q)\<rparr>"

subsection \<open>Snapshots\<close>

datatype portable_body = Inline bytes | External spill_ref

type_synonym portable_message = "u64 \<times> u32 \<times> u64 \<times> portable_body"

record portable_state =
  ps_next_msg_id :: u64
  ps_messages :: "portable_message list"
  ps_spill_id :: u64

fun portable_of :: "stored_body \<Rightarrow> portable_body" where
  "portable_of (Resident b) = Inline b"
| "portable_of (Spilled r) = External r"

text \<open>What the derived serializers make of a portable state.\<close>

fun body_sval :: "portable_body \<Rightarrow> sval" where
  "body_sval (Inline b) = SVariant 0 (SSeq (map (\<lambda>x. SNum 1 (unat x)) b))"
| "body_sval (External r) = SVariant 1 (SFields [SNum 8 (unat (sr_segment r)), SNum 8 (sr_offset r), SNum 4 (unat (sr_len r))])"

definition message_sval :: "portable_message \<Rightarrow> sval" where
  "message_sval = (\<lambda>(i, failures, ms, body). SFields [SNum 8 (unat i), SNum 4 (unat failures), SNum 8 (unat ms), body_sval body])"

definition portable_sval :: "portable_state \<Rightarrow> sval" where
  "portable_sval p = SFields [SNum 8 (unat (ps_next_msg_id p)), SSeq (map message_sval (ps_messages p)), SNum 8 (unat (ps_spill_id p))]"

definition portable_type :: stype where
  "portable_type = TFields [TNum 8, TSeq (TFields [TNum 8, TNum 4, TNum 8, TEnum [TSeq (TNum 1), TFields [TNum 8, TNum 8, TNum 4]]]), TNum 8]"

fun num_of :: "sval \<Rightarrow> nat" where
  "num_of (SNum _ k) = k"
| "num_of _ = 0"

fun sval_body :: "sval \<Rightarrow> portable_body option" where
  "sval_body (SVariant i v) =
    (if i = 0 then (case v of SSeq bs \<Rightarrow> Some (Inline (map (\<lambda>x. of_nat (num_of x)) bs)) | _ \<Rightarrow> None)
     else (case v of SFields [a, b, c] \<Rightarrow> Some (External \<lparr>sr_segment = of_nat (num_of a), sr_offset = num_of b, sr_len = of_nat (num_of c)\<rparr>) | _ \<Rightarrow> None))"
| "sval_body _ = None"

fun sval_message :: "sval \<Rightarrow> portable_message option" where
  "sval_message (SFields [a, b, c, d]) = map_option (\<lambda>body. (of_nat (num_of a), of_nat (num_of b), of_nat (num_of c), body)) (sval_body d)"
| "sval_message _ = None"

fun sval_portable :: "sval \<Rightarrow> portable_state option" where
  "sval_portable (SFields [n, SSeq ms, i]) =
    (if list_all (\<lambda>x. sval_message x \<noteq> None) ms
     then Some \<lparr>ps_next_msg_id = of_nat (num_of n), ps_messages = map (\<lambda>x. the (sval_message x)) ms, ps_spill_id = of_nat (num_of i)\<rparr>
     else None)"
| "sval_portable _ = None"

text \<open>Whether the segments could be synced is an argument; a failed sync gives no snapshot.\<close>

definition snapshot_bytes :: "bool \<Rightarrow> queue_state \<Rightarrow> rust_panic + bytes option" where
  "snapshot_bytes synced q =
    (let messages = map (\<lambda>(i, m). (i, rm_failures m, rm_enqueued_ms m, portable_of (rm_body m))) (qg_messages q);
         spilled = (spill_refs q \<noteq> [])
     in if spilled
        then (case qg_paging q of
                None \<Rightarrow> Inl ExpectFailed
              | Some pg \<Rightarrow>
                  if synced
                  then Inr (Some (to_vec (portable_sval
                    \<lparr>ps_next_msg_id = qg_next_msg_id q, ps_messages = messages, ps_spill_id = sp_id (pg_spill pg)\<rparr>)))
                  else Inr None)
        else Inr (Some (to_vec (portable_sval \<lparr>ps_next_msg_id = qg_next_msg_id q, ps_messages = messages, ps_spill_id = 0\<rparr>))))"

datatype restore_error = BadSnapshot | NoSpill | ForeignSpill | Unreadable

definition restore_body :: "append_io \<Rightarrow> u64 \<Rightarrow> portable_body \<Rightarrow> queue_state \<Rightarrow> (restore_error + stored_body \<times> queue_state) option" where
  "restore_body io spill_id body q = (case body of
      Inline b \<Rightarrow> map_option Inr (store_queue_body io b q)
    | External r \<Rightarrow>
        Some (case qg_paging q of
            None \<Rightarrow> Inl NoSpill
          | Some pg \<Rightarrow>
              if sp_id (pg_spill pg) \<noteq> spill_id then Inl ForeignSpill
              else if spill_read r (pg_spill pg) = None then Inl Unreadable
              else Inr (Spilled r, q)))"

text \<open>The oracle has an entry for every message; an error leaves what was restored so far.\<close>

fun restore_messages ::
    "append_io list \<Rightarrow> u64 \<Rightarrow> portable_message list \<Rightarrow> queue_state \<Rightarrow> ((restore_error + unit) \<times> queue_state) option" where
  "restore_messages ios spill_id [] q = Some (Inr (), q)"
| "restore_messages ios spill_id ((i, failures, ms, body) # rest) q =
    (case restore_body (hd ios) spill_id body q of
       None \<Rightarrow> None
     | Some (Inl e) \<Rightarrow> Some (Inl e, q)
     | Some (Inr (stored, q)) \<Rightarrow>
         restore_messages (tl ios) spill_id rest
           (q\<lparr>qg_messages := bt_insert i \<lparr>rm_body = stored, rm_failures = failures, rm_enqueued_ms = ms\<rparr> (qg_messages q)\<rparr>))"

definition restore_snapshot :: "append_io list \<Rightarrow> bytes \<Rightarrow> queue_state \<Rightarrow> ((restore_error + unit) \<times> queue_state) option" where
  "restore_snapshot ios bs q =
    (case serde_from_slice portable_type bs of
       Inl _ \<Rightarrow> Some (Inl BadSnapshot, q)
     | Inr v \<Rightarrow>
         (case sval_portable v of
            None \<Rightarrow> Some (Inl BadSnapshot, q)
          | Some p \<Rightarrow>
              let old = qg_messages q;
                  q = fold (\<lambda>(_, m). drop_body (rm_body m)) old (q\<lparr>qg_messages := []\<rparr>);
                  q = q\<lparr>qg_resident_bytes := 0, qg_next_msg_id := ps_next_msg_id p\<rparr>
              in restore_messages ios (ps_spill_id p) (ps_messages p) q))"

text \<open>Opening a persisted queue after a restart (\<open>paged_queue_store\<close> in \<open>cluster/node.rs\<close>).\<close>

definition reopen_queue ::
    "append_io list \<Rightarrow> u64 \<Rightarrow> (u64 \<times> bytes) list \<Rightarrow> nat \<Rightarrow> bytes \<Rightarrow> (restore_error + queue_state) option" where
  "reopen_queue ios spill_id files resident_max snapshot =
    (case restore_snapshot ios snapshot (paged (open_preserving spill_id files) resident_max) of
       None \<Rightarrow> None
     | Some (Inl e, _) \<Rightarrow> Some (Inl e)
     | Some (Inr _, q) \<Rightarrow>
         Some (Inr (q\<lparr>qg_paging := map_option (\<lambda>pg. pg\<lparr>pg_spill := set_live (spill_live_counts q) (pg_spill pg)\<rparr>) (qg_paging q)\<rparr>)))"

end
