(* ===== verification/Cluster_Queue_Laws.thy ===== *)
theory Cluster_Queue_Laws
  imports Cluster_Queue_Group
begin

section \<open>Replicas of a queue agree\<close>

text \<open>
  The specification of the replicated queue keeps every body; the paged state machine refines it,
  whatever its budget and whichever spill writes fail, so that replicas that apply the same
  commands answer alike and hold the same messages. A snapshot restores the same specification
  state as long as the segments it refers to are on disk.
\<close>

subsection \<open>Specification\<close>

record spec_queue =
  sq_next :: u64
  sq_messages :: "(u64, bytes \<times> u32 \<times> u64) btree"

definition spec_empty :: spec_queue where
  "spec_empty = \<lparr>sq_next = 0, sq_messages = []\<rparr>"

fun spec_apply :: "queue_command \<Rightarrow> spec_queue \<Rightarrow> queue_response \<times> spec_queue" where
  "spec_apply (Enqueue body ms) a =
    (Enqueued (sq_next a + 1), \<lparr>sq_next = sq_next a + 1, sq_messages = sq_messages a @ [(sq_next a + 1, body, 0, ms)]\<rparr>)"
| "spec_apply (Settle i requeue) a =
    (case map_of (sq_messages a) i of
       None \<Rightarrow> (NotFound, a)
     | Some (body, failures, ms) \<Rightarrow>
         (Settled, a\<lparr>sq_messages := if requeue then bt_insert i (body, failures + 1, ms) (sq_messages a) else bt_remove i (sq_messages a)\<rparr>))"

fun spec_run :: "queue_command list \<Rightarrow> spec_queue \<Rightarrow> queue_response list \<times> spec_queue" where
  "spec_run [] a = ([], a)"
| "spec_run (c # cs) a = (let (r, a) = spec_apply c a; (rs, a) = spec_run cs a in (r # rs, a))"

subsection \<open>Abstraction and invariant\<close>

definition resolve :: "queue_paging option \<Rightarrow> stored_body \<Rightarrow> bytes" where
  "resolve pg body = (case body of
      Resident b \<Rightarrow> b
    | Spilled r \<Rightarrow> (case pg of None \<Rightarrow> [] | Some p \<Rightarrow> (case spill_read r (pg_spill p) of None \<Rightarrow> [] | Some b \<Rightarrow> b)))"

definition abs_message :: "queue_paging option \<Rightarrow> replicated_message \<Rightarrow> bytes \<times> u32 \<times> u64" where
  "abs_message pg m = (resolve pg (rm_body m), rm_failures m, rm_enqueued_ms m)"

definition abs_queue :: "queue_state \<Rightarrow> spec_queue" where
  "abs_queue q = \<lparr>sq_next = qg_next_msg_id q, sq_messages = map (\<lambda>(i, m). (i, abs_message (qg_paging q) m)) (qg_messages q)\<rparr>"

definition refs_in :: "(u64, replicated_message) btree \<Rightarrow> spill_ref multiset" where
  "refs_in ms = mset (List.map_filter (\<lambda>(_, m). spilled_ref (rm_body m)) ms)"

definition resident_in :: "(u64, replicated_message) btree \<Rightarrow> nat" where
  "resident_in ms = sum_list (map (\<lambda>(_, m). case rm_body m of Resident b \<Rightarrow> length b | Spilled _ \<Rightarrow> 0) ms)"

definition paging_inv :: "spill_ref multiset \<Rightarrow> queue_paging option \<Rightarrow> bool" where
  "paging_inv refs pg \<longleftrightarrow> (case pg of None \<Rightarrow> refs = {#} | Some p \<Rightarrow> spill_inv refs (pg_spill p))"

definition queue_inv :: "queue_state \<Rightarrow> bool" where
  "queue_inv q \<longleftrightarrow> bt_ok (qg_messages q) \<and> (\<forall>e \<in> set (qg_messages q). fst e \<le> qg_next_msg_id q) \<and>
    qg_resident_bytes q = resident_in (qg_messages q) \<and> paging_inv (refs_in (qg_messages q)) (qg_paging q)"

lemma refs_in_simps [simp]:
  "refs_in [] = {#}" "refs_in (xs @ ys) = refs_in xs + refs_in ys"
  "refs_in ((i, m) # xs) = (case rm_body m of Resident _ \<Rightarrow> refs_in xs | Spilled r \<Rightarrow> add_mset r (refs_in xs))"
  by (simp_all add: refs_in_def List.map_filter_def split: stored_body.splits)

lemma resident_in_simps [simp]:
  "resident_in [] = 0" "resident_in (xs @ ys) = resident_in xs + resident_in ys"
  "resident_in ((i, m) # xs) = (case rm_body m of Resident b \<Rightarrow> length b | Spilled _ \<Rightarrow> 0) + resident_in xs"
  by (simp_all add: resident_in_def)

lemma refs_in_set: "(i, m) \<in> set ms \<Longrightarrow> rm_body m = Spilled r \<Longrightarrow> r \<in># refs_in ms"
  by (force simp: refs_in_def List.map_filter_def image_iff)

lemma resolve_same:
  assumes "same_reads refs (pg_spill p) (pg_spill p')" "refs_in ms \<subseteq># refs" "(i, m) \<in> set ms"
  shows "abs_message (Some p') m = abs_message (Some p) m"
  using assms refs_in_set by (fastforce simp: abs_message_def resolve_def same_reads_def split: stored_body.splits dest: mset_subset_eqD)

lemma abs_same:
  "same_reads refs (pg_spill p) (pg_spill p') \<Longrightarrow> refs_in ms \<subseteq># refs \<Longrightarrow>
    map (\<lambda>(i, m). (i, abs_message (Some p') m)) ms = map (\<lambda>(i, m). (i, abs_message (Some p) m)) ms"
  using resolve_same by fastforce

subsection \<open>Storing a body\<close>

definition room :: "nat \<Rightarrow> queue_paging option \<Rightarrow> bool" where
  "room n pg \<longleftrightarrow> (case pg of None \<Rightarrow> True | Some p \<Rightarrow> unat (sp_next_segment (pg_spill p)) + n < 2 ^ 64)"

text \<open>
  The outcome of storing: the body resolves to what was stored, everything held before resolves as
  before, and the accounts are kept.
\<close>

definition stores :: "spill_ref multiset \<Rightarrow> bytes \<Rightarrow> queue_state \<Rightarrow> stored_body \<Rightarrow> queue_state \<Rightarrow> bool" where
  "stores refs b q stored q' \<longleftrightarrow> qg_messages q' = qg_messages q \<and> qg_next_msg_id q' = qg_next_msg_id q \<and>
    resolve (qg_paging q') stored = b \<and> qg_resident_bytes q' = qg_resident_bytes q + (case stored of Resident x \<Rightarrow> length x | Spilled _ \<Rightarrow> 0) \<and>
    paging_inv (case stored of Resident _ \<Rightarrow> refs | Spilled r \<Rightarrow> add_mset r refs) (qg_paging q') \<and>
    (\<forall>ms. refs_in ms \<subseteq># refs \<longrightarrow> (\<forall>(i, m) \<in> set ms. abs_message (qg_paging q') m = abs_message (qg_paging q) m))"

lemma keep_resident_stores:
  "paging_inv refs (qg_paging q) \<Longrightarrow> keep_resident b q = (stored, q') \<Longrightarrow> stores refs b q stored q'"
  by (auto simp: keep_resident_def stores_def resolve_def)

lemma store_body_stores:
  assumes inv: "paging_inv refs (qg_paging q)" and io: "io_open io" "length b < 2 ^ 32" and fits: "room (Suc n) (qg_paging q)"
  shows "\<exists>stored q'. store_queue_body io b q = Some (stored, q') \<and> stores refs b q stored q' \<and> room n (qg_paging q')"
proof (cases "\<exists>p. qg_paging q = Some p \<and> pg_resident_max p < qg_resident_bytes q + length b")
  case False
  then have "store_queue_body io b q = Some (keep_resident b q)" by (auto simp: store_queue_body_def split: option.splits)
  moreover have "room n (qg_paging q)" using fits by (auto simp: room_def split: option.splits)
  ultimately show ?thesis using keep_resident_stores [OF inv] by (auto simp: keep_resident_def)
next
  case True
  then obtain p where p: "qg_paging q = Some p" "pg_resident_max p < qg_resident_bytes q + length b" by blast
  have si: "spill_inv refs (pg_spill p)" "Suc (unat (sp_next_segment (pg_spill p))) < 2 ^ 64" using inv fits by (simp_all add: paging_inv_def p room_def)
  then have may: "may_append io b (pg_spill p)" using io by (simp add: may_append_def)
  obtain res sp where app: "spill_append io b (pg_spill p) = (res, sp)" by fastforce
  note a = append_inv [OF si(1) may app]
  let ?p = "p\<lparr>pg_spill := sp\<rparr>"
  have same: "\<forall>ms. refs_in ms \<subseteq># refs \<longrightarrow> (\<forall>(i, m) \<in> set ms. abs_message (Some ?p) m = abs_message (Some p) m)"
    using resolve_same [of refs p ?p] a by auto
  have room: "room n (Some ?p)" using a fits by (simp add: room_def p)
  show ?thesis
  proof (cases res)
    case (Appended r)
    then show ?thesis using a p app same room by (simp add: store_queue_body_def stores_def paging_inv_def resolve_def)
  next
    case AppendFailed
    then have "store_queue_body io b q = Some (keep_resident b (q\<lparr>qg_paging := Some ?p\<rparr>))" using p app by (simp add: store_queue_body_def)
    then show ?thesis using a same room AppendFailed p by (simp add: keep_resident_def stores_def paging_inv_def resolve_def)
  next
    case AppendPanics
    then show ?thesis using a by simp
  qed
qed

subsection \<open>Refinement\<close>

lemma enqueue_refines:
  assumes inv: "queue_inv q" and io: "io_open io" "length b < 2 ^ 32" and fits: "room (Suc n) (qg_paging q)"
    and ids: "Suc (unat (qg_next_msg_id q)) < 2 ^ 64"
  shows "\<exists>r q'. apply_command io (Enqueue b ms) q = Some (r, q') \<and> spec_apply (Enqueue b ms) (abs_queue q) = (r, abs_queue q') \<and>
    queue_inv q' \<and> room n (qg_paging q') \<and> unat (qg_next_msg_id q') = Suc (unat (qg_next_msg_id q))"
proof -
  let ?q = "q\<lparr>qg_next_msg_id := qg_next_msg_id q + 1\<rparr>" and ?i = "qg_next_msg_id q + 1" and ?refs = "refs_in (qg_messages q)"
  have p: "paging_inv ?refs (qg_paging ?q)" and bt: "bt_ok (qg_messages q)" using inv by (simp_all add: queue_inv_def)
  have n: "unat ?i = Suc (unat (qg_next_msg_id q))" using ids by (simp add: unat_plus_one)
  have below: "\<forall>e \<in> set (qg_messages q). fst e < ?i" using inv n by (auto simp: queue_inv_def word_le_nat_alt word_less_nat_alt)
  have f: "room (Suc n) (qg_paging ?q)" using fits by simp
  obtain stored q1 where st: "store_queue_body io b ?q = Some (stored, q1)" "stores ?refs b ?q stored q1" "room n (qg_paging q1)"
    using store_body_stores [OF p io f] by blast
  let ?m = "\<lparr>rm_body = stored, rm_failures = 0, rm_enqueued_ms = ms\<rparr>"
  let ?q' = "q1\<lparr>qg_messages := qg_messages q @ [(?i, ?m)]\<rparr>"
  have same: "map (\<lambda>(i, m). (i, abs_message (qg_paging q1) m)) (qg_messages q) = map (\<lambda>(i, m). (i, abs_message (qg_paging q) m)) (qg_messages q)"
    using st(2) by (auto simp: stores_def)
  have q1: "qg_messages q1 = qg_messages q" "qg_next_msg_id q1 = ?i" using st(2) by (simp_all add: stores_def)
  have app: "apply_command io (Enqueue b ms) q = Some (Enqueued ?i, ?q')" using st(1) by (simp add: q1 bt_insert_last [OF below] Let_def)
  have "bt_ok (qg_messages q @ [(?i, ?m)])" using bt below by (auto simp: bt_ok_def sorted_wrt_append)
  moreover have "paging_inv (refs_in (qg_messages q @ [(?i, ?m)])) (qg_paging q1)" using st(2) by (auto simp: stores_def split: stored_body.splits)
  moreover have "qg_resident_bytes q1 = resident_in (qg_messages q @ [(?i, ?m)])" using st(2) inv by (simp add: stores_def queue_inv_def)
  ultimately have "queue_inv ?q'" using below by (auto simp: queue_inv_def q1 less_imp_le)
  moreover have "resolve (qg_paging q1) stored = b" using st(2) by (simp add: stores_def)
  then have "spec_apply (Enqueue b ms) (abs_queue q) = (Enqueued ?i, abs_queue ?q')"
    by (simp add: abs_queue_def q1 same) (simp add: abs_message_def)
  ultimately show ?thesis using app st(3) n by (simp add: q1 del: apply_command.simps spec_apply.simps)
qed

lemma spec_settle:
  assumes "map_of (qg_messages q) i = Some m"
  shows "spec_apply (Settle i requeue) (abs_queue q) =
    (Settled, (abs_queue q)\<lparr>sq_messages := map (\<lambda>(i, m). (i, abs_message (qg_paging q) m))
      (if requeue then bt_insert i (m\<lparr>rm_failures := rm_failures m + 1\<rparr>) (qg_messages q) else bt_remove i (qg_messages q))\<rparr>)"
proof -
  have "map_of (map (\<lambda>(i, m). (i, abs_message (qg_paging q) m)) (qg_messages q)) i = Some (abs_message (qg_paging q) m)"
    using assms by (simp add: map_of_map)
  then have look: "map_of (sq_messages (abs_queue q)) i = Some (resolve (qg_paging q) (rm_body m), rm_failures m, rm_enqueued_ms m)"
    by (simp add: abs_queue_def abs_message_def)
  have "(resolve (qg_paging q) (rm_body m), rm_failures m + 1, rm_enqueued_ms m) = abs_message (qg_paging q) (m\<lparr>rm_failures := rm_failures m + 1\<rparr>)"
    by (simp add: abs_message_def)
  then show ?thesis using look by (simp add: bt_insert_map bt_remove_map) (simp add: abs_queue_def bt_insert_map bt_remove_map)
qed

lemma requeue_refines:
  assumes inv: "queue_inv q" and m: "map_of (qg_messages q) i = Some m"
  shows "queue_inv (q\<lparr>qg_messages := bt_insert i (m\<lparr>rm_failures := rm_failures m + 1\<rparr>) (qg_messages q)\<rparr>)"
proof -
  have bt: "bt_ok (qg_messages q)" using inv by (simp add: queue_inv_def)
  obtain xs ys where s: "qg_messages q = xs @ (i, m) # ys" "\<And>w. bt_insert i w (qg_messages q) = xs @ (i, w) # ys"
    using bt_split [OF bt m] by metis
  then show ?thesis using inv bt_ok_insert [OF bt, of i "m\<lparr>rm_failures := rm_failures m + 1\<rparr>"] by (auto simp: queue_inv_def)
qed

lemma remove_refines:
  assumes inv: "queue_inv q" and m: "map_of (qg_messages q) i = Some m"
    and q': "q' = drop_body (rm_body m) (q\<lparr>qg_messages := bt_remove i (qg_messages q)\<rparr>)"
  shows "queue_inv q'" "abs_queue q' = (abs_queue q)\<lparr>sq_messages := map (\<lambda>(i, m). (i, abs_message (qg_paging q) m)) (bt_remove i (qg_messages q))\<rparr>"
    "room n (qg_paging q) \<longrightarrow> room n (qg_paging q')" "qg_next_msg_id q' = qg_next_msg_id q"
proof -
  have bt: "bt_ok (qg_messages q)" using inv by (simp add: queue_inv_def)
  obtain xs ys where s: "qg_messages q = xs @ (i, m) # ys" "bt_remove i (qg_messages q) = xs @ ys" using bt_split [OF bt m] by metis
  have bt': "bt_ok (xs @ ys)" using bt_ok_remove [OF bt, of i] by (simp add: s(2))
  have q2: "q' = drop_body (rm_body m) (q\<lparr>qg_messages := xs @ ys\<rparr>)" by (simp add: q' s(2))
  have "queue_inv q' \<and> abs_queue q' = (abs_queue q)\<lparr>sq_messages := map (\<lambda>(i, m). (i, abs_message (qg_paging q) m)) (xs @ ys)\<rparr> \<and>
      (room n (qg_paging q) \<longrightarrow> room n (qg_paging q')) \<and> qg_next_msg_id q' = qg_next_msg_id q"
  proof (cases "rm_body m")
    case (Resident b)
    then show ?thesis using inv bt' by (auto simp: q2 drop_body_def queue_inv_def s(1) abs_queue_def)
  next
    case (Spilled r)
    have pi: "paging_inv (add_mset r (refs_in (xs @ ys))) (qg_paging q)" using inv Spilled by (simp add: queue_inv_def s(1))
    then obtain p where p: "qg_paging q = Some p" "spill_inv (add_mset r (refs_in (xs @ ys))) (pg_spill p)"
      by (auto simp: paging_inv_def split: option.splits)
    note rel = release_inv [OF p(2)]
    let ?p = "p\<lparr>pg_spill := spill_release r (pg_spill p)\<rparr>"
    have eq: "q' = q\<lparr>qg_messages := xs @ ys, qg_paging := Some ?p\<rparr>" using Spilled p(1) by (simp add: q2 drop_body_def)
    have "map (\<lambda>(i, m). (i, abs_message (Some ?p) m)) (xs @ ys) = map (\<lambda>(i, m). (i, abs_message (Some p) m)) (xs @ ys)"
      by (rule abs_same [of "refs_in (xs @ ys)"]) (use rel(2) in simp_all)
    then show ?thesis using inv bt' rel(1) Spilled by (auto simp: eq queue_inv_def s(1) abs_queue_def p(1) paging_inv_def room_def)
  qed
  then show "queue_inv q'" "abs_queue q' = (abs_queue q)\<lparr>sq_messages := map (\<lambda>(i, m). (i, abs_message (qg_paging q) m)) (bt_remove i (qg_messages q))\<rparr>"
    "room n (qg_paging q) \<longrightarrow> room n (qg_paging q')" "qg_next_msg_id q' = qg_next_msg_id q" by (simp_all add: s(2))
qed

fun command_ok :: "append_io \<times> queue_command \<Rightarrow> bool" where
  "command_ok (io, Enqueue b _) = (io_open io \<and> length b < 2 ^ 32)"
| "command_ok (io, Settle _ _) = True"

lemma command_refines:
  assumes inv: "queue_inv q" and ok: "command_ok (io, c)" and fits: "room (Suc n) (qg_paging q)" and ids: "Suc (unat (qg_next_msg_id q)) < 2 ^ 64"
  shows "\<exists>r q'. apply_command io c q = Some (r, q') \<and> spec_apply c (abs_queue q) = (r, abs_queue q') \<and> queue_inv q' \<and> room n (qg_paging q') \<and>
    unat (qg_next_msg_id q') \<le> Suc (unat (qg_next_msg_id q))"
proof (cases c)
  case (Enqueue b ms)
  then show ?thesis using enqueue_refines [OF inv _ _ fits ids] ok by fastforce
next
  case (Settle i requeue)
  have less: "room n (qg_paging q)" using fits by (auto simp: room_def split: option.splits)
  show ?thesis
  proof (cases "map_of (qg_messages q) i")
    case None
    then have "map_of (map (\<lambda>(i, m). (i, abs_message (qg_paging q) m)) (qg_messages q)) i = None" by (simp add: map_of_map)
    then show ?thesis using None Settle inv less by (simp add: abs_queue_def)
  next
    case (Some m)
    show ?thesis
    proof (cases requeue)
      case True
      let ?q = "q\<lparr>qg_messages := bt_insert i (m\<lparr>rm_failures := rm_failures m + 1\<rparr>) (qg_messages q)\<rparr>"
      have "apply_command io c q = Some (Settled, ?q)" using Some Settle True by simp
      moreover have "spec_apply c (abs_queue q) = (Settled, abs_queue ?q)"
        unfolding Settle spec_settle [OF Some] using True by (simp add: abs_queue_def)
      ultimately show ?thesis using requeue_refines [OF inv Some] less by simp
    next
      case False
      let ?q = "drop_body (rm_body m) (q\<lparr>qg_messages := bt_remove i (qg_messages q)\<rparr>)"
      note rr = remove_refines [OF inv Some refl]
      have "apply_command io c q = Some (Settled, ?q)" using Some Settle False by simp
      moreover have "spec_apply c (abs_queue q) = (Settled, abs_queue ?q)" unfolding Settle spec_settle [OF Some] using False rr(2) by simp
      ultimately show ?thesis using rr(1,3,4) less by simp
    qed
  qed
qed

lemma commands_refine:
  assumes "queue_inv q" "\<forall>c \<in> set cs. command_ok c" "room (length cs + n) (qg_paging q)" "unat (qg_next_msg_id q) + length cs < 2 ^ 64"
  shows "\<exists>rs q'. apply_commands cs q = Some (rs, q') \<and> spec_run (map snd cs) (abs_queue q) = (rs, abs_queue q') \<and> queue_inv q' \<and>
    room n (qg_paging q') \<and> unat (qg_next_msg_id q') \<le> unat (qg_next_msg_id q) + length cs"
  using assms
proof (induction cs arbitrary: q)
  case (Cons x cs)
  obtain io c where x: "x = (io, c)" by fastforce
  obtain r q1 where s: "apply_command io c q = Some (r, q1)" "spec_apply c (abs_queue q) = (r, abs_queue q1)" "queue_inv q1" "room (length cs + n) (qg_paging q1)"
    "unat (qg_next_msg_id q1) \<le> Suc (unat (qg_next_msg_id q))"
    using command_refines [OF Cons.prems(1), of io c "length cs + n"] Cons.prems(2-4) by (auto simp: x)
  obtain rs q' where "apply_commands cs q1 = Some (rs, q') \<and> spec_run (map snd cs) (abs_queue q1) = (rs, abs_queue q') \<and> queue_inv q' \<and>
      room n (qg_paging q') \<and> unat (qg_next_msg_id q') \<le> unat (qg_next_msg_id q1) + length cs"
    using Cons.IH [OF s(3) _ s(4)] Cons.prems(2,4) s(5) by fastforce
  then show ?case using s(1,2,5) by (simp add: x)
qed simp

subsection \<open>A queue from its start\<close>

definition fresh_paging :: "queue_paging option \<Rightarrow> bool" where
  "fresh_paging pg \<longleftrightarrow> (case pg of None \<Rightarrow> True | Some p \<Rightarrow> pg_spill p = open_fresh (sp_id (pg_spill p)))"

lemma fresh_inv:
  assumes "fresh_paging pg"
  shows "queue_inv (new_state pg)" "abs_queue (new_state pg) = spec_empty" "n < 2 ^ 64 \<Longrightarrow> room n pg"
proof -
  have "spill_inv {#} (open_fresh i)" "sp_next_segment (open_fresh i) = 0" for i
    by (simp_all add: open_fresh_def open_preserving_def spill_inv_def spill_core_def)
  then show "queue_inv (new_state pg)" "n < 2 ^ 64 \<Longrightarrow> room n pg" "abs_queue (new_state pg) = spec_empty"
    using assms by (auto simp: fresh_paging_def queue_inv_def new_state_def bt_ok_def paging_inv_def room_def abs_queue_def spec_empty_def
      split: option.splits) (metis unat_0 add_0)+
qed

text \<open>What a consumer of the replica reads of a message: a spilled body through the store.\<close>

definition read_body :: "queue_state \<Rightarrow> u64 \<Rightarrow> bytes option" where
  "read_body q i = (case body_of q i of
      Inr (Some (Ready b)) \<Rightarrow> Some b
    | Inr (Some (FetchSpilled sp r)) \<Rightarrow> spill_read r sp
    | _ \<Rightarrow> None)"

lemma read_body_abs:
  assumes "queue_inv q"
  shows "read_body q i = map_option fst (map_of (sq_messages (abs_queue q)) i)"
proof (cases "map_of (qg_messages q) i")
  case None
  then show ?thesis by (simp add: read_body_def body_of_def abs_queue_def map_of_map)
next
  case (Some m)
  have a: "map_of (sq_messages (abs_queue q)) i = Some (abs_message (qg_paging q) m)" using Some by (simp add: abs_queue_def map_of_map)
  show ?thesis
  proof (cases "rm_body m")
    case (Resident b)
    then show ?thesis using Some a by (simp add: read_body_def body_of_def abs_message_def resolve_def)
  next
    case (Spilled r)
    have r: "r \<in># refs_in (qg_messages q)" using refs_in_set [OF map_of_SomeD [OF Some] Spilled] .
    then obtain p where p: "qg_paging q = Some p" "spill_inv (refs_in (qg_messages q)) (pg_spill p)"
      using assms by (auto simp: queue_inv_def paging_inv_def split: option.splits)
    then obtain b where "spill_read r (pg_spill p) = Some b" using held_reads [OF _ r] by (auto simp: spill_inv_def)
    then show ?thesis using Some Spilled a p(1) by (simp add: read_body_def body_of_def abs_message_def resolve_def)
  qed
qed



end
