(* ===== verification/Cluster_Queue_Recovery.thy ===== *)
theory Cluster_Queue_Recovery
  imports Cluster_Queue_Laws
begin

section \<open>Recovery of a replica from its snapshot\<close>

text \<open>
  A snapshot read back over the segment files it refers to gives the queue it was taken of, and
  the commands after it bring the replica to where it was. Recovery needs those files: a segment
  that drained after the snapshot is deleted, and the snapshot then no longer restores.
\<close>

subsection \<open>The snapshot's bytes\<close>

lemma to_vec_reads: "typed t v \<Longrightarrow> serde_from_slice t (to_vec v) = Inr v"
  using all_read [of t] by (fastforce simp: reads_def serde_from_slice_def to_vec_def dest: spec [of _ "[]"])

definition body_fits :: "portable_body \<Rightarrow> bool" where
  "body_fits body \<longleftrightarrow> (case body of Inline b \<Rightarrow> length b < 2 ^ 64 | External r \<Rightarrow> sr_offset r < 2 ^ 64)"

lemma unat_8 [simp]: "unat (x :: 8 word) < 256"
  using unsigned_less [of x] by simp

lemma unat_32 [simp]: "unat (x :: 32 word) < 4294967296"
  using unsigned_less [of x] by simp

lemma unat_64 [simp]: "unat (x :: 64 word) < 18446744073709551616"
  using unsigned_less [of x] by simp

lemma body_typed: "body_fits body \<Longrightarrow> typed (TEnum [TSeq (TNum 1), TFields [TNum 8, TNum 8, TNum 4]]) (body_sval body)"
  by (cases body) (simp_all add: body_fits_def typed_fields list_all_iff del: typed.simps(9))

lemma portable_typed:
  assumes "length (ps_messages p) < 2 ^ 64" "\<forall>(_, _, _, body) \<in> set (ps_messages p). body_fits body"
  shows "typed portable_type (portable_sval p)"
proof -
  have "typed (TFields [TNum 8, TNum 4, TNum 8, TEnum [TSeq (TNum 1), TFields [TNum 8, TNum 8, TNum 4]]]) (message_sval m)"
    if "m \<in> set (ps_messages p)" for m
    using assms(2) that body_typed by (fastforce simp: message_sval_def typed_fields simp del: typed.simps(9) typed.simps(11))
  then show ?thesis using assms(1) by (simp add: portable_type_def portable_sval_def typed_fields list_all_iff del: typed.simps(9) typed.simps(11))
qed

lemma body_sval_inverse: "sval_body (body_sval body) = Some body"
  by (cases body) (simp_all add: comp_def map_idI)

lemma message_sval_inverse: "sval_message (message_sval m) = Some m"
  by (cases m) (simp add: message_sval_def body_sval_inverse)

lemma portable_sval_inverse: "sval_portable (portable_sval p) = Some p"
  by (simp add: portable_sval_def list_all_iff message_sval_inverse comp_def split_paired_all)

subsection \<open>Appends leave the other segments alone\<close>

definition parked :: "spill \<Rightarrow> spill_ref \<Rightarrow> bool" where
  "parked sp r \<longleftrightarrow> within sp r \<and> sp_current sp \<noteq> Some (sr_segment r)"

lemma reclaim_beside:
  "sp_current sp \<noteq> Some i \<Longrightarrow> sp_segments (reclaim_current sp) i = sp_segments sp i"
  "sp_next_segment (reclaim_current sp) = sp_next_segment sp" "sp_id (reclaim_current sp) = sp_id sp" "sp_current (reclaim_current sp) = sp_current sp"
  by (auto simp: reclaim_current_def delete_segment_def split: option.splits)

lemma append_current_beside:
  "append_current io body sp = (res, sp') \<Longrightarrow> sp_id sp' = sp_id sp \<and> sp_current sp' = sp_current sp \<and>
    (sp_current sp \<noteq> Some i \<longrightarrow> sp_segments sp' i = sp_segments sp i)"
  by (auto simp: append_current_def split: option.splits)

lemma append_beside:
  assumes app: "spill_append io body sp = (res, sp')" and i: "sp_current sp \<noteq> Some i" "i \<noteq> sp_next_segment sp"
  shows "sp_id sp' = sp_id sp \<and> sp_current sp' \<noteq> Some i \<and> sp_segments sp' i = sp_segments sp i"
proof -
  obtain ok sp1 where roll: "roll_segment io sp = (ok, sp1)" by fastforce
  have r: "sp_id sp1 = sp_id sp" "sp_current sp1 \<noteq> Some i" "sp_segments sp1 i = sp_segments sp i"
    using roll i by (auto simp: roll_segment_def Let_def reclaim_beside split: if_splits)
  show ?thesis
    using app r i append_current_beside [of io body sp1 res sp' i] append_current_beside [of io body sp res sp' i]
    by (auto simp: spill_append_def roll split: option.splits if_splits)
qed

lemma append_parked:
  assumes inv: "spill_inv refs sp" and app: "spill_append io body sp = (res, sp')" and r: "parked sp r"
  shows "parked sp' r \<and> spill_read r sp' = spill_read r sp"
proof -
  obtain seg where seg: "sp_segments sp (sr_segment r) = Some seg" using r by (auto simp: parked_def within_def)
  then have "sr_segment r < sp_next_segment sp" using inv unfolding spill_inv_def spill_core_def by blast
  then have "sr_segment r \<noteq> sp_next_segment sp" by simp
  then show ?thesis using append_beside [OF app] r by (auto simp: parked_def within_def spill_read_def)
qed

lemma append_id: "spill_append io body sp = (res, sp') \<Longrightarrow> sp_id sp' = sp_id sp"
  by (auto simp: spill_append_def roll_segment_def Let_def reclaim_beside append_current_def split: option.splits if_splits prod.splits)

subsection \<open>Counting the references again\<close>

lemma live_refs_union: "live_refs (A + B) i = live_refs A i + live_refs B i"
  by (simp add: live_refs_def)

lemma live_counts: "spill_live_counts q = live_refs (refs_in (qg_messages q))"
  by (simp add: fun_eq_iff spill_live_counts_def live_refs_def refs_in_def spill_refs_def flip: mset_filter)

lemma set_live_inv:
  assumes inv: "spill_inv A sp" and within: "\<forall>r \<in># B. within sp r"
  shows "spill_inv (A + B) (set_live (live_refs (A + B)) sp)" "same_reads (A + B) sp (set_live (live_refs (A + B)) sp)"
proof -
  let ?c = "live_refs (A + B)" and ?sp = "set_live (live_refs (A + B)) sp"
  have all: "segment_ok seg \<and> i < sp_next_segment sp" if "sp_segments sp i = Some seg" for i seg
    using inv that unfolding spill_inv_def spill_core_def by blast
  have here: "\<exists>seg. sp_segments sp (sr_segment r) = Some seg \<and> sr_offset r + unat (sr_len r) \<le> sg_size seg \<and>
      sp_segments ?sp (sr_segment r) = Some (seg\<lparr>sg_live := ?c (sr_segment r)\<rparr>)" if r: "r \<in># A + B" for r
  proof -
    have "within sp r" using inv within r by (auto simp: spill_inv_def spill_core_def)
    then show ?thesis using live_refs_pos [OF r] by (auto simp: within_def set_live_def)
  qed
  have segs: "\<exists>s. sp_segments sp i = Some s \<and> seg = s\<lparr>sg_live := ?c i\<rparr>" if "sp_segments ?sp i = Some seg" for i seg
    using that by (auto simp: set_live_def split: option.splits if_splits)
  have "segment_ok seg \<and> sg_live seg = ?c i \<and> i < sp_next_segment ?sp" if s: "sp_segments ?sp i = Some seg" for i seg
    using segs [OF s] all by (auto simp: segment_ok_def set_live_def)
  moreover have "within ?sp r" if "r \<in># A + B" for r using here [OF that] by (auto simp: within_def)
  moreover have "sp_segments ?sp i \<noteq> None" if "sp_current sp = Some i" for i
    using inv that by (auto simp: spill_inv_def set_live_def)
  ultimately show "spill_inv (A + B) ?sp" using inv by (auto simp: spill_inv_def spill_core_def) (auto simp: set_live_def)
  show "same_reads (A + B) sp ?sp" using here by (fastforce simp: same_reads_def spill_read_def)
qed

subsection \<open>Restoring the messages\<close>

definition unported :: "portable_message \<Rightarrow> u64 \<times> replicated_message" where
  "unported = (\<lambda>(i, failures, ms, body).
    (i, \<lparr>rm_body = (case body of Inline b \<Rightarrow> Resident b | External r \<Rightarrow> Spilled r), rm_failures = failures, rm_enqueued_ms = ms\<rparr>))"

definition body_refs :: "stored_body \<Rightarrow> spill_ref multiset" where
  "body_refs body = (case body of Resident _ \<Rightarrow> {#} | Spilled r \<Rightarrow> {#r#})"

definition body_resident :: "stored_body \<Rightarrow> nat" where
  "body_resident body = (case body of Resident b \<Rightarrow> length b | Spilled _ \<Rightarrow> 0)"

lemma refs_in_Cons: "refs_in (e # ms) = body_refs (rm_body (snd e)) + refs_in ms"
  by (cases e) (simp add: body_refs_def split: stored_body.splits)

text \<open>A store that grew from another: what was read before is read still.\<close>

definition grows :: "spill \<Rightarrow> spill \<Rightarrow> bool" where
  "grows sp sp' \<longleftrightarrow> sp_id sp' = sp_id sp \<and> (\<forall>r. parked sp r \<longrightarrow> parked sp' r \<and> spill_read r sp' = spill_read r sp)"

lemma grows_refl [simp]: "grows sp sp"
  by (simp add: grows_def)

lemma grows_trans: "grows sp sp1 \<Longrightarrow> grows sp1 sp2 \<Longrightarrow> grows sp sp2"
  by (simp add: grows_def)

lemma store_grows:
  assumes "store_queue_body io b q = Some (stored, q')" "qg_paging q = Some p" "spill_inv A (pg_spill p)"
  shows "\<exists>p'. qg_paging q' = Some p' \<and> grows (pg_spill p) (pg_spill p')"
proof (cases "pg_resident_max p < qg_resident_bytes q + length b")
  case True
  obtain res sp where app: "spill_append io b (pg_spill p) = (res, sp)" by fastforce
  have "grows (pg_spill p) sp" using append_parked [OF assms(3) app] append_id [OF app] by (auto simp: grows_def)
  then show ?thesis using assms(1,2) True app by (auto simp: store_queue_body_def keep_resident_def split: append_result.splits)
next
  case False
  then show ?thesis using assms(1,2) by (auto simp: store_queue_body_def keep_resident_def)
qed

text \<open>
  Restoring one body. \<open>A\<close> are the references appended since the store was opened, which it counts;
  those the snapshot brought are counted only at the end.
\<close>

lemma restore_body_ok:
  assumes p: "qg_paging q = Some p" "spill_inv A (pg_spill p)" and io: "io_open io" and fits: "room (Suc n) (qg_paging q)"
    and body: "case body of Inline b \<Rightarrow> length b < 2 ^ 32 | External r \<Rightarrow> parked (pg_spill p) r \<and> sp_id (pg_spill p) = spill_id"
  shows "\<exists>stored q' p' A'. restore_body io spill_id body q = Some (Inr (stored, q')) \<and> qg_paging q' = Some p' \<and> spill_inv A' (pg_spill p') \<and>
    grows (pg_spill p) (pg_spill p') \<and> same_reads A (pg_spill p) (pg_spill p') \<and> room n (qg_paging q') \<and>
    qg_messages q' = qg_messages q \<and> qg_next_msg_id q' = qg_next_msg_id q \<and> qg_resident_bytes q' = qg_resident_bytes q + body_resident stored \<and>
    (\<forall>f ms i. resolve (Some p') stored = resolve (Some p) (rm_body (snd (unported (i, f, ms, body)))) \<and>
      A' + body_refs (rm_body (snd (unported (i, f, ms, body)))) = A + body_refs stored)"
proof (cases body)
  case (Inline b)
  have pi: "paging_inv A (qg_paging q)" and len: "length b < 2 ^ 32" using p body Inline by (simp_all add: paging_inv_def)
  obtain stored q' where st: "store_queue_body io b q = Some (stored, q')" "stores A b q stored q'" "room n (qg_paging q')"
    using store_body_stores [OF pi io len fits] by blast
  obtain p' where p': "qg_paging q' = Some p'" "grows (pg_spill p) (pg_spill p')" using store_grows [OF st(1) p] by blast
  let ?A = "A + body_refs stored"
  have inv: "spill_inv ?A (pg_spill p')" using st(2) p'(1) by (cases stored) (simp_all add: stores_def paging_inv_def body_refs_def)
  have "same_reads A (pg_spill p) (pg_spill p')"
  proof -
    have "spill_read r (pg_spill p') = spill_read r (pg_spill p)" if r: "r \<in># A" for r
    proof -
      let ?ms = "[(0, \<lparr>rm_body = Spilled r, rm_failures = 0, rm_enqueued_ms = 0\<rparr>)] :: (u64, replicated_message) btree"
      have "refs_in ?ms \<subseteq># A" using r by simp
      then have "resolve (Some p') (Spilled r) = resolve (Some p) (Spilled r)" using st(2) p(1) p'(1) unfolding stores_def by (fastforce simp: abs_message_def)
      moreover have "spill_read r (pg_spill p') \<noteq> None" "spill_read r (pg_spill p) \<noteq> None"
        using held_reads [of ?A "pg_spill p'" r] held_reads [of A "pg_spill p" r] inv p(2) r by (simp_all add: spill_inv_def)
      ultimately show ?thesis by (auto simp: resolve_def)
    qed
    then show ?thesis by (simp add: same_reads_def)
  qed
  moreover have "restore_body io spill_id body q = Some (Inr (stored, q'))" using st(1) Inline by (simp add: restore_body_def)
  moreover have "resolve (Some p') stored = b" "qg_resident_bytes q' = qg_resident_bytes q + body_resident stored" "qg_messages q' = qg_messages q"
    "qg_next_msg_id q' = qg_next_msg_id q" using st(2) p'(1) by (simp_all add: stores_def body_resident_def)
  ultimately show ?thesis using p' inv st(3) Inline by (auto simp: unported_def body_refs_def resolve_def)
next
  case (External r)
  have "spill_read r (pg_spill p) \<noteq> None"
  proof -
    obtain seg where seg: "sp_segments (pg_spill p) (sr_segment r) = Some seg" "sr_offset r + unat (sr_len r) \<le> sg_size seg"
      using body External by (auto simp: parked_def within_def)
    moreover have "segment_ok seg" using p(2) seg(1) unfolding spill_inv_def spill_core_def by blast
    ultimately show ?thesis by (simp add: spill_read_def segment_ok_def)
  qed
  then have "restore_body io spill_id body q = Some (Inr (Spilled r, q))" using External body p(1) by (simp add: restore_body_def)
  moreover have "room n (qg_paging q)" using fits by (auto simp: room_def split: option.splits)
  ultimately show ?thesis using p External by (auto simp: unported_def body_refs_def body_resident_def)
qed

definition restorable :: "u64 \<Rightarrow> spill \<Rightarrow> portable_message \<Rightarrow> bool" where
  "restorable spill_id sp = (\<lambda>(_, _, _, body). case body of Inline b \<Rightarrow> length b < 2 ^ 32 | External r \<Rightarrow> parked sp r \<and> sp_id sp = spill_id)"

lemma restorable_grows: "grows sp sp' \<Longrightarrow> restorable spill_id sp m \<Longrightarrow> restorable spill_id sp' m"
  by (auto simp: restorable_def grows_def split: portable_body.splits)

definition abs_entries :: "queue_paging option \<Rightarrow> (u64, replicated_message) btree \<Rightarrow> (u64, bytes \<times> u32 \<times> u64) btree" where
  "abs_entries pg ms = map (\<lambda>(i, m). (i, abs_message pg m)) ms"

lemma abs_entries_simps [simp]:
  "abs_entries pg [] = []" "abs_entries pg (xs @ ys) = abs_entries pg xs @ abs_entries pg ys"
  "abs_entries pg ((i, m) # ms) = (i, abs_message pg m) # abs_entries pg ms"
  by (simp_all add: abs_entries_def)

lemma abs_entries_same:
  "same_reads refs (pg_spill p) (pg_spill p') \<Longrightarrow> refs_in ms \<subseteq># refs \<Longrightarrow> abs_entries (Some p') ms = abs_entries (Some p) ms"
  unfolding abs_entries_def by (rule abs_same)

lemma grows_same: "grows sp sp' \<Longrightarrow> \<forall>r \<in># X. parked sp r \<Longrightarrow> same_reads X sp sp'"
  by (simp add: grows_def same_reads_def)

lemma same_reads_union: "same_reads A sp sp' \<Longrightarrow> same_reads B sp sp' \<Longrightarrow> same_reads (A + B) sp sp'"
  by (auto simp: same_reads_def)

lemma restorable_parked: "\<forall>m \<in> set ps. restorable spill_id sp m \<Longrightarrow> \<forall>r \<in># refs_in (map unported ps). parked sp r"
proof (induction ps)
  case (Cons m ps)
  then show ?case
    by (cases m) (auto simp: refs_in_Cons body_refs_def unported_def restorable_def split: portable_body.splits)
qed simp

text \<open>
  The state of a restoration: \<open>A\<close> the references appended, \<open>X\<close> those taken over from the snapshot.
\<close>

definition restoring :: "spill_ref multiset \<Rightarrow> spill_ref multiset \<Rightarrow> queue_paging \<Rightarrow> queue_state \<Rightarrow> bool" where
  "restoring A X p q \<longleftrightarrow> qg_paging q = Some p \<and> spill_inv A (pg_spill p) \<and> (\<forall>r \<in># X. parked (pg_spill p) r) \<and>
    refs_in (qg_messages q) = A + X \<and> qg_resident_bytes q = resident_in (qg_messages q)"

lemma restore_step:
  assumes st: "restoring A X p q" and bt: "bt_ok (qg_messages q @ map unported (m # ps))"
    and ok: "restorable spill_id (pg_spill p) m" and io: "io_open io" and fits: "room (Suc n) (qg_paging q)" and m: "m = (i, f, ms, body)"
  shows "\<exists>stored q1 p1 A1. restore_body io spill_id body q = Some (Inr (stored, q1)) \<and> grows (pg_spill p) (pg_spill p1) \<and> room n (qg_paging q1) \<and>
    qg_next_msg_id q1 = qg_next_msg_id q \<and>
    (let e = (i, \<lparr>rm_body = stored, rm_failures = f, rm_enqueued_ms = ms\<rparr>); q2 = q1\<lparr>qg_messages := qg_messages q @ [e]\<rparr>
     in bt_insert i (snd e) (qg_messages q1) = qg_messages q @ [e] \<and> restoring A1 (X + refs_in [unported m]) p1 q2 \<and>
        abs_entries (Some p1) (qg_messages q2) = abs_entries (Some p) (qg_messages q @ [unported m]))"
proof -
  have p: "qg_paging q = Some p" "spill_inv A (pg_spill p)" "\<forall>r \<in># X. parked (pg_spill p) r" "refs_in (qg_messages q) = A + X"
    "qg_resident_bytes q = resident_in (qg_messages q)" using st by (simp_all add: restoring_def)
  have body: "case body of Inline b \<Rightarrow> length b < 2 ^ 32 | External r \<Rightarrow> parked (pg_spill p) r \<and> sp_id (pg_spill p) = spill_id"
    using ok by (cases body) (simp_all add: restorable_def m)
  obtain stored q1 p1 A1 where r: "restore_body io spill_id body q = Some (Inr (stored, q1))" "qg_paging q1 = Some p1" "spill_inv A1 (pg_spill p1)"
      "grows (pg_spill p) (pg_spill p1)" "same_reads A (pg_spill p) (pg_spill p1)" "room n (qg_paging q1)" "qg_messages q1 = qg_messages q"
      "qg_next_msg_id q1 = qg_next_msg_id q" "qg_resident_bytes q1 = qg_resident_bytes q + body_resident stored"
      "resolve (Some p1) stored = resolve (Some p) (rm_body (snd (unported m)))" "A1 + body_refs (rm_body (snd (unported m))) = A + body_refs stored"
    unfolding m using restore_body_ok [OF p(1,2) io fits body] by blast
  let ?e = "(i, \<lparr>rm_body = stored, rm_failures = f, rm_enqueued_ms = ms\<rparr>)"
  have below: "\<forall>e \<in> set (qg_messages q). fst e < i" using bt by (auto simp: bt_ok_def sorted_wrt_append m unported_def)
  have ins: "bt_insert i (snd ?e) (qg_messages q1) = qg_messages q @ [?e]" using bt_insert_last [OF below] by (simp add: r(7))
  have "same_reads (A + X) (pg_spill p) (pg_spill p1)" using same_reads_union [OF r(5) grows_same [OF r(4) p(3)]] .
  then have "abs_entries (Some p1) (qg_messages q) = abs_entries (Some p) (qg_messages q)" by (rule abs_entries_same) (simp add: p(4))
  moreover have "abs_entries (Some p1) [?e] = abs_entries (Some p) [unported m]" using r(10) by (simp add: m unported_def abs_message_def)
  ultimately have abs: "abs_entries (Some p1) (qg_messages q @ [?e]) = abs_entries (Some p) (qg_messages q @ [unported m])" by simp
  have "\<forall>r \<in># refs_in [unported m]. parked (pg_spill p) r" using restorable_parked [of "[m]"] ok by simp
  then have parked: "\<forall>r \<in># X + refs_in [unported m]. parked (pg_spill p1) r" using p(3) r(4) by (auto simp: grows_def)
  have refs: "refs_in (qg_messages q @ [?e]) = A1 + (X + refs_in [unported m])" using r(11) p(4) by (simp add: refs_in_Cons ac_simps)
  have "restoring A1 (X + refs_in [unported m]) p1 (q1\<lparr>qg_messages := qg_messages q @ [?e]\<rparr>)"
    using r(2,3,9) p(5) parked refs by (simp add: restoring_def body_resident_def)
  then show ?thesis using r(1,4,6,8) ins abs by (auto simp: Let_def)
qed

lemma restore_messages_ok:
  assumes "restoring A X p q" "bt_ok (qg_messages q @ map unported ps)" "\<forall>m \<in> set ps. restorable spill_id (pg_spill p) m"
    "\<forall>io \<in> set ios. io_open io" "length ps \<le> length ios" "room (length ps + n) (qg_paging q)"
  shows "\<exists>q' p' A'. restore_messages ios spill_id ps q = Some (Inr (), q') \<and> restoring A' (X + refs_in (map unported ps)) p' q' \<and>
    grows (pg_spill p) (pg_spill p') \<and> room n (qg_paging q') \<and> qg_next_msg_id q' = qg_next_msg_id q \<and>
    abs_entries (Some p') (qg_messages q') = abs_entries (Some p) (qg_messages q @ map unported ps)"
  using assms
proof (induction ps arbitrary: A X p q ios)
  case Nil
  then show ?case by (auto intro!: exI [of _ A])
next
  case (Cons m ps)
  obtain i f ms body where m: "m = (i, f, ms, body)" by (cases m)
  obtain io ios' where ios: "ios = io # ios'" using Cons.prems(5) by (cases ios) auto
  have ok: "restorable spill_id (pg_spill p) m" "io_open io" "room (Suc (length ps + n)) (qg_paging q)" using Cons.prems(3,4,6) by (simp_all add: ios)
  obtain stored q1 p1 A1 where r: "restore_body io spill_id body q = Some (Inr (stored, q1))" "grows (pg_spill p) (pg_spill p1)"
      "room (length ps + n) (qg_paging q1)" "qg_next_msg_id q1 = qg_next_msg_id q"
    and e: "let e = (i, \<lparr>rm_body = stored, rm_failures = f, rm_enqueued_ms = ms\<rparr>); q2 = q1\<lparr>qg_messages := qg_messages q @ [e]\<rparr>
      in bt_insert i (snd e) (qg_messages q1) = qg_messages q @ [e] \<and> restoring A1 (X + refs_in [unported m]) p1 q2 \<and>
        abs_entries (Some p1) (qg_messages q2) = abs_entries (Some p) (qg_messages q @ [unported m])"
    using restore_step [OF Cons.prems(1,2) ok m] by blast
  define ent where "ent = (i, \<lparr>rm_body = stored, rm_failures = f, rm_enqueued_ms = ms\<rparr>)"
  define q2 where "q2 = q1\<lparr>qg_messages := qg_messages q @ [ent]\<rparr>"
  have e2: "bt_insert i (snd ent) (qg_messages q1) = qg_messages q @ [ent]" "restoring A1 (X + refs_in [unported m]) p1 q2"
    "abs_entries (Some p1) (qg_messages q2) = abs_entries (Some p) (qg_messages q @ [unported m])"
    using e by (simp_all add: Let_def ent_def q2_def)
  have bt2: "bt_ok (qg_messages q2 @ map unported ps)" using Cons.prems(2) by (simp add: q2_def ent_def bt_ok_def m unported_def)
  have rest: "\<forall>m \<in> set ps. restorable spill_id (pg_spill p1) m" using Cons.prems(3) restorable_grows [OF r(2)] by auto
  have side: "\<forall>io \<in> set ios'. io_open io" "length ps \<le> length ios'" "room (length ps + n) (qg_paging q2)" using Cons.prems(4,5) r(3) by (simp_all add: ios q2_def)
  obtain q' p' A' where q': "restore_messages ios' spill_id ps q2 = Some (Inr (), q')" "restoring A' (X + refs_in [unported m] + refs_in (map unported ps)) p' q'"
      "grows (pg_spill p1) (pg_spill p')" "room n (qg_paging q')" "qg_next_msg_id q' = qg_next_msg_id q2"
      "abs_entries (Some p') (qg_messages q') = abs_entries (Some p1) (qg_messages q2 @ map unported ps)"
    using Cons.IH [OF e2(2) bt2 rest side] by blast
  have "restore_messages ios spill_id (m # ps) q = Some (Inr (), q')" using r(1) q'(1) e2(1) by (simp add: m ios q2_def ent_def)
  moreover have "abs_entries (Some p1) (map unported ps) = abs_entries (Some p) (map unported ps)"
    using restorable_parked [of ps spill_id "pg_spill p"] Cons.prems(3) by (intro abs_entries_same [OF grows_same [OF r(2)]]) auto
  then have "abs_entries (Some p') (qg_messages q') = abs_entries (Some p) (qg_messages q @ map unported (m # ps))"
    using q'(6) e2(3) by (simp add: m unported_def)
  moreover have "X + refs_in [unported m] + refs_in (map unported ps) = X + refs_in (map unported (m # ps))" by (simp add: refs_in_Cons)
  then have "restoring A' (X + refs_in (map unported (m # ps))) p' q'" using q'(2) by (simp only:)
  moreover have "qg_next_msg_id q' = qg_next_msg_id q" using q'(5) r(4) by (simp add: q2_def)
  ultimately show ?case using q'(4) grows_trans [OF r(2) q'(3)] by blast
qed

subsection \<open>Reopening\<close>

text \<open>
  The segment files on disk: as they may be left behind, and holding what a queue's references read.
\<close>

definition files_ok :: "(u64 \<times> bytes) list \<Rightarrow> bool" where
  "files_ok files \<longleftrightarrow> (\<forall>(i, file) \<in> set files. unat i < 2 ^ 62 \<and> length file \<le> SEGMENT_MAX_BYTES + 2 ^ 32)"

definition files_hold :: "(u64 \<times> bytes) list \<Rightarrow> queue_state \<Rightarrow> bool" where
  "files_hold files q \<longleftrightarrow> (case qg_paging q of
      None \<Rightarrow> True
    | Some p \<Rightarrow> \<forall>r \<in> set (spill_refs q). spill_read r (open_preserving (sp_id (pg_spill p)) files) = spill_read r (pg_spill p))"

lemma fold_max_bound:
  assumes "\<forall>(i, _) \<in> set files. unat (i :: u64) < k" "unat n \<le> k" "k < 2 ^ 64"
  shows "unat (fold (\<lambda>(i, _) n. max n (i + 1)) files n) \<le> k \<and> n \<le> fold (\<lambda>(i, _) n. max n (i + 1)) files n \<and>
    (\<forall>(i, _) \<in> set files. i < fold (\<lambda>(i, _) n. max n (i + 1)) files n)"
  using assms
proof (induction files arbitrary: n)
  case (Cons e files)
  obtain i f where e: "e = (i, f)" by fastforce
  have i: "unat (i + 1) = Suc (unat i)" using Cons.prems(1,3) by (intro unat_plus_one) (auto simp: e)
  then have le: "unat (max n (i + 1)) \<le> k" using Cons.prems(1,2) by (auto simp: e max_def)
  have "i < i + 1" using i by (simp add: word_less_nat_alt)
  then show ?case using Cons.IH [OF _ le Cons.prems(3)] Cons.prems(1) by (fastforce simp: e)
qed simp

lemma opened_inv:
  assumes "files_ok files"
  shows "spill_inv {#} (open_preserving spill_id files)" "unat (sp_next_segment (open_preserving spill_id files)) \<le> 2 ^ 62"
proof -
  let ?sp = "open_preserving spill_id files"
  have ids: "\<forall>(i, _) \<in> set files. unat i < 2 ^ 62" using assms by (auto simp: files_ok_def)
  note b = fold_max_bound [OF ids, of 0]
  then show "unat (sp_next_segment ?sp) \<le> 2 ^ 62" by (simp add: open_preserving_def)
  have "segment_ok seg \<and> sg_live seg = live_refs {#} i \<and> i < sp_next_segment ?sp" if s: "sp_segments ?sp i = Some seg" for i seg
  proof -
    obtain f where f: "(i, f) \<in> set files" "seg = \<lparr>sg_file = f, sg_live = 0, sg_size = length f\<rparr>"
      using s by (auto simp: open_preserving_def dest!: map_of_SomeD)
    then show ?thesis using assms b by (auto simp: files_ok_def segment_ok_def live_refs_def open_preserving_def)
  qed
  then show "spill_inv {#} ?sp" by (auto simp: spill_inv_def spill_core_def) (auto simp: open_preserving_def)
qed

lemma opened_parked: "spill_read r (open_preserving spill_id files) \<noteq> None \<Longrightarrow> parked (open_preserving spill_id files) r"
  by (auto simp: parked_def within_def spill_read_def open_preserving_def split: option.splits if_splits dest!: map_of_SomeD)

lemma set_spill_refs: "set (spill_refs q) = set_mset (refs_in (qg_messages q))"
  by (simp add: spill_refs_def refs_in_def)

definition port :: "u64 \<times> replicated_message \<Rightarrow> portable_message" where
  "port = (\<lambda>(i, m). (i, rm_failures m, rm_enqueued_ms m, portable_of (rm_body m)))"

lemma unported_port [simp]: "unported (port e) = e"
  by (cases e, cases "rm_body (snd e)") (auto simp: port_def unported_def)

lemma snapshot_portable:
  assumes inv: "queue_inv q" and id: "\<forall>p. qg_paging q = Some p \<longrightarrow> sp_id (pg_spill p) = spill_id"
  shows "\<exists>sid. snapshot_bytes True q = Inr (Some (to_vec (portable_sval \<lparr>ps_next_msg_id = qg_next_msg_id q, ps_messages = map port (qg_messages q), ps_spill_id = sid\<rparr>))) \<and>
    (spill_refs q \<noteq> [] \<longrightarrow> sid = spill_id)"
proof (cases "spill_refs q = []")
  case True
  then show ?thesis by (auto simp: snapshot_bytes_def port_def Let_def)
next
  case False
  then have "refs_in (qg_messages q) \<noteq> {#}" using set_spill_refs [of q] by fastforce
  then obtain p where "qg_paging q = Some p" using inv by (auto simp: queue_inv_def paging_inv_def split: option.splits)
  then show ?thesis using False id by (simp add: snapshot_bytes_def port_def Let_def)
qed

definition small_bodies :: "queue_state \<Rightarrow> bool" where
  "small_bodies q \<longleftrightarrow> (\<forall>(_, m) \<in> set (qg_messages q). \<forall>b. rm_body m = Resident b \<longrightarrow> length b < 2 ^ 32)"

lemma port_fits:
  assumes inv: "queue_inv q" and small: "small_bodies q" and e: "e \<in> set (qg_messages q)"
  shows "case port e of (_, _, _, body) \<Rightarrow> body_fits body"
proof -
  obtain i m where im: "e = (i, m)" by fastforce
  show ?thesis
  proof (cases "rm_body m")
    case (Resident b)
    then show ?thesis using small e by (fastforce simp: small_bodies_def im port_def body_fits_def)
  next
    case (Spilled r)
    have r: "r \<in># refs_in (qg_messages q)" using refs_in_set Spilled e im by blast
    then obtain p where "qg_paging q = Some p" "paging_inv (refs_in (qg_messages q)) (Some p)" using inv
      by (cases "qg_paging q") (auto simp: queue_inv_def paging_inv_def)
    then have p: "spill_core (refs_in (qg_messages q)) (pg_spill p)" by (simp add: paging_inv_def spill_inv_def)
    then obtain seg where seg: "sp_segments (pg_spill p) (sr_segment r) = Some seg" "sr_offset r + unat (sr_len r) \<le> sg_size seg"
      using r unfolding spill_core_def within_def by blast
    then have "segment_ok seg" using p unfolding spill_core_def by blast
    then show ?thesis using seg(2) Spilled by (simp add: im port_def body_fits_def segment_ok_def SEGMENT_MAX_BYTES_def)
  qed
qed

lemma port_restorable:
  assumes inv: "queue_inv q" and small: "small_bodies q" and files: "files_hold files q"
    and id: "\<forall>p. qg_paging q = Some p \<longrightarrow> sp_id (pg_spill p) = spill_id" and sid: "spill_refs q \<noteq> [] \<longrightarrow> sid = spill_id" and e: "e \<in> set (qg_messages q)"
  shows "restorable sid (open_preserving spill_id files) (port e)"
proof -
  obtain i m where im: "e = (i, m)" by fastforce
  show ?thesis
  proof (cases "rm_body m")
    case (Resident b)
    then show ?thesis using small e by (fastforce simp: small_bodies_def im port_def restorable_def)
  next
    case (Spilled r)
    have r: "r \<in># refs_in (qg_messages q)" using refs_in_set Spilled e im by blast
    then obtain p where p: "qg_paging q = Some p" "spill_core (refs_in (qg_messages q)) (pg_spill p)" using inv
      by (cases "qg_paging q") (auto simp: queue_inv_def paging_inv_def spill_inv_def)
    have "r \<in> set (spill_refs q)" using r by (simp add: set_spill_refs)
    then have "spill_read r (open_preserving spill_id files) \<noteq> None" "sid = spill_id"
      using files held_reads [OF p(2) r] p(1) id sid by (auto simp: files_hold_def)
    then show ?thesis using Spilled opened_parked by (simp add: im port_def restorable_def) (simp add: open_preserving_def)
  qed
qed

lemma abs_entries_resident: "refs_in ms = {#} \<Longrightarrow> abs_entries pg ms = abs_entries pg' ms"
proof (induction ms)
  case (Cons e ms)
  then show ?case by (cases e) (auto simp: abs_message_def resolve_def split: stored_body.splits)
qed simp

lemma opened_entries:
  assumes inv: "queue_inv q" and files: "files_hold files q" and id: "\<forall>p. qg_paging q = Some p \<longrightarrow> sp_id (pg_spill p) = spill_id"
  shows "abs_entries (Some \<lparr>pg_spill = open_preserving spill_id files, pg_resident_max = k\<rparr>) (qg_messages q) = abs_entries (qg_paging q) (qg_messages q)"
proof (cases "qg_paging q")
  case None
  then show ?thesis using inv abs_entries_resident by (simp add: queue_inv_def paging_inv_def)
next
  case (Some p)
  then have "same_reads (refs_in (qg_messages q)) (pg_spill p) (open_preserving spill_id files)"
    using files id by (simp add: files_hold_def same_reads_def set_spill_refs)
  then show ?thesis unfolding Some by (intro abs_entries_same) auto
qed

lemma map_fst_abs_entries: "map fst (abs_entries pg ms) = map fst ms"
  by (simp add: abs_entries_def comp_def case_prod_beta)

lemma recount_ok:
  assumes st: "restoring A X p q" and keys: "bt_ok (qg_messages q)" "\<forall>e \<in> set (qg_messages q). fst e \<le> qg_next_msg_id q"
    and q': "q' = q\<lparr>qg_paging := map_option (\<lambda>pg. pg\<lparr>pg_spill := set_live (spill_live_counts q) (pg_spill pg)\<rparr>) (qg_paging q)\<rparr>"
  shows "queue_inv q'" "abs_queue q' = \<lparr>sq_next = qg_next_msg_id q, sq_messages = abs_entries (Some p) (qg_messages q)\<rparr>" "room n (qg_paging q) \<Longrightarrow> room n (qg_paging q')"
proof -
  let ?p = "p\<lparr>pg_spill := set_live (live_refs (A + X)) (pg_spill p)\<rparr>"
  have p: "qg_paging q = Some p" "spill_inv A (pg_spill p)" "\<forall>r \<in># X. within (pg_spill p) r" "refs_in (qg_messages q) = A + X"
    "qg_resident_bytes q = resident_in (qg_messages q)" using st by (auto simp: restoring_def parked_def)
  note live = set_live_inv [OF p(2,3)]
  have eq: "q' = q\<lparr>qg_paging := Some ?p\<rparr>" by (simp add: q' p(1) live_counts p(4))
  show "queue_inv q'" using keys p(4,5) live(1) by (simp add: eq queue_inv_def paging_inv_def)
  have "abs_entries (Some ?p) (qg_messages q) = abs_entries (Some p) (qg_messages q)"
    by (rule abs_entries_same [of "A + X"]) (use live(2) p(4) in simp_all)
  then show "abs_queue q' = \<lparr>sq_next = qg_next_msg_id q, sq_messages = abs_entries (Some p) (qg_messages q)\<rparr>"
    by (simp add: eq abs_queue_def flip: abs_entries_def)
  show "room n (qg_paging q) \<Longrightarrow> room n (qg_paging q')" by (simp add: eq room_def p(1) set_live_def)
qed

lemma reopen_ok:
  assumes inv: "queue_inv q" and small: "small_bodies q" and files: "files_ok files" "files_hold files q"
    and id: "\<forall>p. qg_paging q = Some p \<longrightarrow> sp_id (pg_spill p) = spill_id"
    and io: "\<forall>io \<in> set ios. io_open io" "length (qg_messages q) \<le> length ios" and len: "length (qg_messages q) + n < 2 ^ 62"
  shows "\<exists>bs q'. snapshot_bytes True q = Inr (Some bs) \<and> reopen_queue ios spill_id files k bs = Some (Inr q') \<and> queue_inv q' \<and> abs_queue q' = abs_queue q \<and>
    room n (qg_paging q')"
proof -
  let ?ps = "map port (qg_messages q)" and ?sp = "open_preserving spill_id files" and ?ms = "qg_messages q"
  let ?p = "\<lparr>pg_spill = ?sp, pg_resident_max = k\<rparr>"
  let ?q = "\<lparr>qg_next_msg_id = qg_next_msg_id q, qg_messages = [], qg_resident_bytes = 0, qg_paging = Some ?p\<rparr>"
  obtain sid where sid: "snapshot_bytes True q = Inr (Some (to_vec (portable_sval \<lparr>ps_next_msg_id = qg_next_msg_id q, ps_messages = ?ps, ps_spill_id = sid\<rparr>)))"
      "spill_refs q \<noteq> [] \<longrightarrow> sid = spill_id" using snapshot_portable [OF inv id] by blast
  let ?P = "\<lparr>ps_next_msg_id = qg_next_msg_id q, ps_messages = ?ps, ps_spill_id = sid\<rparr>"
  have "typed portable_type (portable_sval ?P)" using portable_typed [of ?P] port_fits [OF inv small] len by auto
  note bytes = to_vec_reads [OF this]
  have un: "map unported ?ps = ?ms" by (simp add: comp_def)
  have st: "restoring {#} {#} ?p ?q" using opened_inv(1) [OF files(1)] by (simp add: restoring_def)
  have bt: "bt_ok (qg_messages ?q @ map unported ?ps)" using inv by (simp add: un queue_inv_def del: map_map)
  have ok: "\<forall>m \<in> set ?ps. restorable sid (pg_spill ?p) m" using port_restorable [OF inv small files(2) id sid(2)] by auto
  have fits: "room (length ?ps + n) (qg_paging ?q)" using opened_inv(2) [OF files(1), of spill_id] len by (simp add: room_def)
  have ios: "length ?ps \<le> length ios" using io(2) by simp
  obtain q1 p1 A1 where r: "restore_messages ios sid ?ps ?q = Some (Inr (), q1)" "restoring A1 (refs_in ?ms) p1 q1" "room n (qg_paging q1)"
      "qg_next_msg_id q1 = qg_next_msg_id q" "abs_entries (Some p1) (qg_messages q1) = abs_entries (Some ?p) ?ms"
    using restore_messages_ok [OF st bt ok io(1) ios fits] unfolding un by auto
  have same: "abs_entries (Some p1) (qg_messages q1) = abs_entries (qg_paging q) ?ms" using r(5) opened_entries [OF inv files(2) id] by simp
  then have keys: "map fst (qg_messages q1) = map fst ?ms" using map_fst_abs_entries by metis
  then have "fst ` set (qg_messages q1) = fst ` set ?ms" by (metis set_map)
  moreover have "\<forall>i \<in> fst ` set ?ms. i \<le> qg_next_msg_id q1" using inv by (simp add: queue_inv_def r(4))
  ultimately have "\<forall>i \<in> fst ` set (qg_messages q1). i \<le> qg_next_msg_id q1" by (simp only:)
  then have le: "bt_ok (qg_messages q1)" "\<forall>e \<in> set (qg_messages q1). fst e \<le> qg_next_msg_id q1"
    using inv keys by (simp_all add: queue_inv_def bt_ok_def)
  define q2 where "q2 = q1\<lparr>qg_paging := map_option (\<lambda>pg. pg\<lparr>pg_spill := set_live (spill_live_counts q1) (pg_spill pg)\<rparr>) (qg_paging q1)\<rparr>"
  note rc = recount_ok [OF r(2) le q2_def]
  have "restore_snapshot ios (to_vec (portable_sval ?P)) (paged ?sp k) = Some (Inr (), q1)"
    using r(1) by (simp add: restore_snapshot_def bytes portable_sval_inverse paged_def new_state_def Let_def)
  then have "reopen_queue ios spill_id files k (to_vec (portable_sval ?P)) = Some (Inr q2)" by (simp add: reopen_queue_def q2_def)
  moreover have "abs_queue q2 = abs_queue q" using rc(2) same by (simp add: r(4) abs_queue_def flip: abs_entries_def)
  ultimately show ?thesis using sid(1) rc(1,3) r(3) by blast
qed

subsection \<open>Reachable queues\<close>

fun small_command :: "queue_command \<Rightarrow> bool" where
  "small_command (Enqueue b _) = (length b < 2 ^ 32)"
| "small_command (Settle _ _) = True"

definition spec_small :: "spec_queue \<Rightarrow> bool" where
  "spec_small a \<longleftrightarrow> bt_ok (sq_messages a) \<and> (\<forall>(_, b, _) \<in> set (sq_messages a). length b < 2 ^ 32)"

lemma small_bodies_abs: "\<forall>(_, b, _) \<in> set (sq_messages (abs_queue q)). length b < 2 ^ 32 \<Longrightarrow> small_bodies q"
  by (fastforce simp: small_bodies_def abs_queue_def abs_message_def resolve_def)

lemma set_bt_insert_sub: "set (bt_insert k v m) \<subseteq> insert (k, v) (set m)" "length (bt_insert k v m) \<le> Suc (length m)"
  by (induction k v m rule: bt_insert.induct) auto

lemma spec_apply_small:
  assumes "\<forall>(_, b, _) \<in> set (sq_messages a). length b < 2 ^ 32" "small_command c" "spec_apply c a = (r, a')"
  shows "(\<forall>(_, b, _) \<in> set (sq_messages a'). length b < 2 ^ 32) \<and> length (sq_messages a') \<le> Suc (length (sq_messages a))"
proof (cases c)
  case (Enqueue b ms)
  then show ?thesis using assms by auto
next
  case (Settle i requeue)
  show ?thesis
  proof (cases "map_of (sq_messages a) i")
    case None
    then show ?thesis using assms Settle by simp
  next
    case (Some v)
    obtain b f ms where v: "v = (b, f, ms)" by (cases v)
    have "length b < 2 ^ 32" using map_of_SomeD [OF Some] assms(1) v by fastforce
    moreover have "a' = a\<lparr>sq_messages := if requeue then bt_insert i (b, f + 1, ms) (sq_messages a) else bt_remove i (sq_messages a)\<rparr>"
      using assms(3) Settle Some v by simp
    ultimately show ?thesis using assms(1) set_bt_insert_sub [of i "(b, f + 1, ms)" "sq_messages a"]
      by (auto simp: bt_remove_def le_SucI)
  qed
qed

lemma spec_run_small:
  "\<forall>(_, b, _) \<in> set (sq_messages a). length b < 2 ^ 32 \<Longrightarrow> \<forall>c \<in> set cs. small_command c \<Longrightarrow> spec_run cs a = (rs, a') \<Longrightarrow>
    (\<forall>(_, b, _) \<in> set (sq_messages a'). length b < 2 ^ 32) \<and> length (sq_messages a') \<le> length cs + length (sq_messages a)"
proof (induction cs arbitrary: a rs)
  case (Cons c cs)
  obtain r a1 where s: "spec_apply c a = (r, a1)" by fastforce
  obtain rs1 where run: "spec_run cs a1 = (rs1, a')" using Cons.prems(3) s by (auto split: prod.splits)
  have "\<forall>(_, b, _) \<in> set (sq_messages a1). length b < 2 ^ 32" "length (sq_messages a1) \<le> Suc (length (sq_messages a))"
    using spec_apply_small [OF Cons.prems(1) _ s] Cons.prems(2) by auto
  then show ?case using Cons.IH [OF _ _ run] Cons.prems(2) by fastforce
qed simp

definition store_id :: "queue_state \<Rightarrow> u64 option" where
  "store_id q = map_option (\<lambda>p. sp_id (pg_spill p)) (qg_paging q)"

lemma store_body_id: "store_queue_body io b q = Some (stored, q') \<Longrightarrow> store_id q' = store_id q"
  by (auto simp: store_queue_body_def store_id_def keep_resident_def split: option.splits if_splits prod.splits append_result.splits dest: append_id)

lemma release_id: "sp_id (spill_release r sp) = sp_id sp"
  by (auto simp: spill_release_def Let_def delete_segment_def split: option.splits)

lemma command_id: "apply_command io c q = Some (r, q') \<Longrightarrow> store_id q' = store_id q"
proof (cases c)
  case (Enqueue b ms)
  assume "apply_command io c q = Some (r, q')"
  then obtain stored q1 where "store_queue_body io b (q\<lparr>qg_next_msg_id := qg_next_msg_id q + 1\<rparr>) = Some (stored, q1)" "qg_paging q' = qg_paging q1"
    using Enqueue by (auto simp: Let_def split: option.splits)
  then show ?thesis using store_body_id by (fastforce simp: store_id_def)
next
  case (Settle i requeue)
  assume "apply_command io c q = Some (r, q')"
  then show ?thesis using Settle by (auto simp: store_id_def drop_body_def release_id split: option.splits if_splits stored_body.splits)
qed

lemma commands_id: "apply_commands cs q = Some (rs, q') \<Longrightarrow> store_id q' = store_id q"
proof (induction cs arbitrary: q rs)
  case (Cons x cs)
  obtain io c where x: "x = (io, c)" by fastforce
  obtain r q1 rs1 where "apply_command io c q = Some (r, q1)" "apply_commands cs q1 = Some (rs1, q')"
    using Cons.prems by (auto simp: x split: option.splits)
  then show ?case using Cons.IH command_id by metis
qed simp

lemma command_ok_small: "command_ok (io, c) \<Longrightarrow> small_command c"
  by (cases c) auto

lemma commands_small: "\<forall>c \<in> set cs. command_ok c \<Longrightarrow> \<forall>c \<in> set (map snd cs). small_command c"
  using command_ok_small by auto

subsection \<open>A replica that restarts catches up\<close>

text \<open>
  C11: a replica that took a snapshot and applied further commands can restart from the snapshot, as
  long as the segment files still hold what the snapshot refers to: it reopens to the queue of the
  snapshot, and applying the same commands again gives the same answers and the same queue, with
  bodies spilled differently or not at all.
\<close>

theorem replica_recovers:
  assumes fresh: "fresh_paging pg" "\<forall>p. pg = Some p \<longrightarrow> sp_id (pg_spill p) = spill_id"
    and ok: "\<forall>c \<in> set cs0. command_ok c" "\<forall>c \<in> set cs. command_ok c" "\<forall>c \<in> set cs'. command_ok c" "map snd cs' = map snd cs"
    and len: "length cs0 + length cs < 2 ^ 62"
    and run: "apply_commands cs0 (new_state pg) = Some (rs0, q)" "apply_commands cs q = Some (rs, q1)"
    and files: "files_ok files" "files_hold files q"
    and io: "\<forall>io \<in> set ios. io_open io" "length cs0 \<le> length ios"
  shows "\<exists>bs q' q2. snapshot_bytes True q = Inr (Some bs) \<and> reopen_queue ios spill_id files k bs = Some (Inr q') \<and> abs_queue q' = abs_queue q \<and>
    apply_commands cs' q' = Some (rs, q2) \<and> abs_queue q2 = abs_queue q1"
proof -
  note f = fresh_inv [OF fresh(1)]
  have n0: "qg_paging (new_state pg) = pg" "qg_next_msg_id (new_state pg) = 0" by (simp_all add: new_state_def)
  have fits: "room (length cs0 + length cs) (qg_paging (new_state pg))" "unat (qg_next_msg_id (new_state pg)) + length cs0 < 2 ^ 64"
    using f(3) len by (simp_all add: n0)
  have q: "queue_inv q" "spec_run (map snd cs0) spec_empty = (rs0, abs_queue q)" "room (length cs + 0) (qg_paging q)" "unat (qg_next_msg_id q) \<le> length cs0"
    using commands_refine [OF f(1) ok(1) fits] run(1) f(2) by (simp_all add: n0)
  have small: "small_bodies q" "length (qg_messages q) \<le> length cs0"
    using spec_run_small [OF _ commands_small [OF ok(1)] q(2)] small_bodies_abs by (auto simp: spec_empty_def abs_queue_def)
  have id: "\<forall>p. qg_paging q = Some p \<longrightarrow> sp_id (pg_spill p) = spill_id"
    using commands_id [OF run(1)] fresh(2) by (cases pg) (auto simp: store_id_def new_state_def)
  obtain bs q' where r: "snapshot_bytes True q = Inr (Some bs)" "reopen_queue ios spill_id files k bs = Some (Inr q')" "queue_inv q'" "abs_queue q' = abs_queue q"
      "room (length cs) (qg_paging q')"
    using reopen_ok [OF q(1) small(1) files id io(1), of "length cs" k] small(2) io(2) len by auto
  have same: "qg_next_msg_id q' = qg_next_msg_id q" using arg_cong [OF r(4), of sq_next] by (simp add: abs_queue_def)
  have n: "unat (qg_next_msg_id q) + length cs < 2 ^ 64" using q(4) len by simp
  have l: "length cs' = length cs" using ok(4) by (metis length_map)
  obtain rs' q2 where q2: "apply_commands cs' q' = Some (rs', q2)" "spec_run (map snd cs') (abs_queue q') = (rs', abs_queue q2)"
    using commands_refine [OF r(3) ok(3), of 0] r(5) n l same by auto
  have "spec_run (map snd cs) (abs_queue q) = (rs, abs_queue q1)" using commands_refine [OF q(1) ok(2) q(3) n] run(2) by simp
  then show ?thesis using r q2 ok(4) by auto
qed

text \<open>A queue of one spilled message and its snapshot.\<close>

definition works :: append_io where "works = \<lparr>io_open = True, io_write = None\<rparr>"

definition one_ref :: spill_ref where "one_ref = \<lparr>sr_segment = 0, sr_offset = 0, sr_len = 1\<rparr>"

definition one_store :: spill where
  "one_store = \<lparr>sp_id = 5, sp_next_segment = 1, sp_current = Some 0, sp_segments = [0 \<mapsto> \<lparr>sg_file = [9], sg_live = 1, sg_size = 1\<rparr>],
    sp_pins = 0, sp_deferred = []\<rparr>"

definition one_spilled :: "spill \<Rightarrow> queue_state" where
  "one_spilled sp = \<lparr>qg_next_msg_id = 1, qg_messages = [(1, \<lparr>rm_body = Spilled one_ref, rm_failures = 0, rm_enqueued_ms = 7\<rparr>)],
    qg_resident_bytes = 0, qg_paging = Some \<lparr>pg_spill = sp, pg_resident_max = 0\<rparr>\<rparr>"

definition one_snapshot :: bytes where
  "one_snapshot = to_vec (portable_sval \<lparr>ps_next_msg_id = 1, ps_messages = [(1, 0, 7, External one_ref)], ps_spill_id = 5\<rparr>)"

lemma one_enqueued: "apply_commands [(works, Enqueue [9] 7)] (new_state (Some \<lparr>pg_spill = open_fresh 5, pg_resident_max = 0\<rparr>)) = Some ([Enqueued 1], one_spilled one_store)"
  by (simp add: works_def new_state_def one_spilled_def one_store_def one_ref_def store_queue_body_def open_fresh_def open_preserving_def spill_append_def
    roll_segment_def reclaim_current_def append_current_def write_at_def Let_def)

lemma one_snapshot_bytes: "snapshot_bytes True (one_spilled one_store) = Inr (Some one_snapshot)"
  by (simp add: snapshot_bytes_def one_spilled_def one_store_def one_snapshot_def spill_refs_def List.map_filter_def)

lemma one_snapshot_reads:
  "restore_snapshot ios one_snapshot (paged sp 0) = restore_messages ios 5 [(1, 0, 7, External one_ref)] ((paged sp 0)\<lparr>qg_next_msg_id := 1\<rparr>)"
proof -
  let ?P = "\<lparr>ps_next_msg_id = 1, ps_messages = [(1, 0, 7, External one_ref)], ps_spill_id = 5\<rparr>"
  have "typed portable_type (portable_sval ?P)" by (rule portable_typed) (simp_all add: body_fits_def one_ref_def)
  then have "serde_from_slice portable_type one_snapshot = Inr (portable_sval ?P)" unfolding one_snapshot_def by (rule to_vec_reads)
  then show ?thesis by (simp add: restore_snapshot_def portable_sval_inverse paged_def new_state_def Let_def del: restore_messages.simps)
qed

theorem replica_recovers_witness:
  "\<exists>q' q2. reopen_queue [works] 5 [(0, [9])] 0 one_snapshot = Some (Inr q') \<and> abs_queue q' = abs_queue (one_spilled one_store) \<and>
    apply_commands [(works, Settle 1 True)] q' = Some ([Settled], q2) \<and> map fst (sq_messages (abs_queue q2)) = [1]"
proof -
  let ?pg = "Some \<lparr>pg_spill = open_fresh 5, pg_resident_max = 0\<rparr>" and ?q = "one_spilled one_store" and ?cs = "[(works, Settle 1 True)]"
  obtain q1 where q1: "apply_commands ?cs ?q = Some ([Settled], q1)" "map fst (qg_messages q1) = [1]" by (simp add: one_spilled_def)
  have "fresh_paging ?pg" "\<forall>p. ?pg = Some p \<longrightarrow> sp_id (pg_spill p) = 5" by (simp_all add: fresh_paging_def open_fresh_def open_preserving_def)
  moreover have "files_ok [(0, [9])]" "files_hold [(0, [9])] ?q"
    by (simp_all add: files_ok_def SEGMENT_MAX_BYTES_def files_hold_def one_spilled_def one_store_def spill_refs_def List.map_filter_def one_ref_def
      spill_read_def open_preserving_def)
  ultimately obtain bs q' q2 where r: "snapshot_bytes True ?q = Inr (Some bs)" "reopen_queue [works] 5 [(0, [9])] 0 bs = Some (Inr q')" "abs_queue q' = abs_queue ?q"
      "apply_commands ?cs q' = Some ([Settled], q2)" "abs_queue q2 = abs_queue q1"
    using replica_recovers [of ?pg 5 "[(works, Enqueue [9] 7)]" ?cs ?cs "[Enqueued 1]" ?q "[Settled]" q1 "[(0, [9])]" "[works]" 0, OF _ _ _ _ _ _ _ one_enqueued q1(1)]
    by (auto simp: works_def)
  have "map fst (sq_messages (abs_queue q2)) = [1]" using q1(2) unfolding r(5) by (simp add: abs_queue_def comp_def case_prod_beta)
  then show ?thesis using r(1-4) one_snapshot_bytes by auto
qed

text \<open>
  C34: recovery can fail for good. A replica restarts from its snapshot, the message it refers to is
  settled, and the drained segment is deleted at once although the snapshot on disk still refers to
  it; after another crash the same snapshot can no longer be restored.
\<close>

theorem drained_segment_breaks_recovery:
  "\<exists>q q' q2. apply_commands [(works, Enqueue [9] 7)] (paged (open_fresh 5) 0) = Some ([Enqueued 1], q) \<and> snapshot_bytes True q = Inr (Some one_snapshot) \<and>
    reopen_queue [works] 5 [(0, [9])] 0 one_snapshot = Some (Inr q') \<and>
    apply_commands [(works, Settle 1 False)] q' = Some ([Settled], q2) \<and> map_option (\<lambda>p. sp_segments (pg_spill p)) (qg_paging q2) = Some Map.empty \<and>
    reopen_queue [works] 5 [] 0 one_snapshot = Some (Inl Unreadable)"
proof -
  let ?sp = "(open_preserving 5 [(0, [9])])\<lparr>sp_segments := [0 \<mapsto> \<lparr>sg_file = [9], sg_live = 1, sg_size = 1\<rparr>]\<rparr>"
  have re: "reopen_queue [works] 5 [(0, [9])] 0 one_snapshot = Some (Inr (one_spilled ?sp))"
    unfolding reopen_queue_def one_snapshot_reads
    by (simp add: restore_body_def paged_def new_state_def open_preserving_def spill_read_def one_ref_def
      spill_live_counts_def spill_refs_def List.map_filter_def set_live_def one_spilled_def fun_eq_iff)
  have fails: "reopen_queue [works] 5 [] 0 one_snapshot = Some (Inl Unreadable)"
    unfolding reopen_queue_def one_snapshot_reads
    by (simp add: restore_body_def paged_def new_state_def open_preserving_def spill_read_def)
  have "\<exists>q2. apply_commands [(works, Settle 1 False)] (one_spilled ?sp) = Some ([Settled], q2) \<and> map_option (\<lambda>p. sp_segments (pg_spill p)) (qg_paging q2) = Some Map.empty"
    by (simp add: one_spilled_def drop_body_def spill_release_def one_ref_def delete_segment_def open_preserving_def)
  then show ?thesis using re fails one_enqueued one_snapshot_bytes unfolding paged_def by blast
qed

end
