(* ===== verification/Sasl_Scram.thy ===== *)
theory Sasl_Scram
  imports Types_Sasl
begin

section \<open>SCRAM (\<open>ramqp-core/src/sasl\<close>, \<open>ramqp/src/sasl/mod.rs\<close>)\<close>

text \<open>
  The server and client engines of SCRAM as functions on their state. A \<open>str\<close> is its UTF-8 bytes;
  the separators are ASCII, so splitting bytes is splitting characters. The hash functions, base64
  and SASLprep are packages the sources call: they are the parameter \<open>sasl_crypto\<close>, and what the
  exchange relies on of them is \<open>sound_crypto\<close>. Error messages are kept as the sources write them.
\<close>

subsection \<open>Strings\<close>

abbreviation (input) COMMA :: u8 where "COMMA \<equiv> 44"
abbreviation (input) EQUALS :: u8 where "EQUALS \<equiv> 61"

fun split_on :: "u8 \<Rightarrow> utf8 \<Rightarrow> utf8 list" where
  "split_on c [] = [[]]"
| "split_on c (x # xs) = (if x = c then [] # split_on c xs else (case split_on c xs of [] \<Rightarrow> [[x]] | p # ps \<Rightarrow> (x # p) # ps))"

definition split_once :: "u8 \<Rightarrow> utf8 \<Rightarrow> (utf8 \<times> utf8) option" where
  "split_once c s = (if c \<in> set s then Some (takeWhile (\<lambda>x. x \<noteq> c) s, tl (dropWhile (\<lambda>x. x \<noteq> c) s)) else None)"

definition starts_with :: "utf8 \<Rightarrow> utf8 \<Rightarrow> bool" where
  "starts_with pat s \<longleftrightarrow> take (length pat) s = pat"

definition find_byte :: "u8 \<Rightarrow> utf8 \<Rightarrow> nat option" where
  "find_byte c s = (if c \<in> set s then Some (length (takeWhile (\<lambda>x. x \<noteq> c) s)) else None)"

definition rfind_sub :: "utf8 \<Rightarrow> utf8 \<Rightarrow> nat option" where
  "rfind_sub pat s = find (\<lambda>i. starts_with pat (drop i s)) (rev [0..<length s])"

definition replace_byte :: "u8 \<Rightarrow> utf8 \<Rightarrow> utf8 \<Rightarrow> utf8" where
  "replace_byte c by s = concat (map (\<lambda>x. if x = c then by else [x]) s)"

definition split_at_checked :: "nat \<Rightarrow> utf8 \<Rightarrow> (utf8 \<times> utf8) option" where
  "split_at_checked n s = (if n \<le> length s \<and> (n = length s \<or> \<not> cont (s ! n)) then Some (take n s, drop n s) else None)"

text \<open>Decimal numbers: \<open>Display\<close> of \<open>u32\<close> and its \<open>FromStr\<close>, which allows a plus sign.\<close>

fun show_dec :: "nat \<Rightarrow> utf8" where
  "show_dec n = (if n < 10 then [48 + of_nat n] else show_dec (n div 10) @ [48 + of_nat (n mod 10)])"

fun read_dec :: "nat \<Rightarrow> utf8 \<Rightarrow> nat option" where
  "read_dec acc [] = Some acc"
| "read_dec acc (c # cs) = (if 48 \<le> c \<and> c \<le> 57 then read_dec (10 * acc + (unat c - 48)) cs else None)"

definition parse_u32 :: "utf8 \<Rightarrow> u32 option" where
  "parse_u32 s = (let digits = (case s of c # cs \<Rightarrow> if c = 43 then cs else s | [] \<Rightarrow> [])
    in if digits = [] then None else (case read_dec 0 digits of Some n \<Rightarrow> if n < 2 ^ 32 then Some (of_nat n) else None | None \<Rightarrow> None))"

subsection \<open>Shared helpers (\<open>scram.rs\<close>)\<close>

datatype scram_mechanism = ScramSha1 | ScramSha256 | ScramSha512

record sasl_crypto =
  cx_h :: "scram_mechanism \<Rightarrow> bytes \<Rightarrow> bytes"
  cx_hmac :: "scram_mechanism \<Rightarrow> bytes \<Rightarrow> bytes \<Rightarrow> bytes"
  cx_pbkdf2 :: "scram_mechanism \<Rightarrow> bytes \<Rightarrow> bytes \<Rightarrow> u32 \<Rightarrow> bytes"
  cx_saslprep :: "utf8 \<Rightarrow> utf8 option"
  cx_b64 :: "bytes \<Rightarrow> utf8"
  cx_unb64 :: "utf8 \<Rightarrow> bytes option"

fun scram_name :: "scram_mechanism \<Rightarrow> utf8" where
  "scram_name ScramSha1 = ascii ''SCRAM-SHA-1''"
| "scram_name ScramSha256 = ascii ''SCRAM-SHA-256''"
| "scram_name ScramSha512 = ascii ''SCRAM-SHA-512''"

definition escape_username :: "utf8 \<Rightarrow> utf8" where
  "escape_username s = replace_byte COMMA (ascii ''=2C'') (replace_byte EQUALS (ascii ''=3D'') s)"

function unescape_loop :: "utf8 \<Rightarrow> utf8 \<Rightarrow> utf8 option" where
  "unescape_loop out rest =
    (case find_byte EQUALS rest of
       None \<Rightarrow> Some (out @ rest)
     | Some i \<Rightarrow>
         (let out = out @ take i rest; esc = take 3 (drop i rest)
          in if esc = ascii ''=3D'' then unescape_loop (out @ [EQUALS]) (drop (i + 3) rest)
             else if esc = ascii ''=2C'' then unescape_loop (out @ [COMMA]) (drop (i + 3) rest)
             else None))"
  by pat_completeness auto

termination
  by (relation "measure (\<lambda>(_, rest). length rest)")
    (auto simp: find_byte_def split: if_splits dest: length_pos_if_in_set)

definition unescape_username :: "utf8 \<Rightarrow> utf8 option" where
  "unescape_username s = (if EQUALS \<notin> set s then Some s else unescape_loop [] s)"

definition xor_bytes :: "bytes \<Rightarrow> bytes \<Rightarrow> bytes" where
  "xor_bytes a b = map (\<lambda>(x, y). xor x y) (zip a b)"

definition ct_eq :: "bytes \<Rightarrow> bytes \<Rightarrow> bool" where
  "ct_eq a b \<longleftrightarrow> length a = length b \<and> fold (\<lambda>(x, y) diff. or diff (xor x y)) (zip a b) 0 = 0"

subsection \<open>Server (\<open>server.rs\<close>)\<close>

datatype scram_error = ScramMalformed string | ScramUnsupported string | BadProof | BadSaslprep

record scram_verifier =
  sv_salt :: bytes
  sv_iterations :: u32
  sv_stored_key :: bytes
  sv_server_key :: bytes

definition derive_verifier :: "sasl_crypto \<Rightarrow> scram_mechanism \<Rightarrow> utf8 \<Rightarrow> bytes \<Rightarrow> u32 \<Rightarrow> scram_verifier option" where
  "derive_verifier C m password salt iterations = (case cx_saslprep C password of
      None \<Rightarrow> None
    | Some password \<Rightarrow>
        let salted = cx_pbkdf2 C m password salt iterations;
            client_key = cx_hmac C m salted (ascii ''Client Key'')
        in Some \<lparr>sv_salt = salt, sv_iterations = iterations, sv_stored_key = cx_h C m client_key,
             sv_server_key = cx_hmac C m salted (ascii ''Server Key'')\<rparr>)"

datatype scram_phase = ExpectClientFirst | ExpectVerifier | ExpectClientFinal | ScramDone

record scram_server =
  ss_mechanism :: scram_mechanism
  ss_nonce_suffix :: utf8
  ss_phase :: scram_phase
  ss_username :: "utf8 option"
  ss_client_first_bare :: utf8
  ss_combined_nonce :: utf8
  ss_channel_binding :: utf8
  ss_server_first :: utf8
  ss_verifier :: "scram_verifier option"

definition server_with_nonce :: "scram_mechanism \<Rightarrow> utf8 \<Rightarrow> scram_server" where
  "server_with_nonce m suffix = \<lparr>ss_mechanism = m, ss_nonce_suffix = suffix, ss_phase = ExpectClientFirst, ss_username = None,
    ss_client_first_bare = [], ss_combined_nonce = [], ss_channel_binding = [], ss_server_first = [], ss_verifier = None\<rparr>"

fun client_first_attrs :: "utf8 list \<Rightarrow> utf8 option \<Rightarrow> utf8 option \<Rightarrow> scram_error + utf8 option \<times> utf8 option" where
  "client_first_attrs [] username nonce = Inr (username, nonce)"
| "client_first_attrs (attr # attrs) username nonce =
    (case split_once EQUALS attr of
       Some (k, v) \<Rightarrow>
         if k = ascii ''n'' then client_first_attrs attrs (Some v) nonce
         else if k = ascii ''r'' then client_first_attrs attrs username (Some v)
         else if k = ascii ''m'' then Inl (ScramUnsupported ''mandatory extension'')
         else client_first_attrs attrs username nonce
     | None \<Rightarrow> client_first_attrs attrs username nonce)"

text \<open>The gs2 header and what follows it.\<close>

definition parse_gs2 :: "utf8 \<Rightarrow> scram_error + utf8 \<times> utf8" where
  "parse_gs2 msg = (case split_at_checked 2 msg of
      None \<Rightarrow> Inl (ScramMalformed ''truncated gs2 header'')
    | Some (gs2_cbind, rest) \<Rightarrow>
        if gs2_cbind \<noteq> ascii ''n,'' \<and> gs2_cbind \<noteq> ascii ''y,''
        then if starts_with (ascii ''p='') gs2_cbind \<or> starts_with (ascii ''p='') msg
             then Inl (ScramUnsupported ''channel binding'') else Inl (ScramMalformed ''bad gs2 header'')
        else (case find_byte COMMA rest of
                None \<Rightarrow> Inl (ScramMalformed ''gs2 header missing terminator'')
              | Some i \<Rightarrow> Inr (take (2 + i + 1) msg, drop (i + 1) rest)))"

definition required :: "string \<Rightarrow> 'a option \<Rightarrow> scram_error + 'a" where
  "required what x = (case x of None \<Rightarrow> Inl (ScramMalformed what) | Some a \<Rightarrow> Inr a)"

definition on_client_first :: "sasl_crypto \<Rightarrow> bytes \<Rightarrow> scram_server \<Rightarrow> scram_error + utf8 \<times> scram_server" where
  "on_client_first C data s =
    (if ss_phase s \<noteq> ExpectClientFirst then Inl (ScramMalformed ''client-first out of order'')
     else if \<not> valid_utf8 data then Inl (ScramMalformed ''client-first is not UTF-8'')
     else rbind (parse_gs2 data) (\<lambda>(gs2_header, bare).
       rbind (client_first_attrs (split_on COMMA bare) None None) (\<lambda>(username, nonce).
       rbind (required ''client-first missing n'' username) (\<lambda>username.
       rbind (required ''client-first missing r'' nonce) (\<lambda>nonce.
       if nonce = [] then Inl (ScramMalformed ''empty client nonce'')
       else rbind (required ''bad username escape'' (unescape_username username)) (\<lambda>unescaped.
         case cx_saslprep C unescaped of
           None \<Rightarrow> Inl BadSaslprep
         | Some prepared \<Rightarrow>
             Inr (prepared, s\<lparr>ss_client_first_bare := bare, ss_combined_nonce := nonce @ ss_nonce_suffix s,
               ss_channel_binding := cx_b64 C gs2_header, ss_username := Some prepared, ss_phase := ExpectVerifier\<rparr>)))))))"

definition server_first :: "sasl_crypto \<Rightarrow> scram_verifier \<Rightarrow> scram_server \<Rightarrow> bytes \<times> scram_server" where
  "server_first C v s =
    (let msg = ascii ''r='' @ ss_combined_nonce s @ ascii '',s='' @ cx_b64 C (sv_salt v) @ ascii '',i='' @ show_dec (unat (sv_iterations v))
     in (msg, s\<lparr>ss_server_first := msg, ss_verifier := Some v, ss_phase := ExpectClientFinal\<rparr>))"

record final_attrs =
  fa_binding :: "utf8 option"
  fa_nonce :: "utf8 option"
  fa_proof :: "utf8 option"

definition final_attr :: "utf8 \<Rightarrow> final_attrs \<Rightarrow> final_attrs" where
  "final_attr attr a = (case split_once EQUALS attr of
      Some (k, v) \<Rightarrow>
        if k = ascii ''c'' then a\<lparr>fa_binding := Some v\<rparr>
        else if k = ascii ''r'' then a\<lparr>fa_nonce := Some v\<rparr>
        else if k = ascii ''p'' then a\<lparr>fa_proof := Some v\<rparr>
        else a
    | None \<Rightarrow> a)"

definition client_final_attrs :: "utf8 \<Rightarrow> final_attrs" where
  "client_final_attrs msg = fold final_attr (split_on COMMA msg) \<lparr>fa_binding = None, fa_nonce = None, fa_proof = None\<rparr>"

definition auth_message :: "utf8 \<Rightarrow> utf8 \<Rightarrow> utf8 \<Rightarrow> utf8" where
  "auth_message first_bare server_first_msg without_proof = first_bare @ [COMMA] @ server_first_msg @ [COMMA] @ without_proof"

text \<open>Checking the proof once the message has been taken apart.\<close>

definition check_proof :: "sasl_crypto \<Rightarrow> utf8 \<Rightarrow> bytes \<Rightarrow> scram_verifier \<Rightarrow> scram_server \<Rightarrow> scram_error + bytes \<times> scram_server" where
  "check_proof C msg proof v s =
    (if length proof \<noteq> length (sv_stored_key v) then Inl BadProof
     else (case rfind_sub (ascii '',p='') msg of
             None \<Rightarrow> Inl (ScramMalformed ''client-final proof attribute must be last'')
           | Some i \<Rightarrow>
               let m = ss_mechanism s;
                   auth = auth_message (ss_client_first_bare s) (ss_server_first s) (take i msg);
                   client_key = xor_bytes proof (cx_hmac C m (sv_stored_key v) auth)
               in if \<not> ct_eq (cx_h C m client_key) (sv_stored_key v) then Inl BadProof
                  else Inr (ascii ''v='' @ cx_b64 C (cx_hmac C m (sv_server_key v) auth), s\<lparr>ss_phase := ScramDone\<rparr>)))"

text \<open>\<open>None\<close> is the panic of a missing verifier.\<close>

definition on_client_final :: "sasl_crypto \<Rightarrow> bytes \<Rightarrow> scram_server \<Rightarrow> (scram_error + bytes \<times> scram_server) option" where
  "on_client_final C data s =
    (if ss_phase s \<noteq> ExpectClientFinal then Some (Inl (ScramMalformed ''client-final out of order''))
     else if \<not> valid_utf8 data then Some (Inl (ScramMalformed ''client-final is not UTF-8''))
     else let a = client_final_attrs data
       in case rbind (required ''client-final missing c'' (fa_binding a)) (\<lambda>binding.
              rbind (required ''client-final missing r'' (fa_nonce a)) (\<lambda>nonce.
              rbind (required ''client-final missing p'' (fa_proof a)) (\<lambda>proof.
              if binding \<noteq> ss_channel_binding s then Inl (ScramMalformed ''channel-binding mismatch'')
              else if nonce \<noteq> ss_combined_nonce s then Inl (ScramMalformed ''nonce does not match server-first'')
              else required ''proof is not base64'' (cx_unb64 C proof)))) of
            Inl e \<Rightarrow> Some (Inl e)
          | Inr proof \<Rightarrow> (case ss_verifier s of None \<Rightarrow> None | Some v \<Rightarrow> Some (check_proof C data proof v s)))"

subsection \<open>Client\<close>

record scram_client =
  sc_mechanism :: scram_mechanism
  sc_username :: utf8
  sc_password :: utf8
  sc_nonce :: utf8
  sc_first_bare :: utf8
  sc_server_signature :: "bytes option"

definition sasl_prep :: "sasl_crypto \<Rightarrow> utf8 \<Rightarrow> string + utf8" where
  "sasl_prep C s = (case cx_saslprep C s of
      None \<Rightarrow> Inl ''username or password contains characters prohibited by SASLprep (RFC 4013)''
    | Some t \<Rightarrow> Inr t)"

definition client_with_nonce :: "sasl_crypto \<Rightarrow> scram_mechanism \<Rightarrow> utf8 \<Rightarrow> utf8 \<Rightarrow> utf8 \<Rightarrow> string + scram_client" where
  "client_with_nonce C m username password nonce =
    rbind (sasl_prep C username) (\<lambda>username. rbind (sasl_prep C password) (\<lambda>password.
      Inr \<lparr>sc_mechanism = m, sc_username = username, sc_password = password, sc_nonce = nonce, sc_first_bare = [], sc_server_signature = None\<rparr>))"

definition client_first :: "scram_client \<Rightarrow> bytes \<times> scram_client" where
  "client_first c =
    (let bare = ascii ''n='' @ escape_username (sc_username c) @ ascii '',r='' @ sc_nonce c
     in (ascii ''n,,'' @ bare, c\<lparr>sc_first_bare := bare\<rparr>))"

definition wanted :: "string \<Rightarrow> 'a option \<Rightarrow> string + 'a" where
  "wanted what x = (case x of None \<Rightarrow> Inl what | Some a \<Rightarrow> Inr a)"

fun strip_signature :: "utf8 list \<Rightarrow> utf8 option" where
  "strip_signature [] = None"
| "strip_signature (a # as) = (if starts_with (ascii ''v='') a then Some (drop 2 a) else strip_signature as)"

definition verify_server_final :: "sasl_crypto \<Rightarrow> bytes \<Rightarrow> scram_client \<Rightarrow> string + unit" where
  "verify_server_final C data c =
    (if \<not> valid_utf8 data then Inl ''scram server-final is not UTF-8''
     else rbind (wanted ''scram server-final missing v'' (strip_signature (split_on COMMA data))) (\<lambda>v.
       rbind (wanted ''scram server signature is not base64'' (cx_unb64 C v)) (\<lambda>got.
       case sc_server_signature c of
         Some expected \<Rightarrow> if ct_eq expected got then Inr () else Inl ''scram server signature mismatch (server not authentic)''
       | None \<Rightarrow> Inl ''scram server-final received before server-first'')))"

record first_attrs =
  fi_nonce :: "utf8 option"
  fi_salt :: "utf8 option"
  fi_iterations :: "utf8 option"

definition first_attr :: "utf8 \<Rightarrow> first_attrs \<Rightarrow> first_attrs" where
  "first_attr attr a = (case split_once EQUALS attr of
      Some (k, v) \<Rightarrow>
        if k = ascii ''r'' then a\<lparr>fi_nonce := Some v\<rparr>
        else if k = ascii ''s'' then a\<lparr>fi_salt := Some v\<rparr>
        else if k = ascii ''i'' then a\<lparr>fi_iterations := Some v\<rparr>
        else a
    | None \<Rightarrow> a)"

definition server_first_attrs :: "utf8 \<Rightarrow> first_attrs" where
  "server_first_attrs msg = fold first_attr (split_on COMMA msg) \<lparr>fi_nonce = None, fi_salt = None, fi_iterations = None\<rparr>"

text \<open>The nonce, the salt and the iteration count of a server-first message, checked.\<close>

definition read_server_first :: "sasl_crypto \<Rightarrow> utf8 \<Rightarrow> scram_client \<Rightarrow> string + utf8 \<times> bytes \<times> u32" where
  "read_server_first C msg c =
    (let a = server_first_attrs msg
     in rbind (wanted ''scram server-first missing r'' (fi_nonce a)) (\<lambda>nonce.
        rbind (wanted ''scram server-first missing s'' (fi_salt a)) (\<lambda>salt.
        rbind (wanted ''scram salt is not base64'' (cx_unb64 C salt)) (\<lambda>salt.
        rbind (wanted ''scram server-first missing i'' (fi_iterations a)) (\<lambda>iterations.
        rbind (wanted ''scram iteration count is not a number'' (parse_u32 iterations)) (\<lambda>iterations.
        if iterations = 0 \<or> iterations > 10000000 then Inl ''scram iteration count out of range''
        else if \<not> starts_with (sc_nonce c) nonce then Inl ''scram server nonce does not extend client nonce''
        else Inr (nonce, salt, iterations)))))))"

definition client_final :: "sasl_crypto \<Rightarrow> utf8 \<Rightarrow> utf8 \<times> bytes \<times> u32 \<Rightarrow> scram_client \<Rightarrow> bytes \<times> scram_client" where
  "client_final C msg parts c =
    (let (nonce, salt, iterations) = parts;
         m = sc_mechanism c;
         salted = cx_pbkdf2 C m (sc_password c) salt iterations;
         client_key = cx_hmac C m salted (ascii ''Client Key'');
         stored_key = cx_h C m client_key;
         server_key = cx_hmac C m salted (ascii ''Server Key'');
         no_proof = ascii ''c=biws,r='' @ nonce;
         auth = auth_message (sc_first_bare c) msg no_proof;
         proof = xor_bytes client_key (cx_hmac C m stored_key auth)
     in (no_proof @ ascii '',p='' @ cx_b64 C proof, c\<lparr>sc_server_signature := Some (cx_hmac C m server_key auth)\<rparr>))"

definition client_respond :: "sasl_crypto \<Rightarrow> bytes \<Rightarrow> scram_client \<Rightarrow> string + bytes \<times> scram_client" where
  "client_respond C challenge c =
    (if starts_with (ascii ''v='') challenge then rbind (verify_server_final C challenge c) (\<lambda>_. Inr ([], c))
     else if \<not> valid_utf8 challenge then Inl ''scram server-first is not UTF-8''
     else rbind (read_server_first C challenge c) (\<lambda>parts. Inr (client_final C challenge parts c)))"

end
