(* ===== verification/Sasl_Negotiate.thy ===== *)
theory Sasl_Negotiate
  imports Sasl_Scram
begin

section \<open>SASL negotiation (\<open>ramqp/src/sasl/mod.rs\<close>, \<open>ramqp-broker/src/connection.rs\<close>, \<open>auth.rs\<close>)\<close>

text \<open>
  Both sides of the negotiation as functions from the frames that arrive to the frames they send
  and how they end. A read that fails or brings another frame is an input of its own; sends are
  assumed to reach the wire. Nonces are arguments.
\<close>

datatype frame_in = SaslIn sasl_frame | OtherIn | ReadFails

datatype sasl_failure = Refused string | OutcomeRefused sasl_code "bytes option" | ReadError

datatype 'a sasl_done = Negotiated 'a | NegotiationFails sasl_failure | WantsFrame | NegotiationPanics

subsection \<open>Client\<close>

datatype sasl_profile =
    ProfileAnonymous
  | ProfilePlain utf8 utf8
  | ProfileExternal "utf8 option"
  | ProfileScram scram_mechanism utf8 utf8

definition from_credentials :: "utf8 option \<Rightarrow> utf8 option \<Rightarrow> sasl_profile" where
  "from_credentials username password = (case (username, password) of
      (Some u, Some p) \<Rightarrow> ProfilePlain u p
    | _ \<Rightarrow> ProfileAnonymous)"

fun mechanism_name :: "sasl_profile \<Rightarrow> utf8" where
  "mechanism_name ProfileAnonymous = ascii ''ANONYMOUS''"
| "mechanism_name (ProfilePlain _ _) = ascii ''PLAIN''"
| "mechanism_name (ProfileExternal _) = ascii ''EXTERNAL''"
| "mechanism_name (ProfileScram m _ _) = scram_name m"

definition plain_response :: "utf8 \<Rightarrow> utf8 \<Rightarrow> bytes" where
  "plain_response authcid passwd = 0 # authcid @ 0 # passwd"

datatype mech_state = MechSimple | MechScram scram_client

fun sasl_start :: "sasl_crypto \<Rightarrow> utf8 \<Rightarrow> sasl_profile \<Rightarrow> string + bytes option \<times> mech_state" where
  "sasl_start C nonce ProfileAnonymous = Inr (Some (ascii ''anonymous''), MechSimple)"
| "sasl_start C nonce (ProfilePlain authcid passwd) = Inr (Some (plain_response authcid passwd), MechSimple)"
| "sasl_start C nonce (ProfileExternal authzid) = Inr (Some (case authzid of None \<Rightarrow> [] | Some z \<Rightarrow> z), MechSimple)"
| "sasl_start C nonce (ProfileScram m username password) =
    rbind (client_with_nonce C m username password nonce) (\<lambda>c. let (first, c) = client_first c in Inr (Some first, MechScram c))"

fun mech_respond :: "sasl_crypto \<Rightarrow> bytes \<Rightarrow> mech_state \<Rightarrow> string + bytes \<times> mech_state" where
  "mech_respond C challenge MechSimple = Inl ''server issued a SASL challenge for a non-challenge mechanism''"
| "mech_respond C challenge (MechScram c) = rbind (client_respond C challenge c) (\<lambda>(r, c). Inr (r, MechScram c))"

definition verify_outcome :: "sasl_crypto \<Rightarrow> bytes option \<Rightarrow> mech_state \<Rightarrow> string + unit" where
  "verify_outcome C additional st = (case (st, additional) of
      (MechScram c, Some data) \<Rightarrow> verify_server_final C data c
    | _ \<Rightarrow> Inr ())"

definition to_ascii_upper :: "u8 \<Rightarrow> u8" where
  "to_ascii_upper c = (if 97 \<le> c \<and> c \<le> 122 then c - 32 else c)"

definition eq_ignore_ascii_case :: "utf8 \<Rightarrow> utf8 \<Rightarrow> bool" where
  "eq_ignore_ascii_case a b \<longleftrightarrow> map to_ascii_upper a = map to_ascii_upper b"

fun negotiate_loop :: "sasl_crypto \<Rightarrow> mech_state \<Rightarrow> frame_in list \<Rightarrow> sasl_frame list \<times> unit sasl_done" where
  "negotiate_loop C st [] = ([], WantsFrame)"
| "negotiate_loop C st (f # fs) = (case f of
      SaslIn (FChallenge c) \<Rightarrow>
        (case mech_respond C (sc_challenge c) st of
           Inl e \<Rightarrow> ([], NegotiationFails (Refused e))
         | Inr (response, st) \<Rightarrow>
             let (sent, r) = negotiate_loop C st fs in (FResponse \<lparr>sr_response = response\<rparr> # sent, r))
    | SaslIn (FOutcome o1) \<Rightarrow>
        if sx_code o1 = SaslOk
        then (case verify_outcome C (sx_additional_data o1) st of
                Inl e \<Rightarrow> ([], NegotiationFails (Refused e))
              | Inr _ \<Rightarrow> ([], Negotiated ()))
        else ([], NegotiationFails (OutcomeRefused (sx_code o1) (sx_additional_data o1)))
    | ReadFails \<Rightarrow> ([], NegotiationFails ReadError)
    | _ \<Rightarrow> ([], NegotiationFails (Refused ''unexpected frame during SASL negotiation'')))"

definition sasl_negotiate :: "sasl_crypto \<Rightarrow> utf8 \<Rightarrow> sasl_profile \<Rightarrow> utf8 option \<Rightarrow> frame_in list \<Rightarrow> sasl_frame list \<times> unit sasl_done" where
  "sasl_negotiate C nonce profile hostname inputs = (case inputs of
      [] \<Rightarrow> ([], WantsFrame)
    | SaslIn (FMechanisms m) # fs \<Rightarrow>
        if \<not> list_ex (\<lambda>x. eq_ignore_ascii_case x (mechanism_name profile)) (sm_sasl_server_mechanisms m)
        then ([], NegotiationFails (Refused ''server does not offer the mechanism''))
        else (case sasl_start C nonce profile of
                Inl e \<Rightarrow> ([], NegotiationFails (Refused e))
              | Inr (initial, st) \<Rightarrow>
                  let (sent, r) = negotiate_loop C st fs
                  in (FInit \<lparr>si_mechanism = mechanism_name profile, si_initial_response = initial, si_hostname = hostname\<rparr> # sent, r))
    | ReadFails # _ \<Rightarrow> ([], NegotiationFails ReadError)
    | _ # _ \<Rightarrow> ([], NegotiationFails (Refused ''expected sasl-mechanisms'')))"

subsection \<open>Authenticators\<close>

datatype credentials = CredAnonymous | CredPlain utf8 utf8

datatype link_operation = OpSend | OpReceive

record authenticator =
  au_mechanisms :: "utf8 list"
  au_verify :: "credentials \<Rightarrow> bool"
  au_scram_verifier :: "scram_mechanism \<Rightarrow> utf8 \<Rightarrow> scram_verifier option"
  au_authorize :: "utf8 option \<Rightarrow> utf8 \<Rightarrow> utf8 \<Rightarrow> link_operation \<Rightarrow> bool"

definition allow_unauthenticated :: "authenticator \<Rightarrow> bool" where
  "allow_unauthenticated a = au_verify a CredAnonymous"

definition vhost_allows :: "(utf8 \<rightharpoonup> utf8 list) \<Rightarrow> utf8 option \<Rightarrow> utf8 \<Rightarrow> bool" where
  "vhost_allows grants identity vhost = (case (case identity of None \<Rightarrow> None | Some u \<Rightarrow> grants u) of
      Some allowed \<Rightarrow> vhost \<in> set allowed
    | None \<Rightarrow> True)"

definition allow_all :: authenticator where
  "allow_all = \<lparr>au_mechanisms = [ascii ''ANONYMOUS'', ascii ''PLAIN''], au_verify = (\<lambda>_. True), au_scram_verifier = (\<lambda>_ _. None),
    au_authorize = (\<lambda>_ _ _ _. True)\<rparr>"

definition PLACEHOLDER :: utf8 where
  "PLACEHOLDER = [0] @ ascii ''no-such-user-placeholder'' @ [0]"

definition static_plain_verify :: "(utf8 \<rightharpoonup> utf8) \<Rightarrow> credentials \<Rightarrow> bool" where
  "static_plain_verify users cr = (case cr of
      CredAnonymous \<Rightarrow> False
    | CredPlain authcid passwd \<Rightarrow>
        let expected = users authcid;
            ok = ct_eq (case expected of None \<Rightarrow> PLACEHOLDER | Some e \<Rightarrow> e) passwd
        in expected \<noteq> None \<and> ok)"

definition static_plain :: "(utf8 \<rightharpoonup> utf8) \<Rightarrow> (utf8 \<rightharpoonup> utf8 list) \<Rightarrow> authenticator" where
  "static_plain users grants = \<lparr>au_mechanisms = [ascii ''PLAIN''], au_verify = static_plain_verify users, au_scram_verifier = (\<lambda>_ _. None),
    au_authorize = (\<lambda>identity vhost _ _. vhost_allows grants identity vhost)\<rparr>"

definition scram_iterations :: u32 where "scram_iterations = 8192"

text \<open>Adding a user; \<open>None\<close> is the panic of a password that SASLprep prohibits.\<close>

definition scram_with_user :: "sasl_crypto \<Rightarrow> utf8 \<Rightarrow> utf8 \<Rightarrow> utf8 \<Rightarrow> (utf8 \<rightharpoonup> scram_verifier) \<Rightarrow> (utf8 \<rightharpoonup> scram_verifier) option" where
  "scram_with_user C nonce username password users =
    (case derive_verifier C ScramSha256 password (take 16 nonce) scram_iterations of
       None \<Rightarrow> None
     | Some v \<Rightarrow> Some (users(username \<mapsto> v)))"

definition static_scram :: "(utf8 \<rightharpoonup> scram_verifier) \<Rightarrow> (utf8 \<rightharpoonup> utf8 list) \<Rightarrow> authenticator" where
  "static_scram users grants = \<lparr>au_mechanisms = [ascii ''SCRAM-SHA-256''], au_verify = (\<lambda>_. False),
    au_scram_verifier = (\<lambda>m u. if m = ScramSha256 then users u else None),
    au_authorize = (\<lambda>identity vhost _ _. vhost_allows grants identity vhost)\<rparr>"

subsection \<open>Server\<close>

definition parse_plain_response :: "bytes \<Rightarrow> (utf8 option \<times> utf8 \<times> utf8) option" where
  "parse_plain_response data = (case split_on 0 data of
      [authzid, authcid, passwd] \<Rightarrow>
        if authzid \<noteq> [] \<and> \<not> valid_utf8 authzid then None
        else if \<not> valid_utf8 authcid then None
        else if \<not> valid_utf8 passwd then None
        else Some (if authzid = [] then None else Some authzid, authcid, passwd)
    | _ \<Rightarrow> None)"

definition fake_scram_verifier :: "sasl_crypto \<Rightarrow> bytes \<Rightarrow> scram_mechanism \<Rightarrow> utf8 \<Rightarrow> scram_verifier" where
  "fake_scram_verifier C secret m username =
    (let salt = cx_hmac C m secret (ascii ''salt:'' @ username);
         fake_pw = cx_hmac C m secret (ascii ''pw:'' @ username);
         salted = cx_pbkdf2 C m fake_pw (take 16 salt) scram_iterations;
         client_key = cx_hmac C m salted (ascii ''Client Key'')
     in \<lparr>sv_salt = take 16 salt, sv_iterations = scram_iterations, sv_stored_key = cx_h C m client_key,
          sv_server_key = cx_hmac C m salted (ascii ''Server Key'')\<rparr>)"

definition the_verifier :: "sasl_crypto \<Rightarrow> authenticator \<Rightarrow> bytes \<Rightarrow> scram_mechanism \<Rightarrow> utf8 \<Rightarrow> scram_verifier" where
  "the_verifier C auth secret m username = (case au_scram_verifier auth m username of
      Some v \<Rightarrow> v
    | None \<Rightarrow> fake_scram_verifier C secret m username)"

definition outcome_frame :: "sasl_code \<Rightarrow> bytes option \<Rightarrow> sasl_frame" where
  "outcome_frame code additional = FOutcome \<lparr>sx_code = code, sx_additional_data = additional\<rparr>"

definition finish_sasl :: "utf8 option option \<Rightarrow> sasl_frame list \<times> utf8 option sasl_done" where
  "finish_sasl verified = (case verified of
      Some identity \<Rightarrow> ([outcome_frame SaslOk None], Negotiated identity)
    | None \<Rightarrow> ([outcome_frame SaslAuth None], NegotiationFails (Refused ''authentication failed'')))"

definition server_scram ::
    "sasl_crypto \<Rightarrow> authenticator \<Rightarrow> utf8 \<Rightarrow> bytes \<Rightarrow> scram_mechanism \<Rightarrow> sasl_init \<Rightarrow> frame_in list \<Rightarrow> sasl_frame list \<times> utf8 option sasl_done" where
  "server_scram C auth nonce secret m init inputs = (case si_initial_response init of
      None \<Rightarrow> finish_sasl None
    | Some first \<Rightarrow>
        (case on_client_first C first (server_with_nonce m nonce) of
           Inl _ \<Rightarrow> finish_sasl None
         | Inr (username, server) \<Rightarrow>
             let (challenge, server) = server_first C (the_verifier C auth secret m username) server;
                 sent = FChallenge \<lparr>sc_challenge = challenge\<rparr>
             in case inputs of
                  [] \<Rightarrow> ([sent], WantsFrame)
                | SaslIn (FResponse r) # _ \<Rightarrow>
                    (case on_client_final C (sr_response r) server of
                       None \<Rightarrow> ([sent], NegotiationPanics)
                     | Some (Inl _) \<Rightarrow> let (out, res) = finish_sasl None in (sent # out, res)
                     | Some (Inr (final, _)) \<Rightarrow> ([sent, outcome_frame SaslOk (Some final)], Negotiated (Some username)))
                | ReadFails # _ \<Rightarrow> ([sent], NegotiationFails ReadError)
                | _ # _ \<Rightarrow> ([sent], NegotiationFails (Refused ''expected sasl-response''))))"

definition scram_of :: "utf8 \<Rightarrow> scram_mechanism option" where
  "scram_of name = (if name = ascii ''SCRAM-SHA-1'' then Some ScramSha1
    else if name = ascii ''SCRAM-SHA-256'' then Some ScramSha256
    else if name = ascii ''SCRAM-SHA-512'' then Some ScramSha512 else None)"

definition server_init ::
    "sasl_crypto \<Rightarrow> authenticator \<Rightarrow> utf8 \<Rightarrow> bytes \<Rightarrow> sasl_init \<Rightarrow> frame_in list \<Rightarrow> sasl_frame list \<times> utf8 option sasl_done" where
  "server_init C auth nonce secret init inputs =
    (let mechanism = map to_ascii_upper (si_mechanism init);
         offered = (mechanism \<in> set (au_mechanisms auth))
     in if mechanism = ascii ''ANONYMOUS'' \<and> offered
        then finish_sasl (if au_verify auth CredAnonymous then Some None else None)
        else if mechanism = ascii ''PLAIN'' \<and> offered
        then finish_sasl (case si_initial_response init of
            None \<Rightarrow> None
          | Some data \<Rightarrow>
              (case parse_plain_response data of
                 None \<Rightarrow> None
               | Some (_, authcid, passwd) \<Rightarrow> if au_verify auth (CredPlain authcid passwd) then Some (Some authcid) else None))
        else (case scram_of mechanism of
                Some m \<Rightarrow> if offered then server_scram C auth nonce secret m init inputs else finish_sasl None
              | None \<Rightarrow> finish_sasl None))"

definition server_sasl :: "sasl_crypto \<Rightarrow> authenticator \<Rightarrow> utf8 \<Rightarrow> bytes \<Rightarrow> frame_in list \<Rightarrow> sasl_frame list \<times> utf8 option sasl_done" where
  "server_sasl C auth nonce secret inputs =
    (let hello = FMechanisms \<lparr>sm_sasl_server_mechanisms = au_mechanisms auth\<rparr>
     in case inputs of
          [] \<Rightarrow> ([hello], WantsFrame)
        | SaslIn (FInit init) # fs \<Rightarrow> (let (sent, r) = server_init C auth nonce secret init fs in (hello # sent, r))
        | ReadFails # _ \<Rightarrow> ([hello], NegotiationFails ReadError)
        | _ # _ \<Rightarrow> ([hello], NegotiationFails (Refused ''expected sasl-init'')))"

end
