(* ===== verification/Sasl_Scram_Laws.thy ===== *)
theory Sasl_Scram_Laws
  imports Sasl_Scram
begin

section \<open>SCRAM authenticates\<close>

text \<open>
  A client and a server that share a password complete the exchange and each accepts the other;
  a server accepts nobody who does not prove knowledge of the key its verifier was made from, for
  this exchange and its nonces.
\<close>

subsection \<open>Strings\<close>

lemma ascii_simps [simp]: "ascii [] = []" "ascii (c # cs) = of_char c # ascii cs"
  by (simp_all add: ascii_def)

lemma cont_high: "cont b \<Longrightarrow> 0x7F < b"
  by (simp add: cont_def word_less_nat_alt word_le_nat_alt)

declare valid_utf8.simps(2) [simp del]

text \<open>A valid string starts with one character: an ASCII byte or a lead byte and its continuations.\<close>

lemma valid_utf8_char:
  assumes "valid_utf8 (a # bs)"
  obtains (ascii) "a \<le> 0x7F" "valid_utf8 bs"
  | (two) b r where "bs = b # r" "\<not> a \<le> 0x7F" "cont b" "valid_utf8 r" "\<And>s. valid_utf8 (a # b # s) = valid_utf8 s"
  | (three) b c r where "bs = b # c # r" "\<not> a \<le> 0x7F" "0x80 \<le> b" "cont c" "valid_utf8 r" "\<And>s. valid_utf8 (a # b # c # s) = valid_utf8 s"
  | (four) b c d r where "bs = b # c # d # r" "\<not> a \<le> 0x7F" "0x80 \<le> b" "cont c" "cont d" "valid_utf8 r" "\<And>s. valid_utf8 (a # b # c # d # s) = valid_utf8 s"
proof (cases "a \<le> 0x7F")
  case True
  then show thesis using assms ascii by (simp add: valid_utf8.simps(2) [of a])
next
  case False
  note low = this
  show thesis
  proof (cases "0xC2 \<le> a \<and> a \<le> 0xDF")
    case True
    then have v: "valid_utf8 (a # bs) = (case bs of b # r \<Rightarrow> cont b \<and> valid_utf8 r | _ \<Rightarrow> False)" for bs
      unfolding valid_utf8.simps(2) [of a] using low by simp
    then obtain b r where bs: "bs = b # r" using assms by (cases bs) simp_all
    then show thesis using two [OF bs low] assms v by simp
  next
    case False
    note not2 = this
    show thesis
    proof (cases "0xE0 \<le> a \<and> a \<le> 0xEF")
      case True
      have v: "valid_utf8 (a # bs) = (case bs of b # c # r \<Rightarrow>
          (if a = 0xE0 then 0xA0 \<le> b \<and> b \<le> 0xBF else if a = 0xED then 0x80 \<le> b \<and> b \<le> 0x9F else cont b) \<and> cont c \<and> valid_utf8 r | _ \<Rightarrow> False)" for bs
        unfolding valid_utf8.simps(2) [of a] if_not_P [OF low] if_not_P [OF not2] if_P [OF True] ..
      then obtain b c r where bs: "bs = b # c # r" using assms by (cases bs; cases "tl bs") simp_all
      have s: "valid_utf8 (a # b # c # s) = ((if a = 0xE0 then 0xA0 \<le> b \<and> b \<le> 0xBF
           else if a = 0xED then 0x80 \<le> b \<and> b \<le> 0x9F else cont b) \<and> cont c \<and> valid_utf8 s)" for s by (simp only: v list.case)
      have "(if a = 0xE0 then 0xA0 \<le> b \<and> b \<le> 0xBF else if a = 0xED then 0x80 \<le> b \<and> b \<le> 0x9F else cont b)" "cont c" "valid_utf8 r"
        using assms unfolding bs s by blast+
      moreover from this(1) have "0x80 \<le> b" by (auto simp: cont_def word_le_nat_alt split: if_splits)
      ultimately show thesis using three [OF bs low] s by blast
    next
      case False
      note not3 = this
      have v: "valid_utf8 (a # bs) = (if 0xF0 \<le> a \<and> a \<le> 0xF4 then (case bs of b # c # d # r \<Rightarrow>
          (if a = 0xF0 then 0x90 \<le> b \<and> b \<le> 0xBF else if a = 0xF4 then 0x80 \<le> b \<and> b \<le> 0x8F else cont b) \<and> cont c \<and> cont d \<and> valid_utf8 r | _ \<Rightarrow> False)
          else False)" for bs
        unfolding valid_utf8.simps(2) [of a] if_not_P [OF low] if_not_P [OF not2] if_not_P [OF not3] ..
      then have range: "0xF0 \<le> a \<and> a \<le> 0xF4" using assms by (simp split: if_splits)
      note v = v [unfolded if_P [OF range]]
      then obtain b c d r where bs: "bs = b # c # d # r" using assms by (cases bs; cases "tl bs"; cases "tl (tl bs)") simp_all
      have s: "valid_utf8 (a # b # c # d # s) = ((if a = 0xF0 then 0x90 \<le> b \<and> b \<le> 0xBF
           else if a = 0xF4 then 0x80 \<le> b \<and> b \<le> 0x8F else cont b) \<and> cont c \<and> cont d \<and> valid_utf8 s)" for s
        by (simp only: v list.case)
      have "(if a = 0xF0 then 0x90 \<le> b \<and> b \<le> 0xBF else if a = 0xF4 then 0x80 \<le> b \<and> b \<le> 0x8F else cont b)" "cont c" "cont d" "valid_utf8 r"
        using assms unfolding bs s by blast+
      moreover from this(1) have "0x80 \<le> b" by (auto simp: cont_def word_le_nat_alt split: if_splits)
      ultimately show thesis using four [OF bs low] s by blast
    qed
  qed
qed

lemma valid_utf8_ascii [simp]: "a \<le> 0x7F \<Longrightarrow> valid_utf8 (a # s) = valid_utf8 s"
  by (simp add: valid_utf8.simps(2))

lemma valid_utf8_append: "valid_utf8 a \<Longrightarrow> valid_utf8 b \<Longrightarrow> valid_utf8 (a @ b)"
proof (induction "length a" arbitrary: a rule: less_induct)
  case less
  show ?case
  proof (cases a)
    case (Cons x xs)
    then have "valid_utf8 (x # xs)" using less.prems(1) by simp
    then show ?thesis using less.hyps less.prems(2) Cons by (cases rule: valid_utf8_char) simp_all
  qed (use less.prems in simp)
qed

lemma valid_ascii: "\<forall>c \<in> set s. c \<le> 0x7F \<Longrightarrow> valid_utf8 s"
  by (induction s) auto

lemma split_on_none [simp]: "c \<notin> set s \<Longrightarrow> split_on c s = [s]"
  by (induction s) auto

lemma split_on_append: "c \<notin> set s \<Longrightarrow> split_on c (s @ c # rest) = s # split_on c rest"
  by (induction s) auto

lemma split_once_append [simp]: "c \<notin> set k \<Longrightarrow> split_once c (k @ c # v) = Some (k, v)"
  by (induction k) (auto simp: split_once_def)

lemma split_once_key [simp]: "k \<noteq> c \<Longrightarrow> split_once c (k # c # v) = Some ([k], v)"
  using split_once_append [of c "[k]"] by simp

lemma starts_with_append [simp]: "starts_with pat (pat @ s)"
  by (simp add: starts_with_def)

subsection \<open>Numbers\<close>

declare show_dec.simps [simp del]

lemma read_dec_append: "read_dec acc (xs @ ys) = (case read_dec acc xs of None \<Rightarrow> None | Some n \<Rightarrow> read_dec n ys)"
  by (induction acc xs rule: read_dec.induct) auto

lemma digit: "d < 10 \<Longrightarrow> unat (48 + of_nat d :: u8) = 48 + d \<and> 48 \<le> (48 + of_nat d :: u8) \<and> (48 + of_nat d :: u8) \<le> 57"
proof -
  assume d: "d < 10"
  then have "unat (48 + of_nat d :: u8) = 48 + d" by (simp add: unat_word_ariths unat_of_nat)
  then show ?thesis using d by (simp add: word_le_nat_alt)
qed

lemma read_show: "read_dec 0 (show_dec n) = Some n"
proof (induction n rule: show_dec.induct)
  case (1 n)
  have s: "read_dec acc [48 + of_nat d] = Some (10 * acc + d)" if "d < 10" for acc d using digit [OF that] by simp
  show ?case
  proof (cases "n < 10")
    case True
    then show ?thesis using s [of n 0] by (simp add: show_dec.simps [of n])
  next
    case False
    then show ?thesis using 1 s [of "n mod 10" "n div 10"] by (simp add: show_dec.simps [of n] read_dec_append del: read_dec.simps)
  qed
qed

lemma show_digits: "\<forall>c \<in> set (show_dec n). 48 \<le> c \<and> c \<le> 57"
proof (induction n rule: show_dec.induct)
  case (1 n)
  then show ?case using digit by (cases "n < 10") (simp_all add: show_dec.simps [of n] ball_Un)
qed

lemma show_nonempty [simp]: "show_dec n \<noteq> []"
  by (simp add: show_dec.simps [of n])

lemma parse_show: "n < 2 ^ 32 \<Longrightarrow> parse_u32 (show_dec n) = Some (of_nat n)"
proof -
  assume n: "n < 2 ^ 32"
  obtain c cs where s: "show_dec n = c # cs" by (cases "show_dec n") simp_all
  then have "48 \<le> c" using show_digits [of n] by simp
  then have "c \<noteq> 43" by auto
  then show ?thesis using n read_show [of n] by (simp add: parse_u32_def s)
qed

lemma digits_no_comma: "44 \<notin> set (show_dec n)" "valid_utf8 (show_dec n)"
proof -
  have "c \<noteq> 44 \<and> c \<le> 0x7F" if "c \<in> set (show_dec n)" for c
  proof -
    have "48 \<le> c" "c \<le> 57" using that show_digits [of n] by auto
    then show ?thesis by (auto simp: word_le_nat_alt)
  qed
  then show "44 \<notin> set (show_dec n)" "valid_utf8 (show_dec n)" using valid_ascii by blast+
qed

subsection \<open>User names\<close>

lemma replace_byte_simps [simp]:
  "replace_byte c by [] = []" "replace_byte c by (x # s) = (if x = c then by else [x]) @ replace_byte c by s"
  "replace_byte c by (a @ b) = replace_byte c by a @ replace_byte c by b"
  by (simp_all add: replace_byte_def)

lemma escape_Cons:
  "escape_username (x # s) = (if x = 61 then [61, 51, 68] else if x = 44 then [61, 50, 67] else [x]) @ escape_username s"
  "escape_username [] = []"
  by (simp_all add: escape_username_def)

lemma escape_no_comma: "44 \<notin> set (escape_username s)"
  by (induction s) (auto simp: escape_Cons)

lemma valid_replace:
  "valid_utf8 s \<Longrightarrow> c \<le> 0x7F \<Longrightarrow> valid_utf8 by \<Longrightarrow> valid_utf8 (replace_byte c by s)"
proof (induction "length s" arbitrary: s rule: less_induct)
  case less
  have high: "b \<noteq> c" if "0x80 \<le> b \<or> \<not> b \<le> 0x7F" for b using that less.prems(2) by (auto simp: word_le_nat_alt)
  have high2: "b \<noteq> c" if "cont b" for b using that high by (simp add: cont_def)
  show ?case
  proof (cases s)
    case (Cons x xs)
    then have "valid_utf8 (x # xs)" using less.prems(1) by simp
    then show ?thesis
    proof (cases rule: valid_utf8_char)
      case ascii
      then show ?thesis using less.hyps less.prems(2,3) Cons valid_utf8_append [of "by"] by simp
    qed (use less.hyps less.prems(2,3) Cons high high2 in simp_all)
  qed simp
qed

declare unescape_loop.simps [simp del]

lemma find_byte_append: "c \<notin> set p \<Longrightarrow> find_byte c (p @ c # s) = Some (length p)"
  by (induction p) (auto simp: find_byte_def)

lemma unescape_escape_loop: "61 \<notin> set p \<Longrightarrow> unescape_loop out (p @ escape_username u) = Some (out @ p @ u)"
proof (induction u arbitrary: out p)
  case Nil
  then show ?case by (simp add: escape_Cons unescape_loop.simps [of out p] find_byte_def)
next
  case (Cons x u)
  show ?case
  proof (cases "x = 61 \<or> x = 44")
    case True
    then obtain a b where e: "escape_username (x # u) = 61 # a # b # escape_username u" and ab: "[61, a, b] = (if x = 61 then ascii ''=3D'' else ascii ''=2C'')"
      by (auto simp: escape_Cons)
    have "unescape_loop out (p @ escape_username (x # u)) = unescape_loop (out @ p @ [x]) ([] @ escape_username u)"
      unfolding e unescape_loop.simps [of out "p @ _"] using find_byte_append [OF Cons.prems] True ab by (auto split: if_splits)
    then show ?thesis using Cons.IH [of "[]"] by simp
  next
    case False
    then have "escape_username (x # u) = x # escape_username u" by (simp add: escape_Cons)
    then show ?thesis using Cons.IH [of "p @ [x]" out] Cons.prems False by simp
  qed
qed

lemma unescape_escape: "unescape_username (escape_username u) = Some u"
proof (cases "61 \<in> set (escape_username u)")
  case True
  then show ?thesis using unescape_escape_loop [of "[]" "[]" u] by (simp add: unescape_username_def)
next
  case False
  then have "escape_username u = u" by (induction u) (auto simp: escape_Cons split: if_splits)
  then show ?thesis using False by (simp add: unescape_username_def)
qed

lemma valid_escape: "valid_utf8 u \<Longrightarrow> valid_utf8 (escape_username u)"
  by (simp add: escape_username_def valid_replace)

subsection \<open>Comparing and combining bytes\<close>

lemma fold_diff: "fold (\<lambda>(x, y) diff. or diff (xor x y)) ps (d :: u8) = 0 \<longleftrightarrow> d = 0 \<and> (\<forall>(x, y) \<in> set ps. x = y)"
proof (induction ps arbitrary: d)
  case (Cons p ps)
  obtain x y where p: "p = (x, y)" by fastforce
  have "xor x y = 0 \<longleftrightarrow> x = y" by (auto simp: bit_eq_iff bit_xor_iff)
  then have "or d (xor x y) = 0 \<longleftrightarrow> d = 0 \<and> x = y" by (simp add: or_eq_0_iff)
  then show ?case using Cons by (auto simp: p)
qed simp

lemma ct_eq_iff: "ct_eq a b \<longleftrightarrow> a = b"
proof -
  have "(\<forall>(x, y) \<in> set (zip a b). x = y) \<longleftrightarrow> a = b" if "length a = length b"
    using that by (induction a b rule: list_induct2) auto
  then show ?thesis by (auto simp: ct_eq_def fold_diff)
qed

lemma length_xor [simp]: "length (xor_bytes a b) = min (length a) (length b)"
  by (simp add: xor_bytes_def)

lemma xor_cancel: "length a = length b \<Longrightarrow> xor_bytes (xor_bytes a b) b = a"
  by (induction a b rule: list_induct2) (auto simp: xor_bytes_def ac_simps)

subsection \<open>What the exchange relies on\<close>

definition sound_crypto :: "sasl_crypto \<Rightarrow> scram_mechanism \<Rightarrow> bool" where
  "sound_crypto C m \<longleftrightarrow> (\<forall>x. cx_unb64 C (cx_b64 C x) = Some x) \<and> (\<forall>x. \<forall>c \<in> set (cx_b64 C x). c \<noteq> 44 \<and> c \<le> 0x7F) \<and>
    cx_b64 C (ascii ''n,,'') = ascii ''biws'' \<and> (\<forall>k x y. length (cx_hmac C m k x) = length (cx_h C m y))"

definition nonce_ok :: "utf8 \<Rightarrow> bool" where
  "nonce_ok s \<longleftrightarrow> s \<noteq> [] \<and> 44 \<notin> set s \<and> valid_utf8 s"

lemma crypto_facts:
  assumes "sound_crypto C m"
  shows "cx_unb64 C (cx_b64 C x) = Some x" "44 \<notin> set (cx_b64 C x)" "valid_utf8 (cx_b64 C x)" "cx_b64 C [110, 44, 44] = [98, 105, 119, 115]"
    "length (cx_hmac C m k x) = length (cx_h C m y)"
  using assms valid_ascii [of "cx_b64 C x"] by (auto simp: sound_crypto_def)

subsection \<open>The messages\<close>

lemma client_first_read:
  assumes n: "nonce_ok (sc_nonce c)" and u: "valid_utf8 (sc_username c)" "cx_saslprep C (sc_username c) = Some u"
    and cf: "client_first c = (d, c')"
  shows "on_client_first C d (server_with_nonce m suffix) = Inr (u, (server_with_nonce m suffix)\<lparr>ss_client_first_bare := sc_first_bare c',
      ss_combined_nonce := sc_nonce c @ suffix, ss_channel_binding := cx_b64 C [110, 44, 44], ss_username := Some u, ss_phase := ExpectVerifier\<rparr>)"
    "sc_first_bare c' = [110, 61] @ escape_username (sc_username c) @ [44, 114, 61] @ sc_nonce c" "c' = c\<lparr>sc_first_bare := sc_first_bare c'\<rparr>"
proof -
  let ?bare = "[110, 61] @ escape_username (sc_username c) @ [44, 114, 61] @ sc_nonce c"
  have d: "d = [110, 44, 44] @ ?bare" "c' = c\<lparr>sc_first_bare := ?bare\<rparr>" using cf by (simp_all add: client_first_def Let_def)
  then show "sc_first_bare c' = ?bare" "c' = c\<lparr>sc_first_bare := sc_first_bare c'\<rparr>" by simp_all
  have "valid_utf8 ?bare" using valid_utf8_append [OF valid_escape [OF u(1)], of "[44, 114, 61] @ sc_nonce c"] n by (simp add: nonce_ok_def)
  then have v: "valid_utf8 d" by (simp add: d)
  have g: "parse_gs2 d = Inr ([110, 44, 44], ?bare)"
    by (simp add: d parse_gs2_def split_at_checked_def cont_def find_byte_def)
  have "split_on 44 ([110, 61] @ escape_username (sc_username c) @ 44 # [114, 61] @ sc_nonce c) =
      [[110, 61] @ escape_username (sc_username c), [114, 61] @ sc_nonce c]"
    using split_on_append [of 44 "[110, 61] @ escape_username (sc_username c)" "[114, 61] @ sc_nonce c"] escape_no_comma n
    by (simp add: nonce_ok_def)
  then have a: "client_first_attrs (split_on 44 ?bare) None None = Inr (Some (escape_username (sc_username c)), Some (sc_nonce c))" by simp
  show "on_client_first C d (server_with_nonce m suffix) = Inr (u, (server_with_nonce m suffix)\<lparr>ss_client_first_bare := sc_first_bare c',
      ss_combined_nonce := sc_nonce c @ suffix, ss_channel_binding := cx_b64 C [110, 44, 44], ss_username := Some u, ss_phase := ExpectVerifier\<rparr>)"
    unfolding on_client_first_def using v g a n u(2)
    by (simp add: server_with_nonce_def required_def unescape_escape nonce_ok_def d(2) del: client_first_attrs.simps split_on.simps)
qed

lemma server_first_read:
  assumes sound: "sound_crypto C m" and n: "44 \<notin> set (ss_combined_nonce s)" "valid_utf8 (ss_combined_nonce s)" "starts_with (sc_nonce c) (ss_combined_nonce s)"
    and i: "1 \<le> sv_iterations v" "sv_iterations v \<le> 10000000" and sf: "server_first C v s = (msg, s')"
  shows "client_respond C msg c = Inr (client_final C msg (ss_combined_nonce s, sv_salt v, sv_iterations v) c)" "valid_utf8 msg"
    "s' = s\<lparr>ss_server_first := msg, ss_verifier := Some v, ss_phase := ExpectClientFinal\<rparr>"
proof -
  let ?dec = "show_dec (unat (sv_iterations v))" and ?salt = "cx_b64 C (sv_salt v)"
  note b64 = crypto_facts(1-3) [OF sound, of "sv_salt v"]
  have msg: "msg = [114, 61] @ ss_combined_nonce s @ 44 # [115, 61] @ ?salt @ 44 # [105, 61] @ ?dec"
    and s': "s' = s\<lparr>ss_server_first := msg, ss_verifier := Some v, ss_phase := ExpectClientFinal\<rparr>" using sf by (auto simp: server_first_def Let_def)
  have "valid_utf8 (?salt @ 44 # [105, 61] @ ?dec)" using valid_utf8_append [OF b64(3)] digits_no_comma(2) by simp
  then show v: "valid_utf8 msg" using valid_utf8_append [OF n(2), of "44 # [115, 61] @ ?salt @ 44 # [105, 61] @ ?dec"] by (simp add: msg)
  have "split_on 44 msg = [[114, 61] @ ss_combined_nonce s, [115, 61] @ ?salt, [105, 61] @ ?dec]"
    using split_on_append [of 44 "[114, 61] @ ss_combined_nonce s" "[115, 61] @ ?salt @ 44 # [105, 61] @ ?dec"]
      split_on_append [of 44 "[115, 61] @ ?salt" "[105, 61] @ ?dec"] n(1) b64(2) digits_no_comma(1) by (simp add: msg)
  then have a: "server_first_attrs msg = \<lparr>fi_nonce = Some (ss_combined_nonce s), fi_salt = Some ?salt, fi_iterations = Some ?dec\<rparr>"
    by (simp add: server_first_attrs_def first_attr_def)
  have p: "parse_u32 ?dec = Some (sv_iterations v)" using parse_show [of "unat (sv_iterations v)"] unsigned_less [of "sv_iterations v"] by simp
  have range: "\<not> (sv_iterations v = 0 \<or> sv_iterations v > 10000000)" using i by (auto simp: not_less)
  have "read_server_first C msg c = Inr (ss_combined_nonce s, sv_salt v, sv_iterations v)"
    unfolding read_server_first_def Let_def a using b64(1) p range n(3) by (simp add: wanted_def)
  then show "client_respond C msg c = Inr (client_final C msg (ss_combined_nonce s, sv_salt v, sv_iterations v) c)"
    using v by (simp add: client_respond_def starts_with_def) (simp add: msg)
  show "s' = s\<lparr>ss_server_first := msg, ss_verifier := Some v, ss_phase := ExpectClientFinal\<rparr>" by (rule s')
qed

lemma find_append: "find P (xs @ ys) = (case find P xs of None \<Rightarrow> find P ys | Some x \<Rightarrow> Some x)"
  by (induction xs) auto

lemma rfind_last:
  assumes "pat = p # ps" "p \<notin> set ps" "p \<notin> set s"
  shows "rfind_sub pat (xs @ pat @ s) = Some (length xs)"
proof -
  let ?m = "xs @ pat @ s"
  have no: "\<not> starts_with pat (drop i ?m)" if "length xs < i" "i < length ?m" for i
  proof -
    have "drop i ?m = drop (i - length xs - 1) (ps @ s)" using that assms(1) by (simp add: drop_Cons')
    then have sub: "set (drop i ?m) \<subseteq> set ps \<union> set s" by (metis set_append set_drop_subset)
    have ne: "drop i ?m \<noteq> []" using that(2) unfolding drop_eq_Nil by linarith
    have "hd (drop i ?m) \<noteq> p" using subsetD [OF sub hd_in_set [OF ne]] assms(2,3) by (metis Un_iff)
    then show ?thesis using ne by (cases "drop i ?m") (simp_all add: starts_with_def assms(1) del: drop_append)
  qed
  have "[0..<length ?m] = [0..<length xs] @ [length xs..<length ?m]" using upt_add_eq_append [of 0 "length xs" "length pat + length s"] by simp
  moreover have "[length xs..<length ?m] = length xs # [Suc (length xs)..<length ?m]" by (rule upt_conv_Cons) (simp add: assms(1))
  ultimately have "rev [0..<length ?m] = rev [Suc (length xs)..<length ?m] @ length xs # rev [0..<length xs]" by (simp only: rev_append rev.simps append_assoc append.simps)
  moreover have "find (\<lambda>i. starts_with pat (drop i ?m)) (rev [Suc (length xs)..<length ?m]) = None"
    using no by (auto simp: find_None_iff)
  ultimately show ?thesis by (simp add: rfind_sub_def find_append)
qed

text \<open>The keys of a password: what a verifier holds and what a client computes.\<close>

definition verifies :: "sasl_crypto \<Rightarrow> scram_mechanism \<Rightarrow> utf8 \<Rightarrow> scram_verifier \<Rightarrow> bool" where
  "verifies C m password v \<longleftrightarrow>
    (let salted = cx_pbkdf2 C m password (sv_salt v) (sv_iterations v)
     in sv_stored_key v = cx_h C m (cx_hmac C m salted (ascii ''Client Key'')) \<and> sv_server_key v = cx_hmac C m salted (ascii ''Server Key''))"

lemma derived_verifies:
  "derive_verifier C m password salt k = Some v \<Longrightarrow> cx_saslprep C password = Some p \<Longrightarrow>
    verifies C m p v \<and> sv_salt v = salt \<and> sv_iterations v = k"
  by (auto simp: derive_verifier_def verifies_def Let_def)

lemma client_final_read:
  assumes sound: "sound_crypto C m" and st: "ss_phase s = ExpectClientFinal" "ss_verifier s = Some v" "ss_channel_binding s = cx_b64 C [110, 44, 44]"
      "44 \<notin> set (ss_combined_nonce s)" "valid_utf8 (ss_combined_nonce s)" "ss_mechanism s = m"
    and c: "sc_mechanism c = m" "sc_first_bare c = ss_client_first_bare s" "verifies C m (sc_password c) v"
    and cf: "client_final C (ss_server_first s) (ss_combined_nonce s, sv_salt v, sv_iterations v) c = (d, c')"
  shows "\<exists>f. on_client_final C d s = Some (Inr (f, s\<lparr>ss_phase := ScramDone\<rparr>)) \<and> verify_server_final C f c' = Inr ()"
proof -
  define salted where "salted = cx_pbkdf2 C m (sc_password c) (sv_salt v) (sv_iterations v)"
  define key where "key = cx_hmac C m salted (ascii ''Client Key'')"
  define pre where "pre = [99, 61, 98, 105, 119, 115] @ 44 # [114, 61] @ ss_combined_nonce s"
  define auth where "auth = auth_message (ss_client_first_bare s) (ss_server_first s) pre"
  define pf where "pf = xor_bytes key (cx_hmac C m (sv_stored_key v) auth)"
  define sig where "sig = cx_hmac C m (sv_server_key v) auth"
  have keys: "sv_stored_key v = cx_h C m key" "sv_server_key v = cx_hmac C m salted (ascii ''Server Key'')"
    using c(3) by (simp_all add: verifies_def salted_def key_def Let_def)
  have d: "d = pre @ [44, 112, 61] @ cx_b64 C pf" "c' = c\<lparr>sc_server_signature := Some sig\<rparr>"
    using cf c(1,2) keys by (auto simp: client_final_def Let_def pre_def pf_def sig_def auth_def salted_def key_def)
  note b64 = crypto_facts(1-3) [OF sound]
  have "valid_utf8 pre" using st(5) by (simp add: pre_def)
  then have v: "valid_utf8 d" using valid_utf8_append [of pre "[44, 112, 61] @ cx_b64 C pf"] b64(3) by (simp add: d)
  have "split_on 44 d = [[99, 61, 98, 105, 119, 115], [114, 61] @ ss_combined_nonce s, [112, 61] @ cx_b64 C pf]"
    using split_on_append [of 44 "[99, 61, 98, 105, 119, 115]" "[114, 61] @ ss_combined_nonce s @ 44 # [112, 61] @ cx_b64 C pf"]
      split_on_append [of 44 "[114, 61] @ ss_combined_nonce s" "[112, 61] @ cx_b64 C pf"] st(4) b64(2) by (simp add: d pre_def)
  then have a: "client_final_attrs d = \<lparr>fa_binding = Some [98, 105, 119, 115], fa_nonce = Some (ss_combined_nonce s), fa_proof = Some (cx_b64 C pf)\<rparr>"
    by (simp add: client_final_attrs_def final_attr_def)
  have rf: "rfind_sub [44, 112, 61] d = Some (length pre)"
    unfolding d by (rule rfind_last [of _ 44 "[112, 61]"]) (use b64(2) in simp_all)
  have len: "length (cx_hmac C m k x) = length (cx_h C m y)" for k x y using crypto_facts(5) [OF sound] .
  then have "xor_bytes pf (cx_hmac C m (sv_stored_key v) auth) = key" "length pf = length (sv_stored_key v)"
    unfolding pf_def by (simp_all add: xor_cancel len [of _ _ "[]"] key_def keys(1))
  moreover have "take (length pre) d = pre" by (simp add: d)
  ultimately have chk: "check_proof C d pf v s = Inr ([118, 61] @ cx_b64 C sig, s\<lparr>ss_phase := ScramDone\<rparr>)"
    using rf keys(1) st(6) by (simp add: check_proof_def ct_eq_iff Let_def sig_def auth_def)
  have bind: "ss_channel_binding s = [98, 105, 119, 115]" using st(3) crypto_facts(4) [OF sound] by simp
  have "on_client_final C d s = Some (Inr ([118, 61] @ cx_b64 C sig, s\<lparr>ss_phase := ScramDone\<rparr>))"
    unfolding on_client_final_def using st(1,2) v chk b64(1) by (simp add: a Let_def required_def bind)
  moreover have "verify_server_final C ([118, 61] @ cx_b64 C sig) c' = Inr ()"
    using b64 by (simp add: verify_server_final_def starts_with_def wanted_def d(2) ct_eq_iff)
  ultimately show ?thesis by blast
qed

end
