(* ===== verification/Sasl_Negotiate_Laws.thy ===== *)
theory Sasl_Negotiate_Laws
  imports Sasl_Negotiate Sasl_Scram_Laws
begin

section \<open>Client and broker authenticate each other\<close>

text \<open>
  The client's and the broker's negotiation fit together for the right credentials; the broker
  takes nobody for a user without that user's key; the client, however, does not insist on a proof
  of the server.
\<close>

subsection \<open>SCRAM over frames\<close>

lemma scram_name_upper [simp]: "map to_ascii_upper (scram_name m) = scram_name m"
  by (cases m) (simp_all add: to_ascii_upper_def)

lemma scram_of_name [simp]: "scram_of (scram_name m) = Some m"
  by (cases m) (simp_all add: scram_of_def)

lemma scram_name_other: "scram_name m \<noteq> ascii ''ANONYMOUS''" "scram_name m \<noteq> ascii ''PLAIN''"
  by (cases m; simp)+

lemma scram_exchange:
  assumes sound: "sound_crypto C m" and nonces: "nonce_ok cn" "nonce_ok sn"
    and user: "cx_saslprep C user = Some u" "cx_saslprep C u = Some u" "valid_utf8 u" and pw: "cx_saslprep C password = Some p"
    and v: "au_scram_verifier auth m u = Some v" "verifies C m p v" "1 \<le> sv_iterations v" "sv_iterations v \<le> 10000000"
    and offered: "scram_name m \<in> set (au_mechanisms auth)"
  shows "\<exists>cs ss. sasl_negotiate C cn (ProfileScram m user password) host (map SaslIn ss) = (cs, Negotiated ()) \<and>
    server_sasl C auth sn secret (map SaslIn cs) = (ss, Negotiated (Some u))"
proof -
  define c0 where "c0 = \<lparr>sc_mechanism = m, sc_username = u, sc_password = p, sc_nonce = cn, sc_first_bare = [], sc_server_signature = None\<rparr>"
  obtain d1 c1 where first: "client_first c0 = (d1, c1)" by fastforce
  have "nonce_ok (sc_nonce c0)" "valid_utf8 (sc_username c0)" "cx_saslprep C (sc_username c0) = Some u" using nonces user by (simp_all add: c0_def)
  note cf = client_first_read(1) [OF this first, of m sn] client_first_read(3) [OF this first]
  have start: "sasl_start C cn (ProfileScram m user password) = Inr (Some d1, MechScram c1)"
    using user(1) pw first by (simp add: client_with_nonce_def sasl_prep_def c0_def)
  define s1 where "s1 = (server_with_nonce m sn)\<lparr>ss_client_first_bare := sc_first_bare c1, ss_combined_nonce := sc_nonce c0 @ sn,
    ss_channel_binding := cx_b64 C [110, 44, 44], ss_username := Some u, ss_phase := ExpectVerifier\<rparr>"
  have c1: "sc_nonce c1 = cn" "sc_mechanism c1 = m" "sc_password c1 = p"
    by (subst cf(2), simp add: c0_def)+
  have s1: "ss_combined_nonce s1 = cn @ sn" "ss_mechanism s1 = m" "ss_channel_binding s1 = cx_b64 C [110, 44, 44]" "ss_client_first_bare s1 = sc_first_bare c1"
    by (simp_all add: s1_def c0_def server_with_nonce_def)
  have n: "44 \<notin> set (cn @ sn)" "valid_utf8 (cn @ sn)" using nonces valid_utf8_append by (auto simp: nonce_ok_def)
  obtain msg s2 where sf: "server_first C v s1 = (msg, s2)" by fastforce
  have r: "client_respond C msg c1 = Inr (client_final C msg (cn @ sn, sv_salt v, sv_iterations v) c1)"
      "s2 = s1\<lparr>ss_server_first := msg, ss_verifier := Some v, ss_phase := ExpectClientFinal\<rparr>"
    using server_first_read [OF sound _ _ _ v(3,4) sf, of c1] n by (simp_all add: s1 c1)
  obtain d2 c2 where fin: "client_final C msg (cn @ sn, sv_salt v, sv_iterations v) c1 = (d2, c2)" by fastforce
  obtain f where f: "on_client_final C d2 s2 = Some (Inr (f, s2\<lparr>ss_phase := ScramDone\<rparr>))" "verify_server_final C f c2 = Inr ()"
    using client_final_read [OF sound, of s2 v c1 d2 c2] n s1 c1 v(2) fin by (auto simp: r(2))
  let ?cs = "[FInit \<lparr>si_mechanism = scram_name m, si_initial_response = Some d1, si_hostname = host\<rparr>, FResponse \<lparr>sr_response = d2\<rparr>]"
  let ?ss = "[FMechanisms \<lparr>sm_sasl_server_mechanisms = au_mechanisms auth\<rparr>, FChallenge \<lparr>sc_challenge = msg\<rparr>, outcome_frame SaslOk (Some f)]"
  have "list_ex (\<lambda>x. eq_ignore_ascii_case x (scram_name m)) (au_mechanisms auth)" using offered unfolding list_ex_iff eq_ignore_ascii_case_def by blast
  then have "sasl_negotiate C cn (ProfileScram m user password) host (map SaslIn ?ss) = (?cs, Negotiated ())"
    using start r(1) fin f(2) by (simp add: sasl_negotiate_def outcome_frame_def verify_outcome_def del: sasl_start.simps)
  moreover have "server_sasl C auth sn secret (map SaslIn ?cs) = (?ss, Negotiated (Some u))"
    using offered cf(1) sf f(1) v(1) scram_name_other [of m]
    by (simp add: server_sasl_def server_init_def server_scram_def the_verifier_def s1_def [symmetric])
  ultimately show ?thesis by blast
qed

text \<open>
  C13: a client with the right password and a broker that has the verifier of that password complete
  the SCRAM exchange over their frames: what each sends is what the other needs, the client
  accepts the server's signature, and the broker's identity is the client's prepared user name.
\<close>

theorem scram_negotiation_agrees:
  assumes sound: "sound_crypto C m" and nonces: "nonce_ok cn" "nonce_ok sn"
    and user: "cx_saslprep C user = Some u" "cx_saslprep C u = Some u" "valid_utf8 u" and pw: "cx_saslprep C password = Some p"
    and v: "au_scram_verifier auth m u = Some v" "verifies C m p v" "1 \<le> sv_iterations v" "sv_iterations v \<le> 10000000"
    and offered: "scram_name m \<in> set (au_mechanisms auth)"
  shows "\<exists>cs ss. sasl_negotiate C cn (ProfileScram m user password) host (map SaslIn ss) = (cs, Negotiated ()) \<and>
    server_sasl C auth sn secret (map SaslIn cs) = (ss, Negotiated (Some u))"
  by (rule scram_exchange [OF assms])


subsection \<open>An instance of the packages\<close>

text \<open>
  Base64 is represented by two letters a byte, apart from the text the client sends ready-made;
  the hash and the authentication code add up bytes.
\<close>

fun letters :: "bytes \<Rightarrow> utf8" where
  "letters [] = []"
| "letters (b # bs) = (64 + of_nat (unat b div 16)) # (64 + of_nat (unat b mod 16)) # letters bs"

fun unletters :: "utf8 \<Rightarrow> bytes option" where
  "unletters [] = Some []"
| "unletters [a] = None"
| "unletters (a # b # s) = map_option (\<lambda>bs. of_nat (16 * (unat a - 64) + (unat b - 64)) # bs) (unletters s)"

definition sample_crypto :: sasl_crypto where
  "sample_crypto = \<lparr>cx_h = (\<lambda>_ x. [sum_list x + 1]), cx_hmac = (\<lambda>_ k x. [sum_list k * 3 + sum_list x]), cx_pbkdf2 = (\<lambda>_ p s i. p @ s),
    cx_saslprep = Some, cx_b64 = (\<lambda>x. if x = ascii ''n,,'' then ascii ''biws'' else letters x),
    cx_unb64 = (\<lambda>s. if s = ascii ''biws'' then Some (ascii ''n,,'') else unletters s)\<rparr>"

lemma letter: "k < 16 \<Longrightarrow> unat (64 + of_nat k :: u8) = 64 + k"
  by (simp add: unat_word_ariths unat_of_nat)

lemma unletters_letters: "unletters (letters x) = Some x"
proof (induction x)
  case (Cons b bs)
  have "unat b < 256" using unsigned_less [of b] by simp
  then have k: "unat b div 16 < 16" "unat b mod 16 < 16" by simp_all
  have "(of_nat (unat b) :: u8) = b" by simp
  then show ?case using Cons letter [OF k(1)] letter [OF k(2)] by (simp del: of_nat_mult of_nat_add of_nat_unat)
qed simp

lemma letters_range: "c \<in> set (letters x) \<Longrightarrow> 64 \<le> unat c \<and> unat c < 80"
proof (induction x)
  case (Cons b bs)
  have "unat b < 256" using unsigned_less [of b] by simp
  then have k: "unat b div 16 < 16" "unat b mod 16 < 16" by simp_all
  show ?case using Cons letter [OF k(1)] letter [OF k(2)] k by auto
qed simp

lemma sample_sound: "sound_crypto sample_crypto m"
proof -
  have "letters x \<noteq> ascii ''biws''" for x using letters_range [of 98 x] by auto
  moreover have "c \<noteq> 44 \<and> c \<le> 0x7F" if "c \<in> set (letters x)" for c x using letters_range [OF that] by (auto simp: word_le_nat_alt)
  ultimately show ?thesis using unletters_letters by (auto simp: sound_crypto_def sample_crypto_def simp del: ascii_simps) auto
qed

definition sample_users :: "utf8 \<rightharpoonup> scram_verifier" where
  "sample_users = (case scram_with_user sample_crypto (ascii ''0123456789abcdef'') (ascii ''alice'') (ascii ''pw'') Map.empty of
    None \<Rightarrow> Map.empty | Some users \<Rightarrow> users)"

lemma sample_user: "\<exists>v. sample_users (ascii ''alice'') = Some v \<and> verifies sample_crypto ScramSha256 (ascii ''pw'') v \<and> sv_iterations v = 8192"
proof -
  obtain v where v: "derive_verifier sample_crypto ScramSha256 (ascii ''pw'') (take 16 (ascii ''0123456789abcdef'')) scram_iterations = Some v"
    by (simp add: derive_verifier_def sample_crypto_def Let_def)
  then have "sample_users (ascii ''alice'') = Some v" by (simp add: sample_users_def scram_with_user_def)
  moreover have "cx_saslprep sample_crypto (ascii ''pw'') = Some (ascii ''pw'')" by (simp add: sample_crypto_def)
  ultimately show ?thesis using derived_verifies [OF v] by (simp add: scram_iterations_def)
qed

lemma sample_exchange:
  "\<exists>cs ss. sasl_negotiate sample_crypto (ascii ''c-nonce'') (ProfileScram ScramSha256 (ascii ''alice'') (ascii ''pw'')) None (map SaslIn ss) = (cs, Negotiated ()) \<and>
    server_sasl sample_crypto (static_scram sample_users Map.empty) (ascii ''s-nonce'') [7] (map SaslIn cs) = (ss, Negotiated (Some (ascii ''alice'')))"
proof -
  obtain v where v: "sample_users (ascii ''alice'') = Some v" "verifies sample_crypto ScramSha256 (ascii ''pw'') v" "sv_iterations v = 8192"
    using sample_user by blast
  have prep: "cx_saslprep sample_crypto s = Some s" for s by (simp add: sample_crypto_def)
  have n: "nonce_ok (ascii ''c-nonce'')" "nonce_ok (ascii ''s-nonce'')" by (simp_all add: nonce_ok_def)
  have u: "valid_utf8 (ascii ''alice'')" by simp
  show ?thesis
    by (rule scram_exchange [OF sample_sound n prep prep u prep _ v(2)])
      (simp_all add: static_scram_def v(1,3) del: ascii_simps)
qed

theorem scram_negotiation_agrees_witness:
  "\<exists>cs ss. sasl_negotiate sample_crypto (ascii ''c-nonce'') (ProfileScram ScramSha256 (ascii ''alice'') (ascii ''pw'')) None (map SaslIn ss) = (cs, Negotiated ()) \<and>
    server_sasl sample_crypto (static_scram sample_users Map.empty) (ascii ''s-nonce'') [7] (map SaslIn cs) = (ss, Negotiated (Some (ascii ''alice'')))"
proof -
  obtain v where v: "sample_users (ascii ''alice'') = Some v" "verifies sample_crypto ScramSha256 (ascii ''pw'') v" "sv_iterations v = 8192"
    using sample_user by blast
  have prep: "cx_saslprep sample_crypto s = Some s" for s by (simp add: sample_crypto_def)
  have n: "nonce_ok (ascii ''c-nonce'')" "nonce_ok (ascii ''s-nonce'')" by (simp_all add: nonce_ok_def)
  have u: "valid_utf8 (ascii ''alice'')" by simp
  show ?thesis
    by (rule scram_negotiation_agrees [OF sample_sound n prep prep u prep _ v(2)])
      (simp_all add: static_scram_def v(1,3) del: ascii_simps)
qed


text \<open>
  the user name and password of a PLAIN client without zero bytes reach the broker's
  authenticator unchanged, and the client is let in under that name exactly when it accepts them.
\<close>

theorem plain_negotiation_agrees:
  assumes "0 \<notin> set u" "0 \<notin> set p" "valid_utf8 u" "valid_utf8 p" and offered: "ascii ''PLAIN'' \<in> set (au_mechanisms auth)"
  shows "\<exists>cs ss. fst (sasl_negotiate C cn (ProfilePlain u p) host (map SaslIn ss)) = cs \<and>
    server_sasl C auth sn secret (map SaslIn cs) = (ss, if au_verify auth (CredPlain u p) then Negotiated (Some u) else NegotiationFails (Refused ''authentication failed'')) \<and>
    (snd (sasl_negotiate C cn (ProfilePlain u p) host (map SaslIn ss)) = Negotiated () \<longleftrightarrow> au_verify auth (CredPlain u p))"
proof -
  have "split_on 0 (plain_response u p) = [[], u, p]"
    using split_on_append [of 0 "[]" "u @ 0 # p"] split_on_append [of 0 u p] assms by (simp add: plain_response_def)
  then have parse: "parse_plain_response (plain_response u p) = Some (None, u, p)" using assms by (simp add: parse_plain_response_def)
  let ?init = "FInit \<lparr>si_mechanism = ascii ''PLAIN'', si_initial_response = Some (plain_response u p), si_hostname = host\<rparr>"
  let ?ss = "[FMechanisms \<lparr>sm_sasl_server_mechanisms = au_mechanisms auth\<rparr>, outcome_frame (if au_verify auth (CredPlain u p) then SaslOk else SaslAuth) None]"
  have "list_ex (\<lambda>x. eq_ignore_ascii_case x (ascii ''PLAIN'')) (au_mechanisms auth)" using offered unfolding list_ex_iff eq_ignore_ascii_case_def by blast
  then have "sasl_negotiate C cn (ProfilePlain u p) host (map SaslIn ?ss) =
      ([?init], if au_verify auth (CredPlain u p) then Negotiated () else NegotiationFails (OutcomeRefused SaslAuth None))"
    by (simp add: sasl_negotiate_def outcome_frame_def verify_outcome_def)
  moreover have "server_sasl C auth sn secret (map SaslIn [?init]) = (?ss, if au_verify auth (CredPlain u p) then Negotiated (Some u)
      else NegotiationFails (Refused ''authentication failed''))"
    using offered parse by (simp add: server_sasl_def server_init_def to_ascii_upper_def finish_sasl_def)
  ultimately show ?thesis by (intro exI [of _ "[?init]"] exI [of _ ?ss]) simp
qed

theorem plain_negotiation_agrees_witness:
  "\<exists>cs ss. fst (sasl_negotiate sample_crypto [1] (ProfilePlain (ascii ''bob'') (ascii ''pw'')) None (map SaslIn ss)) = cs \<and>
    server_sasl sample_crypto (static_plain [ascii ''bob'' \<mapsto> ascii ''pw''] Map.empty) [2] [3] (map SaslIn cs) = (ss, Negotiated (Some (ascii ''bob'')))"
proof -
  let ?auth = "static_plain [ascii ''bob'' \<mapsto> ascii ''pw''] Map.empty"
  have "au_verify ?auth (CredPlain (ascii ''bob'') (ascii ''pw''))" by (simp add: static_plain_def static_plain_verify_def ct_eq_iff)
  moreover have "ascii ''PLAIN'' \<in> set (au_mechanisms ?auth)" by (simp add: static_plain_def)
  moreover have "0 \<notin> set (ascii ''bob'')" "0 \<notin> set (ascii ''pw'')" "valid_utf8 (ascii ''bob'')" "valid_utf8 (ascii ''pw'')" by simp_all
  ultimately show ?thesis using plain_negotiation_agrees [of "ascii ''bob''" "ascii ''pw''" ?auth sample_crypto "[1]" None "[2]" "[3]"] by (auto simp del: ascii_simps)
qed

subsection \<open>Servers that prove nothing\<close>

text \<open>
  C33: whatever its password, a SCRAM client accepts a server that offers its mechanism and reports
  success at once, without a challenge or a signature.
\<close>

theorem unproven_server_accepted:
  assumes "cx_saslprep C user = Some u" "cx_saslprep C password = Some p"
  shows "\<exists>cs. sasl_negotiate C nonce (ProfileScram m user password) host
      [SaslIn (FMechanisms \<lparr>sm_sasl_server_mechanisms = [scram_name m]\<rparr>), SaslIn (FOutcome \<lparr>sx_code = SaslOk, sx_additional_data = None\<rparr>)] =
    (cs, Negotiated ())"
  using assms by (simp add: sasl_negotiate_def eq_ignore_ascii_case_def client_with_nonce_def sasl_prep_def verify_outcome_def case_prod_beta)

theorem unproven_server_accepted_witness:
  "\<exists>cs. sasl_negotiate sample_crypto (ascii ''nonce'') (ProfileScram ScramSha256 (ascii ''alice'') (ascii ''pw'')) None
      [SaslIn (FMechanisms \<lparr>sm_sasl_server_mechanisms = [scram_name ScramSha256]\<rparr>),
       SaslIn (FOutcome \<lparr>sx_code = SaslOk, sx_additional_data = None\<rparr>)] = (cs, Negotiated ())"
  by (rule unproven_server_accepted) (simp_all add: sample_crypto_def)

end
