(* ===== verification/Core_Error.thy ===== *)
theory Core_Error
  imports Main
begin

section \<open>Error kinds (\<open>ramqp-core/src/error.rs\<close>)\<close>

text \<open>The classification every error of the client and the broker carries, and what it says about a connection.\<close>

datatype error_kind =
    KIo | KTls | KSasl | KProtocolViolation | KPeerClosed | KTimeout | KDetached | KLinkRedirect
  | KCapacity | KSettlement | KEncode | KNotConnected | KCancelled

fun is_retryable :: "error_kind \<Rightarrow> bool" where
  "is_retryable k = (k \<in> {KIo, KTimeout, KPeerClosed, KDetached, KCapacity, KNotConnected})"

fun is_fatal :: "error_kind \<Rightarrow> bool" where
  "is_fatal k = (k \<in> {KProtocolViolation, KTls, KSasl, KEncode})"

text \<open>No kind is both worth a retry and fatal; redirects, settlement failures and cancellations are neither.\<close>

lemma retryable_or_fatal: "\<not> (is_retryable k \<and> is_fatal k)" "k \<notin> {KLinkRedirect, KSettlement, KCancelled} \<Longrightarrow> is_retryable k \<or> is_fatal k"
  by (cases k; simp)+

end
