(* ===== verification/Client_Resilience.thy ===== *)
theory Client_Resilience
  imports Complex_Main Link_State Core_Error
begin

section \<open>Reconnection (\<open>ramqp/src/resilience\<close>)\<close>

text \<open>
  Backoff, connecting with retries, the connection pool, and the supervisor that keeps an
  application's sessions and links across connections. Durations are seconds and \<open>f64\<close> arithmetic
  is arithmetic of reals; \<open>Duration::from_secs_f64\<close> panics out of range. Loops that may go on
  forever are partial functions over the outcomes of the attempts, numbered from the first. What a
  driver answers is an oracle; what the supervisor sends, answers and publishes are effects.
\<close>

subsection \<open>Backoff (\<open>supervisor.rs\<close>)\<close>

record reconnect_config =
  rc_enabled :: bool
  rc_max_retries :: "u32 option"
  rc_initial_backoff :: real
  rc_max_backoff :: real
  rc_multiplier :: real
  rc_jitter :: real

record backoff =
  bk_policy :: reconnect_config
  bk_attempt :: u32
  bk_current :: real

definition new_backoff :: "reconnect_config \<Rightarrow> backoff" where
  "new_backoff policy =
    (let policy = (if rc_multiplier policy < 1 then policy\<lparr>rc_multiplier := 1\<rparr> else policy);
         min_backoff = 1 / 1000;
         policy = (if rc_initial_backoff policy < min_backoff then policy\<lparr>rc_initial_backoff := min_backoff\<rparr> else policy);
         policy = (if rc_max_backoff policy < rc_initial_backoff policy then policy\<lparr>rc_max_backoff := rc_initial_backoff policy\<rparr> else policy)
     in \<lparr>bk_policy = policy, bk_attempt = 0, bk_current = rc_initial_backoff policy\<rparr>)"

definition from_secs_f64 :: "real \<Rightarrow> real option" where
  "from_secs_f64 x = (if 0 \<le> x \<and> x < 2 ^ 64 then Some x else None)"

text \<open>The splitmix64 stream: the seed moves on, the value is a fraction of \<open>2 ^ 53\<close>.\<close>

definition SPLITMIX :: u64 where "SPLITMIX = 0x9E3779B97F4A7C15"

definition jitter_unit :: "u64 \<Rightarrow> real \<times> u64" where
  "jitter_unit seed =
    (let x = seed;
         x = xor x (drop_bit 30 x);
         x = x * 0xBF58476D1CE4E5B9;
         x = xor x (drop_bit 27 x);
         x = x * 0x94D049BB133111EB;
         x = xor x (drop_bit 31 x)
     in (real (unat (drop_bit 11 x)) / 2 ^ 53, seed + SPLITMIX))"

definition apply_jitter :: "real \<Rightarrow> real \<Rightarrow> u64 \<Rightarrow> real option \<times> u64" where
  "apply_jitter base fraction seed =
    (let fraction = max 0 (min 1 fraction);
         (unit, seed) = jitter_unit seed;
         factor = 1 - fraction + fraction * unit
     in (from_secs_f64 (base * factor), seed))"

text \<open>\<open>None\<close> is a panic, \<open>Some None\<close> an exhausted budget.\<close>

definition next_delay :: "u64 \<Rightarrow> backoff \<Rightarrow> (real option \<times> backoff \<times> u64) option" where
  "next_delay seed b =
    (if \<not> rc_enabled (bk_policy b) then Some (None, b, seed)
     else if (case rc_max_retries (bk_policy b) of Some k \<Rightarrow> bk_attempt b \<ge> k | None \<Rightarrow> False) then Some (None, b, seed)
     else let base = min (bk_current b) (rc_max_backoff (bk_policy b));
              (delay, seed) = apply_jitter base (rc_jitter (bk_policy b)) seed;
              grown = from_secs_f64 (bk_current b * rc_multiplier (bk_policy b))
          in case (delay, grown) of
               (Some d, Some g) \<Rightarrow>
                 Some (Some d, b\<lparr>bk_attempt := bk_attempt b + 1, bk_current := min g (rc_max_backoff (bk_policy b))\<rparr>, seed)
             | _ \<Rightarrow> None)"

definition reset_backoff :: "backoff \<Rightarrow> backoff" where
  "reset_backoff b = b\<lparr>bk_attempt := 0, bk_current := rc_initial_backoff (bk_policy b)\<rparr>"

subsection \<open>Connecting with retries\<close>

datatype 'c retried = RetryOk 'c | RetryErr error_kind | RetryPanics

partial_function (option) connect_loop ::
    "(nat \<Rightarrow> error_kind + 'c) \<Rightarrow> nat \<Rightarrow> u64 \<Rightarrow> backoff \<Rightarrow> ('c retried \<times> real list) option" where
  "connect_loop attempts i seed b = (case attempts i of
      Inr c \<Rightarrow> Some (RetryOk c, [])
    | Inl e \<Rightarrow>
        if is_retryable e
        then (case next_delay seed b of
                None \<Rightarrow> Some (RetryPanics, [])
              | Some (None, _, _) \<Rightarrow> Some (RetryErr e, [])
              | Some (Some delay, b, seed) \<Rightarrow>
                  Option.bind (connect_loop attempts (Suc i) seed b) (\<lambda>(r, slept). Some (r, delay # slept)))
        else Some (RetryErr e, []))"

definition connect_with_retry :: "(nat \<Rightarrow> error_kind + 'c) \<Rightarrow> u64 \<Rightarrow> reconnect_config \<Rightarrow> ('c retried \<times> real list) option" where
  "connect_with_retry attempts seed policy = connect_loop attempts 0 seed (new_backoff policy)"

subsection \<open>The pool (\<open>pool.rs\<close>)\<close>

record 'c pool =
  po_slots :: "'c option list"
  po_next :: u64

definition build_pool :: "nat \<Rightarrow> 'c pool" where
  "build_pool n = \<lparr>po_slots = replicate (max n 1) None, po_next = 0\<rparr>"

definition healthy_at :: "('c \<Rightarrow> bool) \<Rightarrow> nat \<Rightarrow> 'c option list \<Rightarrow> 'c option \<times> 'c option list" where
  "healthy_at alive idx slots = (case slots ! idx of
      Some c \<Rightarrow> if alive c then (Some c, slots) else (None, slots[idx := None])
    | None \<Rightarrow> (None, slots))"

fun first_healthy :: "('c \<Rightarrow> bool) \<Rightarrow> u64 \<Rightarrow> nat list \<Rightarrow> 'c option list \<Rightarrow> 'c option \<times> 'c option list" where
  "first_healthy alive start [] slots = (None, slots)"
| "first_healthy alive start (k # ks) slots =
    (let idx = unat (start + of_nat k) mod length slots
     in case healthy_at alive idx slots of
          (Some c, slots) \<Rightarrow> (Some c, slots)
        | (None, slots) \<Rightarrow> first_healthy alive start ks slots)"

text \<open>The connection made when none is healthy is an argument; a timeout is an error too.\<close>

definition acquire :: "('c \<Rightarrow> bool) \<Rightarrow> (error_kind + 'c) \<Rightarrow> 'c pool \<Rightarrow> (error_kind + 'c) \<times> 'c pool" where
  "acquire alive established p =
    (let n = length (po_slots p);
         start = po_next p;
         p = p\<lparr>po_next := start + 1\<rparr>
     in case first_healthy alive start [0..<n] (po_slots p) of
          (Some c, slots) \<Rightarrow> (Inr c, p\<lparr>po_slots := slots\<rparr>)
        | (None, slots) \<Rightarrow>
            (case established of
               Inl e \<Rightarrow> (Inl e, p\<lparr>po_slots := slots\<rparr>)
             | Inr c \<Rightarrow> (Inr c, p\<lparr>po_slots := slots[unat start mod n := Some c]\<rparr>)))"

subsection \<open>Commands and effects of the supervisor (\<open>transparent.rs\<close>, \<open>ramqp-core/src/proto/mod.rs\<close>)\<close>

datatype driver_command =
    BeginSession begin_perf events reply
  | AttachLink u16 attach credit_mode events reply
  | EndSession u16 "err option" reply
  | DetachLink u16 u32 bool "err option" reply
  | SendTransfer u16 u32 bytes bool u32 "delivery_state option" "reply option"
  | SendDisposition u16 u32 u32 "u32 option" delivery_state bool "reply option"
  | SendFlow u16 flow
  | GrantCredit u16 u32 u32
  | CloseConnection "err option" reply

datatype sup_answer =
    AnsOpened u16 nat
  | AnsAttached u32 attach
  | AnsOk
  | AnsErr error_kind
  | AnsOutcome "error_kind + delivery_state"

datatype connection_event = EvConnected | EvReconnecting u32 | EvClosed bool string

text \<open>
  To the driver go commands passed on with the reply channel of the handle, and commands whose
  reply the supervisor awaits itself: a session's begin, a link's attach, an awaited transfer, the
  close at the end.
\<close>

datatype sup_effect =
    PassOn driver_command
  | DriverBegin begin_perf
  | DriverAttach u16 attach credit_mode
  | DriverSend u16 u32 bytes bool u32 "delivery_state option"
  | DriverClose
  | Answer reply sup_answer
  | Publish connection_event

datatype 'a driver_answer = SendFails | ReplyDropped | Answered "error_kind + 'a"

fun answer_result :: "'a driver_answer \<Rightarrow> error_kind + 'a" where
  "answer_result SendFails = Inl KNotConnected"
| "answer_result ReplyDropped = Inl KCancelled"
| "answer_result (Answered r) = r"

subsection \<open>Supervisor state\<close>

record logical_link =
  ll_attach :: attach
  ll_credit_mode :: credit_mode
  ll_events :: events
  ll_real_handle :: "u32 option"

record logical_session =
  lg_begin :: begin_perf
  lg_events :: events
  lg_real_channel :: "u16 option"
  lg_links :: "(u32, logical_link) btree"
  lg_next_vhandle :: u32

record replay_req =
  rq_vchan :: u16
  rq_vhandle :: u32
  rq_body :: bytes
  rq_settled :: bool
  rq_message_format :: u32
  rq_state :: "delivery_state option"
  rq_reply :: reply

text \<open>\<open>su_inner\<close>: a driver is there; \<open>su_waiting\<close>: the tasks that await the outcome of a transfer.\<close>

record supervisor =
  su_reconnect :: reconnect_config
  su_inner :: bool
  su_sessions :: "(u16, logical_session) btree"
  su_next_vchan :: u16
  su_stopping :: bool
  su_waiting :: "replay_req list"
  su_replay :: "replay_req list"

definition new_supervisor :: "reconnect_config \<Rightarrow> supervisor" where
  "new_supervisor policy = \<lparr>su_reconnect = policy, su_inner = True, su_sessions = [], su_next_vchan = 0, su_stopping = False,
    su_waiting = [], su_replay = []\<rparr>"

definition real_ids :: "u16 \<Rightarrow> u32 \<Rightarrow> supervisor \<Rightarrow> (u16 \<times> u32) option" where
  "real_ids vchan vhandle su =
    Option.bind (map_of (su_sessions su) vchan) (\<lambda>s.
    Option.bind (lg_real_channel s) (\<lambda>rc.
    Option.bind (map_of (lg_links s) vhandle) (\<lambda>l.
    Option.bind (ll_real_handle l) (\<lambda>rh. Some (rc, rh)))))"

definition with_session :: "u16 \<Rightarrow> (logical_session \<Rightarrow> logical_session) \<Rightarrow> supervisor \<Rightarrow> supervisor" where
  "with_session vchan f su = (case map_of (su_sessions su) vchan of
      None \<Rightarrow> su
    | Some s \<Rightarrow> su\<lparr>su_sessions := bt_insert vchan (f s) (su_sessions su)\<rparr>)"

definition with_link :: "u32 \<Rightarrow> (logical_link \<Rightarrow> logical_link) \<Rightarrow> logical_session \<Rightarrow> logical_session" where
  "with_link vhandle f s = (case map_of (lg_links s) vhandle of
      None \<Rightarrow> s
    | Some l \<Rightarrow> s\<lparr>lg_links := bt_insert vhandle (f l) (lg_links s)\<rparr>)"

subsection \<open>Opening sessions and links on the current driver\<close>

definition open_session :: "(u16 \<times> nat) driver_answer \<Rightarrow> u16 \<Rightarrow> supervisor \<Rightarrow> (error_kind + u16 \<times> nat) \<times> sup_effect list \<times> supervisor" where
  "open_session ans vchan su =
    (if \<not> su_inner su then (Inl KNotConnected, [], su)
     else (case map_of (su_sessions su) vchan of
             None \<Rightarrow> (Inl KNotConnected, [], su)
           | Some s \<Rightarrow>
               (case answer_result ans of
                  Inl e \<Rightarrow> (Inl e, [DriverBegin (lg_begin s)], su)
                | Inr (channel, session_id) \<Rightarrow>
                    (Inr (channel, session_id), [DriverBegin (lg_begin s)], with_session vchan (\<lambda>s. s\<lparr>lg_real_channel := Some channel\<rparr>) su))))"

definition open_link :: "(u32 \<times> attach) driver_answer \<Rightarrow> u16 \<Rightarrow> u32 \<Rightarrow> supervisor \<Rightarrow> (error_kind + u32 \<times> attach) \<times> sup_effect list \<times> supervisor" where
  "open_link ans vchan vhandle su =
    (if \<not> su_inner su then (Inl KNotConnected, [], su)
     else (case map_of (su_sessions su) vchan of
             None \<Rightarrow> (Inl KNotConnected, [], su)
           | Some s \<Rightarrow>
               (case lg_real_channel s of
                  None \<Rightarrow> (Inl KNotConnected, [], su)
                | Some rc \<Rightarrow>
                    (case map_of (lg_links s) vhandle of
                       None \<Rightarrow> (Inl KNotConnected, [], su)
                     | Some l \<Rightarrow>
                         (case answer_result ans of
                            Inl e \<Rightarrow> (Inl e, [DriverAttach rc (ll_attach l) (ll_credit_mode l)], su)
                          | Inr (rh, remote) \<Rightarrow>
                              (Inr (rh, remote), [DriverAttach rc (ll_attach l) (ll_credit_mode l)],
                               with_session vchan (with_link vhandle (\<lambda>l. l\<lparr>ll_real_handle := Some rh\<rparr>)) su))))))"

subsection \<open>Transfers\<close>

definition send_transfer_sup :: "bool \<Rightarrow> u16 \<Rightarrow> u32 \<Rightarrow> bytes \<Rightarrow> bool \<Rightarrow> u32 \<Rightarrow> delivery_state option \<Rightarrow> reply option \<Rightarrow> supervisor \<Rightarrow> sup_effect list \<times> supervisor" where
  "send_transfer_sup sent vchan vhandle body settled message_format state reply su =
    (case (if su_inner su then real_ids vchan vhandle su else None) of
       None \<Rightarrow> (case reply of Some r \<Rightarrow> [Answer r (AnsOutcome (Inl KNotConnected))] | None \<Rightarrow> [], su)
     | Some (rc, rh) \<Rightarrow>
         (case reply of
            Some r \<Rightarrow>
              if \<not> sent then ([Answer r (AnsOutcome (Inl KNotConnected))], su)
              else ([DriverSend rc rh body settled message_format state],
                su\<lparr>su_waiting := su_waiting su @ [\<lparr>rq_vchan = vchan, rq_vhandle = vhandle, rq_body = body, rq_settled = settled,
                  rq_message_format = message_format, rq_state = state, rq_reply = r\<rparr>]\<rparr>)
          | None \<Rightarrow> ([PassOn (SendTransfer rc rh body settled message_format state None)], su)))"

subsection \<open>Commands of the handles\<close>

text \<open>What the driver answers to a begin or an attach, and whether it takes a transfer.\<close>

record command_env =
  ce_session :: "(u16 \<times> nat) driver_answer"
  ce_link :: "(u32 \<times> attach) driver_answer"
  ce_sent :: bool

fun handle_command :: "command_env \<Rightarrow> driver_command \<Rightarrow> supervisor \<Rightarrow> sup_effect list \<times> supervisor" where
  "handle_command env (BeginSession begin events reply) su =
    (let vchan = su_next_vchan su;
         su = su\<lparr>su_next_vchan := su_next_vchan su + 1,
           su_sessions := bt_insert vchan \<lparr>lg_begin = begin, lg_events = events, lg_real_channel = None, lg_links = [], lg_next_vhandle = 0\<rparr> (su_sessions su)\<rparr>
     in case open_session (ce_session env) vchan su of
          (Inr (_, session_id), fx, su) \<Rightarrow> (fx @ [Answer reply (AnsOpened vchan session_id)], su)
        | (Inl e, fx, su) \<Rightarrow> (fx @ [Answer reply (AnsErr e)], su\<lparr>su_sessions := bt_remove vchan (su_sessions su)\<rparr>))"
| "handle_command env (AttachLink vchan att credit_mode events reply) su =
    (case map_of (su_sessions su) vchan of
       None \<Rightarrow> ([Answer reply (AnsErr KNotConnected)], su)
     | Some s \<Rightarrow>
         (let vhandle = lg_next_vhandle s;
              s = s\<lparr>lg_next_vhandle := vhandle + 1,
                lg_links := bt_insert vhandle \<lparr>ll_attach = att, ll_credit_mode = credit_mode, ll_events = events, ll_real_handle = None\<rparr> (lg_links s)\<rparr>;
              su = su\<lparr>su_sessions := bt_insert vchan s (su_sessions su)\<rparr>
          in case open_link (ce_link env) vchan vhandle su of
               (Inr (_, remote), fx, su) \<Rightarrow> (fx @ [Answer reply (AnsAttached vhandle remote)], su)
             | (Inl e, fx, su) \<Rightarrow>
                 (fx @ [Answer reply (AnsErr e)], with_session vchan (\<lambda>s. s\<lparr>lg_links := bt_remove vhandle (lg_links s)\<rparr>) su)))"
| "handle_command env (EndSession vchan error reply) su =
    (let real = Option.bind (map_of (su_sessions su) vchan) lg_real_channel;
         su = su\<lparr>su_sessions := bt_remove vchan (su_sessions su)\<rparr>
     in case (if su_inner su then real else None) of
          Some rc \<Rightarrow> ([PassOn (EndSession rc error reply)], su)
        | None \<Rightarrow> ([Answer reply AnsOk], su))"
| "handle_command env (DetachLink vchan vhandle closing error reply) su =
    (let real = real_ids vchan vhandle su;
         su = with_session vchan (\<lambda>s. s\<lparr>lg_links := bt_remove vhandle (lg_links s)\<rparr>) su
     in case (if su_inner su then real else None) of
          Some (rc, rh) \<Rightarrow> ([PassOn (DetachLink rc rh closing error reply)], su)
        | None \<Rightarrow> ([Answer reply AnsOk], su))"
| "handle_command env (SendTransfer vchan vhandle body settled message_format state reply) su =
    send_transfer_sup (ce_sent env) vchan vhandle body settled message_format state reply su"
| "handle_command env (SendDisposition vchan vhandle first final state settled reply) su =
    (case (if su_inner su then real_ids vchan vhandle su else None) of
       Some (rc, rh) \<Rightarrow> ([PassOn (SendDisposition rc rh first final state settled reply)], su)
     | None \<Rightarrow> (case reply of Some r \<Rightarrow> [Answer r AnsOk] | None \<Rightarrow> [], su))"
| "handle_command env (SendFlow vchan flow) su =
    (case (if su_inner su then Option.bind (map_of (su_sessions su) vchan) (\<lambda>s.
        Option.bind (lg_real_channel s) (\<lambda>rc.
          Some (rc, Option.bind (fl_handle flow) (\<lambda>vh. Option.bind (map_of (lg_links s) vh) ll_real_handle)))) else None) of
       Some (rc, rh) \<Rightarrow> ([PassOn (SendFlow rc (flow\<lparr>fl_handle := rh\<rparr>))], su)
     | None \<Rightarrow> ([], su))"
| "handle_command env (GrantCredit vchan vhandle credit) su =
    (case (if su_inner su then real_ids vchan vhandle su else None) of
       Some (rc, rh) \<Rightarrow> ([PassOn (GrantCredit rc rh credit)], su)
     | None \<Rightarrow> ([], su))"
| "handle_command env (CloseConnection error reply) su =
    (let su = su\<lparr>su_stopping := True\<rparr>
     in (if su_inner su then [PassOn (CloseConnection error reply), Publish (EvClosed False ''closed'')]
         else [Answer reply AnsOk, Publish (EvClosed False ''closed'')], su))"

subsection \<open>Reconnecting\<close>

record replay_env =
  re_session :: "u16 \<Rightarrow> (u16 \<times> nat) driver_answer"
  re_link :: "u16 \<Rightarrow> u32 \<Rightarrow> (u32 \<times> attach) driver_answer"

fun replay_links :: "replay_env \<Rightarrow> u16 \<Rightarrow> u32 list \<Rightarrow> supervisor \<Rightarrow> bool \<times> sup_effect list \<times> supervisor" where
  "replay_links env vchan [] su = (True, [], su)"
| "replay_links env vchan (vhandle # vhandles) su =
    (case open_link (re_link env vchan vhandle) vchan vhandle su of
       (Inl _, fx, su) \<Rightarrow> (False, fx, su)
     | (Inr _, fx, su) \<Rightarrow> (let (ok, fx', su) = replay_links env vchan vhandles su in (ok, fx @ fx', su)))"

fun replay_sessions :: "replay_env \<Rightarrow> u16 list \<Rightarrow> supervisor \<Rightarrow> bool \<times> sup_effect list \<times> supervisor" where
  "replay_sessions env [] su = (True, [], su)"
| "replay_sessions env (vchan # vchans) su =
    (case open_session (re_session env vchan) vchan su of
       (Inl _, fx, su) \<Rightarrow> (False, fx, su)
     | (Inr _, fx, su) \<Rightarrow>
         (let vhandles = (case map_of (su_sessions su) vchan of None \<Rightarrow> [] | Some s \<Rightarrow> map fst (lg_links s));
              (ok, fx1, su) = replay_links env vchan vhandles su
          in if ok then (let (ok, fx2, su) = replay_sessions env vchans su in (ok, fx @ fx1 @ fx2, su)) else (False, fx @ fx1, su)))"

definition replay_topology :: "replay_env \<Rightarrow> supervisor \<Rightarrow> bool \<times> sup_effect list \<times> supervisor" where
  "replay_topology env su = replay_sessions env (map fst (su_sessions su)) su"

definition give_up :: "string \<Rightarrow> supervisor \<Rightarrow> sup_effect list \<times> supervisor" where
  "give_up reason su = ([Publish (EvClosed True reason)], su\<lparr>su_stopping := True\<rparr>)"

text \<open>
  The outcomes of establishing a connection, by attempt: an error, or a connection with what its
  driver answers during the replay. A panic of the backoff ends the task; nothing more happens.
\<close>

partial_function (option) reconnect_loop ::
    "(nat \<Rightarrow> error_kind + replay_env) \<Rightarrow> nat \<Rightarrow> u64 \<Rightarrow> backoff \<Rightarrow> supervisor \<Rightarrow> (sup_effect list \<times> supervisor) option" where
  "reconnect_loop attempts i seed b su =
    (if su_stopping su then Some ([], su)
     else let fx = [Publish (EvReconnecting (bk_attempt b + 1))]
       in case attempts i of
            Inr env \<Rightarrow>
              (case replay_topology env (su\<lparr>su_inner := True\<rparr>) of
                 (ok, fx1, su) \<Rightarrow>
                   if ok then Some (fx @ fx1 @ [Publish EvConnected], su)
                   else Option.bind (reconnect_loop attempts (Suc i) seed b (su\<lparr>su_inner := False\<rparr>)) (\<lambda>(fx2, su). Some (fx @ fx1 @ fx2, su)))
          | Inl e \<Rightarrow>
              if is_retryable e
              then (case next_delay seed b of
                      None \<Rightarrow> Some (fx, su\<lparr>su_stopping := True\<rparr>)
                    | Some (None, _, _) \<Rightarrow> (let (fx1, su) = give_up ''reconnect budget exhausted'' su in Some (fx @ fx1, su))
                    | Some (Some _, b, seed) \<Rightarrow>
                        Option.bind (reconnect_loop attempts (Suc i) seed b su) (\<lambda>(fx1, su). Some (fx @ fx1, su)))
              else (let (fx1, su) = give_up ''reconnect failed (non-retryable)'' su in Some (fx @ fx1, su)))"

definition on_death :: "u64 \<Rightarrow> (nat \<Rightarrow> error_kind + replay_env) \<Rightarrow> supervisor \<Rightarrow> (sup_effect list \<times> supervisor) option" where
  "on_death seed attempts su =
    (let su = su\<lparr>su_inner := False\<rparr>
     in if su_stopping su then Some ([], su)
        else Option.bind (reconnect_loop attempts 0 seed (new_backoff (su_reconnect su)) su)
          (\<lambda>(fx, su). Some (Publish (EvClosed True ''connection lost; reconnecting'') # fx, su)))"

definition shutdown_sup :: "supervisor \<Rightarrow> sup_effect list \<times> supervisor" where
  "shutdown_sup su = (if su_inner su then [DriverClose] else [], su\<lparr>su_stopping := True\<rparr>)"

subsection \<open>The run loop\<close>

text \<open>
  What the loop wakes for, and the two ends of a task that awaits a transfer: its outcome arrives,
  or the driver that held its reply channel is gone and the transfer goes to the replay queue.
\<close>

datatype sup_event =
    DriverDied u64 "nat \<Rightarrow> error_kind + replay_env"
  | Command command_env driver_command
  | CommandsClosed
  | Replay bool
  | TaskOutcome nat "error_kind + delivery_state"
  | TaskLost nat

fun sup_step :: "sup_event \<Rightarrow> supervisor \<Rightarrow> (sup_effect list \<times> supervisor) option" where
  "sup_step (TaskOutcome k result) su =
    (if k < length (su_waiting su)
     then Some ([Answer (rq_reply (su_waiting su ! k)) (AnsOutcome result)], su\<lparr>su_waiting := take k (su_waiting su) @ drop (Suc k) (su_waiting su)\<rparr>)
     else Some ([], su))"
| "sup_step (TaskLost k) su =
    (if k < length (su_waiting su)
     then Some ([], su\<lparr>su_waiting := take k (su_waiting su) @ drop (Suc k) (su_waiting su), su_replay := su_replay su @ [su_waiting su ! k]\<rparr>)
     else Some ([], su))"
| "sup_step (DriverDied seed attempts) su = (if su_stopping su \<or> \<not> su_inner su then Some ([], su) else on_death seed attempts su)"
| "sup_step (Command env c) su = (if su_stopping su then Some ([], su) else Some (handle_command env c su))"
| "sup_step CommandsClosed su = (if su_stopping su then Some ([], su) else Some (shutdown_sup su))"
| "sup_step (Replay sent) su =
    (if su_stopping su then Some ([], su)
     else (case su_replay su of
             [] \<Rightarrow> Some ([], su)
           | r # rs \<Rightarrow> Some (send_transfer_sup sent (rq_vchan r) (rq_vhandle r) (rq_body r) (rq_settled r) (rq_message_format r) (rq_state r)
               (Some (rq_reply r)) (su\<lparr>su_replay := rs\<rparr>))))"

fun sup_run :: "sup_event list \<Rightarrow> supervisor \<Rightarrow> (sup_effect list \<times> supervisor) option" where
  "sup_run [] su = Some ([], su)"
| "sup_run (e # es) su =
    Option.bind (sup_step e su) (\<lambda>(fx, su). Option.bind (sup_run es su) (\<lambda>(fx', su). Some (fx @ fx', su)))"

end
