(* ===== verification/Client_Resilience_Laws.thy ===== *)
theory Client_Resilience_Laws
  imports Client_Resilience "HOL-Library.Multiset"
begin

section \<open>Reconnection keeps its promises\<close>

text \<open>
  Retries end within their budget and their delays within the policy; a reconnection restores every
  session and link; awaited transfers are answered once or still in hand. A link that is refused
  after a reconnection, however, makes the supervisor reconnect forever, without delay or budget.
\<close>

subsection \<open>Backoff\<close>

lemma jitter_unit_range: "0 \<le> fst (jitter_unit seed)" "fst (jitter_unit seed) < 1"
proof -
  have "unat (drop_bit 11 (x :: u64)) < 2 ^ 53" for x
  proof -
    have "drop_bit 11 (unat x) = unat x div 2 ^ 11" by (rule drop_bit_eq_div)
    then have "unat (drop_bit 11 x) = unat x div 2 ^ 11" by (simp only: unat_drop_bit_eq)
    moreover have "unat x < 2 ^ 64" using unsigned_less [of x] by simp
    ultimately show ?thesis by (simp add: div_less_iff_less_mult)
  qed
  then obtain n where n: "fst (jitter_unit seed) = real n / 2 ^ 53" "n < 2 ^ 53" unfolding jitter_unit_def Let_def fst_conv by blast
  from n(2) have "real n < 2 ^ 53" by (metis of_nat_less_iff of_nat_numeral of_nat_power)
  then show "0 \<le> fst (jitter_unit seed)" "fst (jitter_unit seed) < 1" by (simp_all add: n(1))
qed

definition backoff_ok :: "backoff \<Rightarrow> bool" where
  "backoff_ok b \<longleftrightarrow> 0 \<le> bk_current b \<and> bk_current b \<le> rc_max_backoff (bk_policy b) \<and> 1 \<le> rc_multiplier (bk_policy b) \<and>
    rc_max_backoff (bk_policy b) * rc_multiplier (bk_policy b) < 2 ^ 64"

definition exhausted :: "backoff \<Rightarrow> bool" where
  "exhausted b \<longleftrightarrow> \<not> rc_enabled (bk_policy b) \<or> (case rc_max_retries (bk_policy b) of Some k \<Rightarrow> k \<le> bk_attempt b | None \<Rightarrow> False)"

lemma next_delay_ok:
  assumes ok: "backoff_ok b" and more: "\<not> exhausted b"
  shows "\<exists>d b' seed'. next_delay seed b = Some (Some d, b', seed') \<and> 0 \<le> d \<and> d \<le> bk_current b \<and> bk_current b \<le> bk_current b' \<and>
    backoff_ok b' \<and> bk_policy b' = bk_policy b \<and> bk_attempt b' = bk_attempt b + 1"
proof -
  let ?p = "bk_policy b"
  define fr where "fr = max 0 (min 1 (rc_jitter ?p))"
  define unit where "unit = fst (jitter_unit seed)"
  define factor where "factor = 1 - fr + fr * unit"
  have p: "0 \<le> bk_current b" "bk_current b \<le> rc_max_backoff ?p" "1 \<le> rc_multiplier ?p" "rc_max_backoff ?p * rc_multiplier ?p < 2 ^ 64"
    using ok by (simp_all add: backoff_ok_def)
  have fr: "0 \<le> fr" "fr \<le> 1" by (simp_all add: fr_def)
  have "0 \<le> unit" "unit \<le> 1" using jitter_unit_range [of seed] by (simp_all add: unit_def)
  then have "0 \<le> fr * unit" "fr * unit \<le> fr" using fr mult_left_le [of unit fr] by simp_all
  then have f: "0 \<le> factor" "factor \<le> 1" using fr by (simp_all add: factor_def)
  have d: "0 \<le> bk_current b * factor" "bk_current b * factor \<le> bk_current b" using f p(1) mult_left_le [of factor "bk_current b"] by simp_all
  have g: "bk_current b * rc_multiplier ?p \<le> rc_max_backoff ?p * rc_multiplier ?p" "bk_current b \<le> bk_current b * rc_multiplier ?p"
    using p mult_right_mono [of "bk_current b" "rc_max_backoff ?p" "rc_multiplier ?p"] mult_left_mono [of 1 "rc_multiplier ?p" "bk_current b"] by simp_all
  have lt: "bk_current b * rc_multiplier ?p < 2 ^ 64" using g(1) p(4) by (rule le_less_trans)
  then have "bk_current b * factor < 2 ^ 64" using d(2) g(2) by linarith
  then have "from_secs_f64 (bk_current b * factor) = Some (bk_current b * factor)" using d(1) unfolding from_secs_f64_def by simp
  moreover have "0 \<le> bk_current b * rc_multiplier ?p" using p(1,3) by simp
  then have "from_secs_f64 (bk_current b * rc_multiplier ?p) = Some (bk_current b * rc_multiplier ?p)" using lt unfolding from_secs_f64_def by simp
  moreover have "min (bk_current b) (rc_max_backoff ?p) = bk_current b" using p by simp
  ultimately have "next_delay seed b = Some (Some (bk_current b * factor), b\<lparr>bk_attempt := bk_attempt b + 1,
      bk_current := min (bk_current b * rc_multiplier ?p) (rc_max_backoff ?p)\<rparr>, snd (jitter_unit seed))"
    using more unfolding next_delay_def exhausted_def
    by (auto simp: apply_jitter_def Let_def case_prod_beta factor_def fr_def unit_def split: option.splits)
  then show ?thesis using d g(2) p by (auto simp: backoff_ok_def)
qed

lemma next_delay_exhausted: "exhausted b \<Longrightarrow> next_delay seed b = Some (None, b, seed)"
  by (auto simp: next_delay_def exhausted_def split: option.splits)

text \<open>A policy whose delays stay within what a duration holds.\<close>

definition policy_fits :: "reconnect_config \<Rightarrow> bool" where
  "policy_fits p \<longleftrightarrow> max (rc_max_backoff p) (max (rc_initial_backoff p) (1 / 1000)) * max (rc_multiplier p) 1 < 2 ^ 64"

lemma new_backoff_max:
  "new_backoff p = \<lparr>bk_policy = p\<lparr>rc_multiplier := max (rc_multiplier p) 1, rc_initial_backoff := max (rc_initial_backoff p) (1 / 1000),
      rc_max_backoff := max (rc_max_backoff p) (max (rc_initial_backoff p) (1 / 1000))\<rparr>,
    bk_attempt = 0, bk_current = max (rc_initial_backoff p) (1 / 1000)\<rparr>"
  by (cases p) (simp add: new_backoff_def Let_def max_def not_less)

lemma new_backoff_ok:
  assumes "policy_fits p"
  shows "backoff_ok (new_backoff p)" "rc_enabled (bk_policy (new_backoff p)) = rc_enabled p"
    "rc_max_retries (bk_policy (new_backoff p)) = rc_max_retries p" "bk_attempt (new_backoff p) = 0"
    "rc_max_backoff (bk_policy (new_backoff p)) = max (rc_max_backoff p) (max (rc_initial_backoff p) (1 / 1000))"
  using assms unfolding new_backoff_max backoff_ok_def policy_fits_def by auto

definition budget :: "backoff \<Rightarrow> nat" where
  "budget b = (if \<not> rc_enabled (bk_policy b) then 0 else case rc_max_retries (bk_policy b) of Some k \<Rightarrow> unat k - unat (bk_attempt b) | None \<Rightarrow> 0)"

definition limited :: "backoff \<Rightarrow> bool" where
  "limited b \<longleftrightarrow> \<not> rc_enabled (bk_policy b) \<or> rc_max_retries (bk_policy b) \<noteq> None"

lemma budget_step:
  assumes "limited b" "\<not> exhausted b" "bk_policy b' = bk_policy b" "bk_attempt b' = bk_attempt b + 1"
  shows "budget b = Suc (budget b')" "limited b'"
proof -
  obtain k where k: "rc_max_retries (bk_policy b) = Some k" "rc_enabled (bk_policy b)" "\<not> k \<le> bk_attempt b"
    using assms(1,2) by (auto simp: limited_def exhausted_def split: option.splits)
  then have lt: "unat (bk_attempt b) < unat k" by (simp add: word_less_nat_alt not_le)
  moreover have "unat k < 2 ^ 32" using unsigned_less [of k] by simp
  ultimately have "unat (bk_attempt b + 1) = Suc (unat (bk_attempt b))" by (intro unat_plus_one) simp
  then show "budget b = Suc (budget b')" using lt k assms(3,4) by (simp add: budget_def)
  show "limited b'" using assms(1,3) by (simp add: limited_def)
qed

subsection \<open>Connecting with retries\<close>

lemma connect_loop_ends:
  assumes "backoff_ok b" "limited b"
  shows "\<exists>r slept. connect_loop attempts i seed b = Some (r, slept) \<and> r \<noteq> RetryPanics \<and> length slept \<le> budget b \<and>
    (\<forall>d \<in> set slept. 0 \<le> d \<and> d \<le> rc_max_backoff (bk_policy b)) \<and>
    (\<forall>c. r = RetryOk c \<longrightarrow> attempts (i + length slept) = Inr c) \<and> (\<forall>e. r = RetryErr e \<longrightarrow> attempts (i + length slept) = Inl e \<and> (is_retryable e \<longrightarrow> length slept = budget b))"
  using assms
proof (induction "budget b" arbitrary: i seed b rule: less_induct)
  case less
  note unfold = connect_loop.simps [of attempts i seed b]
  consider (ok) c where "attempts i = Inr c" | (fatal) e where "attempts i = Inl e" "\<not> is_retryable e" | (retry) e where "attempts i = Inl e" "is_retryable e"
    by (cases "attempts i") auto
  then show ?case
  proof cases
    case ok
    then show ?thesis by (simp add: unfold)
  next
    case fatal
    then show ?thesis by (simp add: unfold)
  next
    case retry
    show ?thesis
    proof (cases "exhausted b")
      case True
      then have "budget b = 0" using less.prems(2) by (auto simp: budget_def exhausted_def limited_def word_le_nat_alt split: option.splits)
      then show ?thesis using retry next_delay_exhausted [OF True, of seed] by (simp add: unfold)
    next
      case False
      then obtain d b' seed' where n: "next_delay seed b = Some (Some d, b', seed')" "0 \<le> d" "d \<le> bk_current b" "backoff_ok b'"
          "bk_policy b' = bk_policy b" "bk_attempt b' = bk_attempt b + 1"
        using next_delay_ok [OF less.prems(1) False, of seed] by blast
      note st = budget_step [OF less.prems(2) False n(5,6)]
      obtain r slept where r: "connect_loop attempts (Suc i) seed' b' = Some (r, slept)" "r \<noteq> RetryPanics" "length slept \<le> budget b'"
          "\<forall>d \<in> set slept. 0 \<le> d \<and> d \<le> rc_max_backoff (bk_policy b')"
          "\<forall>c. r = RetryOk c \<longrightarrow> attempts (Suc i + length slept) = Inr c" "\<forall>e. r = RetryErr e \<longrightarrow> attempts (Suc i + length slept) = Inl e \<and> (is_retryable e \<longrightarrow> length slept = budget b')"
        using less.hyps [of b' "Suc i" seed'] st n(4) by auto
      have "d \<le> rc_max_backoff (bk_policy b)" using n(3) less.prems(1) by (simp add: backoff_ok_def)
      then show ?thesis using retry n(1,2,5) r st(1) by (simp add: unfold)
    qed
  qed
qed



subsection \<open>The pool\<close>

text \<open>A living connection anywhere in the pool is handed out, without connecting; dead ones are evicted, never handed out.\<close>

lemma first_healthy_finds:
  assumes "k \<in> set ks" "slots ! (unat (start + of_nat k) mod length slots) = Some c" "alive c" "slots \<noteq> []"
  shows "\<exists>c slots'. first_healthy alive start ks slots = (Some c, slots') \<and> alive c \<and> length slots' = length slots"
  using assms
proof (induction ks arbitrary: slots)
  case (Cons j ks)
  let ?i = "unat (start + of_nat j) mod length slots"
  show ?case
  proof (cases "\<exists>d. slots ! ?i = Some d \<and> alive d")
    case True
    then show ?thesis by (auto simp: healthy_at_def)
  next
    case False
    then obtain slots2 where h: "healthy_at alive ?i slots = (None, slots2)" "length slots2 = length slots" "\<And>m. m \<noteq> ?i \<Longrightarrow> slots2 ! m = slots ! m"
      by (cases "slots ! ?i") (auto simp: healthy_at_def)
    have "unat (start + of_nat k) mod length slots \<noteq> ?i" using False Cons.prems(2,3) by auto
    then have "slots2 ! (unat (start + of_nat k) mod length slots2) = Some c" using Cons.prems(2) h(2,3) by simp
    moreover have "k \<in> set ks" using Cons.prems(1) False Cons.prems(2,3) by auto
    moreover have "slots2 \<noteq> []" using h(2) Cons.prems(4) by auto
    ultimately obtain d slots' where "first_healthy alive start ks slots2 = (Some d, slots')" "alive d" "length slots' = length slots"
      using Cons.IH [of slots2] Cons.prems(3) h(2) by auto
    then show ?thesis using h(1) by (simp add: Let_def)
  qed
qed simp

lemma spread:
  assumes "0 < n" "i < n"
  shows "(s + (i + n - s mod n) mod n) mod n = (i :: nat)"
proof -
  have "s + (i + n - s mod n) = n * (s div n) + (i + n)" using assms(1) mult_div_mod_eq [of n s] mod_less_divisor [of n s] by linarith
  then have "(s + (i + n - s mod n)) mod n = i" using assms(2) by simp
  then show ?thesis by (simp add: mod_add_right_eq)
qed

lemma acquire_healthy:
  assumes "unat (po_next p) + length (po_slots p) \<le> 2 ^ 64" "Some c \<in> set (po_slots p)" "alive c"
  shows "\<exists>d slots. acquire alive established p = (Inr d, p\<lparr>po_next := po_next p + 1, po_slots := slots\<rparr>) \<and> alive d \<and> length slots = length (po_slots p)"
proof -
  let ?n = "length (po_slots p)"
  obtain i where i: "i < ?n" "po_slots p ! i = Some c" using assms(2) by (auto simp: in_set_conv_nth)
  define k where "k = (i + ?n - unat (po_next p) mod ?n) mod ?n"
  have n: "0 < ?n" using i(1) by linarith
  then have k: "k < ?n" by (simp add: k_def)
  have "unat (po_next p) + k < 2 ^ 64" using k assms(1) by linarith
  then have "unat (po_next p + of_nat k) = unat (po_next p) + k" by (simp add: unat_word_ariths unat_of_nat)
  moreover have "(unat (po_next p) + k) mod ?n = i" using spread [OF n i(1)] by (simp add: k_def)
  ultimately have "\<exists>d slots. first_healthy alive (po_next p) [0..<?n] (po_slots p) = (Some d, slots) \<and> alive d \<and> length slots = ?n"
    using first_healthy_finds [of k "[0..<?n]" "po_slots p" "po_next p" c alive] k n i assms(3) by fastforce
  then show ?thesis by (auto simp: acquire_def Let_def)
qed

subsection \<open>Replaying sessions and links\<close>

lemma bt_mid:
  assumes "bt_ok (xs @ (k, v) # ys)"
  shows "map_of (xs @ (k, v) # ys) k = Some v" "bt_insert k w (xs @ (k, v) # ys) = xs @ (k, w) # ys" "bt_ok (xs @ (k, w) # ys)"
proof -
  have "sorted_wrt (<) (map fst xs @ k # map fst ys)" using assms by (simp add: bt_ok_def)
  then have lt: "\<forall>e \<in> set xs. fst e < k" by (auto simp: sorted_wrt_append)
  then show "map_of (xs @ (k, v) # ys) k = Some v" by (induction xs) auto
  show "bt_insert k w (xs @ (k, v) # ys) = xs @ (k, w) # ys" using lt by (induction xs) auto
  show "bt_ok (xs @ (k, w) # ys)" using assms by (simp add: bt_ok_def)
qed

definition forget_handle :: "u32 \<times> logical_link \<Rightarrow> u32 \<times> logical_link" where
  "forget_handle = (\<lambda>(h, l). (h, l\<lparr>ll_real_handle := None\<rparr>))"

definition forget :: "u16 \<times> logical_session \<Rightarrow> u16 \<times> logical_session" where
  "forget = (\<lambda>(v, s). (v, s\<lparr>lg_real_channel := None, lg_links := map forget_handle (lg_links s)\<rparr>))"

definition new_channel :: "replay_env \<Rightarrow> u16 \<Rightarrow> u16" where
  "new_channel env v = fst (projr (answer_result (re_session env v)))"

definition relink :: "replay_env \<Rightarrow> u16 \<Rightarrow> u32 \<times> logical_link \<Rightarrow> u32 \<times> logical_link" where
  "relink env v = (\<lambda>(h, l). (h, l\<lparr>ll_real_handle := Some (fst (projr (answer_result (re_link env v h))))\<rparr>))"

definition renew :: "replay_env \<Rightarrow> u16 \<times> logical_session \<Rightarrow> u16 \<times> logical_session" where
  "renew env = (\<lambda>(v, s). (v, s\<lparr>lg_real_channel := Some (new_channel env v), lg_links := map (relink env v) (lg_links s)\<rparr>))"

definition attach_effect :: "u16 \<Rightarrow> u32 \<times> logical_link \<Rightarrow> sup_effect" where
  "attach_effect rc = (\<lambda>(_, l). DriverAttach rc (ll_attach l) (ll_credit_mode l))"

definition session_effects :: "replay_env \<Rightarrow> u16 \<times> logical_session \<Rightarrow> sup_effect list" where
  "session_effects env = (\<lambda>(v, s). DriverBegin (lg_begin s) # map (attach_effect (new_channel env v)) (lg_links s))"

definition link_taken :: "replay_env \<Rightarrow> u16 \<Rightarrow> u32 \<times> logical_link \<Rightarrow> bool" where
  "link_taken env v = (\<lambda>(h, _). \<not> isl (answer_result (re_link env v h)))"

definition session_taken :: "replay_env \<Rightarrow> u16 \<times> logical_session \<Rightarrow> bool" where
  "session_taken env = (\<lambda>(v, s). \<not> isl (answer_result (re_session env v)) \<and> list_all (link_taken env v) (lg_links s))"

lemma fst_forget [simp]: "map fst (map forget_handle ls) = map fst ls" "map fst (map (relink env v) ls) = map fst ls"
  by (auto simp: forget_handle_def relink_def)

lemma forget_relink [simp]: "forget_handle (relink env v e) = forget_handle e"
  by (cases e) (simp add: forget_handle_def relink_def)

lemma replay_links_ok:
  assumes "su_inner su" "su_sessions su = xs @ (v, s) # ys" "bt_ok (su_sessions su)" "lg_real_channel s = Some rc" "lg_links s = dn @ todo" "bt_ok (lg_links s)"
    and "replay_links env v (map fst todo) su = (ok, fx, su')"
  shows "ok = list_all (link_taken env v) todo \<and> (\<exists>todo'. su' = su\<lparr>su_sessions := xs @ (v, s\<lparr>lg_links := dn @ todo'\<rparr>) # ys\<rparr> \<and>
    map forget_handle todo' = map forget_handle todo \<and> (ok \<longrightarrow> todo' = map (relink env v) todo \<and> fx = map (attach_effect rc) todo))"
  using assms
proof (induction todo arbitrary: su s dn ok fx su')
  case Nil
  then show ?case by simp
next
  case (Cons e todo)
  obtain h l where e: "e = (h, l)" by fastforce
  have look: "map_of (su_sessions su) v = Some s" "map_of (lg_links s) h = Some l"
    using bt_mid(1) [of xs v s ys] bt_mid(1) [of dn h l todo] Cons.prems(2,3,5,6) by (simp_all add: e)
  show ?case
  proof (cases "answer_result (re_link env v h)")
    case (Inl x)
    then have "(ok, fx, su') = (False, [attach_effect rc e], su)"
      using Cons.prems(1,4,7) look by (simp add: e open_link_def attach_effect_def)
    moreover have "s\<lparr>lg_links := dn @ e # todo\<rparr> = s" unfolding Cons.prems(5) [symmetric] by simp
    then have "su = su\<lparr>su_sessions := xs @ (v, s\<lparr>lg_links := dn @ e # todo\<rparr>) # ys\<rparr>" unfolding Cons.prems(2) [symmetric] by (simp flip: Cons.prems(2))
    moreover have "\<not> link_taken env v e" by (simp add: e link_taken_def Inl)
    ultimately show ?thesis by (auto intro!: exI [of _ "e # todo"])
  next
    case (Inr x)
    obtain rh remote where x: "x = (rh, remote)" by fastforce
    define s1 where "s1 = s\<lparr>lg_links := (dn @ [relink env v e]) @ todo\<rparr>"
    define su1 where "su1 = su\<lparr>su_sessions := xs @ (v, s1) # ys\<rparr>"
    have re: "relink env v e = (h, l\<lparr>ll_real_handle := Some rh\<rparr>)" by (simp add: e relink_def Inr x)
    have upd: "with_link h (\<lambda>l. l\<lparr>ll_real_handle := Some rh\<rparr>) s = s1"
      using bt_mid(2) [of dn h l todo] look(2) Cons.prems(5,6) by (simp add: with_link_def e s1_def re [unfolded e])
    then have upd2: "with_session v (with_link h (\<lambda>l. l\<lparr>ll_real_handle := Some rh\<rparr>)) su = su1"
      using bt_mid(2) [of xs v s ys] look(1) Cons.prems(2,3) by (simp add: with_session_def su1_def)
    obtain ok1 fx1 su2 where r: "replay_links env v (map fst todo) su1 = (ok1, fx1, su2)" by (metis prod_cases3)
    have eq: "ok = ok1" "fx = attach_effect rc e # fx1" "su' = su2"
      using Cons.prems(1,4,7) look Inr r by (simp_all add: e open_link_def x upd2 attach_effect_def)
    have bt: "bt_ok (lg_links s1)" "bt_ok (su_sessions su1)"
      using bt_mid(3) [of dn h l todo] bt_mid(3) [of xs v s ys] Cons.prems(2,3,5,6) by (simp_all add: s1_def su1_def e re [unfolded e])
    have p1: "su_inner su1" "su_sessions su1 = xs @ (v, s1) # ys" "lg_real_channel s1 = Some rc" "lg_links s1 = (dn @ [relink env v e]) @ todo"
      using Cons.prems(1,4) by (simp_all add: su1_def s1_def)
    obtain todo' where t: "ok1 = list_all (link_taken env v) todo" "su2 = su1\<lparr>su_sessions := xs @ (v, s1\<lparr>lg_links := (dn @ [relink env v e]) @ todo'\<rparr>) # ys\<rparr>"
        "map forget_handle todo' = map forget_handle todo" "ok1 \<longrightarrow> todo' = map (relink env v) todo \<and> fx1 = map (attach_effect rc) todo"
      using Cons.IH [OF p1(1,2) bt(2) p1(3,4) bt(1) r] by blast
    have "link_taken env v e" by (simp add: e link_taken_def Inr)
    then show ?thesis using t eq by (auto simp: su1_def s1_def intro!: exI [of _ "relink env v e # todo'"])
  qed
qed

lemma forget_same_links: "map forget_handle ls = map forget_handle ls' \<Longrightarrow> map (relink env v) ls = map (relink env v) ls'"
proof -
  have "relink env v e = relink env v (forget_handle e)" for e by (cases e) (simp add: relink_def forget_handle_def)
  then have "map (relink env v) ls = map (relink env v) (map forget_handle ls)" for ls by (simp add: comp_def)
  then show "map forget_handle ls = map forget_handle ls' \<Longrightarrow> map (relink env v) ls = map (relink env v) ls'" by metis
qed

lemma replay_sessions_ok:
  assumes "su_inner su" "su_sessions su = dn @ todo" "bt_ok (su_sessions su)" "\<forall>(_, s) \<in> set todo. bt_ok (lg_links s)"
    and "replay_sessions env (map fst todo) su = (ok, fx, su')"
  shows "ok = list_all (session_taken env) todo \<and> (\<exists>todo'. su' = su\<lparr>su_sessions := dn @ todo'\<rparr> \<and>
    map forget todo' = map forget todo \<and> (ok \<longrightarrow> todo' = map (renew env) todo \<and> fx = concat (map (session_effects env) todo)))"
  using assms
proof (induction todo arbitrary: su dn ok fx su')
  case Nil
  then show ?case by simp
next
  case (Cons e todo)
  obtain v s where e: "e = (v, s)" by fastforce
  have look: "map_of (su_sessions su) v = Some s" using bt_mid(1) [of dn v s todo] Cons.prems(2,3) by (simp add: e)
  show ?case
  proof (cases "answer_result (re_session env v)")
    case (Inl x)
    then have "(ok, fx, su') = (False, [DriverBegin (lg_begin s)], su)" using Cons.prems(1,5) look by (simp add: e open_session_def)
    moreover have "su = su\<lparr>su_sessions := dn @ e # todo\<rparr>" unfolding Cons.prems(2) [symmetric] by simp
    moreover have "\<not> session_taken env e" by (simp add: e session_taken_def Inl)
    ultimately show ?thesis by (auto intro!: exI [of _ "e # todo"])
  next
    case (Inr x)
    obtain rc sid where x: "x = (rc, sid)" by fastforce
    have rc: "new_channel env v = rc" by (simp add: new_channel_def Inr x)
    define s1 where "s1 = s\<lparr>lg_real_channel := Some rc\<rparr>"
    define su1 where "su1 = su\<lparr>su_sessions := dn @ (v, s1) # todo\<rparr>"
    have upd: "with_session v (\<lambda>s. s\<lparr>lg_real_channel := Some rc\<rparr>) su = su1"
      using bt_mid(2) [of dn v s todo] look Cons.prems(2,3) by (simp add: with_session_def su1_def s1_def e)
    have bt1: "bt_ok (su_sessions su1)" using bt_mid(3) [of dn v s todo] Cons.prems(2,3) by (simp add: su1_def e)
    have look1: "map_of (su_sessions su1) v = Some s1" using bt_mid(1) [of dn v s1 todo] bt1 by (simp add: su1_def)
    obtain ok1 fx1 su2 where r: "replay_links env v (map fst (lg_links s1)) su1 = (ok1, fx1, su2)" by (metis prod_cases3)
    have p1: "su_inner su1" "su_sessions su1 = dn @ (v, s1) # todo" "lg_real_channel s1 = Some rc" "lg_links s1 = [] @ lg_links s1" "bt_ok (lg_links s1)"
      using Cons.prems(1,4) by (auto simp: su1_def s1_def e)
    obtain ls where l: "ok1 = list_all (link_taken env v) (lg_links s1)" "su2 = su1\<lparr>su_sessions := dn @ (v, s1\<lparr>lg_links := ls\<rparr>) # todo\<rparr>"
        "map forget_handle ls = map forget_handle (lg_links s1)" "ok1 \<longrightarrow> ls = map (relink env v) (lg_links s1) \<and> fx1 = map (attach_effect rc) (lg_links s1)"
      using replay_links_ok [OF p1(1,2) bt1 p1(3,4,5) r] by auto
    have fg: "forget (v, s1\<lparr>lg_links := ls\<rparr>) = forget e" using l(3) by (simp add: forget_def e s1_def)
    have opened: "open_session (re_session env v) v su = (Inr x, [DriverBegin (lg_begin s)], su1)"
      using Cons.prems(1) look Inr by (simp add: open_session_def x upd)
    show ?thesis
    proof (cases ok1)
      case False
      then have "(ok, fx, su') = (False, [DriverBegin (lg_begin s)] @ fx1, su2)" using Cons.prems(5) opened look1 r by (simp add: e)
      then show ?thesis using False l fg by (auto simp: e session_taken_def s1_def su1_def intro!: exI [of _ "(v, s1\<lparr>lg_links := ls\<rparr>) # todo"])
    next
      case True
      obtain ok2 fx2 su3 where r2: "replay_sessions env (map fst todo) su2 = (ok2, fx2, su3)" by (metis prod_cases3)
      have eq: "ok = ok2" "fx = [DriverBegin (lg_begin s)] @ fx1 @ fx2" "su' = su3" using Cons.prems(5) opened look1 r r2 True by (simp_all add: e)
      have p2: "su_inner su2" "su_sessions su2 = (dn @ [(v, s1\<lparr>lg_links := ls\<rparr>)]) @ todo" "bt_ok (su_sessions su2)"
        using p1(1) l(2) bt_mid(3) [of dn v s1 todo] bt1 by (simp_all add: su1_def)
      have p3: "\<forall>(_, s) \<in> set todo. bt_ok (lg_links s)" using Cons.prems(4) by simp
      obtain todo' where t: "ok2 = list_all (session_taken env) todo" "su3 = su2\<lparr>su_sessions := (dn @ [(v, s1\<lparr>lg_links := ls\<rparr>)]) @ todo'\<rparr>"
          "map forget todo' = map forget todo" "ok2 \<longrightarrow> todo' = map (renew env) todo \<and> fx2 = concat (map (session_effects env) todo)"
        using Cons.IH [OF p2 p3 r2] by blast
      have tk: "session_taken env e" using True l(1) Inr by (simp add: e session_taken_def s1_def)
      have rn: "(v, s1\<lparr>lg_links := ls\<rparr>) = renew env e" "[DriverBegin (lg_begin s)] @ fx1 = session_effects env e"
        using True l(4) by (simp_all add: renew_def session_effects_def e s1_def rc)
      have "su' = su\<lparr>su_sessions := dn @ ((v, s1\<lparr>lg_links := ls\<rparr>) # todo')\<rparr>" using t(2) l(2) by (simp add: eq su1_def)
      moreover have "map forget ((v, s1\<lparr>lg_links := ls\<rparr>) # todo') = map forget (e # todo)" using fg t(3) by simp
      moreover have "ok \<longrightarrow> (v, s1\<lparr>lg_links := ls\<rparr>) # todo' = map (renew env) (e # todo) \<and> fx = concat (map (session_effects env) (e # todo))"
        using t(4) rn eq by auto
      ultimately show ?thesis using t(1) tk eq(1) by auto
    qed
  qed
qed

end
