(* ===== verification/Client_Reconnect_Laws.thy ===== *)
theory Client_Reconnect_Laws
  imports Client_Resilience_Laws Session_State
begin

section \<open>The supervisor across connections\<close>

text \<open>
  In every run of the supervisor its tables stay ordered, a reconnection that ends restores exactly
  the sessions and links of the application, and each awaited transfer is answered once or in hand.
  A link or session that new connections refuse, however, keeps the supervisor reconnecting forever.
\<close>

subsection \<open>The tables stay ordered\<close>

definition sessions_ok :: "(u16, logical_session) btree \<Rightarrow> bool" where
  "sessions_ok ss \<longleftrightarrow> bt_ok ss \<and> (\<forall>(_, s) \<in> set ss. bt_ok (lg_links s))"

lemma sessions_ok_simps [simp]:
  "sessions_ok []"
  "sessions_ok ss \<Longrightarrow> bt_ok (lg_links s) \<Longrightarrow> sessions_ok (bt_insert v s ss)"
  "sessions_ok ss \<Longrightarrow> sessions_ok (bt_remove v ss)"
  by (auto simp: sessions_ok_def set_bt_insert bt_remove_def)

lemma sessions_ok_get: "sessions_ok ss \<Longrightarrow> map_of ss v = Some s \<Longrightarrow> bt_ok (lg_links s)"
  by (auto simp: sessions_ok_def dest!: map_of_SomeD)

lemma with_session_ok:
  "sessions_ok (su_sessions su) \<Longrightarrow> (\<And>s. bt_ok (lg_links s) \<Longrightarrow> bt_ok (lg_links (f s))) \<Longrightarrow> sessions_ok (su_sessions (with_session v f su))"
  by (auto simp: with_session_def sessions_ok_get split: option.splits)

lemma with_link_ok: "bt_ok (lg_links s) \<Longrightarrow> bt_ok (lg_links (with_link h f s))"
  by (auto simp: with_link_def split: option.splits)

lemma opened_ok:
  assumes "sessions_ok (su_sessions su)"
  shows "sessions_ok (su_sessions (snd (snd (open_session a v su))))" "sessions_ok (su_sessions (snd (snd (open_link b v h su))))"
  using assms by (auto simp: open_session_def open_link_def intro!: with_session_ok with_link_ok split: option.splits sum.splits prod.splits)

lemma send_transfer_sup_sessions [simp]: "su_sessions (snd (send_transfer_sup sent v h body settled mf st r su)) = su_sessions su"
  by (auto simp: send_transfer_sup_def split: option.splits)

lemma handle_command_sessions_ok:
  assumes "sessions_ok (su_sessions su)"
  shows "sessions_ok (su_sessions (snd (handle_command env c su)))"
proof (cases c)
  case (BeginSession beg ev r)
  let ?s = "\<lparr>lg_begin = beg, lg_events = ev, lg_real_channel = None, lg_links = [], lg_next_vhandle = 0\<rparr>"
  let ?su = "su\<lparr>su_next_vchan := su_next_vchan su + 1, su_sessions := bt_insert (su_next_vchan su) ?s (su_sessions su)\<rparr>"
  have "sessions_ok (su_sessions ?su)" using assms by simp
  from opened_ok(1) [OF this, of "ce_session env" "su_next_vchan su"] show ?thesis
    by (auto simp: BeginSession Let_def split: prod.splits sum.splits)
next
  case (AttachLink v att cm ev r)
  show ?thesis
  proof (cases "map_of (su_sessions su) v")
    case (Some s)
    let ?l = "\<lparr>ll_attach = att, ll_credit_mode = cm, ll_events = ev, ll_real_handle = None\<rparr>"
    let ?s = "s\<lparr>lg_next_vhandle := lg_next_vhandle s + 1, lg_links := bt_insert (lg_next_vhandle s) ?l (lg_links s)\<rparr>"
    let ?su = "su\<lparr>su_sessions := bt_insert v ?s (su_sessions su)\<rparr>"
    have "sessions_ok (su_sessions ?su)" using assms sessions_ok_get [OF assms Some] by simp
    from opened_ok(2) [OF this, of "ce_link env" v "lg_next_vhandle s"] show ?thesis
      by (auto simp: AttachLink Some Let_def intro!: with_session_ok split: prod.splits sum.splits)
  qed (use assms in \<open>simp add: AttachLink\<close>)
qed (use assms in \<open>auto simp: Let_def intro!: with_session_ok split: option.splits\<close>)

subsection \<open>What a reconnection keeps\<close>

lemma forget_handle_facts: "fst (forget_handle e) = fst e" "link_taken env v (forget_handle e) = link_taken env v e"
    "relink env v (forget_handle e) = relink env v e" "attach_effect rc (forget_handle e) = attach_effect rc e"
  by (cases e; simp add: forget_handle_def link_taken_def relink_def attach_effect_def)+

lemma forget_facts:
  "fst (forget e) = fst e" "bt_ok (lg_links (snd (forget e))) = bt_ok (lg_links (snd e))"
  "session_taken env (forget e) = session_taken env e" "renew env (forget e) = renew env e" "session_effects env (forget e) = session_effects env e"
  by (cases e; simp add: forget_def session_taken_def renew_def session_effects_def new_channel_def bt_ok_def comp_def forget_handle_facts list_all_length)+

lemma forget_renew: "forget (renew env e) = forget e"
  by (cases e) (simp add: forget_def renew_def comp_def)

lemma forget_same:
  assumes "map forget ss = map forget ss'"
  shows "sessions_ok ss = sessions_ok ss'" "list_all (session_taken env) ss = list_all (session_taken env) ss'"
    "map (renew env) ss = map (renew env) ss'" "map (session_effects env) ss = map (session_effects env) ss'"
proof -
  have "map fst (map forget ss) = map fst ss" "list_all (\<lambda>e. bt_ok (lg_links (snd e))) (map forget ss) = list_all (\<lambda>e. bt_ok (lg_links (snd e))) ss"
    "list_all (session_taken env) (map forget ss) = list_all (session_taken env) ss" "map (renew env) (map forget ss) = map (renew env) ss"
    "map (session_effects env) (map forget ss) = map (session_effects env) ss" for ss
    by (simp_all add: comp_def forget_facts list_all_length)
  note f = this
  have "sessions_ok ss \<longleftrightarrow> sorted_wrt (<) (map fst ss) \<and> list_all (\<lambda>e. bt_ok (lg_links (snd e))) ss" for ss
    by (auto simp: sessions_ok_def bt_ok_def list_all_iff)
  then show "sessions_ok ss = sessions_ok ss'" using f(1,2) assms by metis
  show "list_all (session_taken env) ss = list_all (session_taken env) ss'" "map (renew env) ss = map (renew env) ss'"
      "map (session_effects env) ss = map (session_effects env) ss'"
    using f(3-5) assms by metis+
qed

lemma replay_topology_ok:
  assumes "su_inner su" "sessions_ok (su_sessions su)" "replay_topology env su = (ok, fx, su')"
  shows "ok = list_all (session_taken env) (su_sessions su)"
    and "\<exists>ss. su' = su\<lparr>su_sessions := ss\<rparr> \<and> map forget ss = map forget (su_sessions su)"
    and "ok \<Longrightarrow> su' = su\<lparr>su_sessions := map (renew env) (su_sessions su)\<rparr> \<and> fx = concat (map (session_effects env) (su_sessions su))"
  using replay_sessions_ok [of su "[]" "su_sessions su" env ok fx su'] assms by (auto simp: sessions_ok_def replay_topology_def)

definition restored :: "(nat \<Rightarrow> error_kind + replay_env) \<Rightarrow> supervisor \<Rightarrow> sup_effect list \<Rightarrow> supervisor \<Rightarrow> bool" where
  "restored attempts su fx su' \<longleftrightarrow> (\<exists>j env before. attempts j = Inr env \<and> list_all (session_taken env) (su_sessions su) \<and>
    fx = before @ concat (map (session_effects env) (su_sessions su)) @ [Publish EvConnected] \<and>
    su' = su\<lparr>su_inner := True, su_sessions := map (renew env) (su_sessions su)\<rparr>)"

lemma restored_cons: "restored attempts su fx su' \<Longrightarrow> restored attempts su (f # fx) su'"
  unfolding restored_def by (metis append_Cons)

lemma restored_same:
  assumes "restored attempts (su\<lparr>su_sessions := ss, su_inner := False\<rparr>) fx su'" "map forget ss = map forget (su_sessions su)"
  shows "restored attempts su (fx0 @ fx) su'"
proof -
  obtain j env before where r: "attempts j = Inr env" "list_all (session_taken env) ss"
      "fx = before @ concat (map (session_effects env) ss) @ [Publish EvConnected]"
      "su' = su\<lparr>su_sessions := ss, su_inner := False\<rparr>\<lparr>su_inner := True, su_sessions := map (renew env) ss\<rparr>"
    using assms(1) by (auto simp: restored_def)
  then show ?thesis unfolding restored_def using forget_same(2-4) [OF assms(2), of env]
    by (intro exI [of _ j] exI [of _ env] exI [of _ "fx0 @ before"]) simp
qed

subsection \<open>Awaited transfers\<close>

text \<open>The reply tokens of awaited transfers: answered by effects, asked for by events, or in hand.\<close>

fun outcome_to :: "sup_effect \<Rightarrow> reply list" where
  "outcome_to (Answer r (AnsOutcome _)) = [r]"
| "outcome_to _ = []"

definition answered :: "sup_effect list \<Rightarrow> reply multiset" where
  "answered fx = mset (concat (map outcome_to fx))"

fun asked :: "sup_event \<Rightarrow> reply multiset" where
  "asked (Command _ (SendTransfer _ _ _ _ _ _ (Some r))) = {#r#}"
| "asked _ = {#}"

definition in_hand :: "supervisor \<Rightarrow> reply multiset" where
  "in_hand su = mset (map rq_reply (su_waiting su)) + mset (map rq_reply (su_replay su))"

lemma answered_simps [simp]: "answered [] = {#}" "answered (f # fx) = mset (outcome_to f) + answered fx" "answered (fx @ fx') = answered fx + answered fx'"
  by (simp_all add: answered_def)

lemma with_session_same [simp]:
  "su_waiting (with_session v f su) = su_waiting su" "su_replay (with_session v f su) = su_replay su" "su_stopping (with_session v f su) = su_stopping su"
  "su_inner (with_session v f su) = su_inner su"
  by (simp_all add: with_session_def split: option.splits)

lemma opened_quiet:
  "open_session a v su = (r, fx, su') \<Longrightarrow> answered fx = {#} \<and> in_hand su' = in_hand su \<and> su_stopping su' = su_stopping su \<and> su_inner su' = su_inner su"
  "open_link b v h su = (r', fx, su') \<Longrightarrow> answered fx = {#} \<and> in_hand su' = in_hand su \<and> su_stopping su' = su_stopping su \<and> su_inner su' = su_inner su"
  by (auto simp: open_session_def open_link_def in_hand_def split: option.splits sum.splits prod.splits if_splits)

lemma replay_links_quiet: "replay_links env v hs su = (ok, fx, su') \<Longrightarrow> answered fx = {#}"
proof (induction hs arbitrary: su ok fx su')
  case (Cons h hs)
  obtain r fx1 su1 where o: "open_link (re_link env v h) v h su = (r, fx1, su1)" by (metis prod_cases3)
  then show ?case using Cons opened_quiet(2) [OF o] by (auto split: sum.splits prod.splits)
qed simp

lemma replay_sessions_quiet: "replay_sessions env vs su = (ok, fx, su') \<Longrightarrow> answered fx = {#}"
proof (induction vs arbitrary: su ok fx su')
  case (Cons v vs)
  obtain r fx1 su1 where o: "open_session (re_session env v) v su = (r, fx1, su1)" by (metis prod_cases3)
  show ?case
  proof (cases r)
    case (Inr x)
    obtain ok2 fx2 su2 where l: "replay_links env v (case map_of (su_sessions su1) v of None \<Rightarrow> [] | Some s \<Rightarrow> map fst (lg_links s)) su1 = (ok2, fx2, su2)"
      by (metis prod_cases3)
    then show ?thesis using Cons opened_quiet(1) [OF o] replay_links_quiet [OF l] o Inr by (auto simp: Let_def split: prod.splits if_splits)
  qed (use Cons opened_quiet(1) [OF o] o in auto)
qed simp

lemma send_transfer_sup_conserves:
  "answered (fst (send_transfer_sup sent v h body settled mf st r su)) + in_hand (snd (send_transfer_sup sent v h body settled mf st r su)) =
    in_hand su + (case r of None \<Rightarrow> {#} | Some t \<Rightarrow> {#t#})"
  "su_inner (snd (send_transfer_sup sent v h body settled mf st r su)) = su_inner su"
  by (auto simp: send_transfer_sup_def in_hand_def split: option.splits)

lemma handle_command_conserves:
  "answered (fst (handle_command env c su)) + in_hand (snd (handle_command env c su)) = in_hand su + asked (Command env c)"
proof (cases c)
  case (BeginSession beg ev r)
  then show ?thesis by (auto simp: Let_def split: prod.splits sum.splits dest!: opened_quiet(1)) (auto simp: in_hand_def)
next
  case (AttachLink v att cm ev r)
  then show ?thesis by (auto simp: Let_def split: option.splits prod.splits sum.splits dest!: opened_quiet(2)) (auto simp: in_hand_def)
next
  case (SendTransfer v h body settled mf st r)
  then show ?thesis using send_transfer_sup_conserves(1) [of "ce_sent env" v h body settled mf st r su] by (cases r) auto
qed (auto simp: Let_def in_hand_def split: option.splits)

lemma handle_command_inner: "su_inner (snd (handle_command env c su)) = su_inner su"
proof (cases c)
  case (BeginSession beg ev r)
  then show ?thesis by (auto simp: Let_def split: prod.splits sum.splits dest!: opened_quiet(1))
next
  case (AttachLink v att cm ev r)
  then show ?thesis by (auto simp: Let_def split: option.splits prod.splits sum.splits dest!: opened_quiet(2))
qed (auto simp: Let_def send_transfer_sup_conserves split: option.splits)

subsection \<open>What a reconnection returns\<close>

definition kept :: "(nat \<Rightarrow> error_kind + replay_env) \<Rightarrow> supervisor \<Rightarrow> sup_effect list \<Rightarrow> supervisor \<Rightarrow> bool" where
  "kept attempts su fx su' \<longleftrightarrow> (\<exists>ss. map forget ss = map forget (su_sessions su) \<and>
    su' = su\<lparr>su_sessions := ss, su_inner := su_inner su', su_stopping := su_stopping su'\<rparr>) \<and> answered fx = {#} \<and>
    ((\<exists>j e. attempts j = Inl e) \<and> su_stopping su' \<or> restored attempts su fx su')"

lemma kept_stop: "attempts j = Inl e \<Longrightarrow> answered fx = {#} \<Longrightarrow> kept attempts su fx (su\<lparr>su_stopping := True\<rparr>)"
  by (auto simp: kept_def)

lemma kept_more:
  assumes "kept attempts (su\<lparr>su_sessions := ss, su_inner := False\<rparr>) fx su'" "map forget ss = map forget (su_sessions su)" "answered fx0 = {#}"
  shows "kept attempts su (fx0 @ fx) su'"
  using assms restored_same [of attempts ss su fx su' fx0] by (auto simp: kept_def)

lemma kept_cons: "kept attempts su fx su' \<Longrightarrow> kept attempts su (Publish ev # fx) su'"
  using restored_cons [of attempts su fx su'] by (auto simp: kept_def)

lemma kept_now:
  assumes "attempts j = Inr env" "list_all (session_taken env) (su_sessions su)"
    "answered (concat (map (session_effects env) (su_sessions su))) = {#}"
  shows "kept attempts su (Publish ev # concat (map (session_effects env) (su_sessions su)) @ [Publish EvConnected])
    (su\<lparr>su_inner := True, su_sessions := map (renew env) (su_sessions su)\<rparr>)"
proof -
  have "map forget (map (renew env) (su_sessions su)) = map forget (su_sessions su)" by (simp add: forget_renew)
  then have "\<exists>ss. map forget ss = map forget (su_sessions su) \<and> su\<lparr>su_inner := True, su_sessions := map (renew env) (su_sessions su)\<rparr> =
      su\<lparr>su_sessions := ss, su_inner := True, su_stopping := su_stopping su\<rparr>" by (intro exI [of _ "map (renew env) (su_sessions su)"]) simp
  moreover have "restored attempts su (Publish ev # concat (map (session_effects env) (su_sessions su)) @ [Publish EvConnected])
      (su\<lparr>su_inner := True, su_sessions := map (renew env) (su_sessions su)\<rparr>)"
    unfolding restored_def using assms by (intro exI [of _ j] exI [of _ env] exI [of _ "[Publish ev]"]) simp
  ultimately show ?thesis using assms(3) by (simp add: kept_def)
qed

lemma reconnect_loop_keeps:
  assumes "reconnect_loop attempts i seed b su = Some y" "sessions_ok (su_sessions su)" "\<not> su_stopping su"
  shows "kept attempts su (fst y) (snd y)"
  using assms
proof (induction rule: reconnect_loop.raw_induct [rotated, consumes 1, case_names step])
  case (step rec attempts i seed b su y)
  note run = step(2) and ok = step(3) and go = step(4)
  show ?case
  proof (cases "attempts i")
    case (Inl e)
    show ?thesis
    proof (cases "is_retryable e")
      case True
      then consider (panic) "next_delay seed b = None" | (spent) b' seed' where "next_delay seed b = Some (None, b', seed')"
        | (again) d b' seed' where "next_delay seed b = Some (Some d, b', seed')"
        by (metis option.exhaust prod_cases3)
      then show ?thesis
      proof cases
        case again
        then obtain fx1 su1 where r: "rec attempts (Suc i) seed' b' su = Some (fx1, su1)" "y = (Publish (EvReconnecting (bk_attempt b + 1)) # fx1, su1)"
          using run go Inl True by (auto simp: Let_def bind_eq_Some_conv)
        then show ?thesis using kept_cons [OF step(1) [OF r(1) ok go]] by simp
      qed (use run go Inl True kept_stop [of attempts i e, OF Inl] in \<open>auto simp: Let_def give_up_def\<close>)
    qed (use run go Inl kept_stop [of attempts i e, OF Inl] in \<open>auto simp: Let_def give_up_def\<close>)
  next
    case (Inr env)
    obtain good fx1 su1 where t: "replay_topology env (su\<lparr>su_inner := True\<rparr>) = (good, fx1, su1)" by (metis prod_cases3)
    note tk = replay_topology_ok [OF _ _ t, simplified, OF ok]
    show ?thesis
    proof (cases good)
      case True
      then have "y = (Publish (EvReconnecting (bk_attempt b + 1)) # fx1 @ [Publish EvConnected], su1)" using run go Inr t by (simp add: Let_def)
      moreover have "su1 = su\<lparr>su_inner := True, su_sessions := map (renew env) (su_sessions su)\<rparr>" "fx1 = concat (map (session_effects env) (su_sessions su))"
          "list_all (session_taken env) (su_sessions su)"
        using tk(1) tk(3) [OF True] True by simp_all
      moreover have "answered fx1 = {#}" using t by (auto simp: replay_topology_def dest: replay_sessions_quiet)
      ultimately show ?thesis using kept_now [of attempts i env su, OF Inr] go by simp
    next
      case False
      obtain ss where ss: "su1 = su\<lparr>su_inner := True, su_sessions := ss\<rparr>" "map forget ss = map forget (su_sessions su)" using tk(2) by auto
      obtain fx2 su2 where r: "rec attempts (Suc i) seed b (su1\<lparr>su_inner := False\<rparr>) = Some (fx2, su2)"
          "y = ((Publish (EvReconnecting (bk_attempt b + 1)) # fx1) @ fx2, su2)"
        using run go Inr t False by (auto simp: Let_def bind_eq_Some_conv)
      have "kept attempts (su\<lparr>su_sessions := ss, su_inner := False\<rparr>) fx2 su2"
        using step(1) [OF r(1)] go ok ss forget_same(1) [OF ss(2)] by simp
      moreover have "answered (Publish (EvReconnecting (bk_attempt b + 1)) # fx1) = {#}" using t by (auto simp: replay_topology_def dest: replay_sessions_quiet)
      ultimately show ?thesis unfolding r(2) fst_conv snd_conv by (rule kept_more [OF _ ss(2)])
    qed
  qed
qed

lemma reconnect_loop_ends:
  assumes "backoff_ok b" "limited b" "sessions_ok (su_sessions su)"
    and "\<And>j env. n \<le> j \<Longrightarrow> attempts j = Inr env \<Longrightarrow> list_all (session_taken env) (su_sessions su)"
  shows "\<exists>y. reconnect_loop attempts i seed b su = Some y"
  using assms
proof (induction "budget b + (n - i)" arbitrary: i seed b su rule: less_induct)
  case less
  note unfold = reconnect_loop.simps [of attempts i seed b su]
  show ?case
  proof (cases "attempts i")
    case (Inl e)
    show ?thesis
    proof (cases "exhausted b")
      case True
      then show ?thesis using Inl next_delay_exhausted [OF True, of seed] by (simp add: unfold Let_def give_up_def)
    next
      case False
      then obtain d b' seed' where n: "next_delay seed b = Some (Some d, b', seed')" "backoff_ok b'" "bk_policy b' = bk_policy b" "bk_attempt b' = bk_attempt b + 1"
        using next_delay_ok [OF less.prems(1) False, of seed] by blast
      note st = budget_step [OF less.prems(2) False n(3,4)]
      have "budget b' + (n - Suc i) < budget b + (n - i)" using st(1) by linarith
      then obtain y where "reconnect_loop attempts (Suc i) seed' b' su = Some y" using less.hyps [of b' "Suc i" su seed'] st(2) n(2) less.prems(3,4) by blast
      then show ?thesis using Inl n(1) by (cases y) (simp add: unfold Let_def give_up_def)
    qed
  next
    case (Inr env)
    obtain good fx1 su1 where t: "replay_topology env (su\<lparr>su_inner := True\<rparr>) = (good, fx1, su1)" by (metis prod_cases3)
    note tk = replay_topology_ok [OF _ _ t, simplified, OF less.prems(3)]
    show ?thesis
    proof (cases good)
      case False
      obtain ss where ss: "su1 = su\<lparr>su_inner := True, su_sessions := ss\<rparr>" "map forget ss = map forget (su_sessions su)" using tk(2) by auto
      have "i < n" using less.prems(4) [of i env] Inr False tk(1) by (meson not_le_imp_less)
      moreover have "sessions_ok ss" "\<And>j env. n \<le> j \<Longrightarrow> attempts j = Inr env \<Longrightarrow> list_all (session_taken env) ss"
        using forget_same(1,2) [OF ss(2)] less.prems(3,4) by simp_all
      moreover from \<open>i < n\<close> have "budget b + (n - Suc i) < budget b + (n - i)" by linarith
      ultimately obtain y where "reconnect_loop attempts (Suc i) seed b (su1\<lparr>su_inner := False\<rparr>) = Some y"
        using less.hyps [of b "Suc i" "su1\<lparr>su_inner := False\<rparr>" seed] less.prems(1,2) ss(1) by (simp del: split_paired_Ex) blast
      then show ?thesis using Inr t False by (cases y) (simp add: unfold Let_def)
    qed (use Inr t in \<open>simp add: unfold Let_def\<close>)
  qed
qed

lemma reconnect_loop_spins:
  assumes "reconnect_loop attempts i seed b su = Some y" "sessions_ok (su_sessions su)" "\<not> su_stopping su"
    and "\<forall>j. \<exists>env. attempts j = Inr env \<and> \<not> list_all (session_taken env) (su_sessions su)"
  shows False
  using assms
proof (induction rule: reconnect_loop.raw_induct [rotated, consumes 1, case_names step])
  case (step rec attempts i seed b su y)
  obtain env where env: "attempts i = Inr env" "\<not> list_all (session_taken env) (su_sessions su)" using step(5) by blast
  obtain good fx1 su1 where t: "replay_topology env (su\<lparr>su_inner := True\<rparr>) = (good, fx1, su1)" by (metis prod_cases3)
  note tk = replay_topology_ok [OF _ _ t, simplified, OF step(3)]
  obtain ss where ss: "su1 = su\<lparr>su_inner := True, su_sessions := ss\<rparr>" "map forget ss = map forget (su_sessions su)" using tk(2) by auto
  obtain fx2 su2 where r: "rec attempts (Suc i) seed b (su1\<lparr>su_inner := False\<rparr>) = Some (fx2, su2)"
    using step(2,4) env t tk(1) by (auto simp: Let_def bind_eq_Some_conv)
  show ?case using step(1) [OF r] step(3,4,5) ss forget_same(1,2) [OF ss(2)] by simp
qed

subsection \<open>Runs of the supervisor\<close>

lemma on_death_keeps:
  assumes "on_death seed attempts su = Some (fx, su')" "sessions_ok (su_sessions su)" "\<not> su_stopping su"
  shows "kept attempts (su\<lparr>su_inner := False\<rparr>) fx su'"
  using assms by (auto simp: on_death_def bind_eq_Some_conv intro!: kept_cons dest: reconnect_loop_keeps)

lemma on_death_result:
  assumes "on_death seed attempts su = Some (fx, su')" "sessions_ok (su_sessions su)" "\<not> su_stopping su"
  shows "(\<exists>j e. attempts j = Inl e) \<and> su_stopping su' \<or> restored attempts su fx su'"
proof -
  have "restored attempts (su\<lparr>su_inner := False\<rparr>) fx su' = restored attempts su fx su'" by (simp add: restored_def)
  then show ?thesis using on_death_keeps [OF assms] by (simp add: kept_def)
qed

lemma kept_facts:
  assumes "kept attempts su fx su'"
  shows "answered fx = {#}" "in_hand su' = in_hand su" "sessions_ok (su_sessions su) \<Longrightarrow> sessions_ok (su_sessions su')"
    "su_inner su' \<or> su_stopping su'"
proof -
  obtain ss where ss: "map forget ss = map forget (su_sessions su)" "su' = su\<lparr>su_sessions := ss, su_inner := su_inner su', su_stopping := su_stopping su'\<rparr>"
    using assms by (auto simp: kept_def)
  show "answered fx = {#}" using assms by (simp add: kept_def)
  show "in_hand su' = in_hand su" by (subst ss(2)) (simp add: in_hand_def)
  show "su_inner su' \<or> su_stopping su'" using assms by (auto simp: kept_def restored_def)
  show "sessions_ok (su_sessions su) \<Longrightarrow> sessions_ok (su_sessions su')" using forget_same(1) [OF ss(1)] by (subst ss(2)) simp
qed

lemma take_drop_mset:
  "k < length xs \<Longrightarrow> add_mset (f (xs ! k)) (image_mset f (mset (take k xs)) + image_mset f (mset (drop (Suc k) xs))) = image_mset f (mset xs)"
proof -
  assume "k < length xs"
  then have "mset (map f xs) = mset (map f (take k xs @ xs ! k # drop (Suc k) xs))" by (simp flip: id_take_nth_drop)
  then show ?thesis by simp
qed

lemma sup_step_facts:
  assumes "sup_step e su = Some (fx, su')" "sessions_ok (su_sessions su)" "\<not> su_stopping su" "su_inner su"
  shows "sessions_ok (su_sessions su')" "answered fx + in_hand su' = in_hand su + asked e" "su_inner su' \<or> su_stopping su'"
proof -
  have "sessions_ok (su_sessions su') \<and> (su_inner su' \<or> su_stopping su') \<and> answered fx + in_hand su' = in_hand su + asked e"
  proof (cases e)
    case (DriverDied seed attempts)
    then have "kept attempts (su\<lparr>su_inner := False\<rparr>) fx su'" using assms on_death_keeps by simp
    from kept_facts [OF this] show ?thesis using assms(2) DriverDied by (simp add: in_hand_def)
  next
    case (Command env c)
    then show ?thesis using assms handle_command_conserves [of env c su] handle_command_sessions_ok [of su env c] handle_command_inner [of env c su] by (auto simp del: asked.simps)
  next
    case (Replay sent)
    show ?thesis
    proof (cases "su_replay su")
      case (Cons r rs)
      let ?out = "send_transfer_sup sent (rq_vchan r) (rq_vhandle r) (rq_body r) (rq_settled r) (rq_message_format r) (rq_state r) (Some (rq_reply r)) (su\<lparr>su_replay := rs\<rparr>)"
      have out: "fx = fst ?out" "su' = snd ?out" using assms(1,3) Replay Cons by simp_all
      have "answered fx + in_hand su' = in_hand (su\<lparr>su_replay := rs\<rparr>) + {#rq_reply r#}" unfolding out send_transfer_sup_conserves(1) by simp
      moreover have "in_hand su = in_hand (su\<lparr>su_replay := rs\<rparr>) + {#rq_reply r#}" by (simp add: in_hand_def Cons)
      ultimately show ?thesis using assms(2,4) Replay by (simp add: out send_transfer_sup_conserves(2))
    qed (use assms Replay in simp)
  qed (use assms in \<open>auto simp: shutdown_sup_def in_hand_def take_drop_mset split: if_splits\<close>)
  then show "sessions_ok (su_sessions su')" "answered fx + in_hand su' = in_hand su + asked e" "su_inner su' \<or> su_stopping su'" by blast+
qed

lemma handle_command_stops: "su_stopping su \<Longrightarrow> sup_step e su = Some (fx, su') \<Longrightarrow> su_stopping su'"
  by (cases e) (auto split: if_splits)

lemma sup_run_facts:
  assumes "sup_run es su = Some (fx, su')" "sessions_ok (su_sessions su)" "su_inner su \<or> su_stopping su" "\<not> su_stopping su'"
  shows "\<not> su_stopping su \<and> su_inner su' \<and> sessions_ok (su_sessions su') \<and> answered fx + in_hand su' = in_hand su + (\<Sum>e \<leftarrow> es. asked e)"
  using assms
proof (induction es arbitrary: su fx)
  case (Cons e es)
  obtain fx1 su1 fx2 where r: "sup_step e su = Some (fx1, su1)" "sup_run es su1 = Some (fx2, su')" "fx = fx1 @ fx2"
    using Cons.prems(1) by (auto simp: bind_eq_Some_conv)
  have go: "\<not> su_stopping su"
  proof
    assume st: "su_stopping su"
    have "su_stopping su2 \<Longrightarrow> sup_run es2 su2 = Some (fx', su3) \<Longrightarrow> su_stopping su3" for es2 su2 fx' su3
      by (induction es2 arbitrary: su2 fx') (auto simp: bind_eq_Some_conv dest: handle_command_stops)
    then show False using handle_command_stops [OF st r(1)] r(2) Cons.prems(4) by blast
  qed
  then have "su_inner su" using Cons.prems(3) by simp
  note f = sup_step_facts [OF r(1) Cons.prems(2) go this]
  show ?case using Cons.IH [OF r(2) f(1,3) Cons.prems(4)] f(2) go r(3) by (simp add: ac_simps)
qed simp

lemma new_supervisor_facts [simp]: "sessions_ok (su_sessions (new_supervisor p))" "in_hand (new_supervisor p) = {#}"
    "su_waiting (new_supervisor p) = []" "su_replay (new_supervisor p) = []" "su_inner (new_supervisor p)"
  by (simp_all add: new_supervisor_def in_hand_def)

text \<open>An application that opens a session and a link and awaits the outcome of one transfer.\<close>

definition some_policy :: reconnect_config where
  "some_policy = \<lparr>rc_enabled = True, rc_max_retries = Some 3, rc_initial_backoff = 1 / 10, rc_max_backoff = 30, rc_multiplier = 2, rc_jitter = 0\<rparr>"

definition some_app :: "sup_event list" where
  "some_app = map (Command \<lparr>ce_session = Answered (Inr (5, 1)), ce_link = Answered (Inr (6, default_attach)), ce_sent = True\<rparr>)
    [BeginSession default_begin 0 1, AttachLink 0 default_attach Manual 0 2, SendTransfer 0 0 [42] False 0 None (Some 3)]"

definition some_driver :: "bool \<Rightarrow> replay_env" where
  "some_driver takes = \<lparr>re_session = \<lambda>_. Answered (Inr (7, 2)), re_link = \<lambda>_ _. if takes then Answered (Inr (8, default_attach)) else Answered (Inl KDetached)\<rparr>"

definition some_state :: supervisor where
  "some_state = \<lparr>su_reconnect = some_policy, su_inner = True,
    su_sessions = [(0, \<lparr>lg_begin = default_begin, lg_events = 0, lg_real_channel = Some 5,
      lg_links = [(0, \<lparr>ll_attach = default_attach, ll_credit_mode = Manual, ll_events = 0, ll_real_handle = Some 6\<rparr>)], lg_next_vhandle = 1\<rparr>)],
    su_next_vchan = 1, su_stopping = False,
    su_waiting = [\<lparr>rq_vchan = 0, rq_vhandle = 0, rq_body = [42], rq_settled = False, rq_message_format = 0, rq_state = None, rq_reply = 3\<rparr>], su_replay = []\<rparr>"

lemma some_run: "\<exists>fx. sup_run some_app (new_supervisor some_policy) = Some (fx, some_state)"
  by (simp add: some_app_def new_supervisor_def some_state_def open_session_def open_link_def with_session_def with_link_def send_transfer_sup_def real_ids_def Let_def)

lemma some_reconnect:
  "\<exists>fx. sup_step (DriverDied 0 (\<lambda>_. Inr (some_driver True))) some_state = Some (fx, some_state\<lparr>su_sessions := map (renew (some_driver True)) (su_sessions some_state)\<rparr>)"
  by (simp add: some_state_def on_death_def reconnect_loop.simps replay_topology_def some_driver_def open_session_def open_link_def with_session_def with_link_def
    Let_def renew_def relink_def new_channel_def)

text \<open>
  C15: in every run of the supervisor that has not stopped, across any number of lost connections,
  the transfers whose outcome the application awaits are, with multiplicity, those answered, those
  awaited from a driver and those queued for replay: none is dropped and none is answered twice.
\<close>

theorem awaited_sends_conserved:
  assumes "sup_run es (new_supervisor p) = Some (fx, su)" "\<not> su_stopping su"
  shows "(\<Sum>e \<leftarrow> es. asked e) = answered fx + mset (map rq_reply (su_waiting su)) + mset (map rq_reply (su_replay su))"
  using sup_run_facts [OF assms(1) _ _ assms(2)] by (simp add: in_hand_def ac_simps)

theorem awaited_sends_conserved_witness:
  "\<exists>fx su. sup_run (some_app @ [DriverDied 0 (\<lambda>_. Inr (some_driver True)), TaskLost 0, Replay True, TaskOutcome 0 (Inr (SAccepted ()))]) (new_supervisor some_policy) = Some (fx, su) \<and>
    answered fx = {#3#}"
proof -
  let ?es = "[DriverDied 0 (\<lambda>_. Inr (some_driver True)), TaskLost 0, Replay True, TaskOutcome 0 (Inr (SAccepted ()))]"
  have append: "sup_run (xs @ ys) su = Option.bind (sup_run xs su) (\<lambda>(fx, su). Option.bind (sup_run ys su) (\<lambda>(fx', su). Some (fx @ fx', su)))" for xs ys su
    by (induction xs arbitrary: su) (auto split: Option.bind_splits)
  obtain fx1 fx2 where r: "sup_run some_app (new_supervisor some_policy) = Some (fx1, some_state)"
      "sup_step (DriverDied 0 (\<lambda>_. Inr (some_driver True))) some_state = Some (fx2, some_state\<lparr>su_sessions := map (renew (some_driver True)) (su_sessions some_state)\<rparr>)"
    using some_run some_reconnect by blast
  obtain fx3 su where e: "sup_run ?es some_state = Some (fx3, su)" "su_waiting su = []" "su_replay su = []" "\<not> su_stopping su"
    using r(2) by (simp add: send_transfer_sup_def real_ids_def some_state_def renew_def relink_def del: sup_step.simps(3))
  have run: "sup_run (some_app @ ?es) (new_supervisor some_policy) = Some (fx1 @ fx3, su)" by (simp only: append r(1) e(1) bind.bind_lunit prod.case)
  have "(\<Sum>e \<leftarrow> some_app @ ?es. asked e) = {#3#}" by (simp add: some_app_def)
  then have "answered (fx1 @ fx3) = {#3#}" using awaited_sends_conserved [OF run e(4)] e(2,3) by simp
  then show ?thesis using run by blast
qed



text \<open>
  C35: when every attempt establishes a connection on which some session or link of the application
  is refused, the reconnection never ends, whatever the retry budget.
\<close>

theorem refused_link_reconnects_forever:
  assumes "sup_run es (new_supervisor p) = Some (fx0, su)" "\<not> su_stopping su"
    and "\<forall>j. \<exists>env. attempts j = Inr env \<and> \<not> list_all (session_taken env) (su_sessions su)"
  shows "sup_step (DriverDied seed attempts) su = None"
proof -
  have ok: "sessions_ok (su_sessions su)" and up: "su_inner su" using sup_run_facts [OF assms(1) _ _ assms(2)] by simp_all
  have "reconnect_loop attempts 0 seed (new_backoff (su_reconnect su)) (su\<lparr>su_inner := False\<rparr>) = None"
  proof (rule ccontr)
    assume "\<not> ?thesis"
    then obtain y where "reconnect_loop attempts 0 seed (new_backoff (su_reconnect su)) (su\<lparr>su_inner := False\<rparr>) = Some y" by auto
    then show False by (rule reconnect_loop_spins) (use ok assms(2,3) in simp_all)
  qed
  then show ?thesis using assms(2) up by (simp add: on_death_def)
qed

theorem refused_link_reconnects_forever_witness:
  "sup_step (DriverDied 0 (\<lambda>_. Inr (some_driver False))) some_state = None"
proof -
  obtain fx0 where "sup_run some_app (new_supervisor some_policy) = Some (fx0, some_state)" using some_run by blast
  moreover have "\<not> list_all (session_taken (some_driver False)) (su_sessions some_state)"
    by (simp add: some_state_def session_taken_def link_taken_def some_driver_def)
  ultimately show ?thesis using refused_link_reconnects_forever [of some_app some_policy fx0 some_state "\<lambda>_. Inr (some_driver False)" 0]
    by (simp add: some_state_def)
qed

end
