(* ===== verification/Broker_Registry.thy ===== *)
theory Broker_Registry
  imports Broker_Txn
begin

section \<open>The queue registry (\<open>ramqp-broker/src/registry.rs\<close>)\<close>

text \<open>
  Resolving an address to a queue, which is declared on first use. Resolutions run concurrently:
  each holds the lock of the map only for single lookups and changes, and initializes a queue in a
  cell that admits one initializer at a time. A resolution is a task whose steps are its atomic
  sections; a run interleaves the steps of any number of tasks in any order. What an initialization
  makes of a queue is in the theories of the queues; here it yields a fresh mailbox or fails.
\<close>

subsection \<open>Names and keys\<close>

text \<open>\<open>char::is_control\<close> on UTF-8: the ASCII controls, and U+0080 to U+009F in two bytes.\<close>

fun has_control :: "utf8 \<Rightarrow> bool" where
  "has_control [] = False"
| "has_control [b] = (b < 32 \<or> b = 127)"
| "has_control (b # c # bs) = (b < 32 \<or> b = 127 \<or> (b = 0xC2 \<and> 0x80 \<le> c \<and> c \<le> 0x9F) \<or> has_control (c # bs))"

definition valid_name :: "utf8 \<Rightarrow> bool" where
  "valid_name s \<longleftrightarrow> 47 \<notin> set s \<and> \<not> has_control s"

definition qualified_name :: "utf8 \<Rightarrow> utf8 \<Rightarrow> utf8" where
  "qualified_name vhost bare = (if vhost = [] then bare else vhost @ ascii ''/'' @ bare)"

definition queue_key :: "queue_kind \<Rightarrow> utf8 \<Rightarrow> utf8" where
  "queue_key kind name = (case kind of
      Transient \<Rightarrow> ascii ''t:'' @ name
    | Quorum \<Rightarrow> ascii ''q:'' @ name
    | Durable \<Rightarrow> ascii ''d:'' @ name)"

text \<open>The key a client's address has in its vhost, and the one of the broker's own addresses.\<close>

definition resolve_in :: "utf8 \<Rightarrow> utf8 \<Rightarrow> utf8 option" where
  "resolve_in vhost address = (case parse_address address of
      None \<Rightarrow> None
    | Some (kind, bare) \<Rightarrow>
        if \<not> valid_name bare \<or> \<not> valid_name vhost then None else Some (queue_key kind (qualified_name vhost bare)))"

definition resolve_internal :: "utf8 \<Rightarrow> utf8 option" where
  "resolve_internal address = (case parse_address address of None \<Rightarrow> None | Some (kind, name) \<Rightarrow> Some (queue_key kind name))"

subsection \<open>The map of queues and the tasks\<close>

type_synonym cell = nat

record registry_config =
  gc_max_queues :: nat
  gc_max_queues_per_vhost :: nat

text \<open>
  \<open>LookUp n\<close>: \<open>n\<close> tries left; \<open>Await\<close>: at the cell; \<open>Check\<close>: has the cell's permit; \<open>Initialize\<close>:
  makes the queue; \<open>Evict\<close>: its initialization failed; \<open>Inspect\<close>: has a handle.
\<close>

datatype resolve_pc =
    LookUp nat
  | Await cell nat
  | Check cell nat
  | Initialize cell nat
  | Evict cell
  | Inspect cell mailbox nat
  | Resolved "mailbox option"

record resolve_task =
  rt_key :: utf8
  rt_vhost :: utf8
  rt_pc :: resolve_pc

record registry =
  rg_map :: "(utf8 \<times> cell) list"
  rg_values :: "cell \<Rightarrow> mailbox option"
  rg_permits :: "cell \<Rightarrow> bool"
  rg_next_cell :: cell
  rg_next_mailbox :: mailbox
  rg_closed :: "mailbox list"
  rg_tasks :: "resolve_task list"

definition new_registry :: registry where
  "new_registry = \<lparr>rg_map = [], rg_values = (\<lambda>_. None), rg_permits = (\<lambda>_. True), rg_next_cell = 0, rg_next_mailbox = 0,
    rg_closed = [], rg_tasks = []\<rparr>"

text \<open>The keys of a vhost: the part after the kind begins with \<open><vhost>/\<close>.\<close>

definition key_in_vhost :: "utf8 \<Rightarrow> utf8 \<Rightarrow> bool" where
  "key_in_vhost vhost key =
    (let rest = dropWhile (\<lambda>b. b \<noteq> 58) key
     in rest \<noteq> [] \<and> strip_prefix (vhost @ ascii ''/'') (tl rest) \<noteq> None)"

definition count_vhost_queues :: "(utf8 \<times> cell) list \<Rightarrow> utf8 \<Rightarrow> nat" where
  "count_vhost_queues m vhost = length (filter (\<lambda>(key, _). key_in_vhost vhost key) m)"

definition remove_key :: "utf8 \<Rightarrow> (utf8 \<times> cell) list \<Rightarrow> (utf8 \<times> cell) list" where
  "remove_key key m = filter (\<lambda>e. fst e \<noteq> key) m"

definition may_declare :: "registry_config \<Rightarrow> utf8 \<Rightarrow> registry \<Rightarrow> bool" where
  "may_declare cfg vhost r \<longleftrightarrow>
    (gc_max_queues cfg = 0 \<or> length (rg_map r) < gc_max_queues cfg) \<and>
    (vhost = [] \<or> gc_max_queues_per_vhost cfg = 0 \<or> count_vhost_queues (rg_map r) vhost < gc_max_queues_per_vhost cfg)"

text \<open>One atomic section of a resolution; \<open>made\<close> says whether an initialization succeeds.\<close>

definition resolve_step :: "registry_config \<Rightarrow> bool \<Rightarrow> resolve_task \<Rightarrow> registry \<Rightarrow> resolve_pc \<times> registry" where
  "resolve_step cfg made t r = (case rt_pc t of
      LookUp 0 \<Rightarrow> (Resolved None, r)
    | LookUp (Suc n) \<Rightarrow>
        (case map_of (rg_map r) (rt_key t) of
           Some c \<Rightarrow> (Await c n, r)
         | None \<Rightarrow>
             if may_declare cfg (rt_vhost t) r
             then (Await (rg_next_cell r) n, r\<lparr>rg_map := (rt_key t, rg_next_cell r) # rg_map r, rg_next_cell := Suc (rg_next_cell r)\<rparr>)
             else (Resolved None, r))
    | Await c n \<Rightarrow>
        (case rg_values r c of
           Some h \<Rightarrow> (Inspect c h n, r)
         | None \<Rightarrow> if rg_permits r c then (Check c n, r\<lparr>rg_permits := (rg_permits r)(c := False)\<rparr>) else (Await c n, r))
    | Check c n \<Rightarrow>
        if map_of (rg_map r) (rt_key t) = Some c then (Initialize c n, r)
        else (LookUp n, r\<lparr>rg_permits := (rg_permits r)(c := True)\<rparr>)
    | Initialize c n \<Rightarrow>
        let r = r\<lparr>rg_permits := (rg_permits r)(c := True)\<rparr>
        in if made
           then (Inspect c (rg_next_mailbox r) n,
                 r\<lparr>rg_values := (rg_values r)(c := Some (rg_next_mailbox r)), rg_next_mailbox := Suc (rg_next_mailbox r)\<rparr>)
           else (Evict c, r)
    | Evict c \<Rightarrow>
        (Resolved None,
         if map_of (rg_map r) (rt_key t) = Some c \<and> rg_values r c = None then r\<lparr>rg_map := remove_key (rt_key t) (rg_map r)\<rparr> else r)
    | Inspect c h n \<Rightarrow>
        if h \<in> set (rg_closed r)
        then (LookUp n, if map_of (rg_map r) (rt_key t) = Some c then r\<lparr>rg_map := remove_key (rt_key t) (rg_map r)\<rparr> else r)
        else (Resolved (Some h), r)
    | Resolved h \<Rightarrow> (Resolved h, r))"

datatype registry_event =
    Arrive utf8 utf8
  | Proceed nat bool
  | ActorEnds mailbox

fun registry_step :: "registry_config \<Rightarrow> registry_event \<Rightarrow> registry \<Rightarrow> registry" where
  "registry_step cfg (Arrive key vhost) r = r\<lparr>rg_tasks := rg_tasks r @ [\<lparr>rt_key = key, rt_vhost = vhost, rt_pc = LookUp 3\<rparr>]\<rparr>"
| "registry_step cfg (Proceed i made) r =
    (if i < length (rg_tasks r)
     then let (pc, r) = resolve_step cfg made (rg_tasks r ! i) r
          in r\<lparr>rg_tasks := (rg_tasks r)[i := (rg_tasks r ! i)\<lparr>rt_pc := pc\<rparr>]\<rparr>
     else r)"
| "registry_step cfg (ActorEnds h) r = r\<lparr>rg_closed := h # rg_closed r\<rparr>"

definition registry_run :: "registry_config \<Rightarrow> registry_event list \<Rightarrow> registry \<Rightarrow> registry" where
  "registry_run cfg es r = fold (registry_step cfg) es r"

subsection \<open>Tenants\<close>

lemma queue_key_inject: "queue_key k n = queue_key k' n' \<longleftrightarrow> k = k' \<and> n = n'"
  by (cases k; cases k') (simp_all add: queue_key_def ascii_def)

lemma qualified_name_inject:
  assumes "47 \<notin> set b" "47 \<notin> set b'" "47 \<notin> set v" "47 \<notin> set v'"
  shows "qualified_name v b = qualified_name v' b' \<longleftrightarrow> v = v' \<and> b = b'"
proof -
  have slash: "ascii ''/'' = [47]" by (simp add: ascii_def)
  have "v @ 47 # b = v' @ 47 # b' \<longleftrightarrow> v = v' \<and> b = b'"
    using assms by (metis append_Cons_eq_iff)
  then show ?thesis using assms by (auto simp: qualified_name_def slash)
qed

text \<open>
  C0: clients of different vhosts never share a queue, and within a vhost two addresses lead to the
  same queue exactly when they have the same kind and name: the keys of valid addresses are equal
  only if the vhosts, kinds and names are.
\<close>

theorem tenants_isolated:
  assumes "resolve_in v a = Some key" "resolve_in v' a' = Some key"
  shows "v = v' \<and> parse_address a = parse_address a'"
  using assms qualified_name_inject
  by (auto simp: resolve_in_def valid_name_def queue_key_inject split: option.splits if_splits)

theorem tenants_isolated_witness:
  "resolve_in (ascii ''a'') (ascii ''/queues/q'') = resolve_in (ascii ''a'') (ascii ''q'') \<and>
   resolve_in (ascii ''a'') (ascii ''/queues/q'') \<noteq> None \<and> parse_address (ascii ''/queues/q'') = parse_address (ascii ''q'')"
proof -
  have *: "resolve_in (ascii ''a'') (ascii ''/queues/q'') = Some (ascii ''t:a/q'')" "resolve_in (ascii ''a'') (ascii ''q'') = Some (ascii ''t:a/q'')"
    by (simp_all add: resolve_in_def parse_address_def strip_prefix_def ascii_def valid_name_def queue_key_def qualified_name_def)
  with tenants_isolated [OF *] show ?thesis by simp
qed

subsection \<open>Limits\<close>

lemma remove_key_facts: "length (remove_key key m) \<le> length m" "count_vhost_queues (remove_key key m) v \<le> count_vhost_queues m v"
    "map_of (remove_key key m) k = (if k = key then None else map_of m k)" "set (remove_key key m) \<subseteq> set m"
    "distinct (map fst m) \<Longrightarrow> distinct (map fst (remove_key key m))" "distinct (map snd m) \<Longrightarrow> distinct (map snd (remove_key key m))"
proof -
  show "length (remove_key key m) \<le> length m" "set (remove_key key m) \<subseteq> set m" by (auto simp: remove_key_def)
  show "map_of (remove_key key m) k = (if k = key then None else map_of m k)" by (induction m) (auto simp: remove_key_def)
  show "distinct (map fst m) \<Longrightarrow> distinct (map fst (remove_key key m))" "distinct (map snd m) \<Longrightarrow> distinct (map snd (remove_key key m))"
    by (simp_all add: remove_key_def distinct_map_filter)
  show "count_vhost_queues (remove_key key m) v \<le> count_vhost_queues m v" by (induction m) (auto simp: count_vhost_queues_def remove_key_def)
qed

definition within_limits :: "registry_config \<Rightarrow> registry \<Rightarrow> bool" where
  "within_limits cfg r \<longleftrightarrow> gc_max_queues cfg \<noteq> 0 \<longrightarrow> length (rg_map r) \<le> gc_max_queues cfg"

lemma resolve_step_limits:
  assumes "within_limits cfg r" "resolve_step cfg made t r = (pc, r')"
  shows "within_limits cfg r'" "rg_tasks r' = rg_tasks r"
  using assms remove_key_facts(1) [of "rt_key t" "rg_map r"]
  by (auto simp: within_limits_def resolve_step_def may_declare_def Let_def split: resolve_pc.splits nat.splits option.splits if_splits)

lemma registry_run_limits: "within_limits cfg r \<Longrightarrow> within_limits cfg (registry_run cfg es r)"
proof (induction es arbitrary: r)
  case (Cons e es)
  have "within_limits cfg (registry_step cfg e r)"
    using Cons.prems resolve_step_limits [OF Cons.prems]
    by (cases e) (auto simp: Let_def within_limits_def split: prod.splits)
  then show ?case using Cons.IH by (simp add: registry_run_def)
qed (simp add: registry_run_def)

subsection \<open>One queue for a key\<close>

fun holds_permit :: "cell \<Rightarrow> resolve_pc \<Rightarrow> bool" where
  "holds_permit c (Check c' _) = (c' = c)"
| "holds_permit c (Initialize c' _) = (c' = c)"
| "holds_permit c _ = False"

definition cell_key :: "registry \<Rightarrow> utf8 \<Rightarrow> cell \<Rightarrow> bool" where
  "cell_key r key c \<longleftrightarrow> c < rg_next_cell r \<and> (\<forall>k. map_of (rg_map r) k = Some c \<longrightarrow> k = key)"

fun pc_ok :: "registry \<Rightarrow> utf8 \<Rightarrow> resolve_pc \<Rightarrow> bool" where
  "pc_ok r key (LookUp n) = True"
| "pc_ok r key (Await c n) = cell_key r key c"
| "pc_ok r key (Check c n) = (cell_key r key c \<and> rg_values r c = None)"
| "pc_ok r key (Initialize c n) = (cell_key r key c \<and> rg_values r c = None \<and> map_of (rg_map r) key = Some c)"
| "pc_ok r key (Evict c) = False"
| "pc_ok r key (Inspect c h n) = (cell_key r key c \<and> rg_values r c = Some h \<and> (h \<in> set (rg_closed r) \<or> map_of (rg_map r) key = Some c))"
| "pc_ok r key (Resolved None) = True"
| "pc_ok r key (Resolved (Some h)) = (h \<in> set (rg_closed r) \<or> (\<exists>c. map_of (rg_map r) key = Some c \<and> rg_values r c = Some h))"

definition map_ok :: "registry \<Rightarrow> bool" where
  "map_ok r \<longleftrightarrow> distinct (map fst (rg_map r)) \<and> distinct (map snd (rg_map r)) \<and> (\<forall>e \<in> set (rg_map r). snd e < rg_next_cell r) \<and>
    (\<forall>c. rg_next_cell r \<le> c \<longrightarrow> rg_values r c = None) \<and>
    (\<forall>c h. rg_values r c = Some h \<longrightarrow> h \<in> set (rg_closed r) \<or> c \<in> snd ` set (rg_map r))"

definition holders :: "resolve_task list \<Rightarrow> cell \<Rightarrow> nat" where
  "holders ts c = length (filter (\<lambda>t. holds_permit c (rt_pc t)) ts)"

definition reg_ok :: "registry \<Rightarrow> resolve_task list \<Rightarrow> bool" where
  "reg_ok r ts \<longleftrightarrow> map_ok r \<and> (\<forall>t \<in> set ts. pc_ok r (rt_key t) (rt_pc t)) \<and>
    (\<forall>c. holders ts c \<le> (if rg_permits r c then 0 else 1))"

lemma cell_key_frame [simp]: "cell_key (r\<lparr>rg_permits := p\<rparr>) key c = cell_key r key c" "cell_key (r\<lparr>rg_values := v\<rparr>) key c = cell_key r key c"
    "cell_key (r\<lparr>rg_next_mailbox := n\<rparr>) key c = cell_key r key c"
  by (simp_all add: cell_key_def)

lemma pc_ok_permits [simp]: "pc_ok (r\<lparr>rg_permits := p\<rparr>) key pc = pc_ok r key pc"
  by (induction r key pc rule: pc_ok.induct) simp_all

lemma pc_ok_closed: "pc_ok r key pc \<Longrightarrow> pc_ok (r\<lparr>rg_closed := h # rg_closed r\<rparr>) key pc"
  by (induction r key pc rule: pc_ok.induct) (auto simp: cell_key_def)

lemma cell_key_declare:
  "cell_key r key c \<Longrightarrow> cell_key (r\<lparr>rg_map := (k, rg_next_cell r) # rg_map r, rg_next_cell := Suc (rg_next_cell r)\<rparr>) key c"
  by (auto simp: cell_key_def)

lemma pc_ok_declare:
  assumes "pc_ok r key pc" "map_of (rg_map r) k = None"
  shows "pc_ok (r\<lparr>rg_map := (k, rg_next_cell r) # rg_map r, rg_next_cell := Suc (rg_next_cell r)\<rparr>) key pc"
proof -
  have "map_of (rg_map r) key = Some c \<Longrightarrow> key \<noteq> k" for c using assms(2) by auto
  then show ?thesis using assms(1) by (cases "(r, key, pc)" rule: pc_ok.cases) (auto simp: cell_key_declare)
qed

lemma pc_ok_made:
  assumes "pc_ok r key pc" "rg_values r c = None" "\<not> holds_permit c pc"
  shows "pc_ok (r\<lparr>rg_permits := p, rg_values := (rg_values r)(c := Some h), rg_next_mailbox := n\<rparr>) key pc"
  using assms by (induction r key pc rule: pc_ok.induct) (auto simp: cell_key_def)

lemma cell_key_remove: "cell_key r key c \<Longrightarrow> cell_key (r\<lparr>rg_map := remove_key k (rg_map r)\<rparr>) key c"
  by (simp add: cell_key_def remove_key_facts(3))

lemma pc_ok_dead:
  assumes "pc_ok r key pc" "map_of (rg_map r) k = Some c" "rg_values r c = Some h" "h \<in> set (rg_closed r)"
  shows "pc_ok (r\<lparr>rg_map := remove_key k (rg_map r)\<rparr>) key pc"
proof -
  have "map_of (rg_map r) key = Some d \<Longrightarrow> rg_values r d \<noteq> Some h \<Longrightarrow> key \<noteq> k" for d using assms(2,3) by auto
  then show ?thesis using assms by (cases "(r, key, pc)" rule: pc_ok.cases) (auto simp: cell_key_remove remove_key_facts(3))
qed

lemma map_ok_steps:
  assumes "map_ok r"
  shows "map_ok (r\<lparr>rg_permits := p\<rparr>)" "map_ok (r\<lparr>rg_closed := h # rg_closed r\<rparr>)"
    "map_of (rg_map r) k = None \<Longrightarrow> map_ok (r\<lparr>rg_map := (k, rg_next_cell r) # rg_map r, rg_next_cell := Suc (rg_next_cell r)\<rparr>)"
    "map_of (rg_map r) k = Some c \<Longrightarrow> map_ok (r\<lparr>rg_permits := p, rg_values := (rg_values r)(c := Some h), rg_next_mailbox := n\<rparr>)"
    "map_of (rg_map r) k = Some c \<Longrightarrow> rg_values r c = Some h \<Longrightarrow> h \<in> set (rg_closed r) \<Longrightarrow> map_ok (r\<lparr>rg_map := remove_key k (rg_map r)\<rparr>)"
proof -
  show "map_ok (r\<lparr>rg_permits := p\<rparr>)" "map_ok (r\<lparr>rg_closed := h # rg_closed r\<rparr>)" using assms by (auto simp: map_ok_def)
  show "map_of (rg_map r) k = None \<Longrightarrow> map_ok (r\<lparr>rg_map := (k, rg_next_cell r) # rg_map r, rg_next_cell := Suc (rg_next_cell r)\<rparr>)"
    using assms by (fastforce simp: map_ok_def map_of_eq_None_iff)
  have c: "c \<in> snd ` set (rg_map r) \<and> c < rg_next_cell r" if "map_of (rg_map r) k = Some c"
    using map_of_SomeD [OF that] assms by (force simp: map_ok_def)
  then show "map_of (rg_map r) k = Some c \<Longrightarrow> map_ok (r\<lparr>rg_permits := p, rg_values := (rg_values r)(c := Some h), rg_next_mailbox := n\<rparr>)"
    using assms unfolding map_ok_def by simp
  assume k: "map_of (rg_map r) k = Some c" "rg_values r c = Some h" "h \<in> set (rg_closed r)"
  have "c' \<in> snd ` set (remove_key k (rg_map r))" if c': "c' \<in> snd ` set (rg_map r)" "c' \<noteq> c" for c'
  proof -
    obtain k' where k': "(k', c') \<in> set (rg_map r)" using c'(1) by force
    then have "map_of (rg_map r) k' = Some c'" using assms by (simp add: map_ok_def)
    then have "k' \<noteq> k" using k(1) c'(2) by auto
    then show ?thesis using k' by (force simp: remove_key_def)
  qed
  moreover have "h' \<in> set (rg_closed r)" if "rg_values r c = Some h'" for h' using that k(2,3) by simp
  ultimately have "h' \<in> set (rg_closed r) \<or> c' \<in> snd ` set (remove_key k (rg_map r))" if "rg_values r c' = Some h'" for c' h'
    using that assms unfolding map_ok_def by metis
  then show "map_ok (r\<lparr>rg_map := remove_key k (rg_map r)\<rparr>)"
    using assms remove_key_facts(4) [of k "rg_map r"] remove_key_facts(5,6) [of "rg_map r" k] unfolding map_ok_def by (auto simp del: split_paired_All)
qed

lemma reg_ok_split:
  "reg_ok r (xs @ t # ys) \<longleftrightarrow> map_ok r \<and> pc_ok r (rt_key t) (rt_pc t) \<and> (\<forall>u \<in> set xs \<union> set ys. pc_ok r (rt_key u) (rt_pc u)) \<and>
    (\<forall>c. holders (xs @ ys) c + (if holds_permit c (rt_pc t) then 1 else 0) \<le> (if rg_permits r c then 0 else 1))"
  by (auto simp: reg_ok_def holders_def)

lemma holders_none: "holders ts c = 0 \<Longrightarrow> u \<in> set ts \<Longrightarrow> \<not> holds_permit c (rt_pc u)"
  by (auto simp: holders_def filter_empty_conv)

lemma reg_ok_move:
  assumes "map_ok r'" "pc_ok r' (rt_key t) pc" "\<And>u. u \<in> set xs \<union> set ys \<Longrightarrow> pc_ok r' (rt_key u) (rt_pc u)"
    and "\<And>c. holders (xs @ ys) c + (if holds_permit c pc then 1 else 0) \<le> (if rg_permits r' c then 0 else 1)"
  shows "reg_ok r' (xs @ t\<lparr>rt_pc := pc\<rparr> # ys)"
  unfolding reg_ok_split using assms by simp

lemma resolve_step_ok:
  assumes "reg_ok r (xs @ t # ys)" "resolve_step cfg True t r = (pc, r')"
  shows "reg_ok r' (xs @ t\<lparr>rt_pc := pc\<rparr> # ys)"
proof -
  have m: "map_ok r" and self: "pc_ok r (rt_key t) (rt_pc t)" and ok: "\<And>u. u \<in> set xs \<union> set ys \<Longrightarrow> pc_ok r (rt_key u) (rt_pc u)"
    and ex: "\<And>c. holders (xs @ ys) c + (if holds_permit c (rt_pc t) then 1 else 0) \<le> (if rg_permits r c then 0 else 1)"
    using assms(1) unfolding reg_ok_split by blast+
  have ex': "holders (xs @ ys) c \<le> (if rg_permits r c then 0 else 1)" for c using ex [of c] by linarith
  have one: "rg_permits r c \<Longrightarrow> holders (xs @ ys) c = 0" "holders (xs @ ys) c \<le> Suc 0" for c using ex' [of c] by (auto split: if_splits)
  have stay: "reg_ok r (xs @ t\<lparr>rt_pc := q\<rparr> # ys)" if "pc_ok r (rt_key t) q" "\<And>c. \<not> holds_permit c q" for q
    by (rule reg_ok_move [OF m that(1) ok]) (use ex' that(2) in simp_all)
  show ?thesis
  proof (cases "rt_pc t")
    case (LookUp n)
    show ?thesis
    proof (cases "map_of (rg_map r) (rt_key t)")
      case None
      let ?r = "r\<lparr>rg_map := (rt_key t, rg_next_cell r) # rg_map r, rg_next_cell := Suc (rg_next_cell r)\<rparr>"
      have "cell_key ?r (rt_key t) (rg_next_cell r)" using m by (force simp: cell_key_def map_ok_def dest: map_of_SomeD)
      then have "reg_ok ?r (xs @ t\<lparr>rt_pc := Await (rg_next_cell r) k\<rparr> # ys)" for k
        using ex' by (intro reg_ok_move [OF map_ok_steps(3) [OF m None] _ pc_ok_declare [OF ok None]]) simp_all
      then show ?thesis using assms(2) LookUp None stay [of "Resolved None"] by (auto simp: resolve_step_def split: nat.splits if_splits)
    next
      case (Some c)
      have "cell_key r (rt_key t) c" using m Some by (force simp: cell_key_def map_ok_def distinct_map inj_on_def dest: map_of_SomeD)
      then show ?thesis using assms(2) LookUp Some stay by (auto simp: resolve_step_def split: nat.splits)
    qed
  next
    case (Await c n)
    show ?thesis
    proof (cases "rg_values r c")
      case None
      have "reg_ok (r\<lparr>rg_permits := (rg_permits r)(c := False)\<rparr>) (xs @ t\<lparr>rt_pc := Check c n\<rparr> # ys)" if "rg_permits r c"
      proof (rule reg_ok_move)
        fix d
        show "holders (xs @ ys) d + (if holds_permit d (Check c n) then 1 else 0) \<le> (if rg_permits (r\<lparr>rg_permits := (rg_permits r)(c := False)\<rparr>) d then 0 else 1)"
          using ex' [of d] that by (auto split: if_splits)
      qed (use m self ok None Await map_ok_steps(1) in simp_all)
      moreover have "t\<lparr>rt_pc := Await c n\<rparr> = t" using Await by (cases t) simp
      ultimately show ?thesis using assms Await None by (auto simp: resolve_step_def split: if_splits)
    next
      case (Some h)
      have "h \<in> set (rg_closed r) \<or> map_of (rg_map r) (rt_key t) = Some c"
      proof (cases "h \<in> set (rg_closed r)")
        case False
        then obtain k where "(k, c) \<in> set (rg_map r)" using m Some unfolding map_ok_def by (metis imageE prod.collapse)
        then have "map_of (rg_map r) k = Some c" using m by (simp add: map_ok_def)
        then show ?thesis using self Await by (auto simp: cell_key_def)
      qed simp
      then show ?thesis using assms(2) Await Some self stay [of "Inspect c h n"] by (auto simp: resolve_step_def)
    qed
  next
    case (Check c n)
    have "holders (xs @ ys) c = 0" using ex [of c] Check by (simp split: if_splits)
    then have free: "reg_ok (r\<lparr>rg_permits := (rg_permits r)(c := True)\<rparr>) (xs @ t\<lparr>rt_pc := LookUp n\<rparr> # ys)"
      using m ok one map_ok_steps(1) by (intro reg_ok_move) simp_all
    have "reg_ok r (xs @ t\<lparr>rt_pc := Initialize c n\<rparr> # ys)" if "map_of (rg_map r) (rt_key t) = Some c"
      by (rule reg_ok_move [OF m]) (use ok self that Check ex in auto)
    then show ?thesis using free assms(2) Check by (auto simp: resolve_step_def split: if_splits)
  next
    case (Initialize c n)
    have none: "holders (xs @ ys) c = 0" using ex [of c] Initialize by (simp split: if_splits)
    have free: "\<not> holds_permit c (rt_pc u)" if "u \<in> set xs \<union> set ys" for u using holders_none [OF none] that by simp
    have c: "rg_values r c = None" "map_of (rg_map r) (rt_key t) = Some c" "cell_key r (rt_key t) c" using self Initialize by simp_all
    let ?r = "r\<lparr>rg_permits := (rg_permits r)(c := True), rg_values := (rg_values r)(c := Some (rg_next_mailbox r)), rg_next_mailbox := Suc (rg_next_mailbox r)\<rparr>"
    have "pc_ok ?r (rt_key t) (Inspect c (rg_next_mailbox r) n)" using c(2,3) by simp
    then have "reg_ok ?r (xs @ t\<lparr>rt_pc := Inspect c (rg_next_mailbox r) n\<rparr> # ys)"
      by (rule reg_ok_move [OF map_ok_steps(4) [OF m c(2)] _ pc_ok_made [OF ok c(1) free]]) (use one none in simp_all)
    then show ?thesis using assms(2) Initialize by (auto simp: resolve_step_def Let_def)
  next
    case (Inspect c h n)
    then have c: "rg_values r c = Some h" using self by simp
    have "reg_ok (r\<lparr>rg_map := remove_key (rt_key t) (rg_map r)\<rparr>) (xs @ t\<lparr>rt_pc := LookUp n\<rparr> # ys)"
      if "h \<in> set (rg_closed r)" "map_of (rg_map r) (rt_key t) = Some c"
      using ex' by (intro reg_ok_move [OF map_ok_steps(5) [OF m that(2) c that(1)] _ pc_ok_dead [OF ok that(2) c that(1)]]) simp_all
    then show ?thesis using assms(2) Inspect self stay [of "LookUp n"] stay [of "Resolved (Some h)"] by (auto simp: resolve_step_def split: if_splits)
  next
    case (Evict c)
    then show ?thesis using self by simp
  next
    case (Resolved h)
    then show ?thesis using assms self stay [of "Resolved h"] by (auto simp: resolve_step_def)
  qed
qed

lemma reg_ok_tasks [simp]: "reg_ok (r\<lparr>rg_tasks := ts'\<rparr>) ts = reg_ok r ts"
proof -
  have "pc_ok (r\<lparr>rg_tasks := ts'\<rparr>) key pc = pc_ok r key pc" for key pc
    by (cases "(r, key, pc)" rule: pc_ok.cases) (simp_all add: cell_key_def)
  then show ?thesis by (simp add: reg_ok_def map_ok_def)
qed

fun initialized :: "registry_event \<Rightarrow> bool" where
  "initialized (Proceed i made) = made"
| "initialized _ = True"

lemma registry_step_ok:
  assumes "reg_ok r (rg_tasks r)" "initialized e"
  shows "reg_ok (registry_step cfg e r) (rg_tasks (registry_step cfg e r))"
proof (cases e)
  case (Arrive key vhost)
  have "reg_ok r (rg_tasks r @ [\<lparr>rt_key = key, rt_vhost = vhost, rt_pc = LookUp 3\<rparr>])" using assms(1) by (simp add: reg_ok_def holders_def)
  then show ?thesis using Arrive by simp
next
  case (ActorEnds h)
  then show ?thesis using assms map_ok_steps(2) [of r h] by (simp add: reg_ok_def pc_ok_closed)
next
  case (Proceed i made)
  show ?thesis
  proof (cases "i < length (rg_tasks r)")
    case True
    let ?t = "rg_tasks r ! i"
    obtain pc r' where st: "resolve_step cfg True ?t r = (pc, r')" by fastforce
    have ts: "rg_tasks r = take i (rg_tasks r) @ ?t # drop (Suc i) (rg_tasks r)" using True by (rule id_take_nth_drop)
    then have "reg_ok r' (take i (rg_tasks r) @ ?t\<lparr>rt_pc := pc\<rparr> # drop (Suc i) (rg_tasks r))"
      using assms(1) resolve_step_ok [OF _ st] by metis
    moreover have "rg_tasks r' = rg_tasks r" using st
      by (auto simp: resolve_step_def Let_def split: resolve_pc.splits nat.splits option.splits if_splits)
    ultimately show ?thesis using assms(2) Proceed True st by (simp add: upd_conv_take_nth_drop Let_def)
  qed (use assms Proceed in simp)
qed

lemma registry_run_ok: "reg_ok r (rg_tasks r) \<Longrightarrow> list_all initialized es \<Longrightarrow> reg_ok (registry_run cfg es r) (rg_tasks (registry_run cfg es r))"
proof (induction es arbitrary: r)
  case (Cons e es)
  then show ?case using registry_step_ok [of r e cfg] by (simp add: registry_run_def)
qed (simp add: registry_run_def)

text \<open>
  C0: however resolutions interleave and actors end, as long as no initialization fails a queue is
  never declared twice: two resolutions of the same key that have returned handles of running
  actors have returned the same one, and the number of queues stays within its limit.
\<close>

theorem registry_unique_queue:
  assumes "list_all initialized es" "r = registry_run cfg es new_registry"
    and "t \<in> set (rg_tasks r)" "t' \<in> set (rg_tasks r)" "rt_key t = rt_key t'" "rt_pc t = Resolved (Some h)" "rt_pc t' = Resolved (Some h')"
    and "h \<notin> set (rg_closed r)" "h' \<notin> set (rg_closed r)"
  shows "h = h' \<and> (gc_max_queues cfg \<noteq> 0 \<longrightarrow> length (rg_map r) \<le> gc_max_queues cfg)"
proof -
  have "reg_ok new_registry (rg_tasks new_registry)" by (simp add: reg_ok_def new_registry_def map_ok_def holders_def)
  from registry_run_ok [OF this assms(1), of cfg] have ok: "reg_ok r (rg_tasks r)" using assms(2) by simp
  have "pc_ok r (rt_key t) (rt_pc t)" "pc_ok r (rt_key t') (rt_pc t')" using ok assms(3,4) by (simp_all add: reg_ok_def)
  then have "h = h'" using assms(5-9) by auto
  moreover have "within_limits cfg new_registry" by (simp add: within_limits_def new_registry_def)
  from registry_run_limits [OF this, of es] have "within_limits cfg r" using assms(2) by simp
  ultimately show ?thesis by (simp add: within_limits_def)
qed

definition race_prefix :: "registry_event list" where
  "race_prefix = [Arrive (ascii ''d:q'') [], Arrive (ascii ''d:q'') [], Proceed 0 True, Proceed 0 True, Proceed 1 True, Proceed 0 True]"

theorem registry_unique_queue_witness:
  "let r = registry_run \<lparr>gc_max_queues = 1, gc_max_queues_per_vhost = 0\<rparr>
      (race_prefix @ [Proceed 0 True, Proceed 0 True, Proceed 1 True, Proceed 1 True]) new_registry
   in map rt_pc (rg_tasks r) = [Resolved (Some 0), Resolved (Some 0)] \<and> length (rg_map r) \<le> 1"
proof -
  let ?cfg = "\<lparr>gc_max_queues = 1, gc_max_queues_per_vhost = 0\<rparr>"
  let ?es = "race_prefix @ [Proceed 0 True, Proceed 0 True, Proceed 1 True, Proceed 1 True]"
  let ?r = "registry_run ?cfg ?es new_registry"
  have pcs: "map rt_pc (rg_tasks ?r) = [Resolved (Some 0), Resolved (Some 0)]" "rg_closed ?r = []"
    by (simp_all add: registry_run_def race_prefix_def new_registry_def resolve_step_def may_declare_def Let_def numeral_3_eq_3)
  then obtain t t' where t: "rg_tasks ?r = [t, t']" "rt_pc t = Resolved (Some 0)" by (auto simp: map_eq_Cons_conv)
  have "list_all initialized ?es" by (simp add: race_prefix_def)
  from registry_unique_queue [OF this refl, of t ?cfg t 0 0] t pcs(2) have "length (rg_map ?r) \<le> 1" by simp
  with pcs show ?thesis by simp
qed

text \<open>
  C0: one failed initialization is enough to split a queue. The failing resolution gives the cell
  free before it evicts it; a waiting one finds the cell still in the map and initializes it, then
  the eviction finds no value yet and removes the cell, and the next resolution declares the queue
  again: two running actors serve the same key.
\<close>

theorem failed_init_splits_queue:
  "let r = registry_run \<lparr>gc_max_queues = 0, gc_max_queues_per_vhost = 0\<rparr>
      (race_prefix @ [Proceed 0 False, Proceed 1 True, Proceed 1 True, Proceed 0 True, Proceed 1 True, Proceed 1 True,
        Arrive (ascii ''d:q'') [], Proceed 2 True, Proceed 2 True, Proceed 2 True, Proceed 2 True, Proceed 2 True]) new_registry
   in map rt_key (rg_tasks r) = [ascii ''d:q'', ascii ''d:q'', ascii ''d:q''] \<and>
      map rt_pc (rg_tasks r) = [Resolved None, Resolved (Some 0), Resolved (Some 1)] \<and> rg_closed r = []"
  by (simp add: registry_run_def race_prefix_def new_registry_def resolve_step_def may_declare_def remove_key_def Let_def numeral_3_eq_3)

end
