(* ===== verification/Broker_Connection.thy ===== *)
theory Broker_Connection
  imports Broker_Registry Session_Invariant Sasl_Negotiate Core_Error
begin

section \<open>A connection of the broker (\<open>ramqp-broker/src/connection.rs\<close>)\<close>

text \<open>
  The task that serves one client: its sessions, the binding of every link to a queue or to the
  transaction coordinator, the deliveries that await an outcome and the open transactions. What it
  puts on the wire, sends to the queues' mailboxes and spawns are effects, in order. The answers of
  others are arguments of a step: whether a mailbox is open, what the registry resolves, the reply
  to a subscription, the order in which hash maps and futures are visited, and the rendering of
  diagnostics. The link events of a frame are handled right after it, so that the channel that
  carries them (with room for 1024) is empty between steps. A hash map that is iterated is a list
  of its entries, in no significant order. Metrics, logs and session events are left out.
\<close>

subsection \<open>State\<close>

record queue_handle =
  qh_tx :: mailbox
  qh_name :: utf8

text \<open>\<open>Producer queue epoch acked_since_grant\<close>, \<open>Consumer queue sub epoch given\<close>.\<close>

datatype binding =
    Producer queue_handle u64 u32
  | Coordinator
  | Consumer queue_handle sub_id u64 u32

datatype settle_action =
    SettleNow settle_outcome
  | SettleTxn bytes settle_outcome

text \<open>A dispatched delivery: the future that tells how it was settled waits for a reply, or is ready.\<close>

datatype settle_future = AwaitsReply reply | Ready settle_action

record dispatched =
  dp_queue :: mailbox
  dp_sub :: sub_id
  dp_msg_id :: u64
  dp_future :: settle_future

record txn_done =
  td_channel :: u16
  td_session_id :: u64
  td_handle :: u32
  td_delivery_id :: u32

type_synonym bindings = "((u16 \<times> u32) \<times> binding) list"

text \<open>
  \<open>bc_answers\<close> are the replies sent so far; \<open>bc_next_reply\<close> names the next reply channel. A reply
  channel is closed when no link holds it any more.
\<close>

record broker_conn =
  bc_conn :: conn
  bc_identity :: "utf8 option"
  bc_vhost :: utf8
  bc_auth :: authenticator
  bc_session_config :: session_config
  bc_initial_credit :: u32
  bc_max_message_size :: "u64 option"
  bc_max_frame_size :: nat
  bc_channels :: channel_allocator
  bc_remote_channels :: remote_channels
  bc_sessions :: "u16 \<rightharpoonup> session"
  bc_discarding :: "u16 set"
  bc_bindings :: bindings
  bc_next_gen :: u64
  bc_settlements :: "dispatched list"
  bc_answers :: "reply \<rightharpoonup> link_failure + delivery_state"
  bc_next_reply :: reply
  bc_txns :: txn_manager
  bc_txn_results :: "txn_done list"
  bc_next_session_id :: u64

datatype conn_effect =
    Wire queue_op
  | ToQueue mailbox queue_msg
  | SpawnDischarge bool txn
  | SpawnRollback txn

datatype conn_failure = ConnectErr error_kind | ConnPanics rust_panic

datatype diagnostic =
    DeniedOn link_operation utf8
  | NoQueueFor "utf8 option"
  | AttachRejected link_failure
  | QueueUnavailable utf8

record conn_env =
  ne_open :: "mailbox \<Rightarrow> bool"
  ne_resolve :: "utf8 \<Rightarrow> queue_handle option"
  ne_subscribed :: "sub_id option"
  ne_links :: "u32 list"
  ne_order :: "dispatched list \<Rightarrow> dispatched list"
  ne_text :: "diagnostic \<Rightarrow> utf8"

definition amqp_err :: "error_condition \<Rightarrow> utf8 \<Rightarrow> err" where
  "amqp_err condition description = \<lparr>er_condition = condition, er_description = Some description, er_info = None\<rparr>"

definition rejected_with :: "error_condition \<Rightarrow> utf8 \<Rightarrow> delivery_state" where
  "rejected_with condition description = SRejected \<lparr>rj_error = Some (amqp_err condition description)\<rparr>"

type_synonym conn_result = "conn_failure + broker_conn \<times> conn_effect list"

definition conn_then :: "conn_result \<Rightarrow> (broker_conn \<Rightarrow> conn_result) \<Rightarrow> conn_result" where
  "conn_then r f = rbind r (\<lambda>(c, fx). rbind (f c) (\<lambda>(c, fx'). Inr (c, fx @ fx')))"

subsection \<open>Calling a session\<close>

definition LINK_EVENTS :: nat where "LINK_EVENTS = 1024"

fun effect_wires :: "effect \<Rightarrow> conn_effect list" where
  "effect_wires (Queue op) = [Wire op]"
| "effect_wires _ = []"

fun effect_events :: "effect \<Rightarrow> link_event list" where
  "effect_events (Emit _ e) = [e]"
| "effect_events (TryEmit _ e) = [e]"
| "effect_events _ = []"

fun effect_answer :: "effect \<Rightarrow> (reply \<rightharpoonup> link_failure + delivery_state) \<Rightarrow> (reply \<rightharpoonup> link_failure + delivery_state)" where
  "effect_answer (ReplySend r x) m = m(r \<mapsto> x)"
| "effect_answer _ m = m"

text \<open>The session after a call with its effects: frames queued, replies sent, events put into the channel.\<close>

definition absorb :: "u16 \<Rightarrow> session \<times> effect list \<Rightarrow> broker_conn \<Rightarrow> broker_conn \<times> conn_effect list \<times> link_event list" where
  "absorb channel r c = (case r of (s, effects) \<Rightarrow>
     (c\<lparr>bc_sessions := (bc_sessions c)(channel \<mapsto> s), bc_answers := fold effect_answer effects (bc_answers c)\<rparr>,
      concat (map effect_wires effects), take LINK_EVENTS (concat (map effect_events effects))))"

definition session_error :: "session_failure \<Rightarrow> conn_failure" where
  "session_error f = (case f of InterleavedDelivery \<Rightarrow> ConnectErr KProtocolViolation | Panicked p \<Rightarrow> ConnPanics p)"

definition settle_delivery :: "u16 \<Rightarrow> u32 \<Rightarrow> u32 \<Rightarrow> delivery_state \<Rightarrow> broker_conn \<Rightarrow> conn_result" where
  "settle_delivery channel handle delivery_id state c = (case bc_sessions c channel of
      None \<Rightarrow> Inr (c, [])
    | Some s \<Rightarrow>
        (case send_disposition handle delivery_id None state True s of
           Inl f \<Rightarrow> Inl (session_error f)
         | Inr r \<Rightarrow> let (c, fx, _) = absorb channel r c in Inr (c, fx)))"

definition grant_link :: "u16 \<Rightarrow> u32 \<Rightarrow> u32 \<Rightarrow> broker_conn \<Rightarrow> broker_conn \<times> conn_effect list" where
  "grant_link channel handle credit c = (case bc_sessions c channel of
      None \<Rightarrow> (c, [])
    | Some s \<Rightarrow> let (c, fx, _) = absorb channel (grant_credit handle credit s) c in (c, fx))"

subsection \<open>Bindings\<close>

definition binding_remove :: "u16 \<times> u32 \<Rightarrow> bindings \<Rightarrow> bindings" where
  "binding_remove key bs = filter (\<lambda>e. fst e \<noteq> key) bs"

definition binding_put :: "u16 \<times> u32 \<Rightarrow> binding \<Rightarrow> bindings \<Rightarrow> bindings" where
  "binding_put key b bs = (key, b) # binding_remove key bs"

fun unsubscribes :: "binding \<Rightarrow> conn_effect list" where
  "unsubscribes (Consumer queue sub _ _) = [ToQueue (qh_tx queue) (Unsubscribe sub)]"
| "unsubscribes _ = []"

definition release_session_bindings :: "u16 \<Rightarrow> broker_conn \<Rightarrow> broker_conn \<times> conn_effect list" where
  "release_session_bindings local c =
    (c\<lparr>bc_bindings := filter (\<lambda>e. fst (fst e) \<noteq> local) (bc_bindings c)\<rparr>,
     concat (map (unsubscribes \<circ> snd) (filter (\<lambda>e. fst (fst e) = local) (bc_bindings c))))"

definition replenish_producer_credit :: "u16 \<Rightarrow> u32 \<Rightarrow> broker_conn \<Rightarrow> broker_conn \<times> conn_effect list" where
  "replenish_producer_credit channel handle c =
    (let threshold = max (bc_initial_credit c div 2) 1
     in case map_of (bc_bindings c) (channel, handle) of
          Some (Producer queue epoch acked) \<Rightarrow>
            let acked = acked + 1;
                granting = (acked \<ge> threshold);
                c = c\<lparr>bc_bindings := binding_put (channel, handle) (Producer queue epoch (if granting then 0 else acked)) (bc_bindings c)\<rparr>
            in if granting then grant_link channel handle acked c else (c, [])
        | _ \<Rightarrow> (c, []))"

subsection \<open>Settlements\<close>

fun outcome_to_settle :: "outcome \<Rightarrow> settle_outcome" where
  "outcome_to_settle (OAccepted _) = Ack"
| "outcome_to_settle (OReleased _) = Requeue"
| "outcome_to_settle (OModified m) = (if unwrap_or False (md_delivery_failed m) then RequeueFailed else Requeue)"
| "outcome_to_settle (ORejected _) = Drop"

fun state_to_outcome :: "delivery_state \<Rightarrow> settle_outcome" where
  "state_to_outcome (SAccepted _) = Ack"
| "state_to_outcome (SReleased _) = Requeue"
| "state_to_outcome (SModified m) = (if unwrap_or False (md_delivery_failed m) then RequeueFailed else Requeue)"
| "state_to_outcome (SRejected _) = Drop"
| "state_to_outcome _ = Requeue"

definition reply_action :: "link_failure + delivery_state \<Rightarrow> settle_action" where
  "reply_action r = (case r of
      Inr state \<Rightarrow>
        (case txn_state state of
           Some ts \<Rightarrow> SettleTxn (ts_txn_id ts) (case ts_outcome ts of Some x \<Rightarrow> outcome_to_settle x | None \<Rightarrow> Ack)
         | None \<Rightarrow> SettleNow (state_to_outcome state))
    | Inl _ \<Rightarrow> SettleNow Requeue)"

fun link_holds :: "reply \<Rightarrow> link \<Rightarrow> bool" where
  "link_holds r (LSender sender) = (r \<in> ran (sl_pending sender) \<or> Some r \<in> ps_reply ` set (sl_outbox sender))"
| "link_holds r (LReceiver _) = False"

definition reply_held :: "broker_conn \<Rightarrow> reply \<Rightarrow> bool" where
  "reply_held c r \<longleftrightarrow> (\<exists>channel s handle l. bc_sessions c channel = Some s \<and> ss_links s handle = Some l \<and> link_holds r l)"

text \<open>A future is ready with the reply, or when nobody can reply any more.\<close>

definition future_ready :: "broker_conn \<Rightarrow> settle_future \<Rightarrow> settle_action option" where
  "future_ready c f = (case f of
      Ready a \<Rightarrow> Some a
    | AwaitsReply r \<Rightarrow>
        (case bc_answers c r of
           Some x \<Rightarrow> Some (reply_action x)
         | None \<Rightarrow> if reply_held c r then None else Some (SettleNow Requeue)))"

definition forward_settlement :: "dispatched \<Rightarrow> settle_action \<Rightarrow> broker_conn \<Rightarrow> broker_conn \<times> conn_effect list" where
  "forward_settlement d action c = (case action of
      SettleNow outcome \<Rightarrow> (c, [ToQueue (dp_queue d) (SettleMsg (dp_sub d) (dp_msg_id d) outcome)])
    | SettleTxn txn_id outcome \<Rightarrow>
        let (result, txns) = stage_settle txn_id
              \<lparr>sl_queue = dp_queue d, sl_sub = dp_sub d, sl_msg_id = dp_msg_id d, sl_outcome = outcome\<rparr> (bc_txns c);
            c = c\<lparr>bc_txns := txns\<rparr>
        in (case result of
              SettleStaged \<Rightarrow> (c, [])
            | settle_stage.Refused s _ \<Rightarrow> (c, [ToQueue (sl_queue s) (SettleMsg (sl_sub s) (sl_msg_id s) Requeue)])))"

text \<open>The \<open>k\<close>-th future is taken if it is ready.\<close>

definition take_settlement :: "nat \<Rightarrow> broker_conn \<Rightarrow> broker_conn \<times> conn_effect list" where
  "take_settlement k c =
    (if k < length (bc_settlements c)
     then let d = bc_settlements c ! k
          in case future_ready c (dp_future d) of
               None \<Rightarrow> (c, [])
             | Some action \<Rightarrow>
                 forward_settlement d action (c\<lparr>bc_settlements := take k (bc_settlements c) @ drop (Suc k) (bc_settlements c)\<rparr>)
     else (c, []))"

text \<open>All that is ready now, in whatever order the futures are polled.\<close>

fun drain_settlements :: "nat \<Rightarrow> nat \<Rightarrow> broker_conn \<Rightarrow> broker_conn \<times> conn_effect list" where
  "drain_settlements 0 k c = (c, [])"
| "drain_settlements (Suc n) k c =
    (let (c', fx) = take_settlement k c;
         k' = (if length (bc_settlements c') = length (bc_settlements c) then Suc k else k);
         (c'', fx') = drain_settlements n k' c'
     in (c'', fx @ fx'))"

definition drain_ready_settlements_now :: "conn_env \<Rightarrow> broker_conn \<Rightarrow> broker_conn \<times> conn_effect list" where
  "drain_ready_settlements_now env c =
    (let ds = bc_settlements c;
         ds = (if mset (ne_order env ds) = mset ds then ne_order env ds else ds)
     in drain_settlements (length ds) 0 (c\<lparr>bc_settlements := ds\<rparr>))"

subsection \<open>The transaction coordinator\<close>

definition lift_panic :: "rust_panic + 'a \<Rightarrow> conn_failure + 'a" where
  "lift_panic r = (case r of Inl p \<Rightarrow> Inl (ConnPanics p) | Inr x \<Rightarrow> Inr x)"

text \<open>An answer to a control message, and the credit for the next one.\<close>

definition answer_control :: "u16 \<Rightarrow> u32 \<Rightarrow> u32 \<Rightarrow> delivery_state \<Rightarrow> broker_conn \<Rightarrow> conn_result" where
  "answer_control channel handle delivery_id state c =
    conn_then (settle_delivery channel handle delivery_id state c) (\<lambda>c. Inr (grant_link channel handle 1 c))"

definition handle_txn_control :: "u16 \<Rightarrow> u32 \<Rightarrow> incoming_delivery \<Rightarrow> broker_conn \<Rightarrow> conn_result" where
  "handle_txn_control channel handle d c =
    (let delivery_id = id_delivery_id d
     in case decode_control (id_message d) of
          Some (Declare global_id) \<Rightarrow>
            if bc_sessions c channel = None then Inr (c, [])
            else if global_id
              then answer_control channel handle delivery_id
                (rejected_with (Amqp NotImplemented) (ascii ''distributed transactions (global-id) are not supported'')) c
            else (case declare_new (bc_txns c) of
                    (Some txn_id, txns) \<Rightarrow>
                      rbind (lift_panic (declared_state txn_id)) (\<lambda>state.
                        answer_control channel handle delivery_id state (c\<lparr>bc_txns := txns\<rparr>))
                  | (None, txns) \<Rightarrow>
                      answer_control channel handle delivery_id
                        (rejected_with (Amqp ResourceLimitExceeded) (ascii ''too many open transactions'')) (c\<lparr>bc_txns := txns\<rparr>))
        | Some (Discharge txn_id fail) \<Rightarrow>
            (case take_txn txn_id (bc_txns c) of
               (None, _) \<Rightarrow>
                 answer_control channel handle delivery_id (rejected_with (Transaction UnknownId) (ascii ''unknown transaction'')) c
             | (Some txn, txns) \<Rightarrow>
                 let done_at = \<lparr>td_channel = channel,
                       td_session_id = (case bc_sessions c channel of Some s \<Rightarrow> ss_session_id s | None \<Rightarrow> - 1),
                       td_handle = handle, td_delivery_id = delivery_id\<rparr>;
                     (c, fx) = grant_link channel handle 1 (c\<lparr>bc_txns := txns, bc_txn_results := bc_txn_results c @ [done_at]\<rparr>)
                 in Inr (c, SpawnDischarge fail txn # fx))
        | None \<Rightarrow>
            answer_control channel handle delivery_id (rejected_with (Amqp DecodeError) (ascii ''expected declare or discharge'')) c)"

fun discharge_state :: "discharge_outcome \<Rightarrow> delivery_state" where
  "discharge_state Complete = SAccepted ()"
| "discharge_state RolledBack =
    rejected_with (Amqp InternalError) (ascii ''transaction failed; rolled back (nothing was applied)'')"
| "discharge_state (Partial applied staged_n) =
    rejected_with (Amqp InternalError) (ascii ''transaction failed after partial application: '' @ decimal applied @ ascii '' of '' @ decimal staged_n @
      ascii '' staged publishes were committed; retrying may duplicate them'')"
| "discharge_state Unknown = rejected_with (Amqp InternalError) (ascii ''transaction outcome unknown (coordinator failed)'')"

definition report_txn_done :: "txn_done \<Rightarrow> discharge_outcome \<Rightarrow> broker_conn \<Rightarrow> conn_result" where
  "report_txn_done d outcome c =
    (case bc_sessions c (td_channel d) of
       Some s \<Rightarrow>
         if ss_session_id s = td_session_id d
         then settle_delivery (td_channel d) (td_handle d) (td_delivery_id d) (discharge_state outcome) c
         else Inr (c, [])
     | None \<Rightarrow> Inr (c, []))"

subsection \<open>Link events\<close>

definition publish_stage_state :: "bytes \<Rightarrow> publish_stage \<Rightarrow> conn_failure + delivery_state" where
  "publish_stage_state txn_id stage = (case stage of
      PublishStaged \<Rightarrow> lift_panic (transactional_state_of txn_id (Some (OAccepted ())))
    | UnknownTxn \<Rightarrow> Inr (rejected_with (Transaction UnknownId) (ascii ''unknown transaction''))
    | Capped \<Rightarrow> Inr (rejected_with (Amqp ResourceLimitExceeded) (ascii ''transaction staging cap reached'')))"

definition stage_delivery :: "u16 \<Rightarrow> u32 \<Rightarrow> incoming_delivery \<Rightarrow> queue_handle \<Rightarrow> bytes \<Rightarrow> broker_conn \<Rightarrow> conn_result" where
  "stage_delivery channel handle d queue txn_id c =
    (let (stage, txns) = stage_publish txn_id \<lparr>sp_queue = qh_tx queue, sp_queue_name = qh_name queue, sp_body = id_message d\<rparr> (bc_txns c);
         c = c\<lparr>bc_txns := txns\<rparr>
     in conn_then
          (if bc_sessions c channel = None then Inr (c, [])
           else rbind (publish_stage_state txn_id stage) (\<lambda>state. settle_delivery channel handle (id_delivery_id d) state c))
          (\<lambda>c. Inr (replenish_producer_credit channel handle c)))"

definition publish_delivery :: "conn_env \<Rightarrow> u16 \<Rightarrow> u32 \<Rightarrow> incoming_delivery \<Rightarrow> queue_handle \<Rightarrow> u64 \<Rightarrow> broker_conn \<Rightarrow> broker_conn \<times> conn_effect list" where
  "publish_delivery env channel handle d queue epoch c =
    (let settled = id_settled d;
         ack = (if settled then None else Some \<lparr>pa_conn = bc_conn c, pa_channel = channel, pa_handle = handle, pa_binding_gen = epoch,
           pa_delivery_id = id_delivery_id d\<rparr>)
     in if \<not> ne_open env (qh_tx queue) then (c, [])
        else let (c, fx) = (if settled then replenish_producer_credit channel handle c else (c, []))
             in (c, ToQueue (qh_tx queue) (Publish (id_message d) ack) # fx))"

definition on_delivery :: "conn_env \<Rightarrow> u16 \<Rightarrow> incoming_delivery \<Rightarrow> broker_conn \<Rightarrow> conn_result" where
  "on_delivery env channel d c =
    (let handle = id_handle d
     in case map_of (bc_bindings c) (channel, handle) of
          Some (Producer queue epoch _) \<Rightarrow>
            (case Option.bind (id_state d) txn_state of
               Some ts \<Rightarrow> stage_delivery channel handle d queue (ts_txn_id ts) c
             | None \<Rightarrow> Inr (publish_delivery env channel handle d queue epoch c))
        | Some Coordinator \<Rightarrow>
            conn_then (Inr (drain_ready_settlements_now env c)) (handle_txn_control channel handle d)
        | _ \<Rightarrow> Inr (c, []))"

definition on_credit :: "u16 \<Rightarrow> u32 \<Rightarrow> u32 \<Rightarrow> bool \<Rightarrow> broker_conn \<Rightarrow> broker_conn \<times> conn_effect list" where
  "on_credit channel handle credit drain c =
    (case map_of (bc_bindings c) (channel, handle) of
       Some (Consumer queue sub epoch given) \<Rightarrow>
         let delta = saturating_sub credit given;
             given = (if drain then 0 else max credit given);
             c = c\<lparr>bc_bindings := binding_put (channel, handle) (Consumer queue sub epoch given) (bc_bindings c)\<rparr>
         in (c, if delta > 0 \<or> drain then [ToQueue (qh_tx queue) (Demand sub delta drain)] else [])
     | _ \<Rightarrow> (c, []))"

definition on_detached :: "u16 \<Rightarrow> u32 \<Rightarrow> broker_conn \<Rightarrow> broker_conn \<times> conn_effect list" where
  "on_detached channel handle c =
    (let b = map_of (bc_bindings c) (channel, handle);
         c = c\<lparr>bc_bindings := binding_remove (channel, handle) (bc_bindings c)\<rparr>
     in case b of
          Some Coordinator \<Rightarrow>
            let (open_txns, txns) = take_all (bc_txns c)
            in (c\<lparr>bc_txns := txns\<rparr>, map SpawnRollback open_txns)
        | Some b \<Rightarrow> (c, unsubscribes b)
        | None \<Rightarrow> (c, []))"

fun drain_link_events :: "conn_env \<Rightarrow> u16 \<Rightarrow> link_event list \<Rightarrow> broker_conn \<Rightarrow> conn_result" where
  "drain_link_events env channel [] c = Inr (c, [])"
| "drain_link_events env channel (e # es) c =
    conn_then
      (case e of
         DeliveryEvent d \<Rightarrow> on_delivery env channel d c
       | CreditEvent handle credit drain \<Rightarrow> Inr (on_credit channel handle credit drain c)
       | DetachedEvent handle _ \<Rightarrow> Inr (on_detached channel handle c)
       | DispositionEvent _ _ _ _ \<Rightarrow> Inr (c, []))
      (drain_link_events env channel es)"

subsection \<open>Commands of the queues\<close>

definition deliver_cmd :: "u16 \<Rightarrow> u32 \<Rightarrow> u64 \<Rightarrow> u64 \<Rightarrow> bytes \<Rightarrow> broker_conn \<Rightarrow> broker_conn \<times> conn_effect list" where
  "deliver_cmd channel handle binding_gen msg_id body c =
    (case map_of (bc_bindings c) (channel, handle) of
       Some (Consumer queue sub epoch given) \<Rightarrow>
         if epoch \<noteq> binding_gen then (c, [])
         else let c = c\<lparr>bc_bindings := binding_put (channel, handle) (Consumer queue sub epoch (saturating_sub given 1)) (bc_bindings c)\<rparr>;
                  d = \<lparr>dp_queue = qh_tx queue, dp_sub = sub, dp_msg_id = msg_id, dp_future = Ready (SettleNow Requeue)\<rparr>
              in (case bc_sessions c channel of
                    None \<Rightarrow> (c\<lparr>bc_settlements := bc_settlements c @ [d]\<rparr>, [])
                  | Some s \<Rightarrow>
                      let r = bc_next_reply c;
                          (c, fx, _) = absorb channel (send_transfer handle body False 0 None (Some r) (bc_max_frame_size c) s) (c\<lparr>bc_next_reply := r + 1\<rparr>)
                      in (c\<lparr>bc_settlements := bc_settlements c @ [d\<lparr>dp_future := AwaitsReply r\<rparr>]\<rparr>, fx))
     | _ \<Rightarrow> (c, []))"

definition settle_incoming_cmd :: "u16 \<Rightarrow> u32 \<Rightarrow> u64 \<Rightarrow> u32 \<Rightarrow> bool \<Rightarrow> broker_conn \<Rightarrow> conn_result" where
  "settle_incoming_cmd channel handle binding_gen delivery_id accepted c =
    (case map_of (bc_bindings c) (channel, handle) of
       Some (Producer queue epoch acked) \<Rightarrow>
         if epoch \<noteq> binding_gen then Inr (c, [])
         else conn_then
           (settle_delivery channel handle delivery_id
              (if accepted then SAccepted () else rejected_with (Amqp ResourceLimitExceeded) (ascii ''queue is full'')) c)
           (\<lambda>c. Inr (replenish_producer_credit channel handle c))
     | _ \<Rightarrow> Inr (c, []))"

fun handle_cmd :: "conn_cmd \<Rightarrow> broker_conn \<Rightarrow> conn_result" where
  "handle_cmd (Deliver channel handle binding_gen msg_id body) c = Inr (deliver_cmd channel handle binding_gen msg_id body c)"
| "handle_cmd (SettleIncoming channel handle binding_gen delivery_id accepted) c =
    settle_incoming_cmd channel handle binding_gen delivery_id accepted c"

subsection \<open>Sessions\<close>

definition accept_begin :: "u16 \<Rightarrow> begin_perf \<Rightarrow> broker_conn \<Rightarrow> conn_result" where
  "accept_begin remote_channel b c =
    (if bg_remote_channel b \<noteq> None then Inl (ConnectErr KProtocolViolation)
     else if resolve_channel remote_channel (bc_remote_channels c) \<noteq> None then Inl (ConnectErr KProtocolViolation)
     else let c = c\<lparr>bc_discarding := bc_discarding c - {remote_channel}\<rparr>
          in case allocate_channel (bc_channels c) of
               (None, _) \<Rightarrow> Inl (ConnectErr KCapacity)
             | (Some local, channels) \<Rightarrow>
                 let i = bc_next_session_id c + 1;
                     (s, response) = accept_peer_begin i local remote_channel b (bc_session_config c)
                 in Inr (c\<lparr>bc_channels := channels, bc_next_session_id := i,
                           bc_remote_channels := bind_channel remote_channel local (bc_remote_channels c),
                           bc_sessions := (bc_sessions c)(local \<mapsto> s)\<rparr>,
                         [Wire (QueueAmqp local (PBegin response) None)]))"

definition end_frame :: "u16 \<Rightarrow> err option \<Rightarrow> conn_effect" where
  "end_frame local e = Wire (QueueAmqp local (PEnd \<lparr>en_error = e\<rparr>) None)"

definition drop_session :: "u16 \<Rightarrow> u16 \<Rightarrow> broker_conn \<Rightarrow> broker_conn" where
  "drop_session local remote_channel c = c\<lparr>bc_sessions := (bc_sessions c)(local := None),
    bc_remote_channels := unbind_channel remote_channel (bc_remote_channels c), bc_channels := release_channel local (bc_channels c)\<rparr>"

definition handle_end :: "u16 \<Rightarrow> broker_conn \<Rightarrow> broker_conn \<times> conn_effect list" where
  "handle_end remote_channel c =
    (if remote_channel \<in> bc_discarding c then (c\<lparr>bc_discarding := bc_discarding c - {remote_channel}\<rparr>, [])
     else (case resolve_channel remote_channel (bc_remote_channels c) of
             None \<Rightarrow> (c, [])
           | Some local \<Rightarrow>
               let (c, fx) = release_session_bindings local (drop_session local remote_channel c)
               in (c, end_frame local None # fx)))"

definition end_session_with_error :: "u16 \<Rightarrow> u16 \<Rightarrow> err \<Rightarrow> broker_conn \<Rightarrow> broker_conn \<times> conn_effect list" where
  "end_session_with_error local remote_channel e c =
    (let c = drop_session local remote_channel c;
         c = c\<lparr>bc_discarding := insert remote_channel (bc_discarding c)\<rparr>;
         (c, fx) = release_session_bindings local c
     in (c, end_frame local (Some e) # fx))"

subsection \<open>Attaching\<close>

definition bound_session :: "u16 \<Rightarrow> broker_conn \<Rightarrow> conn_failure + session" where
  "bound_session local c = (case bc_sessions c local of Some s \<Rightarrow> Inr s | None \<Rightarrow> Inl (ConnPanics ExpectFailed))"

definition refuse_link :: "u16 \<Rightarrow> attach \<Rightarrow> err \<Rightarrow> broker_conn \<Rightarrow> conn_result" where
  "refuse_link local a e c = rbind (bound_session local c) (\<lambda>s.
    let (c, fx, _) = absorb local (refuse_peer_attach a e s) c in Inr (c, fx))"

definition accept_link :: "u16 \<Rightarrow> attach \<Rightarrow> u32 \<Rightarrow> broker_conn \<Rightarrow> conn_failure + (link_failure + accepted_link) \<times> broker_conn \<times> conn_effect list" where
  "accept_link local a credit c = rbind (bound_session local c) (\<lambda>s.
    case accept_peer_attach a Manual credit (bc_max_message_size c) 0 s of
      (r, s, effects) \<Rightarrow> let (c, fx, _) = absorb local (s, effects) c in Inr (r, c, fx))"

definition attach_address :: "attach \<Rightarrow> utf8 option" where
  "attach_address a = (case at_role a of
      Sender \<Rightarrow> (case at_target a of Some (TTarget t) \<Rightarrow> ta_address t | _ \<Rightarrow> None)
    | Receiver \<Rightarrow> Option.bind (at_source a) so_address)"

definition attach_operation :: "attach \<Rightarrow> link_operation" where
  "attach_operation a = (case at_role a of Sender \<Rightarrow> OpSend | Receiver \<Rightarrow> OpReceive)"

definition is_coordinator :: "attach \<Rightarrow> bool" where
  "is_coordinator a \<longleftrightarrow> at_role a = Sender \<and> (case at_target a of Some (TCoordinator _) \<Rightarrow> True | _ \<Rightarrow> False)"

definition authorized :: "broker_conn \<Rightarrow> utf8 \<Rightarrow> link_operation \<Rightarrow> bool" where
  "authorized c address operation = au_authorize (bc_auth c) (bc_identity c) (bc_vhost c) address operation"

definition attach_coordinator :: "conn_env \<Rightarrow> u16 \<Rightarrow> u16 \<Rightarrow> attach \<Rightarrow> broker_conn \<Rightarrow> conn_result" where
  "attach_coordinator env local remote_channel a c =
    (if \<not> authorized c (ascii ''$coordinator'') OpSend
     then refuse_link local a (amqp_err (Amqp UnauthorizedAccess) (ascii ''not authorized to use transactions'')) c
     else rbind (accept_link local a (bc_initial_credit c) c) (\<lambda>(r, c, fx).
       case r of
         Inr l \<Rightarrow> Inr (c\<lparr>bc_bindings := binding_put (local, al_handle l) Coordinator (bc_bindings c)\<rparr>, fx)
       | Inl f \<Rightarrow>
           let (c, fx') = end_session_with_error local remote_channel (amqp_err (Amqp ResourceLimitExceeded) (ne_text env (AttachRejected f))) c
           in Inr (c, fx @ fx')))"

text \<open>Binding an accepted link to its queue; a consumer subscribes and awaits its number.\<close>

definition bind_link :: "conn_env \<Rightarrow> u16 \<Rightarrow> u16 \<Rightarrow> role \<Rightarrow> queue_handle \<Rightarrow> u32 \<Rightarrow> broker_conn \<Rightarrow> broker_conn \<times> conn_effect list" where
  "bind_link env local remote_channel peer_role queue handle c =
    (let epoch = bc_next_gen c;
         c = c\<lparr>bc_next_gen := epoch + 1\<rparr>
     in case peer_role of
          Sender \<Rightarrow> (c\<lparr>bc_bindings := binding_put (local, handle) (Producer queue epoch 0) (bc_bindings c)\<rparr>, [])
        | Receiver \<Rightarrow>
            let subscribed = (if ne_open env (qh_tx queue) then [ToQueue (qh_tx queue) (Subscribe (bc_conn c) local handle epoch 0)] else [])
            in case (if ne_open env (qh_tx queue) then ne_subscribed env else None) of
                 Some sub \<Rightarrow> (c\<lparr>bc_bindings := binding_put (local, handle) (Consumer queue sub epoch 0) (bc_bindings c)\<rparr>, subscribed)
               | None \<Rightarrow>
                   let (c, fx) = end_session_with_error local remote_channel (amqp_err (Amqp InternalError) (ne_text env (QueueUnavailable (qh_name queue)))) c
                   in (c, subscribed @ fx))"

definition attach_queue :: "conn_env \<Rightarrow> u16 \<Rightarrow> u16 \<Rightarrow> attach \<Rightarrow> queue_handle \<Rightarrow> broker_conn \<Rightarrow> conn_result" where
  "attach_queue env local remote_channel a queue c =
    (let credit = (case at_role a of Sender \<Rightarrow> bc_initial_credit c | Receiver \<Rightarrow> 0)
     in rbind (accept_link local a credit c) (\<lambda>(r, c, fx).
          case r of
            Inl f \<Rightarrow>
              let (c, fx') = end_session_with_error local remote_channel (amqp_err (Amqp ResourceLimitExceeded) (ne_text env (AttachRejected f))) c
              in Inr (c, fx @ fx')
          | Inr l \<Rightarrow>
              let (c, fx') = bind_link env local remote_channel (at_role a) queue (al_handle l) c in Inr (c, fx @ fx')))"

definition accept_attach :: "conn_env \<Rightarrow> u16 \<Rightarrow> u16 \<Rightarrow> attach \<Rightarrow> broker_conn \<Rightarrow> conn_result" where
  "accept_attach env local remote_channel a c =
    (if is_coordinator a then attach_coordinator env local remote_channel a c
     else (case attach_address a of
             Some address \<Rightarrow>
               if \<not> authorized c address (attach_operation a)
               then refuse_link local a (amqp_err (Amqp UnauthorizedAccess) (ne_text env (DeniedOn (attach_operation a) address))) c
               else (case ne_resolve env address of
                       Some queue \<Rightarrow> attach_queue env local remote_channel a queue c
                     | None \<Rightarrow> refuse_link local a (amqp_err (Amqp NotFound) (ne_text env (NoQueueFor (Some address)))) c)
           | None \<Rightarrow> refuse_link local a (amqp_err (Amqp NotFound) (ne_text env (NoQueueFor None))) c))"

subsection \<open>Frames\<close>

definition resolve_active :: "u16 \<Rightarrow> broker_conn \<Rightarrow> conn_failure + u16 option" where
  "resolve_active remote_channel c = (case resolve_channel remote_channel (bc_remote_channels c) of
      Some local \<Rightarrow> Inr (Some local)
    | None \<Rightarrow> if remote_channel \<in> bc_discarding c then Inr None else Inl (ConnectErr KProtocolViolation))"

text \<open>A frame for a session of ours, and the events it raises.\<close>

definition link_frame :: "conn_env \<Rightarrow> u16 \<Rightarrow> performative \<Rightarrow> bytes option \<Rightarrow> broker_conn \<Rightarrow> conn_result" where
  "link_frame env local perf payload c = rbind (bound_session local c) (\<lambda>s.
    case handle_link_frame (ne_links env) perf payload (bc_max_frame_size c) s of
      Inl f \<Rightarrow> Inl (session_error f)
    | Inr r \<Rightarrow> let (c, fx, events) = absorb local r c in conn_then (Inr (c, fx)) (drain_link_events env local events))"

definition attach_frame :: "conn_env \<Rightarrow> u16 \<Rightarrow> attach \<Rightarrow> bytes option \<Rightarrow> broker_conn \<Rightarrow> conn_result" where
  "attach_frame env channel a payload c = rbind (resolve_active channel c) (\<lambda>active.
    case active of
      None \<Rightarrow> Inr (c, [])
    | Some local \<Rightarrow> rbind (bound_session local c) (\<lambda>s.
        if knows_link (at_name a) (at_role a) s then link_frame env local (PAttach a) payload c
        else accept_attach env local channel a c))"

definition going_on :: "conn_result \<Rightarrow> conn_failure + bool \<times> broker_conn \<times> conn_effect list" where
  "going_on r = rbind r (\<lambda>(c, fx). Inr (False, c, fx))"

definition session_frame :: "conn_env \<Rightarrow> u16 \<Rightarrow> performative \<Rightarrow> bytes option \<Rightarrow> broker_conn \<Rightarrow> conn_result" where
  "session_frame env channel perf payload c = rbind (resolve_active channel c) (\<lambda>active.
    case active of None \<Rightarrow> Inr (c, []) | Some local \<Rightarrow> link_frame env local perf payload c)"

definition handle_frame :: "conn_env \<Rightarrow> frame \<Rightarrow> broker_conn \<Rightarrow> conn_failure + bool \<times> broker_conn \<times> conn_effect list" where
  "handle_frame env f c = (case fr_body f of
      EmptyBody \<Rightarrow> Inr (False, c, [])
    | SaslBody _ \<Rightarrow> Inl (ConnectErr KProtocolViolation)
    | AmqpBody perf payload \<Rightarrow>
        (case perf of
           POpen _ \<Rightarrow> Inl (ConnectErr KProtocolViolation)
         | PClose _ \<Rightarrow> Inr (True, c, [Wire (QueueAmqp 0 (PClose \<lparr>cl_error = None\<rparr>) None)])
         | PBegin b \<Rightarrow> going_on (accept_begin (fr_channel f) b c)
         | PEnd _ \<Rightarrow> going_on (Inr (handle_end (fr_channel f) c))
         | PAttach a \<Rightarrow> going_on (attach_frame env (fr_channel f) a payload c)
         | _ \<Rightarrow> going_on (session_frame env (fr_channel f) perf payload c)))"

subsection \<open>The loop\<close>

datatype conn_event =
    FrameIn frame
  | FromQueue conn_cmd
  | DischargeDone nat discharge_outcome
  | SettlementReady nat

definition conn_step :: "conn_env \<Rightarrow> conn_event \<Rightarrow> broker_conn \<Rightarrow> conn_failure + bool \<times> broker_conn \<times> conn_effect list" where
  "conn_step env ev c = (case ev of
      FrameIn f \<Rightarrow> handle_frame env f c
    | FromQueue cmd \<Rightarrow> going_on (handle_cmd cmd c)
    | DischargeDone k outcome \<Rightarrow>
        if k < length (bc_txn_results c)
        then going_on (report_txn_done (bc_txn_results c ! k) outcome
          (c\<lparr>bc_txn_results := take k (bc_txn_results c) @ drop (Suc k) (bc_txn_results c)\<rparr>))
        else Inr (False, c, [])
    | SettlementReady k \<Rightarrow> going_on (Inr (take_settlement k c)))"

fun conn_run :: "(conn_env \<times> conn_event) list \<Rightarrow> broker_conn \<Rightarrow> conn_failure + bool \<times> broker_conn \<times> conn_effect list" where
  "conn_run [] c = Inr (False, c, [])"
| "conn_run ((env, ev) # es) c = rbind (conn_step env ev c) (\<lambda>(finished, c, fx).
    if finished then Inr (True, c, fx)
    else rbind (conn_run es c) (\<lambda>(finished, c, fx'). Inr (finished, c, fx @ fx')))"

text \<open>The end of the connection: what is resolved is forwarded, and every consumer unsubscribed.\<close>

definition cleanup :: "conn_env \<Rightarrow> broker_conn \<Rightarrow> broker_conn \<times> conn_effect list" where
  "cleanup env c =
    (let (c, fx) = drain_ready_settlements_now env c
     in (c\<lparr>bc_bindings := []\<rparr>, fx @ concat (map (unsubscribes \<circ> snd) (bc_bindings c))))"

text \<open>The condition of the close that tells the peer about a failure.\<close>

fun close_condition :: "error_kind \<Rightarrow> error_condition option" where
  "close_condition KProtocolViolation = Some (Connection FramingError)"
| "close_condition KTimeout = Some (Connection ConnectionForced)"
| "close_condition KSasl = Some (Amqp UnauthorizedAccess)"
| "close_condition KCapacity = Some (Amqp ResourceLimitExceeded)"
| "close_condition KSettlement = Some (Amqp InternalError)"
| "close_condition KEncode = Some (Amqp InternalError)"
| "close_condition KIo = None"
| "close_condition KTls = None"
| "close_condition KPeerClosed = None"
| "close_condition KNotConnected = None"
| "close_condition KCancelled = None"
| "close_condition _ = Some (Amqp InternalError)"

subsection \<open>Opening\<close>

definition vhost_of :: "utf8 option \<Rightarrow> utf8" where
  "vhost_of hostname = unwrap_or [] (Option.bind hostname (strip_prefix (ascii ''vhost:'')))"

text \<open>The state after the peer's open, with the open that answers it.\<close>

definition accept_open ::
    "connection_config \<Rightarrow> session_config \<Rightarrow> u32 \<Rightarrow> u64 option \<Rightarrow> authenticator \<Rightarrow> conn \<Rightarrow> utf8 option \<Rightarrow> open_perf \<Rightarrow> conn_failure + broker_conn \<times> open_perf" where
  "accept_open config session credit max_message_size auth conn identity peer_open =
    (if op_max_frame_size peer_open < MIN_MAX_FRAME_SIZE then Inl (ConnectErr KProtocolViolation)
     else let vhost = vhost_of (op_hostname peer_open)
          in if \<not> valid_name vhost then Inl (ConnectErr KProtocolViolation)
             else let local_open = build_open config;
                      negotiated = reconcile_open local_open peer_open
                  in Inr (\<lparr>bc_conn = conn, bc_identity = identity, bc_vhost = vhost, bc_auth = auth, bc_session_config = session,
                        bc_initial_credit = credit, bc_max_message_size = max_message_size, bc_max_frame_size = unat (ng_max_frame_size negotiated),
                        bc_channels = new_channels (ng_channel_max negotiated), bc_remote_channels = Map.empty, bc_sessions = Map.empty,
                        bc_discarding = {}, bc_bindings = [], bc_next_gen = 0, bc_settlements = [], bc_answers = Map.empty, bc_next_reply = 0,
                        bc_txns = new_manager, bc_txn_results = [], bc_next_session_id = 0\<rparr>, local_open))"

end
