(* ===== verification/Spec2Isabelle.thy ===== *)
theory Spec2Isabelle
  imports Types_Message Types_Sasl Transport_Header Connection_Negotiate Session_Invariant Session_Transfer
    Broker_Commit Broker_Crash Cluster_Queue_Recovery Sasl_Negotiate_Laws Client_Reconnect_Laws Broker_Connection
begin

text \<open>
  This library models the AMQP 1.0 engine of rAMQP (the crates \<open>ramqp-core\<close>, \<open>ramqp\<close> and
  \<open>ramqp-broker\<close>) and proves what makes it correct.
\<close>

end
